(* ===== verification/Prelude.thy ===== *)
theory Prelude
  imports Complex_Main "HOL-Library.AList" "HOL-Library.Sublist"
begin

text \<open>
  Shared vocabulary of the development: the collections of rewrite rules the component
  theories fill, insertion-ordered dictionaries (the semantics of JavaScript objects and
  \<open>Map\<close>s used as dictionaries: an update keeps the position of an existing key, a new
  key goes to the end) and generic facts on lists that several components use.
\<close>

named_theorems js_simps \<open>evaluation rules of the JavaScript value operations\<close>
named_theorems dict_simps \<open>lookup laws of dictionaries\<close>
named_theorems ev_simps \<open>rules for the event accessors\<close>
named_theorems inv_intros \<open>preservation lemmas of component invariants\<close>

section \<open>Dictionaries\<close>

type_synonym ('k, 'v) dict = "('k \<times> 'v) list"

abbreviation dget :: "('k, 'v) dict \<Rightarrow> 'k \<Rightarrow> 'v option" where
  "dget d k \<equiv> map_of d k"

abbreviation dset :: "'k \<Rightarrow> 'v \<Rightarrow> ('k, 'v) dict \<Rightarrow> ('k, 'v) dict" where
  "dset k v d \<equiv> AList.update k v d"

abbreviation ddel :: "'k \<Rightarrow> ('k, 'v) dict \<Rightarrow> ('k, 'v) dict" where
  "ddel k d \<equiv> AList.delete k d"

abbreviation dkeys :: "('k, 'v) dict \<Rightarrow> 'k list" where
  "dkeys d \<equiv> map fst d"

abbreviation dvals :: "('k, 'v) dict \<Rightarrow> 'v list" where
  "dvals d \<equiv> map snd d"

definition dict_ok :: "('k, 'v) dict \<Rightarrow> bool" where
  "dict_ok d \<longleftrightarrow> distinct (dkeys d)"

text \<open>
  The interface every component that keeps a dictionary relies on: what a lookup returns
  after a store or a deletion, and that the keys stay distinct.
\<close>

locale dictionary =
  fixes invar :: "'d \<Rightarrow> bool"
    and get :: "'d \<Rightarrow> 'k \<Rightarrow> 'v option"
    and put :: "'k \<Rightarrow> 'v \<Rightarrow> 'd \<Rightarrow> 'd"
    and remove :: "'k \<Rightarrow> 'd \<Rightarrow> 'd"
  assumes get_put: "get (put k v d) j = (if j = k then Some v else get d j)"
    and get_remove: "invar d \<Longrightarrow> get (remove k d) j = (if j = k then None else get d j)"
    and invar_put: "invar d \<Longrightarrow> invar (put k v d)"
    and invar_remove: "invar d \<Longrightarrow> invar (remove k d)"
begin

lemma get_put_same: "get (put k v d) k = Some v"
  by (simp add: get_put)

lemma get_put_other: "j \<noteq> k \<Longrightarrow> get (put k v d) j = get d j"
  by (simp add: get_put)

lemma get_fold_put_other:
  "j \<notin> fst ` set kvs \<Longrightarrow> get (fold (\<lambda>(k, v). put k v) kvs d) j = get d j"
  by (induction kvs arbitrary: d) (auto simp: get_put)

lemma get_fold_put:
  "get (fold (\<lambda>(k, v). put k v) kvs d) j =
    (case map_of (rev kvs) j of Some v \<Rightarrow> Some v | None \<Rightarrow> get d j)"
  by (induction kvs arbitrary: d) (auto simp: get_put map_add_def split: option.splits)

lemma invar_fold_put: "invar d \<Longrightarrow> invar (fold (\<lambda>(k, v). put k v) kvs d)"
  by (induction kvs arbitrary: d) (auto intro: invar_put)

text \<open>A key moved from one name to another (\<open>delete\<close> then store) is found under the new name only.\<close>

lemma get_rename:
  assumes "invar d" and "new \<noteq> old"
  shows "get (put new v (remove old d)) old = None"
    and "get (put new v (remove old d)) new = Some v"
  using assms by (simp_all add: get_put get_remove)

end

lemma dget_dset: "dget (dset k v d) j = (if j = k then Some v else dget d j)"
  by (simp add: update_conv')

lemma dget_ddel: "dget (ddel k d) j = (if j = k then None else dget d j)"
  by (simp add: delete_conv')

lemma dict_ok_dset: "dict_ok d \<Longrightarrow> dict_ok (dset k v d)"
  by (simp add: dict_ok_def distinct_update)

lemma dict_ok_ddel: "dict_ok d \<Longrightarrow> dict_ok (ddel k d)"
  by (simp add: dict_ok_def distinct_delete)

interpretation jsdict: dictionary dict_ok map_of AList.update AList.delete
  by unfold_locales (auto simp: dget_dset dget_ddel dict_ok_dset dict_ok_ddel)

lemmas dict_laws [dict_simps] = dget_dset dget_ddel dict_ok_dset dict_ok_ddel

lemma dkeys_dset: "set (dkeys (dset k v d)) = insert k (set (dkeys d))"
  by (induction d) auto

end
