(* ===== verification/Json.thy ===== *)
theory Json
  imports Prelude "HOL-Library.Char_ord" "HOL-Library.List_Lexorder"
begin

text \<open>
  JavaScript values as far as parsed JSON and \<open>undefined\<close> go, property access and
  truthiness as the language defines them, and the object utilities of
  \<^verbatim>\<open>src/utils.ts\<close>. An object is an insertion-ordered dictionary. A number is the
  rational that a finite double denotes. Strings are lists of code units below 256.
\<close>

section \<open>Values\<close>

datatype json =
    JUndef
  | JNull
  | JBool bool
  | JNum rat
  | JStr string
  | JArr "json list"
  | JObj "(string \<times> json) list"

fun truthy :: "json \<Rightarrow> bool" where
  "truthy JUndef = False"
| "truthy JNull = False"
| "truthy (JBool b) = b"
| "truthy (JNum n) = (n \<noteq> 0)"
| "truthy (JStr s) = (s \<noteq> [])"
| "truthy (JArr _) = True"
| "truthy (JObj _) = True"

text \<open>The operators \<open>||\<close> and \<open>??\<close>.\<close>

definition js_or :: "json \<Rightarrow> json \<Rightarrow> json" where
  "js_or a b = (if truthy a then a else b)"

definition js_nullish :: "json \<Rightarrow> bool" where
  "js_nullish a \<longleftrightarrow> a = JUndef \<or> a = JNull"

text \<open>Property access with optional chaining: a missing property reads as \<open>undefined\<close>.\<close>

fun jget :: "json \<Rightarrow> string \<Rightarrow> json" where
  "jget (JObj d) k = (case dget d k of Some v \<Rightarrow> v | None \<Rightarrow> JUndef)"
| "jget _ k = JUndef"

fun own :: "json \<Rightarrow> string \<Rightarrow> bool" where
  "own (JObj d) k = (dget d k \<noteq> None)"
| "own _ k = False"

fun set_prop :: "string \<Rightarrow> json \<Rightarrow> json \<Rightarrow> json" where
  "set_prop k v (JObj d) = JObj (dset k v d)"
| "set_prop k v j = j"

fun del_prop :: "string \<Rightarrow> json \<Rightarrow> json" where
  "del_prop k (JObj d) = JObj (ddel k d)"
| "del_prop k j = j"

fun entries :: "json \<Rightarrow> (string \<times> json) list" where
  "entries (JObj d) = d"
| "entries _ = []"

fun is_object :: "json \<Rightarrow> bool" where
  "is_object (JObj _) = True"
| "is_object _ = False"

fun is_array :: "json \<Rightarrow> bool" where
  "is_array (JArr _) = True"
| "is_array _ = False"

text \<open>A value as a string where the declared type promises one.\<close>

fun as_str :: "json \<Rightarrow> string option" where
  "as_str (JStr s) = Some s"
| "as_str _ = None"

fun of_str :: "string option \<Rightarrow> json" where
  "of_str (Some s) = JStr s"
| "of_str None = JUndef"

fun as_num :: "json \<Rightarrow> rat option" where
  "as_num (JNum n) = Some n"
| "as_num _ = None"

definition empty_obj :: json where
  "empty_obj = JObj []"

text \<open>\<open>typeof\<close>; \<open>null\<close>, arrays and objects all answer \<open>"object"\<close>.\<close>

fun typeof :: "json \<Rightarrow> string" where
  "typeof JUndef = ''undefined''"
| "typeof (JBool _) = ''boolean''"
| "typeof (JNum _) = ''number''"
| "typeof (JStr _) = ''string''"
| "typeof _ = ''object''"

text \<open>
  \<open>===\<close> between values that are not the same object: composite values are compared by
  reference, so two of them are never equal.
\<close>

fun strict_eq :: "json \<Rightarrow> json \<Rightarrow> bool" where
  "strict_eq (JArr _) _ = False"
| "strict_eq (JObj _) _ = False"
| "strict_eq x y = (x = y)"

lemma truthy_simps [js_simps]:
  "js_or a b = (if truthy a then a else b)"
  "js_nullish a = (a = JUndef \<or> a = JNull)"
  by (simp_all add: js_or_def js_nullish_def)

lemma jget_set_prop [js_simps]:
  "is_object j \<Longrightarrow> jget (set_prop k v j) k' = (if k' = k then v else jget j k')"
  by (cases j) (auto simp: dict_simps)

lemma jget_del_prop [js_simps]:
  "jget (del_prop k j) k' = (if k' = k then JUndef else jget j k')"
  by (cases j) (auto simp: dict_simps)

lemma is_object_set_prop [simp]: "is_object (set_prop k v j) = is_object j"
  by (cases j) auto

lemma is_object_del_prop [simp]: "is_object (del_prop k j) = is_object j"
  by (cases j) auto

lemma jget_empty_obj [simp]: "jget empty_obj k = JUndef"
  by (simp add: empty_obj_def)

lemma truthy_empty_obj [simp]: "truthy empty_obj"
  by (simp add: empty_obj_def)

lemma truthy_object: "is_object j \<Longrightarrow> truthy j"
  by (cases j) auto

lemma not_object_jget: "\<not> is_object j \<Longrightarrow> jget j k = JUndef"
  by (cases j) auto

lemma set_prop_nonobject [simp]: "\<not> is_object j \<Longrightarrow> set_prop k v j = j"
  by (cases j) auto

lemma jget_set_prop_other [js_simps]: "k' \<noteq> k \<Longrightarrow> jget (set_prop k v j) k' = jget j k'"
  by (cases j) (auto simp: dict_simps)

lemma truthy_set_prop [simp]: "truthy (set_prop k v j) = truthy j"
  by (cases j) auto

section \<open>Object utilities\<close>

text \<open>\<open>checkObjectHasKeys\<close>: the first missing key is the one the error names.\<close>

fun checkObjectHasKeys :: "json \<Rightarrow> string list \<Rightarrow> string + unit" where
  "checkObjectHasKeys obj [] = Inr ()"
| "checkObjectHasKeys obj (k # ks) =
     (if \<not> own obj k then Inl (''Missing required key: '' @ k)
      else checkObjectHasKeys obj ks)"

fun checkNoAdditional :: "(string \<times> json) list \<Rightarrow> string list \<Rightarrow> string + unit" where
  "checkNoAdditional [] allowed = Inr ()"
| "checkNoAdditional ((k, _) # es) allowed =
     (if k \<notin> set allowed then Inl (''Unknown key: '' @ k)
      else checkNoAdditional es allowed)"

definition checkObjectHasNoAdditionalKeys :: "json \<Rightarrow> string list \<Rightarrow> string + unit" where
  "checkObjectHasNoAdditionalKeys obj allowed = checkNoAdditional (entries obj) allowed"

text \<open>
  \<open>deepCompare\<close>. The constructor of a value is \<open>Array\<close>, \<open>Object\<close> or, for an object
  with a property of that name, the property.
\<close>

datatype js_ctor = CtorArray | CtorObject | CtorOwn json

fun js_constructor :: "json \<Rightarrow> js_ctor" where
  "js_constructor (JArr _) = CtorArray"
| "js_constructor (JObj d) =
     (case dget d ''constructor'' of Some v \<Rightarrow> CtorOwn v | None \<Rightarrow> CtorObject)"
| "js_constructor j = CtorOwn j"

fun same_ctor :: "js_ctor \<Rightarrow> js_ctor \<Rightarrow> bool" where
  "same_ctor CtorArray CtorArray = True"
| "same_ctor CtorObject CtorObject = True"
| "same_ctor (CtorOwn a) (CtorOwn b) = strict_eq a b"
| "same_ctor _ _ = False"

function (sequential) deepCompare :: "json \<Rightarrow> json \<Rightarrow> bool"
  and deepCompare_items :: "json list \<Rightarrow> json list \<Rightarrow> bool"
  and deepCompare_props :: "json \<Rightarrow> (string \<times> json) list \<Rightarrow> bool"
where
  "deepCompare x y =
     (if strict_eq x y then True
      else if typeof x \<noteq> typeof y then False
      else if x = JNull \<or> y = JNull then strict_eq x y
      else if \<not> (is_array x \<or> is_object x) then False
      else if \<not> same_ctor (js_constructor x) (js_constructor y) \<or>
              \<not> strict_eq (jget x ''prototype'') (jget y ''prototype'') then False
      else (case y of
              JArr ys \<Rightarrow>
                (case x of JArr xs \<Rightarrow> length xs = length ys \<and> deepCompare_items xs ys | _ \<Rightarrow> False)
            | JObj ps \<Rightarrow> list_all (\<lambda>(p, _). own x p) ps \<and> deepCompare_props x ps
            | _ \<Rightarrow> False))"
| "deepCompare_items [] ys = True"
| "deepCompare_items (x # xs) [] = False"
| "deepCompare_items (x # xs) (y # ys) = (deepCompare x y \<and> deepCompare_items xs ys)"
| "deepCompare_props x [] = True"
| "deepCompare_props x ((p, v) # ps) =
     (own x p \<and> deepCompare (jget x p) v \<and> deepCompare_props x ps)"
  by pat_completeness auto
termination
  by (relation "measure (\<lambda>s. case s of
        Inl (x, y) \<Rightarrow> size y
      | Inr (Inl (xs, ys)) \<Rightarrow> size_list size ys
      | Inr (Inr (x, ps)) \<Rightarrow> size_list (size_prod (\<lambda>_. 0) size) ps)")
     auto

declare deepCompare.simps [simp del]

text \<open>
  \<open>deepCopy\<close>, a trip through JSON text: properties that are \<open>undefined\<close> are dropped, array
  elements that are \<open>undefined\<close> become \<open>null\<close>, and \<open>undefined\<close> itself has no JSON text, which
  \<open>JSON.parse\<close> rejects (\<open>None\<close>).
\<close>

fun json_clean :: "json \<Rightarrow> json" where
  "json_clean JUndef = JNull"
| "json_clean (JArr xs) = JArr (map json_clean xs)"
| "json_clean (JObj d) =
     JObj (map (\<lambda>e. (fst e, json_clean (snd e))) (filter (\<lambda>e. snd e \<noteq> JUndef) d))"
| "json_clean j = j"

definition deepCopy :: "json \<Rightarrow> json option" where
  "deepCopy j = (if j = JUndef then None else Some (json_clean j))"

text \<open>\<open>extend\<close>: the target is the first argument; falsy sources are skipped.\<close>

definition js_extend_one ::
  "(string, json) dict option \<Rightarrow> (string, json) dict \<Rightarrow> (string, json) dict" where
  "js_extend_one src target =
     (case src of None \<Rightarrow> target | Some d \<Rightarrow> fold (\<lambda>(k, v). dset k v) d target)"

fun js_extend :: "(string, json) dict option list \<Rightarrow> (string, json) dict" where
  "js_extend [] = []"
| "js_extend (t # sources) =
     fold js_extend_one sources (case t of Some d \<Rightarrow> d | None \<Rightarrow> [])"

text \<open>
  \<open>deepSortedObjectEntries\<close>: the entries of an object as an array of pairs, sorted by key
  (the sort is stable and compares code units), recursively; anything else as it is.
\<close>

fun deepSortedObjectEntries :: "json \<Rightarrow> json" where
  "deepSortedObjectEntries (JObj d) =
     JArr (map (\<lambda>e. JArr [JStr (fst e), snd e])
            (sort_key fst (map (\<lambda>e. (fst e, deepSortedObjectEntries (snd e))) d)))"
| "deepSortedObjectEntries j = j"

section \<open>What the object utilities compute\<close>

lemma checkObjectHasKeys_ok: "checkObjectHasKeys obj ks = Inr () \<longleftrightarrow> (\<forall>k\<in>set ks. own obj k)"
  by (induction ks) auto

lemma checkNoAdditional_ok: "checkNoAdditional es ks = Inr () \<longleftrightarrow> fst ` set es \<subseteq> set ks"
  by (induction es ks rule: checkNoAdditional.induct) auto

text \<open>Property paths through nested objects.\<close>

fun at_path :: "json \<Rightarrow> string list \<Rightarrow> json" where
  "at_path j [] = j"
| "at_path j (k # ks) = at_path (jget j k) ks"

lemma at_path_undef [simp]: "at_path JUndef ks = JUndef"
  by (induction ks) auto

lemma strict_eq_eq: "strict_eq x y \<Longrightarrow> x = y"
  by (cases x) auto

lemma strict_eq_refl: "\<not> is_array x \<Longrightarrow> \<not> is_object x \<Longrightarrow> strict_eq x x"
  by (cases x) auto

lemma deepCompare_props_get:
  "deepCompare_props x ps \<Longrightarrow> dget ps k = Some v \<Longrightarrow> deepCompare (jget x k) v"
proof (induction ps)
  case (Cons e ps)
  then show ?case by (cases e) (auto split: if_splits)
qed simp

lemma deepCompare_obj:
  assumes "deepCompare x (JObj ps)"
  shows "deepCompare_props x ps"
  using assms by (cases x) (simp_all add: deepCompare.simps split: if_splits)

lemma jget_deepCompare:
  assumes "deepCompare x y" and "jget y k \<noteq> JUndef"
  shows "deepCompare (jget x k) (jget y k)"
proof (cases y)
  case (JObj ps)
  then show ?thesis
    using assms deepCompare_props_get [OF deepCompare_obj [of x ps]]
    by (auto split: option.splits)
qed (use assms in auto)

text \<open>Objects parsed from JSON text have distinct keys; the special names are not used as keys.\<close>

fun plain :: "json \<Rightarrow> bool" where
  "plain (JArr xs) = list_all plain xs"
| "plain (JObj d) = (distinct (map fst d) \<and> ''constructor'' \<notin> fst ` set d \<and>
     ''prototype'' \<notin> fst ` set d \<and> list_all (\<lambda>e. plain (snd e)) d)"
| "plain _ = True"

lemma own_JObj: "own (JObj d) k \<longleftrightarrow> k \<in> fst ` set d"
  using map_of_eq_None_iff [of d k] by (auto split: option.splits)

lemma deepCompare_JObj:
  "deepCompare (JObj xo) (JObj ps) \<longleftrightarrow>
     same_ctor (js_constructor (JObj xo)) (js_constructor (JObj ps)) \<and>
     strict_eq (jget (JObj xo) ''prototype'') (jget (JObj ps) ''prototype'') \<and>
     list_all (\<lambda>(p, _). own (JObj xo) p) ps \<and> deepCompare_props (JObj xo) ps"
  by (subst deepCompare.simps) (auto simp del: js_constructor.simps jget.simps own.simps)

lemma deepCompare_JArr:
  "deepCompare (JArr xs) (JArr ys) \<longleftrightarrow> length xs = length ys \<and> deepCompare_items xs ys"
  by (subst deepCompare.simps) auto

lemma deepCompare_props_cong:
  assumes "\<And>p. p \<in> fst ` set ps \<Longrightarrow> own x p = own x' p \<and> jget x p = jget x' p"
  shows "deepCompare_props x ps = deepCompare_props x' ps"
  using assms by (induction ps) auto

lemma deepCompare_items_refl: "(\<And>x. x \<in> set xs \<Longrightarrow> deepCompare x x) \<Longrightarrow> deepCompare_items xs xs"
  by (induction xs) auto

lemma deepCompare_props_refl:
  assumes "\<And>k v. (k, v) \<in> set ps \<Longrightarrow> own x k \<and> jget x k = v \<and> deepCompare v v"
  shows "deepCompare_props x ps"
  using assms
proof (induction ps)
  case (Cons e ps)
  have "own x (fst e) \<and> jget x (fst e) = snd e \<and> deepCompare (snd e) (snd e)"
    by (rule Cons.prems) simp
  moreover have "deepCompare_props x ps"
    by (rule Cons.IH) (rule Cons.prems, simp)
  ultimately show ?case by (cases e) auto
qed simp

lemma deepCompare_refl: "plain j \<Longrightarrow> deepCompare j j"
proof (induction j)
  case (JArr xs)
  then show ?case
    by (simp add: deepCompare_JArr list_all_iff deepCompare_items_refl)
next
  case (JObj d)
  have "deepCompare_props (JObj d) d"
  proof (rule deepCompare_props_refl)
    fix k v assume kv: "(k, v) \<in> set d"
    with JObj.prems have "dget d k = Some v" by simp
    moreover have "deepCompare v v"
      using JObj.IH [OF kv, of v] JObj.prems kv by (force simp: list_all_iff)
    ultimately show "own (JObj d) k \<and> jget (JObj d) k = v \<and> deepCompare v v" by simp
  qed
  with JObj.prems show ?case
    using map_of_eq_None_iff [of d "''constructor''"] map_of_eq_None_iff [of d "''prototype''"]
    by (force simp: deepCompare_JObj list_all_iff own_JObj)
qed (simp_all add: deepCompare.simps)

text \<open>
  Whatever \<open>deepCompare\<close> accepts agrees with its second argument: every value the second
  argument has at some path, the first has too, and the two are again accepted (for a
  primitive: equal). So a true answer means that the first argument covers the second.
\<close>

theorem deepCompare_covers:
  assumes "deepCompare x y" and "at_path y ks \<noteq> JUndef"
  shows "deepCompare (at_path x ks) (at_path y ks)"
  using assms
proof (induction ks arbitrary: x y)
  case (Cons k ks)
  from Cons.prems(2) have "jget y k \<noteq> JUndef" by auto
  with Cons.prems(1) have "deepCompare (jget x k) (jget y k)" by (rule jget_deepCompare)
  with Cons.IH Cons.prems(2) show ?case by simp
qed simp

theorem deepCompare_covers_witness:
  "deepCompare
     (at_path (JObj [(''b'', JNum 1), (''a'', JObj [(''c'', JStr ''x'')])]) [''a'', ''c''])
     (at_path (JObj [(''a'', JObj [(''c'', JStr ''x'')]), (''b'', JNum 1)]) [''a'', ''c''])"
  by (rule deepCompare_covers) (simp_all add: deepCompare.simps)

text \<open>
  The converse fails: both loops of \<open>deepCompare\<close> run over the keys of the second
  argument, so a key that only the first argument has goes unnoticed. Adding such a key to
  the first argument of an accepted pair keeps the answer true, while the swapped call
  answers false: the comparison is not symmetric.
\<close>

theorem deepCompare_extra_key:
  assumes "deepCompare (JObj xo) (JObj ps)" and "k \<notin> fst ` set ps"
    and "k \<noteq> ''constructor''" and "k \<noteq> ''prototype''"
  shows "deepCompare (set_prop k v (JObj xo)) (JObj ps) \<and>
         \<not> deepCompare (JObj ps) (set_prop k v (JObj xo))"
proof
  have "deepCompare_props (JObj (dset k v xo)) ps = deepCompare_props (JObj xo) ps"
    using assms(2) by (intro deepCompare_props_cong) (auto simp: dict_simps)
  moreover have "list_all (\<lambda>(p, _). own (JObj (dset k v xo)) p) ps"
    using assms(1,2) by (auto simp: deepCompare_JObj list_all_iff dict_simps)
  ultimately show "deepCompare (set_prop k v (JObj xo)) (JObj ps)"
    using assms by (simp add: deepCompare_JObj dict_simps)
next
  have "(k, v) \<in> set (dset k v xo)"
    by (simp add: map_of_SomeD dict_simps)
  moreover have "\<not> own (JObj ps) k"
    using assms(2) by (simp only: own_JObj not_False_eq_True)
  ultimately have "\<not> list_all (\<lambda>(p, _). own (JObj ps) p) (dset k v xo)"
    by (force simp: list_all_iff)
  then show "\<not> deepCompare (JObj ps) (set_prop k v (JObj xo))"
    by (simp add: deepCompare_JObj del: own.simps)
qed

theorem deepCompare_extra_key_witness:
  "deepCompare (set_prop ''b'' (JNum 2) (JObj [(''a'', JNum 1)])) (JObj [(''a'', JNum 1)]) \<and>
   \<not> deepCompare (JObj [(''a'', JNum 1)]) (set_prop ''b'' (JNum 2) (JObj [(''a'', JNum 1)]))"
  by (rule deepCompare_extra_key) (simp_all add: deepCompare.simps)

end
