(* ===== verification/StringBase.thy ===== *)
theory StringBase
  imports Prelude "HOL-Library.Char_ord" "HOL-Library.List_Lexorder"
begin

text \<open>
  The string averaging of \<^verbatim>\<open>src/utils.ts\<close> (\<open>DEFAULT_ALPHABET\<close>,
  \<open>alphabetPad\<close>, \<open>baseToString\<close>, \<open>stringToBase\<close>, \<open>averageBetweenStrings\<close>,
  \<open>nextString\<close>, \<open>prevString\<close>, \<open>lexicographicCompare\<close>): strings over an alphabet of
  consecutive character codes as numerals of a bijective number system. \<open>None\<close> is the
  \<open>RangeError\<close> of the \<open>BigInt\<close> operations on an empty alphabet.
\<close>

section \<open>Definitions\<close>

definition DEFAULT_ALPHABET :: string where
  "DEFAULT_ALPHABET = map char_of [0x20..<0x7F::nat]"

definition code :: "char \<Rightarrow> int" where
  "code c = of_char c"

definition padEnd :: "string \<Rightarrow> nat \<Rightarrow> char \<Rightarrow> string" where
  "padEnd s n fill = s @ replicate (n - length s) fill"

text \<open>\<open>alphabet[0]\<close> of an empty alphabet is \<open>undefined\<close>, for which \<open>padEnd\<close> pads with spaces.\<close>

definition alphabetPad :: "string \<Rightarrow> nat \<Rightarrow> string \<Rightarrow> string" where
  "alphabetPad s n alphabet =
     padEnd s n (case alphabet of [] \<Rightarrow> CHR '' '' | c # _ \<Rightarrow> c)"

function baseToString :: "int \<Rightarrow> string \<Rightarrow> string option" where
  "baseToString n alphabet =
     (let len = int (length alphabet) in
      if n \<le> len then Some (if 1 \<le> n then [alphabet ! nat (n - 1)] else [])
      else if len = 0 then None
      else
        let d = n div len; r = n mod len - 1;
            d' = (if r < 0 then d - \<bar>r\<bar> else d);
            r' = (if r < 0 then len - 1 else r)
        in map_option (\<lambda>s. s @ [alphabet ! nat r']) (baseToString d' alphabet))"
  by pat_completeness auto
termination
proof (relation "measure (\<lambda>(n, _). nat n)", goal_cases)
  case (2 n alphabet len d r d' r')
  then have len: "1 \<le> len" "len < n" by (auto simp: Suc_le_eq)
  have "d' < n"
  proof (cases "len = 1")
    case False
    with len have "1 < len" "0 < n" by auto
    then have "d < n" using 2 by (auto intro!: int_div_less_self)
    then show ?thesis using 2 by auto
  qed (use 2 in auto)
  with len 2 show ?case by auto
qed simp

declare baseToString.simps [simp del]

fun stringToBase_loop :: "int \<Rightarrow> int \<Rightarrow> string \<Rightarrow> nat \<Rightarrow> int \<Rightarrow> int" where
  "stringToBase_loop len c0 [] j result = result"
| "stringToBase_loop len c0 (c # cs) j result =
     stringToBase_loop len c0 cs (Suc j) (result + (1 + (code c - c0)) * len ^ j)"

definition stringToBase :: "string \<Rightarrow> string \<Rightarrow> int option" where
  "stringToBase s alphabet =
     (if s \<noteq> [] \<and> alphabet = [] then None
      else Some (stringToBase_loop (int (length alphabet))
                   (case alphabet of [] \<Rightarrow> 0 | c # _ \<Rightarrow> code c) (rev s) 0 0))"

definition averageBetweenStrings :: "string \<Rightarrow> string \<Rightarrow> string \<Rightarrow> string option" where
  "averageBetweenStrings a b alphabet =
     (let padN = max (length a) (length b) in
      Option.bind (stringToBase (alphabetPad a padN alphabet) alphabet) (\<lambda>baseA.
      Option.bind (stringToBase (alphabetPad b padN alphabet) alphabet) (\<lambda>baseB.
      let avg = (baseA + baseB) div 2 in
      if avg = baseA \<or> avg = baseB
      then map_option (\<lambda>s. s @ (case alphabet of [] \<Rightarrow> ''undefined'' | c # _ \<Rightarrow> [c]))
             (baseToString avg alphabet)
      else baseToString avg alphabet)))"

definition nextString :: "string \<Rightarrow> string \<Rightarrow> string option" where
  "nextString s alphabet =
     Option.bind (stringToBase s alphabet) (\<lambda>n. baseToString (n + 1) alphabet)"

definition prevString :: "string \<Rightarrow> string \<Rightarrow> string option" where
  "prevString s alphabet =
     Option.bind (stringToBase s alphabet) (\<lambda>n. baseToString (n - 1) alphabet)"

definition lexicographicCompare :: "string \<Rightarrow> string \<Rightarrow> int" where
  "lexicographicCompare a b = (if a < b then -1 else if a = b then 0 else 1)"

section \<open>The number system\<close>

text \<open>An alphabet of consecutive codes, as \<open>stringToBase\<close> assumes, and strings over it.\<close>

definition alphabet_ok :: "string \<Rightarrow> bool" where
  "alphabet_ok A \<longleftrightarrow> A \<noteq> [] \<and> (\<forall>i < length A. code (A ! i) = code (hd A) + int i)"

definition over :: "string \<Rightarrow> string \<Rightarrow> bool" where
  "over A s \<longleftrightarrow> set s \<subseteq> set A"

definition digit :: "string \<Rightarrow> char \<Rightarrow> int" where
  "digit A c = 1 + (code c - code (hd A))"

definition val :: "string \<Rightarrow> string \<Rightarrow> int" where
  "val A s = foldl (\<lambda>n c. n * int (length A) + digit A c) 0 s"

lemma val_Nil [simp]: "val A [] = 0"
  by (simp add: val_def)

lemma val_snoc [simp]: "val A (s @ [c]) = val A s * int (length A) + digit A c"
  by (simp add: val_def)

lemma val_append: "val A (s @ t) = val A s * int (length A) ^ length t + val A t"
  by (induction t rule: rev_induct) (simp_all add: algebra_simps flip: append_assoc)

lemma stringToBase_loop_val:
  "alphabet_ok A \<Longrightarrow>
   stringToBase_loop (int (length A)) (code (hd A)) cs j result =
     result + val A (rev cs) * int (length A) ^ j"
  by (induction cs arbitrary: j result) (simp_all add: digit_def algebra_simps)

lemma stringToBase_val: "alphabet_ok A \<Longrightarrow> stringToBase s A = Some (val A s)"
  using stringToBase_loop_val [of A "rev s" 0 0]
  by (cases A) (simp_all add: stringToBase_def alphabet_ok_def)

lemma code_char_of: "n < 256 \<Longrightarrow> code (char_of (n :: nat)) = int n"
  by (simp only: code_def of_nat_of_char [where 'a = int, symmetric] of_char_of) simp

lemma alphabet_ok_DEFAULT: "alphabet_ok DEFAULT_ALPHABET"
  by (auto simp: alphabet_ok_def DEFAULT_ALPHABET_def hd_map code_char_of
           simp del: upt_Suc upt_rec_numeral)

lemma alphabet_ok_pos: "alphabet_ok A \<Longrightarrow> 0 < length A"
  by (simp add: alphabet_ok_def)

lemma digit_nth: "alphabet_ok A \<Longrightarrow> i < length A \<Longrightarrow> digit A (A ! i) = int i + 1"
  by (simp add: alphabet_ok_def digit_def)

lemma digit_range:
  assumes "alphabet_ok A" and "c \<in> set A"
  shows "1 \<le> digit A c" and "digit A c \<le> int (length A)" and "A ! nat (digit A c - 1) = c"
proof -
  obtain i where i: "i < length A" "c = A ! i"
    using assms(2) by (auto simp: in_set_conv_nth)
  then have "digit A c = int i + 1" using digit_nth [OF assms(1)] by simp
  with i show "1 \<le> digit A c" "digit A c \<le> int (length A)" "A ! nat (digit A c - 1) = c"
    by simp_all
qed

lemma val_nonneg: "alphabet_ok A \<Longrightarrow> over A s \<Longrightarrow> 0 \<le> val A s"
proof (induction s rule: rev_induct)
  case (snoc c s)
  then show ?case using digit_range(1) [of A c] by (auto simp: over_def)
qed simp

lemma val_pos:
  assumes "alphabet_ok A" and "over A s" and "s \<noteq> []"
  shows "0 < val A s"
proof (cases s rule: rev_cases)
  case (snoc t c)
  with assms have "0 \<le> val A t" and "1 \<le> digit A c"
    by (auto simp: over_def intro: val_nonneg digit_range)
  with snoc show ?thesis by (simp add: add_nonneg_pos)
qed (use assms in simp)

text \<open>One step of \<open>baseToString\<close>, with the rollover, undoes appending one digit.\<close>

lemma baseToString_snoc:
  assumes A: "alphabet_ok A" and s: "over A s" "s \<noteq> []" and c: "c \<in> set A"
  shows "baseToString (val A (s @ [c])) A = map_option (\<lambda>t. t @ [c]) (baseToString (val A s) A)"
proof -
  let ?len = "int (length A)" and ?d = "digit A c"
  have len: "0 < ?len" and v: "1 \<le> val A s" and d: "1 \<le> ?d" "?d \<le> ?len"
    and nth: "A ! nat (?d - 1) = c"
    using alphabet_ok_pos [OF A] val_pos [OF A s] digit_range [OF A c] by auto
  from v len have "?len \<le> val A s * ?len" by simp
  with d have big: "\<not> val A (s @ [c]) \<le> ?len" by simp
  show ?thesis
  proof (cases "?d = ?len")
    case True
    then have "(val A s * ?len + ?d) div ?len = val A s + 1"
      and "(val A s * ?len + ?d) mod ?len = 0" using len by auto
    with big len nth True show ?thesis
      by (subst baseToString.simps) (simp add: Let_def)
  next
    case False
    with d have "?d div ?len = 0" and "?d mod ?len = ?d" by simp_all
    with len have "(val A s * ?len + ?d) div ?len = val A s"
      and "(val A s * ?len + ?d) mod ?len = ?d" by simp_all
    with big len nth d show ?thesis
      by (subst baseToString.simps) (simp add: Let_def)
  qed
qed

lemma baseToString_val: "alphabet_ok A \<Longrightarrow> over A s \<Longrightarrow> baseToString (val A s) A = Some s"
proof (induction s rule: rev_induct)
  case Nil
  then show ?case by (simp add: baseToString.simps)
next
  case (snoc c s)
  then have s: "over A s" "c \<in> set A" by (auto simp: over_def)
  show ?case
  proof (cases "s = []")
    case True
    have v: "val A [c] = digit A c" using val_snoc [of A "[]" c] by simp
    have d: "1 \<le> digit A c" "digit A c \<le> int (length A)" "A ! nat (digit A c - 1) = c"
      using digit_range [OF snoc.prems(1) s(2)] by auto
    show ?thesis unfolding True append_Nil v
      by (subst baseToString.simps) (simp add: d Let_def)
  next
    case False
    with snoc s show ?thesis by (simp add: baseToString_snoc del: val_snoc)
  qed
qed

lemma baseToString_total:
  "alphabet_ok A \<Longrightarrow> 0 \<le> n \<Longrightarrow> \<exists>s. baseToString n A = Some s \<and> over A s \<and> val A s = n"
proof (induction n A rule: baseToString.induct)
  case (1 n A)
  let ?len = "int (length A)"
  have len: "0 < ?len" using alphabet_ok_pos [OF "1.prems"(1)] by simp
  show ?case
  proof (cases "n \<le> ?len")
    case True
    show ?thesis
    proof (cases "n = 0")
      case False
      with True "1.prems" have "nat (n - 1) < length A" by simp
      with False True "1.prems" have "val A [A ! nat (n - 1)] = n"
        using digit_nth [of A "nat (n - 1)"] val_snoc [of A "[]" "A ! nat (n - 1)"] by simp
      with False True "1.prems" \<open>nat (n - 1) < length A\<close> show ?thesis
        by (subst baseToString.simps) (simp add: over_def Let_def)
    qed (simp add: baseToString.simps over_def)
  next
    case False
    define d r where "d = n div ?len" and "r = n mod ?len - 1"
    define d' r' where "d' = (if r < 0 then d - \<bar>r\<bar> else d)" and "r' = (if r < 0 then ?len - 1 else r)"
    have r: "- 1 \<le> r" "r < ?len" using pos_mod_sign [OF len, of n] pos_mod_bound [OF len, of n] by (simp_all add: r_def)
    have "0 < d" using False len by (auto simp: d_def pos_imp_zdiv_pos_iff)
    with r have "0 \<le> d'" by (auto simp: d'_def)
    with "1.IH" [OF refl False _ d_def r_def d'_def r'_def] len "1.prems"(1)
    obtain t where t: "baseToString d' A = Some t" "over A t" "val A t = d'" by auto
    have idx: "nat r' < length A" "0 \<le> r'" using r len by (auto simp: r'_def nat_less_iff)
    have "n = d * ?len + (r + 1)" by (simp add: d_def r_def)
    moreover have "r = - 1" if "r < 0" using r that by simp
    ultimately have "d' * ?len + (r' + 1) = n" by (auto simp: d'_def r'_def algebra_simps)
    with t idx digit_nth [OF "1.prems"(1) idx(1)] have "val A (t @ [A ! nat r']) = n" by simp
    with t idx False len show ?thesis
      by (subst baseToString.simps)
         (simp add: Let_def over_def flip: d_def r_def d'_def r'_def)
  qed
qed

text \<open>The values of the strings of length \<open>k\<close> are the \<open>len ^ k\<close> numbers from \<open>rep len k\<close> on.\<close>

fun rep :: "int \<Rightarrow> nat \<Rightarrow> int" where
  "rep L 0 = 0"
| "rep L (Suc k) = rep L k * L + 1"

lemma rep_Suc: "rep L (Suc k) = rep L k + L ^ k"
  by (induction k) (simp_all add: algebra_simps)

lemma val_bounds:
  assumes A: "alphabet_ok A"
  shows "over A s \<Longrightarrow> rep (int (length A)) (length s) \<le> val A s \<and>
           val A s < rep (int (length A)) (length s) + int (length A) ^ length s"
proof (induction s rule: rev_induct)
  case (snoc c s)
  let ?L = "int (length A)" and ?R = "rep (int (length A)) (length s)"
  have IH: "?R \<le> val A s" "val A s \<le> ?R + ?L ^ length s - 1"
    using snoc by (auto simp: over_def)
  have d: "1 \<le> digit A c" "digit A c \<le> ?L" using digit_range [OF A] snoc.prems by (auto simp: over_def)
  have "?R * ?L \<le> val A s * ?L" using IH by (simp add: mult_right_mono)
  moreover have "val A s * ?L \<le> (?R + ?L ^ length s - 1) * ?L" using IH by (simp add: mult_right_mono)
  ultimately show ?case using d by (simp add: algebra_simps)
qed simp

lemma rep_mono: "1 \<le> L \<Longrightarrow> j \<le> k \<Longrightarrow> rep L j \<le> rep L k"
  by (rule lift_Suc_mono_le [of "rep L"]) (simp_all add: rep_Suc del: rep.simps)

lemma val_length:
  assumes A: "alphabet_ok A" and s: "over A s"
    and v: "rep (int (length A)) k \<le> val A s" "val A s < rep (int (length A)) (Suc k)"
  shows "length s = k"
proof -
  let ?L = "int (length A)"
  have L: "1 \<le> ?L" using alphabet_ok_pos [OF A] by (simp add: Suc_le_eq)
  have b: "rep ?L (length s) \<le> val A s" "val A s < rep ?L (Suc (length s))"
    using val_bounds [OF A s] by (auto simp: rep_Suc simp del: rep.simps)
  show ?thesis
  proof (rule ccontr)
    assume "length s \<noteq> k"
    then consider "Suc (length s) \<le> k" | "Suc k \<le> length s" by linarith
    then show False
      by cases (use rep_mono [OF L] b v in force)+
  qed
qed

lemma code_less: "c < d \<longleftrightarrow> code c < code d"
  by (simp only: less_char_def code_def of_nat_of_char [where 'a = int, symmetric] of_nat_less_iff)

lemma digit_less: "digit A c < digit A d \<longleftrightarrow> c < d"
  by (simp add: digit_def code_less)

lemma val_Cons: "val A (c # s) = digit A c * int (length A) ^ length s + val A s"
  using val_append [of A "[c]" s] val_snoc [of A "[]" c] by simp

text \<open>Among strings of one length the numeric order is the lexicographic order.\<close>

lemma val_less:
  assumes A: "alphabet_ok A"
  shows "length s = length t \<Longrightarrow> over A s \<Longrightarrow> over A t \<Longrightarrow> val A s < val A t \<longleftrightarrow> s < t"
proof (induction s t rule: list_induct2)
  case (Cons c s d t)
  let ?L = "int (length A)"
  have lt: "val A (c # s) < val A (d # t)"
    if "digit A c < digit A d" "length s = length t" "over A s" "over A t" for c d s t
  proof -
    have "digit A c * ?L ^ length s + ?L ^ length s \<le> digit A d * ?L ^ length s"
      using that(1) mult_right_mono [of "digit A c + 1" "digit A d" "?L ^ length s"]
      by (simp add: algebra_simps)
    then show ?thesis
      using val_bounds [OF A that(3)] val_bounds [OF A that(4)] that(2) by (simp add: val_Cons)
  qed
  have over: "over A s" "over A t" using Cons.prems by (auto simp: over_def)
  consider "c < d" | "d < c" | "c = d" by fastforce
  then show ?case
  proof cases
    case 1
    with lt [of c d s t] Cons.hyps over show ?thesis by (simp add: digit_less)
  next
    case 2
    with lt [of d c t s] Cons.hyps over show ?thesis by (auto simp: digit_less)
  next
    case 3
    with Cons over show ?thesis by (simp add: val_Cons)
  qed
qed simp

section \<open>Correctness\<close>

text \<open>
  Round trip: over any alphabet of consecutive codes, reading a string as a number and
  writing the number back gives the string, rollover digits included.
\<close>

theorem baseToString_stringToBase:
  assumes "alphabet_ok A" and "over A s"
  shows "Option.bind (stringToBase s A) (\<lambda>n. baseToString n A) = Some s"
  using assms by (simp add: stringToBase_val baseToString_val)

theorem baseToString_stringToBase_witness:
  "Option.bind (stringToBase ''zz a'' DEFAULT_ALPHABET) (\<lambda>n. baseToString n DEFAULT_ALPHABET)
     = Some ''zz a''"
  by (rule baseToString_stringToBase [OF alphabet_ok_DEFAULT])
     code_simp

text \<open>
  \<open>prevString\<close> undoes \<open>nextString\<close>, also across the rollover from one length to the next.
\<close>

theorem prevString_nextString:
  assumes A: "alphabet_ok A" and s: "over A s"
  shows "Option.bind (nextString s A) (\<lambda>t. prevString t A) = Some s"
proof -
  have "0 \<le> val A s + 1" using val_nonneg [OF A s] by simp
  then obtain t where t: "baseToString (val A s + 1) A = Some t" "over A t" "val A t = val A s + 1"
    using baseToString_total [OF A] by blast
  then show ?thesis
    by (simp add: nextString_def prevString_def stringToBase_val [OF A] baseToString_val [OF A s])
qed

theorem prevString_nextString_witness:
  "Option.bind (nextString ''b'' ''abc'') (\<lambda>t. prevString t ''abc'') = Some ''b''"
  by (rule prevString_nextString) (auto simp: alphabet_ok_def over_def code_def less_Suc_eq)

text \<open>Padding with the least character: order facts on lists.\<close>

lemma pad_mono:
  fixes a b :: string
  shows "a < b \<Longrightarrow> length a \<le> n \<Longrightarrow> length b \<le> n \<Longrightarrow> \<forall>c \<in> set b. m \<le> c \<Longrightarrow>
    a @ replicate (n - length a) m \<le> b @ replicate (n - length b) m"
proof (induction b arbitrary: a n)
  case (Cons d b)
  note IH = Cons.IH and prems = Cons.prems
  obtain k where n: "n = Suc k" using Cons.prems by (cases n) auto
  show ?case
  proof (cases a)
    case Nil
    have "replicate k m \<le> b @ replicate (k - length b) m"
    proof (cases "b = []")
      case False
      then have "[] < b" by (cases b) auto
      with IH [of "[]" k] prems n show ?thesis by simp
    qed simp
    with Nil n Cons.prems show ?thesis by auto
  next
    case (Cons c a')
    with IH [of a' k] prems n show ?thesis by auto
  qed
qed simp

lemma less_pad_strip:
  fixes b x :: string
  shows "x < b @ replicate j m \<Longrightarrow> length x = length b + j \<Longrightarrow> \<forall>c \<in> set x. m \<le> c \<Longrightarrow> x @ z < b"
proof (induction b arbitrary: x)
  case Nil
  then show ?case
  proof (induction j arbitrary: x)
    case (Suc j)
    then show ?case by (cases x) auto
  qed simp
next
  case (Cons c b)
  then show ?case by (cases x) auto
qed

lemma self_le_append: "(a :: string) \<le> a @ z"
  by (induction a) auto

lemma less_append: "z \<noteq> [] \<Longrightarrow> (a :: string) < a @ z"
  by (induction a) (auto simp: neq_Nil_conv)

lemma hd_least: "alphabet_ok A \<Longrightarrow> c \<in> set A \<Longrightarrow> hd A \<le> c"
proof -
  assume A: "alphabet_ok A" and "c \<in> set A"
  then obtain i where "i < length A" "c = A ! i" by (auto simp: in_set_conv_nth)
  with A have "code (hd A) \<le> code c" by (simp add: alphabet_ok_def)
  then show "hd A \<le> c" using code_less [of c "hd A"] by fastforce
qed

lemma alphabetPad_eq: "alphabet_ok A \<Longrightarrow> alphabetPad s n A = s @ replicate (n - length s) (hd A)"
  by (cases A) (simp_all add: alphabetPad_def padEnd_def alphabet_ok_def)

lemma first_letter: "alphabet_ok A \<Longrightarrow> (case A of [] \<Rightarrow> x | c # _ \<Rightarrow> [c]) = [hd A]"
  by (cases A) (simp_all add: alphabet_ok_def)

lemma over_alphabetPad: "alphabet_ok A \<Longrightarrow> over A s \<Longrightarrow> over A (alphabetPad s n A)"
  by (auto simp: alphabetPad_eq over_def alphabet_ok_def dest: in_set_replicate [THEN iffD1])

text \<open>
  The average of two strings lies strictly between them in the lexicographic order,
  whenever the smaller one padded with the first letter of the alphabet is not the larger
  one padded (for those two there is nothing in between to return at that length).
\<close>

theorem averageBetweenStrings_between:
  assumes A: "alphabet_ok A" and over: "over A a" "over A b" and less: "a < b"
    and pad: "alphabetPad a (max (length a) (length b)) A \<noteq> alphabetPad b (max (length a) (length b)) A"
  shows "\<exists>r. averageBetweenStrings a b A = Some r \<and> over A r \<and> a < r \<and> r < b"
proof -
  let ?n = "max (length a) (length b)" and ?L = "int (length A)"
  define a' b' where "a' = alphabetPad a ?n A" and "b' = alphabetPad b ?n A"
  have len: "length a' = ?n" "length b' = ?n" by (auto simp: a'_def b'_def alphabetPad_eq [OF A])
  have o: "over A a'" "over A b'" using A over by (simp_all add: a'_def b'_def over_alphabetPad)
  have least: "\<forall>c \<in> set x. hd A \<le> c" if "over A x" for x
    using that hd_least [OF A] by (auto simp: over_def)
  have "a' \<le> b'" unfolding a'_def b'_def alphabetPad_eq [OF A]
    using pad_mono [OF less _ _ least [OF over(2)], of ?n] by simp
  with pad have ab: "a' < b'" by (simp add: a'_def b'_def)
  have below: "x @ z < b" if "x < b'" "length x = ?n" "over A x" for x z
    using less_pad_strip [of x b "?n - length b" "hd A" z] that least [OF that(3)]
    by (simp add: b'_def alphabetPad_eq [OF A])
  have above: "a \<le> a'" by (simp add: a'_def alphabetPad_eq [OF A] self_le_append)
  define avg where "avg = (val A a' + val A b') div 2"
  have "val A a' < val A b'" using val_less [OF A _ o] ab len by simp
  then have avg: "val A a' \<le> avg" "avg < val A b'" by (auto simp: avg_def)
  have eq: "averageBetweenStrings a b A =
      (if avg = val A a' then map_option (\<lambda>s. s @ [hd A]) (baseToString avg A) else baseToString avg A)"
    using avg
    by (simp add: averageBetweenStrings_def stringToBase_val [OF A] first_letter [OF A] Let_def
          flip: a'_def b'_def avg_def)
  show ?thesis
  proof (cases "avg = val A a'")
    case True
    then have "averageBetweenStrings a b A = Some (a' @ [hd A])"
      using eq baseToString_val [OF A o(1)] by simp
    moreover have "a < a' @ [hd A]" using above less_append [of "[hd A]" a'] by simp
    moreover have "a' @ [hd A] < b" using below [of a' "[hd A]"] ab len o by simp
    moreover have "over A (a' @ [hd A])" using o A by (auto simp: over_def alphabet_ok_def)
    ultimately show ?thesis by blast
  next
    case False
    have "0 \<le> avg" using avg val_nonneg [OF A o(1)] by simp
    then obtain r where r: "baseToString avg A = Some r" "over A r" "val A r = avg"
      using baseToString_total [OF A] by blast
    have "length r = ?n"
      using val_length [OF A r(2), of ?n] val_bounds [OF A o(1)] val_bounds [OF A o(2)] avg r(3) len
      by (simp add: rep_Suc del: rep.simps)
    then have "a' < r" "r < b'"
      using val_less [OF A _ o(1) r(2)] val_less [OF A _ r(2) o(2)] avg False r(3) len by auto
    moreover have "r < b" using below [of r "[]"] \<open>r < b'\<close> \<open>length r = ?n\<close> r(2) by simp
    ultimately show ?thesis using eq False r above by auto
  qed
qed

theorem averageBetweenStrings_between_witness:
  "\<exists>r. averageBetweenStrings ''a'' ''c'' ''abc'' = Some r \<and> over ''abc'' r \<and> ''a'' < r \<and> r < ''c''"
  by (rule averageBetweenStrings_between)
     (auto simp: alphabet_ok_def over_def code_def less_Suc_eq alphabetPad_def padEnd_def
           less_char_def)

text \<open>
  When the padded strings coincide (the larger string is the smaller one followed by
  first letters only) the result is larger than both: the code does not detect this case.
\<close>

theorem averageBetweenStrings_equal_pads:
  assumes A: "alphabet_ok A" and b: "b = a @ replicate (Suc k) (hd A)" and over: "over A a"
  shows "a < b \<and> averageBetweenStrings a b A = Some (b @ [hd A]) \<and> b < b @ [hd A]"
proof -
  have n: "max (length a) (length b) = length b" by (simp add: b)
  have pads: "alphabetPad a (length b) A = b" "alphabetPad b (length b) A = b"
    by (simp_all add: alphabetPad_eq [OF A] b)
  have "over A b" using over_alphabetPad [OF A over, of "length b"] pads by simp
  then have "averageBetweenStrings a b A = Some (b @ [hd A])"
    unfolding averageBetweenStrings_def n
    by (simp add: pads stringToBase_val [OF A] baseToString_val [OF A] first_letter [OF A])
  moreover have "a < b" unfolding b by (rule less_append) simp
  ultimately show ?thesis by (simp add: less_append)
qed

theorem averageBetweenStrings_equal_pads_witness:
  "''b'' < ''ba'' \<and> averageBetweenStrings ''b'' ''ba'' ''abc'' = Some (''ba'' @ [hd ''abc'']) \<and>
   ''ba'' < ''ba'' @ [hd ''abc'']"
  by (rule averageBetweenStrings_equal_pads [where k = 0])
     (auto simp: alphabet_ok_def over_def code_def less_Suc_eq)

end
