(* ===== verification/Event.thy ===== *)
theory Event
  imports Json
begin

text \<open>
  \<^verbatim>\<open>src/models/event.ts\<close>: the class \<open>SendingNetworkEvent\<close>. The wire event
  (\<open>this.event\<close>) and the decrypted event (\<open>this.clearEvent\<close>) are JSON values read through the
  getters of the class; the other fields are those of the class. \<open>ev_ref\<close> stands for the
  identity of the JavaScript object. The events an event points to are held as views: the
  replacing event with the fields the getters read of it, the local redaction with its
  status, \<open>sender\<close> and \<open>target\<close> with the data of the (immutable) sentinel member.
  \<open>fired\<close> lists what the object has emitted, oldest first.
\<close>

section \<open>Data\<close>

datatype event_status = NOT_SENT | ENCRYPTING | SENDING | QUEUED | SENT | CANCELLED

record member_view =
  mv_userId :: "string option"
  mv_name :: "string option"
  mv_rawDisplayName :: "string option"
  mv_membership :: "string option"
  mv_hasMemberEvent :: bool

record replacing_view =
  rv_ref :: nat
  rv_id :: "string option"
  rv_status :: "event_status option"
  rv_newContent :: json

record redaction_view =
  lr_ref :: nat
  lr_status :: "event_status option"

datatype ev_emission =
    EmBeforeRedaction nat
  | EmLocalEventIdReplaced
  | EmStatus "event_status option"
  | EmReplaced
  | EmTagChanged
  | EmDecrypted bool

record mx_event =
  ev_ref :: nat
  event :: json
  clearEvent :: json
  senderCurve25519Key :: "string option"
  claimedEd25519Key :: "string option"
  forwardingCurve25519KeyChain :: "string list"
  untrusted :: "bool option"
  decryptionPromise :: bool
  retryDecryption :: bool
  pushActions :: "json option"
  txnId :: "string option"
  replacingEvent :: "replacing_view option"
  localRedactionEvent :: "redaction_view option"
  cancelledFlag :: bool
  sender :: "member_view option"
  target :: "member_view option"
  status :: "event_status option"
  forwardLooking :: bool
  fired :: "ev_emission list"

definition new_event :: "nat \<Rightarrow> json \<Rightarrow> mx_event" where
  "new_event r ev =
     \<lparr>ev_ref = r, event = ev, clearEvent = JUndef, senderCurve25519Key = None,
      claimedEd25519Key = None, forwardingCurve25519KeyChain = [], untrusted = None,
      decryptionPromise = False, retryDecryption = False, pushActions = None,
      txnId = (if truthy (jget ev ''txn_id'') then as_str (jget ev ''txn_id'') else None),
      replacingEvent = None, localRedactionEvent = None, cancelledFlag = False,
      sender = None, target = None, status = None, forwardLooking = True, fired = []\<rparr>"

section \<open>Getters\<close>

definition getId :: "mx_event \<Rightarrow> string option" where
  "getId e = as_str (jget (event e) ''event_id'')"

definition getSender :: "mx_event \<Rightarrow> string option" where
  "getSender e = as_str (js_or (jget (event e) ''sender'') (jget (event e) ''user_id''))"

definition getWireType :: "mx_event \<Rightarrow> string option" where
  "getWireType e = as_str (jget (event e) ''type'')"

definition getType :: "mx_event \<Rightarrow> string option" where
  "getType e = (if truthy (clearEvent e) then as_str (jget (clearEvent e) ''type'') else getWireType e)"

definition getRoomId :: "mx_event \<Rightarrow> string option" where
  "getRoomId e = as_str (jget (event e) ''room_id'')"

definition getTs :: "mx_event \<Rightarrow> rat option" where
  "getTs e = as_num (jget (event e) ''origin_server_ts'')"

definition getOriginalContent :: "mx_event \<Rightarrow> json" where
  "getOriginalContent e =
     (if localRedactionEvent e \<noteq> None then empty_obj
      else if truthy (clearEvent e) then js_or (jget (clearEvent e) ''content'') empty_obj
      else js_or (jget (event e) ''content'') empty_obj)"

definition getContent :: "mx_event \<Rightarrow> json" where
  "getContent e =
     (if localRedactionEvent e \<noteq> None then empty_obj
      else case replacingEvent e of
             Some r \<Rightarrow> js_or (rv_newContent r) empty_obj
           | None \<Rightarrow> getOriginalContent e)"

definition getWireContent :: "mx_event \<Rightarrow> json" where
  "getWireContent e = js_or (jget (event e) ''content'') empty_obj"

definition getUnsigned :: "mx_event \<Rightarrow> json" where
  "getUnsigned e = js_or (jget (event e) ''unsigned'') empty_obj"

definition getPrevContent :: "mx_event \<Rightarrow> json" where
  "getPrevContent e =
     js_or (jget (getUnsigned e) ''prev_content'')
       (js_or (jget (event e) ''prev_content'') empty_obj)"

definition getDirectionalContent :: "mx_event \<Rightarrow> json" where
  "getDirectionalContent e = (if forwardLooking e then getContent e else getPrevContent e)"

definition getAge :: "mx_event \<Rightarrow> json" where
  "getAge e = js_or (jget (getUnsigned e) ''age'') (jget (event e) ''age'')"

definition getStateKey :: "mx_event \<Rightarrow> string option" where
  "getStateKey e = as_str (jget (event e) ''state_key'')"

definition isState :: "mx_event \<Rightarrow> bool" where
  "isState e \<longleftrightarrow> jget (event e) ''state_key'' \<noteq> JUndef"

definition isEncrypted :: "mx_event \<Rightarrow> bool" where
  "isEncrypted e \<longleftrightarrow> \<not> isState e \<and> getWireType e = Some ''m.room.encrypted''"

definition isBeingDecrypted :: "mx_event \<Rightarrow> bool" where
  "isBeingDecrypted e \<longleftrightarrow> decryptionPromise e"

definition isDecryptionFailure :: "mx_event \<Rightarrow> bool" where
  "isDecryptionFailure e \<longleftrightarrow>
     jget (jget (clearEvent e) ''content'') ''msgtype'' = JStr ''m.bad.encrypted''"

definition shouldAttemptDecryption :: "mx_event \<Rightarrow> bool" where
  "shouldAttemptDecryption e \<longleftrightarrow>
     isEncrypted e \<and> \<not> isBeingDecrypted e \<and> \<not> truthy (clearEvent e)"

definition getClearContent :: "mx_event \<Rightarrow> json" where
  "getClearContent e =
     (if truthy (clearEvent e) then jget (clearEvent e) ''content'' else JNull)"

definition threadRootId :: "mx_event \<Rightarrow> json" where
  "threadRootId e =
     (let relatesTo = jget (getWireContent e) ''m.relates_to'' in
      if jget relatesTo ''rel_type'' = JStr ''io.element.thread''
      then jget relatesTo ''event_id'' else JUndef)"

definition isThreadRelation :: "mx_event \<Rightarrow> bool" where
  "isThreadRelation e \<longleftrightarrow> truthy (threadRootId e)"

definition tagEventId :: "mx_event \<Rightarrow> json" where
  "tagEventId e =
     (let relatesTo = jget (getWireContent e) ''m.relates_to'' in
      if jget relatesTo ''rel_type'' = JStr ''m.msg_tag''
      then jget relatesTo ''event_id'' else JUndef)"

definition replyEventId :: "mx_event \<Rightarrow> json" where
  "replyEventId e =
     jget (jget (jget (getWireContent e) ''m.relates_to'') ''m.in_reply_to'') ''event_id''"

definition parentEventId :: "mx_event \<Rightarrow> json" where
  "parentEventId e =
     js_or (replyEventId e) (jget (jget (getWireContent e) ''m.relates_to'') ''event_id'')"

definition isRedacted :: "mx_event \<Rightarrow> bool" where
  "isRedacted e \<longleftrightarrow> truthy (jget (getUnsigned e) ''redacted_because'')"

definition isRedaction :: "mx_event \<Rightarrow> bool" where
  "isRedaction e \<longleftrightarrow> getType e = Some ''m.room.redaction''"

definition getRedactionEvent :: "mx_event \<Rightarrow> json" where
  "getRedactionEvent e =
     (if \<not> isRedacted e then JNull
      else if truthy (jget (clearEvent e) ''unsigned'')
        then jget (jget (clearEvent e) ''unsigned'') ''redacted_because''
      else js_or (jget (jget (event e) ''unsigned'') ''redacted_because'') empty_obj)"

definition isSending :: "mx_event \<Rightarrow> bool" where
  "isSending e \<longleftrightarrow> status e \<noteq> None"

definition isRelation :: "string option \<Rightarrow> mx_event \<Rightarrow> bool" where
  "isRelation relType e \<longleftrightarrow>
     (let relation = jget (getWireContent e) ''m.relates_to'' in
      truthy relation \<and> truthy (jget relation ''rel_type'') \<and> truthy (jget relation ''event_id'') \<and>
      (case relType of
         Some t \<Rightarrow> t = [] \<or> jget relation ''rel_type'' = JStr t
       | None \<Rightarrow> True))"

definition getRelation :: "mx_event \<Rightarrow> json option" where
  "getRelation e =
     (if \<not> isRelation None e then None else Some (jget (getWireContent e) ''m.relates_to''))"

definition getAssociatedId :: "mx_event \<Rightarrow> json" where
  "getAssociatedId e =
     (case getRelation e of
        Some relation \<Rightarrow> jget relation ''event_id''
      | None \<Rightarrow> if isRedaction e then jget (event e) ''redacts'' else JUndef)"

definition hasAssocation :: "mx_event \<Rightarrow> bool" where
  "hasAssocation e \<longleftrightarrow> truthy (getAssociatedId e)"

definition getAssociatedStatus :: "mx_event \<Rightarrow> event_status option" where
  "getAssociatedStatus e =
     (case replacingEvent e of
        Some r \<Rightarrow> rv_status r
      | None \<Rightarrow> (case localRedactionEvent e of Some l \<Rightarrow> lr_status l | None \<Rightarrow> status e))"

definition getServerAggregatedRelation :: "mx_event \<Rightarrow> string \<Rightarrow> json" where
  "getServerAggregatedRelation e relType =
     (let relations = jget (getUnsigned e) ''m.relations'' in
      if truthy relations then jget relations relType else JUndef)"

definition replacingEventId :: "mx_event \<Rightarrow> string option" where
  "replacingEventId e =
     (let replaceRelation = getServerAggregatedRelation e ''m.replace'' in
      if truthy replaceRelation then as_str (jget replaceRelation ''event_id'')
      else case replacingEvent e of Some r \<Rightarrow> rv_id r | None \<Rightarrow> None)"

definition getKeyRequestRecipients :: "mx_event \<Rightarrow> string \<Rightarrow> (string option \<times> json) list" where
  "getKeyRequestRecipients e userId =
     (let recipients = [(Some userId, JStr ''*'')] in
      if getSender e \<noteq> Some userId
      then recipients @ [(getSender e, jget (getWireContent e) ''device_id'')]
      else recipients)"

section \<open>Mutators\<close>

definition set_raw :: "string \<Rightarrow> json \<Rightarrow> mx_event \<Rightarrow> mx_event" where
  "set_raw k v e = e\<lparr>event := set_prop k v (event e)\<rparr>"

definition fire :: "ev_emission \<Rightarrow> mx_event \<Rightarrow> mx_event" where
  "fire em e = e\<lparr>fired := fired e @ [em]\<rparr>"

definition makeEncrypted ::
  "string \<Rightarrow> json \<Rightarrow> string option \<Rightarrow> string option \<Rightarrow> mx_event \<Rightarrow> mx_event" where
  "makeEncrypted cryptoType cryptoContent senderKey claimedKey e =
     (set_raw ''content'' cryptoContent (set_raw ''type'' (JStr cryptoType)
       (e\<lparr>clearEvent := JObj [(''type'', jget (event e) ''type''), (''content'', jget (event e) ''content'')]\<rparr>)))
     \<lparr>senderCurve25519Key := senderKey, claimedEd25519Key := claimedKey\<rparr>"

text \<open>\<open>setClearData\<close>: the result of a decryption attempt; falsy fields get their defaults.\<close>

record decryption_result =
  dr_clearEvent :: json
  dr_senderKey :: "string option"
  dr_claimedKey :: "string option"
  dr_chain :: "string list option"
  dr_untrusted :: "bool option"

definition setClearData :: "decryption_result \<Rightarrow> mx_event \<Rightarrow> mx_event" where
  "setClearData res e =
     e\<lparr>clearEvent := dr_clearEvent res,
       senderCurve25519Key := (case dr_senderKey res of Some (c # cs) \<Rightarrow> Some (c # cs) | _ \<Rightarrow> None),
       claimedEd25519Key := (case dr_claimedKey res of Some (c # cs) \<Rightarrow> Some (c # cs) | _ \<Rightarrow> None),
       forwardingCurve25519KeyChain := (case dr_chain res of Some ks \<Rightarrow> ks | None \<Rightarrow> []),
       untrusted := Some (dr_untrusted res = Some True)\<rparr>"

definition badEncryptedMessage :: "string \<Rightarrow> decryption_result" where
  "badEncryptedMessage reason =
     \<lparr>dr_clearEvent = JObj [(''type'', JStr ''m.room.message''),
        (''content'', JObj [(''msgtype'', JStr ''m.bad.encrypted''),
           (''body'', JStr (''** Unable to decrypt: '' @ reason @ '' **''))])],
      dr_senderKey = None, dr_claimedKey = None, dr_chain = None, dr_untrusted = None\<rparr>"

definition setStatus :: "event_status option \<Rightarrow> mx_event \<Rightarrow> mx_event" where
  "setStatus st e = fire (EmStatus st) (e\<lparr>status := st\<rparr>)"

definition replaceLocalEventId :: "string \<Rightarrow> mx_event \<Rightarrow> mx_event" where
  "replaceLocalEventId eventId e =
     fire EmLocalEventIdReplaced (set_raw ''event_id'' (JStr eventId) e)"

text \<open>\<open>this.event.unsigned\<close>, created when missing, with \<open>redacted_because\<close> set.\<close>

definition set_redacted_because :: "json \<Rightarrow> mx_event \<Rightarrow> mx_event" where
  "set_redacted_because r e =
     (let e1 = (if \<not> truthy (jget (event e) ''unsigned'') then set_raw ''unsigned'' empty_obj e else e)
      in set_raw ''unsigned'' (set_prop ''redacted_because'' r (jget (event e1) ''unsigned'')) e1)"

definition unmarkLocallyRedacted :: "mx_event \<Rightarrow> bool \<times> mx_event" where
  "unmarkLocallyRedacted e =
     (let value = localRedactionEvent e; e1 = e\<lparr>localRedactionEvent := None\<rparr> in
      (value \<noteq> None,
       if truthy (jget (event e1) ''unsigned'')
       then set_raw ''unsigned'' (set_prop ''redacted_because'' JNull (jget (event e1) ''unsigned'')) e1
       else e1))"

definition markLocallyRedacted :: "mx_event \<Rightarrow> mx_event \<Rightarrow> mx_event" where
  "markLocallyRedacted redactionEvent e =
     (if localRedactionEvent e \<noteq> None then e
      else set_redacted_because (event redactionEvent)
             ((fire (EmBeforeRedaction (ev_ref redactionEvent)) e)
               \<lparr>localRedactionEvent :=
                  Some \<lparr>lr_ref = ev_ref redactionEvent, lr_status = status redactionEvent\<rparr>\<rparr>))"

definition REDACT_KEEP_KEYS :: "string list" where
  "REDACT_KEEP_KEYS =
     [''event_id'', ''type'', ''room_id'', ''user_id'', ''sender'', ''state_key'', ''prev_state'',
      ''content'', ''unsigned'', ''origin_server_ts'']"

definition REDACT_KEEP_CONTENT_MAP :: "(string, string list) dict" where
  "REDACT_KEEP_CONTENT_MAP =
     [(''m.room.member'', [''membership'']),
      (''m.room.create'', [''creator'']),
      (''m.room.join_rules'', [''join_rule'']),
      (''m.room.power_levels'',
         [''ban'', ''events'', ''events_default'', ''kick'', ''redact'', ''state_default'',
          ''users'', ''users_default'']),
      (''m.room.aliases'', [''aliases''])]"

text \<open>
  \<open>keeps[key]\<close> is read on a plain object, so the names every object inherits are truthy too.
\<close>

definition object_prototype_names :: "string list" where
  "object_prototype_names =
     [''constructor'', ''__defineGetter__'', ''__defineSetter__'', ''hasOwnProperty'',
      ''__lookupGetter__'', ''__lookupSetter__'', ''isPrototypeOf'', ''propertyIsEnumerable'',
      ''toString'', ''valueOf'', ''__proto__'', ''toLocaleString'']"

definition keeps_key :: "string option \<Rightarrow> string \<Rightarrow> bool" where
  "keeps_key ty key \<longleftrightarrow>
     key \<in> set (case ty of None \<Rightarrow> [] | Some t \<Rightarrow>
              (case dget REDACT_KEEP_CONTENT_MAP t of Some ks \<Rightarrow> ks | None \<Rightarrow> [])) \<or>
     key \<in> set object_prototype_names"

fun strip_keys :: "(string \<Rightarrow> bool) \<Rightarrow> json \<Rightarrow> json" where
  "strip_keys keep (JObj d) = JObj (filter (\<lambda>e. keep (fst e)) d)"
| "strip_keys keep j = j"

text \<open>The loop over \<open>this.getContent()\<close> deletes in place, in the clear event if there is one.\<close>

definition strip_content :: "mx_event \<Rightarrow> mx_event" where
  "strip_content e =
     (let keep = keeps_key (getType e) in
      if truthy (clearEvent e)
      then (if truthy (jget (clearEvent e) ''content'')
            then e\<lparr>clearEvent := set_prop ''content'' (strip_keys keep (jget (clearEvent e) ''content''))
                                  (clearEvent e)\<rparr>
            else e)
      else (if truthy (jget (event e) ''content'')
            then set_raw ''content'' (strip_keys keep (jget (event e) ''content'')) e
            else e))"

definition makeRedacted :: "mx_event \<Rightarrow> mx_event \<Rightarrow> mx_event option" where
  "makeRedacted redactionEvent e =
     (if \<not> truthy (event redactionEvent) then None
      else
        let e1 = (fire (EmBeforeRedaction (ev_ref redactionEvent)) (e\<lparr>localRedactionEvent := None\<rparr>))
                   \<lparr>replacingEvent := None\<rparr>;
            e2 = set_redacted_because (event redactionEvent) e1;
            e3 = e2\<lparr>event := strip_keys (\<lambda>k. k \<in> set REDACT_KEEP_KEYS) (event e2)\<rparr>
        in Some (strip_content e3))"

definition handleRemoteEcho :: "json \<Rightarrow> mx_event \<Rightarrow> mx_event" where
  "handleRemoteEcho ev e =
     (let oldUnsigned = getUnsigned e; oldId = getId e;
          e1 = e\<lparr>event := ev\<rparr>;
          e2 = (if truthy (jget oldUnsigned ''redacted_because'')
                then set_redacted_because (jget oldUnsigned ''redacted_because'') e1 else e1);
          e3 = setStatus None e2
      in if getId e3 \<noteq> oldId then fire EmLocalEventIdReplaced e3 else e3)"

definition replacing_view_of :: "mx_event \<Rightarrow> replacing_view" where
  "replacing_view_of e =
     \<lparr>rv_ref = ev_ref e, rv_id = getId e, rv_status = status e,
      rv_newContent = jget (getContent e) ''m.new_content''\<rparr>"

definition makeReplaced :: "mx_event option \<Rightarrow> mx_event \<Rightarrow> mx_event" where
  "makeReplaced newEvent e =
     (if isRedacted e \<and> newEvent \<noteq> None then e
      else if map_option rv_ref (replacingEvent e) \<noteq> map_option ev_ref newEvent
      then fire EmReplaced (e\<lparr>replacingEvent := map_option replacing_view_of newEvent\<rparr>)
      else e)"

definition makeTag :: "string \<Rightarrow> mx_event \<Rightarrow> mx_event" where
  "makeTag newTag e =
     (if jget (jget (event e) ''content'') ''msgtag'' \<noteq> JStr newTag
      then fire EmTagChanged
             (set_raw ''content''
               (set_prop ''msgtag'' (JStr newTag) (js_or (jget (event e) ''content'') empty_obj)) e)
      else e)"

definition updateAssociatedId :: "string \<Rightarrow> mx_event \<Rightarrow> mx_event" where
  "updateAssociatedId eventId e =
     (case getRelation e of
        Some relation \<Rightarrow>
          set_raw ''content''
            (set_prop ''m.relates_to'' (set_prop ''event_id'' (JStr eventId) relation)
              (getWireContent e)) e
      | None \<Rightarrow> if isRedaction e then set_raw ''redacts'' (JStr eventId) e else e)"

definition flagCancelled :: "bool \<Rightarrow> mx_event \<Rightarrow> mx_event" where
  "flagCancelled c e = e\<lparr>cancelledFlag := c\<rparr>"

definition setPushActions :: "json option \<Rightarrow> mx_event \<Rightarrow> mx_event" where
  "setPushActions p e = e\<lparr>pushActions := p\<rparr>"

section \<open>Views of the whole event\<close>

definition getEffectiveEvent :: "mx_event \<Rightarrow> json" where
  "getEffectiveEvent e =
     (let content0 = entries (getContent e);
          content = (if getWireType e = Some ''m.room.encrypted''
            then fold (\<lambda>(key, value) c.
                   if key \<in> {''algorithm'', ''ciphertext'', ''device_id'', ''sender_key'', ''session_id''}
                   then c
                   else if jget (JObj c) key = JUndef then dset key value c else c)
                 (entries (getWireContent e)) content0
            else content0)
      in JObj (js_extend [Some [], Some (entries (event e)), Some (entries (clearEvent e)),
                       Some [(''content'', JObj content)]]))"

definition isEquivalentTo :: "mx_event \<Rightarrow> mx_event option \<Rightarrow> bool" where
  "isEquivalentTo e other =
     (case other of None \<Rightarrow> False
      | Some e' \<Rightarrow>
          ev_ref e' = ev_ref e \<or>
          json_clean (deepSortedObjectEntries (event e)) =
            json_clean (deepSortedObjectEntries (event e')))"

definition toJSON :: "mx_event \<Rightarrow> json" where
  "toJSON e =
     (if \<not> isEncrypted e then getEffectiveEvent e
      else JObj [(''decrypted'', getEffectiveEvent e), (''encrypted'', event e)])"

section \<open>Redaction\<close>

lemma map_of_filter_key:
  "map_of (filter (\<lambda>e. P (fst e)) d) k = (if P k then map_of d k else None)"
  by (induction d) auto

lemma jget_strip_keys [js_simps]:
  "jget (strip_keys keep j) k = (if keep k then jget j k else JUndef)"
  by (cases j) (auto simp: map_of_filter_key)

lemma is_object_strip_keys [simp]: "is_object (strip_keys keep j) = is_object j"
  by (cases j) auto

lemma truthy_strip_keys [simp]: "truthy (strip_keys keep j) = truthy j"
  by (cases j) auto

lemma set_raw_simps [ev_simps]:
  "ev_ref (set_raw k v e) = ev_ref e"
  "clearEvent (set_raw k v e) = clearEvent e"
  "status (set_raw k v e) = status e"
  "replacingEvent (set_raw k v e) = replacingEvent e"
  "localRedactionEvent (set_raw k v e) = localRedactionEvent e"
  "fired (set_raw k v e) = fired e"
  "event (set_raw k v e) = set_prop k v (event e)"
  by (simp_all add: set_raw_def)

lemma fire_simps [ev_simps]:
  "ev_ref (fire em e) = ev_ref e"
  "clearEvent (fire em e) = clearEvent e"
  "status (fire em e) = status e"
  "replacingEvent (fire em e) = replacingEvent e"
  "localRedactionEvent (fire em e) = localRedactionEvent e"
  "fired (fire em e) = fired e @ [em]"
  "event (fire em e) = event e"
  by (simp_all add: fire_def)

lemma redacted_because_simps [ev_simps]:
  "ev_ref (set_redacted_because r e) = ev_ref e"
  "clearEvent (set_redacted_because r e) = clearEvent e"
  "status (set_redacted_because r e) = status e"
  "replacingEvent (set_redacted_because r e) = replacingEvent e"
  "localRedactionEvent (set_redacted_because r e) = localRedactionEvent e"
  "fired (set_redacted_because r e) = fired e"
  "is_object (event (set_redacted_because r e)) = is_object (event e)"
  "k \<noteq> ''unsigned'' \<Longrightarrow> jget (event (set_redacted_because r e)) k = jget (event e) k"
  by (simp_all add: set_redacted_because_def set_raw_def Let_def js_simps)

definition unsigned_ok :: "mx_event \<Rightarrow> bool" where
  "unsigned_ok e \<longleftrightarrow> is_object (event e) \<and>
     (truthy (jget (event e) ''unsigned'') \<longrightarrow> is_object (jget (event e) ''unsigned''))"

lemma redacted_because_unsigned:
  assumes "unsigned_ok e"
  shows "jget (getUnsigned (set_redacted_because r e)) ''redacted_because'' = r"
  using assms
  by (auto simp: unsigned_ok_def set_redacted_because_def set_raw_def Let_def js_simps
      getUnsigned_def empty_obj_def)

lemma redacted_because_unsigned_other:
  assumes "is_object (event e)" and "k \<noteq> ''redacted_because''"
  shows "jget (getUnsigned (set_redacted_because r e)) k = jget (getUnsigned e) k"
  using assms
  by (auto simp: set_redacted_because_def set_raw_def Let_def js_simps getUnsigned_def empty_obj_def)

lemma makeRedacted_fields [ev_simps]:
  assumes "makeRedacted red e = Some e'"
  shows "localRedactionEvent e' = None" "replacingEvent e' = None" "ev_ref e' = ev_ref e"
    "status e' = status e" "fired e' = fired e @ [EmBeforeRedaction (ev_ref red)]"
    "truthy (event red)" "truthy (clearEvent e') = truthy (clearEvent e)"
  using assms
  by (auto simp: makeRedacted_def strip_content_def Let_def set_raw_def fire_def
      set_redacted_because_def split: if_splits)

lemma getType_cong:
  "clearEvent e = clearEvent e' \<Longrightarrow> jget (event e) ''type'' = jget (event e') ''type'' \<Longrightarrow>
   getType e = getType e'"
  by (simp add: getType_def getWireType_def)

lemma jget_content_makeRedacted:
  assumes red: "makeRedacted red e = Some e'"
  shows "jget (getContent e') k =
    (if keeps_key (getType e) k
     then jget (getOriginalContent (e\<lparr>localRedactionEvent := None\<rparr>)) k else JUndef)"
proof -
  define e3 where "e3 = (let e2 = set_redacted_because (event red)
      ((fire (EmBeforeRedaction (ev_ref red)) (e\<lparr>localRedactionEvent := None\<rparr>))\<lparr>replacingEvent := None\<rparr>)
    in e2\<lparr>event := strip_keys (\<lambda>k. k \<in> set REDACT_KEEP_KEYS) (event e2)\<rparr>)"
  have e': "e' = strip_content e3"
    using red by (simp add: makeRedacted_def e3_def Let_def split: if_splits)
  have c3: "clearEvent e3 = clearEvent e" and n3: "localRedactionEvent e3 = None" "replacingEvent e3 = None"
    by (simp_all add: e3_def Let_def ev_simps)
  have j3: "jget (event e3) c = jget (event e) c" if "c \<in> {''type'', ''content''}" for c
    using that by (auto simp: e3_def Let_def ev_simps js_simps REDACT_KEEP_KEYS_def)
  have t3: "getType e3 = getType e"
    by (rule getType_cong) (simp_all add: c3 j3)
  show ?thesis
  proof (cases "truthy (clearEvent e)")
    case True
    then show ?thesis
      by (cases "is_object (clearEvent e)")
        (auto simp: e' strip_content_def c3 t3 n3 getContent_def getOriginalContent_def js_simps not_object_jget)
  next
    case False
    have "jget (event e) ''content'' = JUndef" if "\<not> is_object (event e3)"
      using j3 [of "''content''"] not_object_jget [OF that] by simp
    with False show ?thesis
      by (cases "is_object (event e3)")
        (auto simp: e' strip_content_def c3 t3 n3 getContent_def getOriginalContent_def js_simps
          j3 ev_simps)
  qed
qed

text \<open>
  C1. Redacting an event erases its content: afterwards a content key reads as it did
  before when the redaction rules keep it for the event's type (or when it is the name of a
  property every object inherits), and as absent otherwise, whether the content
  was encrypted or not and whatever edits or local redactions were applied to the event.
\<close>

theorem makeRedacted_content:
  assumes red: "makeRedacted red e = Some e'"
  shows "jget (getContent e') k =
    (if keeps_key (getType e) k
     then jget (getOriginalContent (e\<lparr>localRedactionEvent := None\<rparr>)) k else JUndef)"
  using red by (rule jget_content_makeRedacted)

lemma getContent_cong:
  "clearEvent e = clearEvent e' \<Longrightarrow> jget (event e) ''content'' = jget (event e') ''content'' \<Longrightarrow>
   localRedactionEvent e = localRedactionEvent e' \<Longrightarrow> replacingEvent e = replacingEvent e' \<Longrightarrow>
   getContent e = getContent e'"
  by (simp add: getContent_def getOriginalContent_def split: option.split)

text \<open>
  Redacting keeps the identity of the event: the id, type, room, sender, state key and the
  time stay, every other top-level field but the content and the unsigned section is gone, the
  event answers that it is redacted, and the redaction it names is the redacting event.
\<close>

theorem makeRedacted_envelope:
  assumes "makeRedacted red e = Some e'" and "unsigned_ok e"
  shows "isRedacted e' \<and> (\<not> truthy (clearEvent e) \<longrightarrow> getRedactionEvent e' = event red) \<and>
    (\<forall>k. k \<notin> {''content'', ''unsigned''} \<longrightarrow>
      jget (event e') k = (if k \<in> set REDACT_KEEP_KEYS then jget (event e) k else JUndef))"
proof -
  define e2 where "e2 = set_redacted_because (event red)
      ((fire (EmBeforeRedaction (ev_ref red)) (e\<lparr>localRedactionEvent := None\<rparr>))\<lparr>replacingEvent := None\<rparr>)"
  define e3 where "e3 = e2\<lparr>event := strip_keys (\<lambda>k. k \<in> set REDACT_KEEP_KEYS) (event e2)\<rparr>"
  have e': "e' = strip_content e3" and tr: "truthy (event red)"
    using assms(1) by (simp_all add: makeRedacted_def e3_def e2_def Let_def split: if_splits)
  have "jget (getUnsigned e2) ''redacted_because'' = event red"
    unfolding e2_def by (rule redacted_because_unsigned) (use assms(2) in \<open>simp add: unsigned_ok_def ev_simps\<close>)
  then have u3: "jget (js_or (jget (event e3) ''unsigned'') empty_obj) ''redacted_because'' = event red"
    by (simp add: e3_def getUnsigned_def js_simps REDACT_KEEP_KEYS_def)
  have j3: "jget (event e') k = jget (event e3) k" if "k \<noteq> ''content''" for k
    using that by (auto simp: e' strip_content_def Let_def ev_simps js_simps)
  have "jget (event e3) k = (if k \<in> set REDACT_KEEP_KEYS then jget (event e) k else JUndef)"
    if "k \<noteq> ''unsigned''" for k
    using that by (simp add: e3_def e2_def js_simps ev_simps)
  moreover have "isRedacted e'"
    using u3 tr by (simp add: isRedacted_def getUnsigned_def j3)
  moreover have "getRedactionEvent e' = event red" if "\<not> truthy (clearEvent e)"
  proof -
    have "\<not> truthy (clearEvent e')"
      using that makeRedacted_fields [OF assms(1)] by simp
    then have "jget (clearEvent e') ''unsigned'' = JUndef"
      using truthy_object not_object_jget by blast
    moreover have "truthy (jget (event e3) ''unsigned'')"
      using u3 tr by (cases "truthy (jget (event e3) ''unsigned'')") (auto simp: js_simps)
    ultimately show ?thesis
      using \<open>isRedacted e'\<close> u3 tr by (simp add: getRedactionEvent_def js_simps j3)
  qed
  ultimately show ?thesis by (auto simp: j3)
qed

definition sample_message :: mx_event where
  "sample_message = new_event 1 (JObj
     [(''event_id'', JStr ''$1''), (''type'', JStr ''m.room.member''), (''extra'', JNull),
      (''content'', JObj [(''membership'', JStr ''join''), (''displayname'', JStr ''x''),
                         (''toString'', JStr ''y'')])])"

definition sample_redaction :: mx_event where
  "sample_redaction = new_event 2 (JObj [(''event_id'', JStr ''$2''), (''type'', JStr ''m.room.redaction'')])"

lemmas redact_eval = makeRedacted_def sample_message_def sample_redaction_def new_event_def Let_def
  set_redacted_because_def set_raw_def fire_def strip_content_def keeps_key_def REDACT_KEEP_KEYS_def
  REDACT_KEEP_CONTENT_MAP_def object_prototype_names_def getType_def getWireType_def empty_obj_def

lemma sample_redacted: "\<exists>e'. makeRedacted sample_redaction sample_message = Some e'"
  by (simp add: makeRedacted_def sample_redaction_def new_event_def Let_def)

theorem makeRedacted_content_witness:
  "\<exists>e'. makeRedacted sample_redaction sample_message = Some e' \<and>
     jget (getContent e') ''displayname'' = JUndef \<and> jget (getContent e') ''membership'' = JStr ''join''"
proof -
  obtain e' where e': "makeRedacted sample_redaction sample_message = Some e'"
    using sample_redacted by blast
  show ?thesis
    using e' makeRedacted_content [OF e', of "''displayname''"] makeRedacted_content [OF e', of "''membership''"]
    by (simp add: keeps_key_def getType_def getWireType_def sample_message_def new_event_def
        REDACT_KEEP_CONTENT_MAP_def object_prototype_names_def getOriginalContent_def js_simps)
qed

theorem makeRedacted_envelope_witness:
  "\<exists>e'. makeRedacted sample_redaction sample_message = Some e' \<and> isRedacted e' \<and>
     getRedactionEvent e' = event sample_redaction \<and> jget (event e') ''extra'' = JUndef"
proof -
  obtain e' where e': "makeRedacted sample_redaction sample_message = Some e'"
    using sample_redacted by blast
  have "unsigned_ok sample_message"
    by (simp add: unsigned_ok_def sample_message_def new_event_def)
  from makeRedacted_envelope [OF e' this] e' show ?thesis
    by (simp add: sample_message_def new_event_def REDACT_KEEP_KEYS_def)
qed

text \<open>
  The exception: \<open>keeps[key]\<close> is looked up in a plain object, so a content key that is
  the name of a property of \<open>Object.prototype\<close> survives the redaction of every event.
\<close>

theorem makeRedacted_inherited_name:
  assumes "makeRedacted red e = Some e'" and "k \<in> set object_prototype_names"
  shows "jget (getContent e') k = jget (getOriginalContent (e\<lparr>localRedactionEvent := None\<rparr>)) k"
proof -
  have "keeps_key (getType e) k"
    using assms(2) by (simp add: keeps_key_def)
  moreover have "jget (getContent e') k =
    (if keeps_key (getType e) k
     then jget (getOriginalContent (e\<lparr>localRedactionEvent := None\<rparr>)) k else JUndef)"
    by (rule jget_content_makeRedacted [OF assms(1)])
  ultimately show ?thesis by simp
qed

theorem makeRedacted_inherited_name_witness:
  "\<exists>e'. makeRedacted sample_redaction sample_message = Some e' \<and>
     jget (getContent e') ''toString'' = JStr ''y''"
proof -
  obtain e' where e': "makeRedacted sample_redaction sample_message = Some e'"
    using sample_redacted by blast
  have "''toString'' \<in> set object_prototype_names" by (simp add: object_prototype_names_def)
  from makeRedacted_inherited_name [OF e' this] e' show ?thesis
    by (simp add: sample_message_def new_event_def getOriginalContent_def js_simps)
qed

section \<open>Local redaction, local echo, edits and encryption\<close>

text \<open>
  A local redaction hides the content until it is taken back: while it is pending the event
  has empty content, is redacted and takes the status of the redaction; taking it back
  (after the redaction failed) reports that there was one, and content, type and the redacted flag are
  those of before.
\<close>

theorem markLocallyRedacted_undo:
  assumes "localRedactionEvent e = None" and "unsigned_ok e" and "\<not> isRedacted e"
    and "truthy (event red)" and "replacingEvent e = None"
  shows "let m = markLocallyRedacted red e; (had, u) = unmarkLocallyRedacted m in
    getContent m = empty_obj \<and> isRedacted m \<and> getAssociatedStatus m = status red \<and>
    had \<and> getContent u = getContent e \<and> getType u = getType e \<and> \<not> isRedacted u \<and>
    getAssociatedStatus u = status e"
proof -
  define m where "m = markLocallyRedacted red e"
  define u where "u = snd (unmarkLocallyRedacted m)"
  have m: "m = set_redacted_because (event red)
             ((fire (EmBeforeRedaction (ev_ref red)) e)
               \<lparr>localRedactionEvent := Some \<lparr>lr_ref = ev_ref red, lr_status = status red\<rparr>\<rparr>)"
    using assms(1) by (simp add: m_def markLocallyRedacted_def)
  have rm: "isRedacted m"
    unfolding isRedacted_def m
    by (subst redacted_because_unsigned) (use assms(2,4) in \<open>simp_all add: unsigned_ok_def ev_simps\<close>)
  have obj: "is_object (event m)"
    using assms(2) by (simp add: m ev_simps unsigned_ok_def)
  have u: "clearEvent u = clearEvent e" "localRedactionEvent u = None" "replacingEvent u = None"
    "k \<noteq> ''unsigned'' \<Longrightarrow> jget (event u) k = jget (event e) k" "status u = status e" for k
    by (auto simp: u_def unmarkLocallyRedacted_def m Let_def ev_simps js_simps assms(1,5))
  have "\<not> isRedacted u"
    using obj rm
    by (auto simp: u_def unmarkLocallyRedacted_def Let_def isRedacted_def getUnsigned_def js_simps ev_simps)
      (cases "is_object (jget (event m) ''unsigned'')"; simp add: js_simps not_object_jget)+
  moreover have "getContent u = getContent e"
    by (simp add: getContent_def getOriginalContent_def u assms(1,5))
  moreover have "getType u = getType e"
    by (rule getType_cong) (simp_all add: u)
  moreover have "getContent m = empty_obj" "getAssociatedStatus m = status red" "fst (unmarkLocallyRedacted m)"
    "getAssociatedStatus u = status e"
    by (simp_all add: m getContent_def getAssociatedStatus_def ev_simps assms(5) unmarkLocallyRedacted_def
        u Let_def)
  ultimately show ?thesis
    using rm by (simp add: Let_def split_beta m_def [symmetric] u_def [symmetric])
qed

theorem markLocallyRedacted_undo_witness:
  "\<not> isRedacted (snd (unmarkLocallyRedacted (markLocallyRedacted sample_redaction sample_message)))"
proof -
  have "localRedactionEvent sample_message = None" "unsigned_ok sample_message"
    "\<not> isRedacted sample_message" "truthy (event sample_redaction)" "replacingEvent sample_message = None"
    by (simp_all add: sample_message_def sample_redaction_def new_event_def unsigned_ok_def
        isRedacted_def getUnsigned_def js_simps)
  from markLocallyRedacted_undo [OF this] show ?thesis
    by (simp add: Let_def split_beta)
qed

text \<open>
  The remote echo of an event replaces its wire event and nothing the user did to it: it is no
  longer being sent, its id is the server's, a redaction made while it was in flight is kept, the
  status change is announced and so is a changed id.
\<close>

theorem handleRemoteEcho_keeps_redaction:
  assumes "unsigned_ok (e\<lparr>event := ev\<rparr>)"
  shows "let e' = handleRemoteEcho ev e in
    \<not> isSending e' \<and> getId e' = as_str (jget ev ''event_id'') \<and>
    (isRedacted e' \<longleftrightarrow> isRedacted e \<or> truthy (jget (jget ev ''unsigned'') ''redacted_because'')) \<and>
    getContent e' = getContent (e\<lparr>event := ev\<rparr>) \<and>
    fired e' = fired e @ EmStatus None #
      (if getId e' \<noteq> getId e then [EmLocalEventIdReplaced] else [])"
proof -
  define rb where "rb = jget (getUnsigned e) ''redacted_because''"
  define e2 where "e2 = (if truthy rb then set_redacted_because rb (e\<lparr>event := ev\<rparr>) else e\<lparr>event := ev\<rparr>)"
  have e2: "jget (event e2) ''event_id'' = jget ev ''event_id''" "jget (event e2) ''content'' = jget ev ''content''"
    "fired e2 = fired e" "clearEvent e2 = clearEvent e" "localRedactionEvent e2 = localRedactionEvent e"
    "replacingEvent e2 = replacingEvent e"
    by (simp_all add: e2_def ev_simps)
  have red: "truthy (jget (getUnsigned e2) ''redacted_because'') \<longleftrightarrow>
      truthy rb \<or> truthy (jget (jget ev ''unsigned'') ''redacted_because'')"
  proof (cases "truthy rb")
    case True
    then show ?thesis by (simp add: e2_def redacted_because_unsigned [OF assms])
  next
    case False
    moreover have "jget (jget ev ''unsigned'') k = JUndef" if "\<not> truthy (jget ev ''unsigned'')" for k
      using that truthy_object not_object_jget by blast
    ultimately show ?thesis
      by (cases "truthy (jget ev ''unsigned'')") (auto simp: e2_def getUnsigned_def js_simps)
  qed
  have "handleRemoteEcho ev e = (if as_str (jget ev ''event_id'') \<noteq> getId e
      then fire EmLocalEventIdReplaced (setStatus None e2) else setStatus None e2)"
    unfolding handleRemoteEcho_def Let_def rb_def [symmetric] e2_def [symmetric]
    by (simp add: getId_def setStatus_def ev_simps e2)
  moreover from this have "getContent (handleRemoteEcho ev e) = getContent (e\<lparr>event := ev\<rparr>)"
    by (intro getContent_cong) (simp_all add: setStatus_def ev_simps e2)
  ultimately show ?thesis
    using red by (simp add: Let_def isSending_def setStatus_def getId_def ev_simps e2 isRedacted_def
        getUnsigned_def rb_def)
qed

theorem handleRemoteEcho_keeps_redaction_witness:
  "isRedacted (handleRemoteEcho (JObj [(''event_id'', JStr ''$9'')])
     (markLocallyRedacted sample_redaction sample_message))"
proof -
  let ?e = "markLocallyRedacted sample_redaction sample_message"
  have "unsigned_ok (?e\<lparr>event := JObj [(''event_id'', JStr ''$9'')]\<rparr>)"
    by (simp add: unsigned_ok_def)
  moreover have "isRedacted ?e"
    by (simp add: markLocallyRedacted_def redact_eval isRedacted_def getUnsigned_def js_simps)
  ultimately show ?thesis
    using handleRemoteEcho_keeps_redaction [where e = ?e and ev = "JObj [(''event_id'', JStr ''$9'')]"]
    by (simp add: Let_def)
qed

text \<open>
  Encrypting an event changes what is sent and not what is read: the wire type and the wire
  content are those of the ciphertext, the type and the content the
  event answers with are still those of the plaintext.
\<close>

theorem makeEncrypted_transparent:
  assumes "is_object (event e)" and "\<not> truthy (clearEvent e)" and "is_object c"
  shows "let e' = makeEncrypted t c key claimed e in
    getWireType e' = Some t \<and> getWireContent e' = c \<and>
    getType e' = getType e \<and> getContent e' = getContent e \<and> getId e' = getId e \<and>
    senderCurve25519Key e' = key \<and> claimedEd25519Key e' = claimed \<and>
    (isEncrypted e' \<longleftrightarrow> \<not> isState e \<and> t = ''m.room.encrypted'') \<and> \<not> shouldAttemptDecryption e'"
  using assms truthy_object [OF assms(3)]
  by (auto simp: Let_def makeEncrypted_def set_raw_def getWireType_def getWireContent_def js_simps
      getType_def getContent_def getOriginalContent_def getId_def isEncrypted_def isState_def
      shouldAttemptDecryption_def split: option.splits)

theorem makeEncrypted_transparent_witness:
  "getType (makeEncrypted ''m.room.encrypted'' empty_obj None None sample_redaction) = Some ''m.room.redaction'' \<and>
   isEncrypted (makeEncrypted ''m.room.encrypted'' empty_obj None None sample_redaction)"
proof -
  have "is_object (event sample_redaction)" "\<not> truthy (clearEvent sample_redaction)" "is_object empty_obj"
    by (simp_all add: sample_redaction_def new_event_def empty_obj_def)
  from makeEncrypted_transparent [OF this, of "''m.room.encrypted''" None None] show ?thesis
    by (simp add: Let_def) (simp add: sample_redaction_def new_event_def getType_def getWireType_def isState_def)
qed

end
