(* ===== verification/Decryption.thy ===== *)
theory Decryption
  imports Event
begin

text \<open>
  The decryption of one event, \<open>attemptDecryption\<close> and \<open>decryptionLoop\<close> of
  \<^verbatim>\<open>src/models/event.ts\<close>, as a state machine: \<open>crypto.decryptEvent\<close> is asynchronous, so
  between the call and its result further attempts may arrive. The phase says where the loop is suspended: at the
  initial \<open>await Promise.resolve()\<close>, or at the \<open>await\<close> of a call. \<open>dc_calls\<close> counts
  the calls; \<open>dc_dirty\<close> and \<open>dc_ended\<close> are history variables (an accepted attempt
  that no call has started after; how the loop last ended) that no operation reads.
\<close>

section \<open>The state machine\<close>

datatype decrypt_outcome =
    Decrypted decryption_result
  | DecryptionError string
  | OtherError

datatype dec_phase = DecIdle | DecStarting "bool option" | DecWaiting "bool option"

datatype dec_ending = EndedOk | EndedFailed | EndedOther

record dec_state =
  dc_ev :: mx_event
  dc_phase :: dec_phase
  dc_calls :: nat
  dc_dirty :: bool
  dc_ended :: "dec_ending option"

definition attemptDecryption :: "bool option \<Rightarrow> dec_state \<Rightarrow> string + dec_state" where
  "attemptDecryption emit s =
     (let e = dc_ev s in
      if \<not> isEncrypted e then Inl ''Attempt to decrypt event which isn't encrypted''
      else if truthy (clearEvent e) \<and> \<not> isDecryptionFailure e
        then Inl ''Attempt to decrypt event which has already been decrypted''
      else if decryptionPromise e
        then Inr (s\<lparr>dc_ev := e\<lparr>retryDecryption := True\<rparr>, dc_dirty := True\<rparr>)
      else Inr (s\<lparr>dc_ev := e\<lparr>decryptionPromise := True\<rparr>, dc_phase := DecStarting emit,
                 dc_dirty := True\<rparr>))"

text \<open>The end of the loop body: a result, or a bad-encrypted message, becomes the clear event.\<close>

definition finish_decryption ::
  "bool option \<Rightarrow> bool \<Rightarrow> decryption_result \<Rightarrow> dec_state \<Rightarrow> dec_state" where
  "finish_decryption emit failed res s =
     (let e1 = setPushActions None
                 (setClearData res ((dc_ev s)\<lparr>decryptionPromise := False, retryDecryption := False\<rparr>));
          e2 = (if emit \<noteq> Some False then fire (EmDecrypted failed) e1 else e1)
      in s\<lparr>dc_ev := e2, dc_phase := DecIdle,
           dc_ended := Some (if failed then EndedFailed else EndedOk)\<rparr>)"

text \<open>The head of the loop body, up to the call of \<open>decryptEvent\<close>.\<close>

definition decryption_head :: "bool \<Rightarrow> bool option \<Rightarrow> dec_state \<Rightarrow> dec_state" where
  "decryption_head hasCrypto emit s =
     (let s1 = s\<lparr>dc_ev := (dc_ev s)\<lparr>retryDecryption := False\<rparr>, dc_dirty := False\<rparr> in
      if \<not> hasCrypto
      then finish_decryption emit False (badEncryptedMessage ''Encryption not enabled'') s1
      else s1\<lparr>dc_phase := DecWaiting emit, dc_calls := dc_calls s1 + 1\<rparr>)"

definition decryption_resume :: "bool option \<Rightarrow> decrypt_outcome \<Rightarrow> dec_state \<Rightarrow> dec_state" where
  "decryption_resume emit out s =
     (case out of
        Decrypted res \<Rightarrow> finish_decryption emit False res s
      | DecryptionError msg \<Rightarrow>
          if retryDecryption (dc_ev s) then decryption_head True emit s
          else finish_decryption emit True (badEncryptedMessage msg) s
      | OtherError \<Rightarrow>
          s\<lparr>dc_ev := (dc_ev s)\<lparr>decryptionPromise := False, retryDecryption := False\<rparr>,
            dc_phase := DecIdle, dc_ended := Some EndedOther\<rparr>)"

datatype dec_label = LAttempt "bool option" | LStart bool | LResult decrypt_outcome

inductive dec_step :: "dec_state \<Rightarrow> dec_label \<Rightarrow> dec_state \<Rightarrow> bool" where
  attempt: "attemptDecryption emit s = Inr s' \<Longrightarrow> dec_step s (LAttempt emit) s'"
| start: "dc_phase s = DecStarting emit \<Longrightarrow>
    dec_step s (LStart hasCrypto) (decryption_head hasCrypto emit s)"
| result: "dc_phase s = DecWaiting emit \<Longrightarrow>
    dec_step s (LResult out) (decryption_resume emit out s)"

inductive_cases dec_step_attemptE: "dec_step s (LAttempt emit) s'"
inductive_cases dec_step_startE: "dec_step s (LStart c) s'"
inductive_cases dec_step_resultE: "dec_step s (LResult out) s'"

definition dec_initial :: "mx_event \<Rightarrow> dec_state" where
  "dec_initial e = \<lparr>dc_ev = e, dc_phase = DecIdle, dc_calls = 0, dc_dirty = False, dc_ended = None\<rparr>"

inductive dec_runs :: "dec_state \<Rightarrow> dec_label list \<Rightarrow> dec_state \<Rightarrow> bool" where
  Nil: "dec_runs s [] s"
| Cons: "dec_step s l s' \<Longrightarrow> dec_runs s' ls s'' \<Longrightarrow> dec_runs s (l # ls) s''"

inductive_simps dec_runs_Nil [simp]: "dec_runs s [] s'"
inductive_simps dec_runs_Cons: "dec_runs s (l # ls) s'"

section \<open>No attempt is lost\<close>

definition dec_inv :: "dec_state \<Rightarrow> bool" where
  "dec_inv s \<longleftrightarrow>
     (decryptionPromise (dc_ev s) \<longleftrightarrow> dc_phase s \<noteq> DecIdle) \<and>
     (retryDecryption (dc_ev s) \<longrightarrow> dc_phase s \<noteq> DecIdle) \<and>
     (dc_dirty s \<longrightarrow>
        (case dc_phase s of
           DecIdle \<Rightarrow> dc_ended s \<in> {Some EndedOk, Some EndedOther}
         | DecStarting _ \<Rightarrow> True
         | DecWaiting _ \<Rightarrow> retryDecryption (dc_ev s)))"

lemma finish_simps [ev_simps]:
  "dc_phase (finish_decryption emit failed res s) = DecIdle"
  "decryptionPromise (dc_ev (finish_decryption emit failed res s)) = False"
  "retryDecryption (dc_ev (finish_decryption emit failed res s)) = False"
  "dc_dirty (finish_decryption emit failed res s) = dc_dirty s"
  "dc_ended (finish_decryption emit failed res s) = Some (if failed then EndedFailed else EndedOk)"
  "dc_calls (finish_decryption emit failed res s) = dc_calls s"
  by (simp_all add: finish_decryption_def Let_def setPushActions_def setClearData_def fire_def)

lemma dec_inv_attempt [inv_intros]:
  "attemptDecryption emit s = Inr s' \<Longrightarrow> dec_inv s \<Longrightarrow> dec_inv s'"
  by (auto simp: attemptDecryption_def dec_inv_def Let_def split: if_splits dec_phase.splits)

lemma dec_inv_head [inv_intros]:
  "dec_inv s \<Longrightarrow> dc_phase s \<noteq> DecIdle \<Longrightarrow> dec_inv (decryption_head hasCrypto emit s)"
  by (auto simp: decryption_head_def dec_inv_def Let_def ev_simps)

lemma dec_inv_resume [inv_intros]:
  "dec_inv s \<Longrightarrow> dc_phase s = DecWaiting emit \<Longrightarrow> dec_inv (decryption_resume emit out s)"
  by (cases out)
    (auto simp: decryption_resume_def decryption_head_def dec_inv_def Let_def ev_simps split: dec_phase.splits)

lemma dec_inv_step: "dec_step s l s' \<Longrightarrow> dec_inv s \<Longrightarrow> dec_inv s'"
  by (cases rule: dec_step.cases) (auto intro: inv_intros)

lemma dec_inv_runs: "dec_runs s ls s' \<Longrightarrow> dec_inv s \<Longrightarrow> dec_inv s'"
  by (induction rule: dec_runs.induct) (auto intro: dec_inv_step)

text \<open>
  C32. However attempts and results interleave, the event is marked as being decrypted exactly while
  the loop runs, and no attempt is lost: when the loop has given up
  on a decryption error, a call of \<open>decryptEvent\<close> started after the last accepted attempt.
\<close>

theorem decryption_retry_not_lost:
  assumes "dec_runs (dec_initial e) ls s"
    and "\<not> decryptionPromise e" and "\<not> retryDecryption e"
  shows "(isBeingDecrypted (dc_ev s) \<longleftrightarrow> dc_phase s \<noteq> DecIdle) \<and>
    (dc_phase s = DecIdle \<and> dc_ended s = Some EndedFailed \<longrightarrow> \<not> dc_dirty s)"
proof -
  have "dec_inv (dec_initial e)"
    using assms(2,3) by (simp add: dec_inv_def dec_initial_def)
  from dec_inv_runs [OF assms(1) this] show ?thesis
    by (auto simp: dec_inv_def isBeingDecrypted_def)
qed

definition sample_encrypted :: mx_event where
  "sample_encrypted = new_event 7 (JObj [(''type'', JStr ''m.room.encrypted'')])"

theorem decryption_retry_not_lost_witness:
  "\<exists>s. dec_runs (dec_initial sample_encrypted)
        [LAttempt None, LStart True, LAttempt None, LResult (DecryptionError ''no key''),
         LResult (DecryptionError ''no key'')] s \<and>
     dc_calls s = 2 \<and> dc_ended s = Some EndedFailed \<and> \<not> dc_dirty s"
proof -
  let ?e = "dec_initial sample_encrypted"
  obtain s1 where s1: "attemptDecryption None ?e = Inr s1" "dc_phase s1 = DecStarting None"
    "dc_ev s1 = sample_encrypted\<lparr>decryptionPromise := True\<rparr>" "dc_calls s1 = 0"
    by (simp add: attemptDecryption_def dec_initial_def sample_encrypted_def new_event_def isEncrypted_def
        isState_def getWireType_def)
  let ?s2 = "decryption_head True None s1"
  have s2: "dc_phase ?s2 = DecWaiting None" "dc_calls ?s2 = 1"
      "dc_ev ?s2 = sample_encrypted\<lparr>decryptionPromise := True, retryDecryption := False\<rparr>"
    by (simp_all add: decryption_head_def s1)
  obtain s3 where s3: "attemptDecryption None ?s2 = Inr s3" "dc_phase s3 = DecWaiting None" "dc_calls s3 = 1"
    "retryDecryption (dc_ev s3)"
    by (simp add: attemptDecryption_def s2)
      (simp add: sample_encrypted_def new_event_def isEncrypted_def isState_def getWireType_def s2)
  let ?s4 = "decryption_resume None (DecryptionError ''no key'') s3"
  have s4: "dc_phase ?s4 = DecWaiting None" "dc_calls ?s4 = 2" "\<not> retryDecryption (dc_ev ?s4)"
    by (simp_all add: decryption_resume_def decryption_head_def s3)
  let ?s5 = "decryption_resume None (DecryptionError ''no key'') ?s4"
  have s5: "dc_phase ?s5 = DecIdle" "dc_calls ?s5 = 2" "dc_ended ?s5 = Some EndedFailed"
    by (simp_all only: decryption_resume_def [of _ _ ?s4] decrypt_outcome.case s4 if_False finish_simps if_True)
  have run: "dec_runs ?e [LAttempt None, LStart True, LAttempt None, LResult (DecryptionError ''no key''),
         LResult (DecryptionError ''no key'')] ?s5"
    by (rule dec_runs.Cons [OF dec_step.attempt [OF s1(1)] dec_runs.Cons [OF dec_step.start [OF s1(2)]
          dec_runs.Cons [OF dec_step.attempt [OF s3(1)] dec_runs.Cons [OF dec_step.result [OF s3(2)]
          dec_runs.Cons [OF dec_step.result [OF s4(1)] dec_runs.Nil]]]]])
  from decryption_retry_not_lost [OF run] s5 have "\<not> dc_dirty ?s5"
    by (simp add: sample_encrypted_def new_event_def)
  with run s5 show ?thesis by blast
qed

lemma finish_failure:
  "isDecryptionFailure (dc_ev (finish_decryption emit True (badEncryptedMessage m) s))"
  by (simp add: finish_decryption_def Let_def setPushActions_def setClearData_def fire_def
      isDecryptionFailure_def badEncryptedMessage_def)

lemma resume_rest:
  assumes "\<not> retryDecryption (dc_ev s)"
  shows "dc_phase (decryption_resume emit out s) = DecIdle"
    and "dc_ended (decryption_resume emit out s) = Some EndedFailed \<Longrightarrow>
      isDecryptionFailure (dc_ev (decryption_resume emit out s))"
  using assms by (cases out; simp add: decryption_resume_def ev_simps finish_failure)+

lemma resume_retry:
  "dc_phase (decryption_resume emit out s) = DecWaiting emit' \<Longrightarrow> dc_phase s = DecWaiting emit \<Longrightarrow>
   \<not> retryDecryption (dc_ev (decryption_resume emit out s))"
  by (cases out) (auto simp: decryption_resume_def decryption_head_def ev_simps split: if_splits)

text \<open>
  The loop comes to rest: while a call is outstanding, at most two further results without a new attempt
  end it (a retry queued meanwhile costs one more call), and a failure leaves a
  clear event that says so, so that a later attempt is accepted again.
\<close>

theorem decryption_comes_to_rest:
  assumes "dc_phase s = DecWaiting emit"
    and "dec_runs s [LResult o1, LResult o2] s' \<or> (dec_runs s [LResult o1] s' \<and> \<not> retryDecryption (dc_ev s))"
  shows "dc_phase s' = DecIdle \<and>
    (dc_ended s' = Some EndedFailed \<longrightarrow> isDecryptionFailure (dc_ev s'))"
proof -
  obtain out s0 emit0 where s0: "\<not> retryDecryption (dc_ev s0)" "s' = decryption_resume emit0 out s0"
    using assms(2)
  proof
    assume "dec_runs s [LResult o1, LResult o2] s'"
    then show thesis
      using assms(1) resume_retry that [of "decryption_resume emit o1 s"] by (auto simp: dec_runs_Cons elim!: dec_step_resultE)
  next
    assume "dec_runs s [LResult o1] s' \<and> \<not> retryDecryption (dc_ev s)"
    then show thesis
      using that by (auto simp: dec_runs_Cons elim!: dec_step_resultE)
  qed
  then show ?thesis using resume_rest by blast
qed

theorem decryption_comes_to_rest_witness:
  "\<exists>s'. dec_runs ((dec_initial sample_encrypted)\<lparr>dc_phase := DecWaiting None,
           dc_ev := sample_encrypted\<lparr>decryptionPromise := True\<rparr>\<rparr>)
        [LResult (DecryptionError ''no key'')] s' \<and> isDecryptionFailure (dc_ev s')"
proof -
  let ?s = "(dec_initial sample_encrypted)\<lparr>dc_phase := DecWaiting None,
           dc_ev := sample_encrypted\<lparr>decryptionPromise := True\<rparr>\<rparr>"
  let ?s' = "decryption_resume None (DecryptionError ''no key'') ?s"
  have ph: "dc_phase ?s = DecWaiting None" and nr: "\<not> retryDecryption (dc_ev ?s)"
    by (simp_all add: dec_inv_def dec_initial_def sample_encrypted_def new_event_def)
  have run: "dec_runs ?s [LResult (DecryptionError ''no key'')] ?s'"
    by (rule dec_runs.Cons [OF dec_step.result [OF ph] dec_runs.Nil])
  have "dc_ended ?s' = Some EndedFailed"
    using nr by (simp add: decryption_resume_def ev_simps)
  with decryption_comes_to_rest [OF ph disjI2] run nr show ?thesis
    by blast
qed

end
