(* ===== verification/FilterDef.thy ===== *)
theory FilterDef
  imports Event
begin

text \<open>
  \<^verbatim>\<open>src/filter-component.ts\<close> and \<^verbatim>\<open>src/filter.ts\<close>: filter components, and the class
  \<open>Filter\<close> over a filter definition. Definitions are JSON. The timeline component of a filter
  holds a reference to the \<open>room.timeline\<close> object of the definition, so a later change of the
  definition shows through it: \<open>SharedTimeline\<close> is that reference, \<open>FreshTimeline\<close> the new
  object of \<open>roomFilterJson?.timeline || {}\<close>.
  The locale \<open>event_filter\<close> is what the timelines rely on.
\<close>

section \<open>Filter components\<close>

definition matchesWildcard :: "string \<Rightarrow> string \<Rightarrow> bool" where
  "matchesWildcard actualValue filterValue =
     (if filterValue \<noteq> [] \<and> last filterValue = CHR ''*''
      then (let typePrefix = butlast filterValue in take (length typePrefix) actualValue = typePrefix)
      else actualValue = filterValue)"

fun as_list :: "json \<Rightarrow> json list" where
  "as_list (JArr xs) = xs"
| "as_list _ = []"

text \<open>\<open>values?.some(matchFunc)\<close> over an array of strings.\<close>

definition some_match :: "(string \<Rightarrow> bool) \<Rightarrow> json \<Rightarrow> bool" where
  "some_match m vs = list_ex (\<lambda>v. case as_str v of Some s \<Rightarrow> m s | None \<Rightarrow> False) (as_list vs)"

definition literal_ok :: "json \<Rightarrow> string \<Rightarrow> (string \<Rightarrow> bool) \<Rightarrow> bool" where
  "literal_ok filterJson name m =
     (if some_match m (jget filterJson (''not_'' @ name)) then False
      else \<not> (truthy (jget filterJson name) \<and> \<not> some_match m (jget filterJson name)))"

definition literal_keys ::
  "string option \<Rightarrow> string option \<Rightarrow> string option \<Rightarrow> (string \<times> (string \<Rightarrow> bool)) list" where
  "literal_keys roomId senderId eventType =
     [(''rooms'', \<lambda>v. roomId = Some v),
      (''senders'', \<lambda>v. senderId = Some v),
      (''types'', \<lambda>v. case eventType of Some t \<Rightarrow> matchesWildcard t v | None \<Rightarrow> False)]"

definition checkFields ::
  "json \<Rightarrow> string option \<Rightarrow> string option \<Rightarrow> string option \<Rightarrow> bool \<Rightarrow> bool" where
  "checkFields filterJson roomId senderId eventType containsUrl =
     (if \<not> list_all (\<lambda>(name, m). literal_ok filterJson name m) (literal_keys roomId senderId eventType)
      then False
      else let containsUrlFilter = jget filterJson ''contains_url'' in
           \<not> (containsUrlFilter \<noteq> JUndef \<and> containsUrlFilter \<noteq> JBool containsUrl))"

definition component_check :: "json \<Rightarrow> mx_event \<Rightarrow> bool" where
  "component_check filterJson e =
     checkFields filterJson (getRoomId e) (getSender e) (getType e)
       (if truthy (getContent e) then jget (getContent e) ''url'' \<noteq> JUndef else False)"

definition component_toJSON :: "json \<Rightarrow> json" where
  "component_toJSON filterJson = JObj
     [(''types'', js_or (jget filterJson ''types'') JNull),
      (''not_types'', js_or (jget filterJson ''not_types'') (JArr [])),
      (''rooms'', js_or (jget filterJson ''rooms'') JNull),
      (''not_rooms'', js_or (jget filterJson ''not_rooms'') (JArr [])),
      (''senders'', js_or (jget filterJson ''senders'') JNull),
      (''not_senders'', js_or (jget filterJson ''not_senders'') (JArr [])),
      (''contains_url'', js_or (jget filterJson ''contains_url'') JNull)]"

definition component_filter :: "json \<Rightarrow> mx_event list \<Rightarrow> mx_event list" where
  "component_filter filterJson events = filter (component_check filterJson) events"

definition component_limit :: "json \<Rightarrow> json" where
  "component_limit filterJson =
     (if jget filterJson ''limit'' \<noteq> JUndef then jget filterJson ''limit'' else JNum 10)"

section \<open>Filters\<close>

fun js_split :: "char \<Rightarrow> string \<Rightarrow> string list" where
  "js_split c [] = [[]]"
| "js_split c (x # xs) =
     (if x = c then [] # js_split c xs
      else case js_split c xs of [] \<Rightarrow> [[x]] | w # ws \<Rightarrow> (x # w) # ws)"

fun set_path :: "string list \<Rightarrow> json \<Rightarrow> json \<Rightarrow> json" where
  "set_path [] v j = j"
| "set_path [k] v j = set_prop k v j"
| "set_path (k # ks) v j =
     set_prop k (set_path ks v (if \<not> truthy (jget j k) then empty_obj else jget j k)) j"

definition setProp :: "json \<Rightarrow> string \<Rightarrow> json \<Rightarrow> json" where
  "setProp obj keyNesting val = set_path (js_split (CHR ''.'') keyNesting) val obj"

datatype timeline_ref = SharedTimeline | FreshTimeline

record mx_filter =
  f_userId :: string
  f_filterId :: "string option"
  f_definition :: json
  f_roomFilter :: "json option"
  f_timelineRef :: "timeline_ref option"

definition new_filter :: "string \<Rightarrow> string option \<Rightarrow> mx_filter" where
  "new_filter userId filterId =
     \<lparr>f_userId = userId, f_filterId = filterId, f_definition = empty_obj,
      f_roomFilter = None, f_timelineRef = None\<rparr>"

definition roomFilterFields :: "json \<Rightarrow> json" where
  "roomFilterFields roomFilterJson =
     (if truthy roomFilterJson \<and> truthy (jget roomFilterJson ''rooms'')
      then JObj [(''rooms'', jget roomFilterJson ''rooms''),
                 (''not_rooms'', jget roomFilterJson ''not_rooms'')]
      else JObj [])"

definition setDefinition :: "json \<Rightarrow> mx_filter \<Rightarrow> mx_filter" where
  "setDefinition d f =
     f\<lparr>f_definition := d,
       f_roomFilter := Some (roomFilterFields (jget d ''room'')),
       f_timelineRef := Some (if truthy (jget (jget d ''room'') ''timeline'')
                              then SharedTimeline else FreshTimeline)\<rparr>"

definition filter_fromJson :: "string \<Rightarrow> string option \<Rightarrow> json \<Rightarrow> mx_filter" where
  "filter_fromJson userId filterId jsonObj = setDefinition jsonObj (new_filter userId filterId)"

text \<open>The component is \<open>undefined\<close> until a definition is set; calling it then throws (\<open>None\<close>).\<close>

definition getRoomTimelineFilterComponent :: "mx_filter \<Rightarrow> json option" where
  "getRoomTimelineFilterComponent f =
     (case f_timelineRef f of
        Some SharedTimeline \<Rightarrow> Some (jget (jget (f_definition f) ''room'') ''timeline'')
      | Some FreshTimeline \<Rightarrow> Some empty_obj
      | None \<Rightarrow> None)"

definition filterRoomTimeline :: "mx_filter \<Rightarrow> mx_event list \<Rightarrow> mx_event list option" where
  "filterRoomTimeline f events =
     (case (f_roomFilter f, getRoomTimelineFilterComponent f) of
        (Some rf, Some tf) \<Rightarrow> Some (component_filter tf (component_filter rf events))
      | _ \<Rightarrow> None)"

definition setTimelineLimit :: "json \<Rightarrow> mx_filter \<Rightarrow> mx_filter" where
  "setTimelineLimit limit f =
     f\<lparr>f_definition := setProp (f_definition f) ''room.timeline.limit'' limit\<rparr>"

definition setLazyLoadMembers :: "json \<Rightarrow> mx_filter \<Rightarrow> mx_filter" where
  "setLazyLoadMembers enabled f =
     f\<lparr>f_definition := setProp (f_definition f) ''room.state.lazy_load_members'' (JBool (truthy enabled))\<rparr>"

definition setIncludeLeaveRooms :: "json \<Rightarrow> mx_filter \<Rightarrow> mx_filter" where
  "setIncludeLeaveRooms includeLeave f =
     f\<lparr>f_definition := setProp (f_definition f) ''room.include_leave'' includeLeave\<rparr>"

section \<open>The contract of a filter\<close>

text \<open>
  What a client of \<open>filterRoomTimeline\<close> relies on: events are judged one by one and come
  back unchanged. Filtering a page in pieces is filtering it whole, and filtering twice is
  filtering once.
\<close>

locale event_filter =
  fixes run :: "'e list \<Rightarrow> 'e list"
  assumes run_append: "run (xs @ ys) = run xs @ run ys"
    and run_single: "run [x] = [] \<or> run [x] = [x]"
begin

lemma run_Nil: "run [] = []"
proof -
  have "run [] = run [] @ run []" using run_append [of "[]" "[]"] by simp
  then show ?thesis by (metis append_self_conv)
qed

lemma run_Cons: "run (x # xs) = run [x] @ run xs"
  using run_append [of "[x]" xs] by simp

lemma run_filter: "run xs = filter (\<lambda>x. run [x] = [x]) xs"
proof (induction xs)
  case (Cons x xs)
  then show ?case using run_Cons [of x xs] run_single [of x] by auto
qed (simp add: run_Nil)

lemma run_idem: "run (run xs) = run xs"
proof -
  let ?P = "\<lambda>x. run [x] = [x]"
  have "filter ?P (filter ?P xs) = filter ?P xs" by simp
  then show ?thesis by (metis run_filter)
qed

lemma run_subseq: "subseq (run xs) xs"
  by (subst run_filter) (rule subseq_filter_left)

lemma run_rev: "run (rev xs) = rev (run xs)"
  by (metis run_filter rev_filter)

lemma run_set: "x \<in> set (run xs) \<longleftrightarrow> x \<in> set xs \<and> run [x] = [x]"
proof -
  have "x \<in> set (filter (\<lambda>x. run [x] = [x]) xs) \<longleftrightarrow> x \<in> set xs \<and> run [x] = [x]" by simp
  then show ?thesis by (metis run_filter)
qed

lemma run_length: "length (run xs) \<le> length xs"
  by (metis run_filter length_filter_le)

end

definition run_filter_def_on :: "json \<Rightarrow> mx_event list \<Rightarrow> mx_event list" where
  "run_filter_def_on d events =
     (case filterRoomTimeline (filter_fromJson [] None d) events of Some evs \<Rightarrow> evs | None \<Rightarrow> [])"

definition timeline_component :: "json \<Rightarrow> json" where
  "timeline_component d = js_or (jget (jget d ''room'') ''timeline'') empty_obj"

lemma filterRoomTimeline_set:
  "filterRoomTimeline (setDefinition d f) events =
     Some (filter (\<lambda>e. component_check (roomFilterFields (jget d ''room'')) e \<and>
                       component_check (timeline_component d) e) events)"
  by (auto simp: filterRoomTimeline_def setDefinition_def getRoomTimelineFilterComponent_def
      component_filter_def timeline_component_def js_or_def conj_commute)

interpretation rf: event_filter "run_filter_def_on d" for d
  by unfold_locales (auto simp: run_filter_def_on_def filter_fromJson_def filterRoomTimeline_set)

section \<open>Properties of filters\<close>

text \<open>
  Once it has a definition, a filter judges events one by one: filtering keeps the order,
  filtering again changes nothing, a page may be filtered in pieces, and an event
  that stays is admitted by the timeline section: none of the excluded senders sent it and, when allowed senders are
  listed, one of them did.
\<close>

theorem filterRoomTimeline_sound:
  assumes "filterRoomTimeline (filter_fromJson u i d) events = Some kept"
  shows "subseq kept events \<and> filterRoomTimeline (filter_fromJson u i d) kept = Some kept \<and>
    (\<forall>e\<in>set kept. \<forall>s. getSender e = Some s \<longrightarrow>
       JStr s \<notin> set (as_list (jget (timeline_component d) ''not_senders'')) \<and>
       (truthy (jget (timeline_component d) ''senders'') \<longrightarrow>
          JStr s \<in> set (as_list (jget (timeline_component d) ''senders''))))"
proof -
  have kept: "kept = run_filter_def_on d events"
    using assms by (simp add: run_filter_def_on_def filter_fromJson_def filterRoomTimeline_set)
  have "filterRoomTimeline (filter_fromJson u i d) kept = Some (run_filter_def_on d kept)"
    by (simp add: run_filter_def_on_def filter_fromJson_def filterRoomTimeline_set)
  moreover have "component_check (timeline_component d) e" if "e \<in> set kept" for e
    using that assms by (auto simp: filter_fromJson_def filterRoomTimeline_set)
  moreover have "JStr s \<notin> set (as_list (jget c ''not_senders'')) \<and>
     (truthy (jget c ''senders'') \<longrightarrow> JStr s \<in> set (as_list (jget c ''senders'')))"
    if "component_check c e" "getSender e = Some s" for c e s
    using that
    by (auto simp: component_check_def checkFields_def literal_keys_def literal_ok_def some_match_def
        list_ex_iff split: if_splits option.splits elim!: as_str.elims)
  ultimately show ?thesis
    using rf.run_subseq [of d events] rf.run_idem [of d events] kept by auto
qed

definition sample_filter :: json where
  "sample_filter = JObj [(''room'', JObj [(''timeline'', JObj [(''not_senders'', JArr [JStr ''@spam'']),
     (''types'', JArr [JStr ''m.room.*''])])])]"

definition sample_event :: "nat \<Rightarrow> string \<Rightarrow> mx_event" where
  "sample_event r s = new_event r (JObj [(''room_id'', JStr ''!r''), (''sender'', JStr s),
     (''type'', JStr ''m.room.message'')])"

theorem filterRoomTimeline_sound_witness:
  "filterRoomTimeline (filter_fromJson ''@u'' None sample_filter) [sample_event 1 ''@spam'', sample_event 2 ''@bob'']
     = Some [sample_event 2 ''@bob''] \<and>
   subseq [sample_event 2 ''@bob''] [sample_event 1 ''@spam'', sample_event 2 ''@bob'']"
proof -
  have "filterRoomTimeline (filter_fromJson ''@u'' None sample_filter) [sample_event 1 ''@spam'', sample_event 2 ''@bob'']
     = Some [sample_event 2 ''@bob'']"
    by (simp add: filter_fromJson_def filterRoomTimeline_set component_check_def checkFields_def
        literal_keys_def literal_ok_def some_match_def sample_filter_def sample_event_def new_event_def
        roomFilterFields_def timeline_component_def js_or_def getRoomId_def getSender_def getType_def
        getWireType_def getContent_def getOriginalContent_def matchesWildcard_def Let_def)
  from this filterRoomTimeline_sound [OF this] show ?thesis by blast
qed

text \<open>
  A room filter without \<open>rooms\<close> ignores \<open>not_rooms\<close>: the guard of the assignment of
  \<open>not_rooms\<close> tests \<open>rooms\<close> (a slip of the pen), so an exclude-only room filter excludes nothing.
\<close>

theorem not_rooms_ignored:
  assumes "\<not> truthy (jget (jget d ''room'') ''rooms'')"
  shows "filterRoomTimeline (filter_fromJson u i d) events =
    Some (filter (component_check (timeline_component d)) events)"
proof -
  have "roomFilterFields (jget d ''room'') = JObj []"
    using assms by (simp add: roomFilterFields_def)
  moreover have "component_check (JObj []) e" for e
    by (simp add: component_check_def checkFields_def literal_keys_def literal_ok_def some_match_def)
  ultimately show ?thesis
    by (simp add: filter_fromJson_def filterRoomTimeline_set)
qed

theorem not_rooms_ignored_witness:
  "filterRoomTimeline (filter_fromJson ''@u'' None (JObj [(''room'', JObj [(''not_rooms'', JArr [JStr ''!r''])])]))
     [sample_event 2 ''@bob''] = Some [sample_event 2 ''@bob'']"
  by (subst not_rooms_ignored)
    (simp_all add: component_check_def checkFields_def literal_keys_def literal_ok_def some_match_def
        timeline_component_def js_or_def empty_obj_def)

lemma set_path_limit:
  assumes "is_object d" and "truthy (jget d ''room'') \<Longrightarrow> is_object (jget d ''room'')"
    and "truthy (jget (jget d ''room'') ''timeline'') \<Longrightarrow> is_object (jget (jget d ''room'') ''timeline'')"
  shows "jget (jget (setProp d ''room.timeline.limit'' v) ''room'') ''timeline'' =
    set_prop ''limit'' v (js_or (jget (jget d ''room'') ''timeline'') empty_obj)"
proof (cases "truthy (jget d ''room'')")
  case True
  with assms show ?thesis by (simp add: setProp_def js_simps)
next
  case False
  then have "jget (jget d ''room'') ''timeline'' = JUndef"
    using truthy_object not_object_jget by blast
  with False assms(1) show ?thesis
    by (simp add: setProp_def js_simps empty_obj_def)
qed

lemma literal_ok_limit:
  "name \<noteq> ''limit'' \<Longrightarrow> literal_ok (set_prop ''limit'' v c) name m = literal_ok c name m"
  by (simp add: literal_ok_def js_simps)

lemma component_check_limit: "component_check (set_prop ''limit'' v c) e = component_check c e"
  unfolding component_check_def checkFields_def literal_keys_def
  by (simp add: literal_ok_limit jget_set_prop_other cong: if_cong)

definition definition_ok :: "json \<Rightarrow> bool" where
  "definition_ok d \<longleftrightarrow> is_object d \<and>
     (truthy (jget d ''room'') \<longrightarrow> is_object (jget d ''room'')) \<and>
     (truthy (jget (jget d ''room'') ''timeline'') \<longrightarrow> is_object (jget (jget d ''room'') ''timeline''))"

text \<open>
  \<open>setTimelineLimit\<close> writes the limit into the definition and admits the same events as
  before. The timeline component sees the new limit exactly when the definition had a timeline section (then
  it holds a reference to it); otherwise it answers its default of ten, whatever limit the definition has.
\<close>

theorem setTimelineLimit_effect:
  assumes "definition_ok d" and "jget (jget (jget d ''room'') ''timeline'') ''limit'' = JUndef"
    and "v \<noteq> JUndef"
  shows "let f = filter_fromJson u i d; f' = setTimelineLimit v f in
    filterRoomTimeline f' events = filterRoomTimeline f events \<and>
    jget (jget (jget (f_definition f') ''room'') ''timeline'') ''limit'' = v \<and>
    map_option component_limit (getRoomTimelineFilterComponent f') =
      Some (if truthy (jget (jget d ''room'') ''timeline'') then v else JNum 10)"
proof -
  have tl: "jget (jget (setProp d ''room.timeline.limit'' v) ''room'') ''timeline'' =
      set_prop ''limit'' v (js_or (jget (jget d ''room'') ''timeline'') empty_obj)"
    using assms(1) by (intro set_path_limit) (simp_all add: definition_ok_def)
  have "is_object (js_or (jget (jget d ''room'') ''timeline'') empty_obj)"
    using assms(1) by (simp add: definition_ok_def js_or_def empty_obj_def)
  then have "jget (set_prop ''limit'' v (js_or (jget (jget d ''room'') ''timeline'') empty_obj)) ''limit'' = v"
    by (simp add: jget_set_prop)
  then show ?thesis
    using assms(2,3)
    by (cases "truthy (jget (jget d ''room'') ''timeline'')")
      (simp_all add: Let_def setTimelineLimit_def filter_fromJson_def setDefinition_def
        filterRoomTimeline_def getRoomTimelineFilterComponent_def tl component_limit_def js_simps
        component_filter_def component_check_limit split: option.split)
qed

theorem setTimelineLimit_effect_witness:
  "map_option component_limit (getRoomTimelineFilterComponent
     (setTimelineLimit (JNum 30) (filter_fromJson ''@u'' None (JObj [(''room'', JObj [])])))) = Some (JNum 10)"
proof -
  have "definition_ok (JObj [(''room'', JObj [])])" by (simp add: definition_ok_def)
  from setTimelineLimit_effect [OF this, of "JNum 30" "''@u''" None "[]"] show ?thesis
    by (simp add: Let_def)
qed

end
