(* ===== verification/RoomMember.thy ===== *)
theory RoomMember
  imports Event
begin

text \<open>
  \<^verbatim>\<open>src/models/room-member.ts\<close> and the string normalisation of \<^verbatim>\<open>src/utils.ts\<close> it uses.
  A member holds its membership event by value. \<open>now\<close> is the clock during the call
  (the code is synchronous). The package \<open>unhomoglyph\<close> is the
  parameter \<open>unh\<close>. On code units below 256, NFD followed by the removal of combining
  marks is the map to the base letter, \<open>latin_base\<close>. Levels are rationals: where the code
  divides, the model has the exact quotient.
\<close>

section \<open>Normalisation of names\<close>

definition latin_base :: "nat \<Rightarrow> nat" where
  "latin_base n =
     (if 192 \<le> n \<and> n \<le> 197 then 65 else if n = 199 then 67
      else if 200 \<le> n \<and> n \<le> 203 then 69 else if 204 \<le> n \<and> n \<le> 207 then 73
      else if n = 209 then 78 else if 210 \<le> n \<and> n \<le> 214 then 79
      else if 217 \<le> n \<and> n \<le> 220 then 85 else if n = 221 then 89
      else if 224 \<le> n \<and> n \<le> 229 then 97 else if n = 231 then 99
      else if 232 \<le> n \<and> n \<le> 235 then 101 else if 236 \<le> n \<and> n \<le> 239 then 105
      else if n = 241 then 110 else if 242 \<le> n \<and> n \<le> 246 then 111
      else if 249 \<le> n \<and> n \<le> 252 then 117 else if n = 253 \<or> n = 255 then 121
      else n)"

definition removeHiddenCharsRegex :: "nat \<Rightarrow> bool" where
  "removeHiddenCharsRegex n \<longleftrightarrow>
     (8192 \<le> n \<and> n \<le> 8207) \<or> (8234 \<le> n \<and> n \<le> 8239) \<or> (768 \<le> n \<and> n \<le> 879) \<or>
     n = 65279 \<or> n = 1564 \<or> (9 \<le> n \<and> n \<le> 13) \<or> n = 32 \<or> n = 160"

fun removeHiddenChars :: "(string \<Rightarrow> string) \<Rightarrow> json \<Rightarrow> string" where
  "removeHiddenChars unh (JStr s) =
     unh (map (\<lambda>c. char_of (latin_base (of_char c)))
            (filter (\<lambda>c. \<not> removeHiddenCharsRegex (of_char c)) s))"
| "removeHiddenChars unh _ = []"

fun removeDirectionOverrideChars :: "json \<Rightarrow> string" where
  "removeDirectionOverrideChars (JStr s) =
     filter (\<lambda>c. \<not> (8237 \<le> (of_char c :: nat) \<and> (of_char c :: nat) \<le> 8238)) s"
| "removeDirectionOverrideChars _ = []"

fun isNumber :: "json \<Rightarrow> bool" where
  "isNumber (JNum _) = True"
| "isNumber _ = False"

fun isInteger :: "json \<Rightarrow> bool" where
  "isInteger (JNum n) = (snd (quotient_of n) = 1)"
| "isInteger _ = False"

fun isSafeInteger :: "json \<Rightarrow> bool" where
  "isSafeInteger (JNum n) = (snd (quotient_of n) = 1 \<and> \<bar>n\<bar> \<le> 9007199254740991)"
| "isSafeInteger _ = False"

fun num_of :: "json \<Rightarrow> rat" where
  "num_of (JNum n) = n"
| "num_of _ = 0"

section \<open>Members\<close>

datatype rm_emission =
    RmMembership nat "string option"
  | RmName nat string
  | RmPowerLevel nat
  | RmTyping nat

record room_member =
  rm_roomId :: "string option"
  rm_userId :: string
  rm_isOutOfBand :: bool
  rm_modified :: nat
  rm_typing :: bool
  rm_name :: string
  rm_rawDisplayName :: string
  rm_powerLevel :: rat
  rm_powerLevelNorm :: rat
  rm_userAvatar :: "string option option"
  rm_membership :: "string option"
  rm_disambiguate :: bool
  rm_member :: "mx_event option"
  rm_fired :: "rm_emission list"

definition new_member :: "nat \<Rightarrow> string option \<Rightarrow> string \<Rightarrow> room_member" where
  "new_member now roomId userId =
     \<lparr>rm_roomId = roomId, rm_userId = userId, rm_isOutOfBand = False, rm_modified = now,
      rm_typing = False, rm_name = userId, rm_rawDisplayName = userId, rm_powerLevel = 0,
      rm_powerLevelNorm = 0, rm_userAvatar = None, rm_membership = None, rm_disambiguate = False,
      rm_member = None, rm_fired = []\<rparr>"

definition markOutOfBand :: "room_member \<Rightarrow> room_member" where
  "markOutOfBand m = m\<lparr>rm_isOutOfBand := True\<rparr>"

text \<open>The first statement returns; what follows it in the source is not reached.\<close>

definition shouldDisambiguate :: "string \<Rightarrow> json \<Rightarrow> bool" where
  "shouldDisambiguate selfUserId displayName = False"

definition calculateDisplayName ::
  "(string \<Rightarrow> string) \<Rightarrow> string \<Rightarrow> json \<Rightarrow> bool \<Rightarrow> string" where
  "calculateDisplayName unh selfUserId displayName disambiguate =
     (if disambiguate then removeDirectionOverrideChars displayName @ '' ('' @ selfUserId @ '')''
      else if \<not> truthy displayName \<or> displayName = JStr selfUserId then selfUserId
      else if removeHiddenChars unh displayName = [] then selfUserId
      else removeDirectionOverrideChars displayName)"

definition rm_emit :: "nat \<Rightarrow> rm_emission \<Rightarrow> room_member \<Rightarrow> room_member" where
  "rm_emit now em m = m\<lparr>rm_modified := now, rm_fired := rm_fired m @ [em]\<rparr>"

definition setMembershipEvent ::
  "(string \<Rightarrow> string) \<Rightarrow> nat \<Rightarrow> mx_event \<Rightarrow> room_member \<Rightarrow> room_member" where
  "setMembershipEvent unh now ev m =
     (let displayName = jget (getDirectionalContent ev) ''displayname'' in
      if getType ev \<noteq> Some ''m.room.member'' then m
      else
        let oldMembership = rm_membership m; oldName = rm_name m;
            newMembership = as_str (jget (getDirectionalContent ev) ''membership'');
            dis = shouldDisambiguate (rm_userId m) displayName;
            newName = calculateDisplayName unh (rm_userId m) displayName dis;
            raw = removeDirectionOverrideChars displayName;
            m1 = m\<lparr>rm_isOutOfBand := False, rm_member := Some ev, rm_membership := newMembership,
                   rm_disambiguate := dis, rm_name := newName,
                   rm_rawDisplayName :=
                     (if raw = [] \<or> removeHiddenChars unh (JStr raw) = [] then rm_userId m else raw)\<rparr>;
            m2 = (if oldMembership \<noteq> newMembership
                  then rm_emit now (RmMembership (ev_ref ev) oldMembership) m1 else m1)
        in if oldName \<noteq> newName then rm_emit now (RmName (ev_ref ev) oldName) m2 else m2)"

text \<open>The level an \<open>m.room.power_levels\<close> content gives a user, and its largest level.\<close>

definition level_in :: "json \<Rightarrow> string \<Rightarrow> rat" where
  "level_in evContent userId =
     (let lvl = jget (js_or (jget evContent ''users'') empty_obj) userId in
      if lvl \<noteq> JUndef \<and> isInteger lvl then num_of lvl
      else if jget evContent ''users_default'' \<noteq> JUndef then num_of (jget evContent ''users_default'')
      else 0)"

definition max_level_in :: "json \<Rightarrow> rat" where
  "max_level_in evContent =
     fold (\<lambda>(_, lvl) maxLevel. max maxLevel (num_of lvl))
       (entries (js_or (jget evContent ''users'') empty_obj))
       (num_of (js_or (jget evContent ''users_default'') (JNum 0)))"

definition setPowerLevelEvent :: "nat \<Rightarrow> mx_event \<Rightarrow> room_member \<Rightarrow> room_member" where
  "setPowerLevelEvent now ev m =
     (if getType ev \<noteq> Some ''m.room.power_levels'' then m
      else
        let evContent = getDirectionalContent ev; maxLevel = max_level_in evContent;
            level = level_in evContent (rm_userId m);
            norm = (if maxLevel > 0 then (level * 100) / maxLevel else 0);
            m1 = m\<lparr>rm_powerLevel := level, rm_powerLevelNorm := norm\<rparr>
        in if rm_powerLevel m \<noteq> level \<or> rm_powerLevelNorm m \<noteq> norm
           then rm_emit now (RmPowerLevel (ev_ref ev)) m1 else m1)"

definition member_setTypingEvent :: "nat \<Rightarrow> mx_event \<Rightarrow> room_member \<Rightarrow> room_member" where
  "member_setTypingEvent now ev m =
     (if getType ev \<noteq> Some ''m.typing'' then m
      else
        let oldTyping = rm_typing m; m1 = m\<lparr>rm_typing := False\<rparr> in
        case jget (getContent ev) ''user_ids'' of
          JArr typingList \<Rightarrow>
            (let m2 = (if JStr (rm_userId m) \<in> set typingList then m1\<lparr>rm_typing := True\<rparr> else m1)
             in if oldTyping \<noteq> rm_typing m2 then rm_emit now (RmTyping (ev_ref ev)) m2 else m2)
        | _ \<Rightarrow> m1)"

text \<open>\<open>None\<close> is the \<open>TypeError\<close> of reading the sender of a missing membership event.\<close>

definition isKicked :: "room_member \<Rightarrow> bool option" where
  "isKicked m =
     (if rm_membership m \<noteq> Some ''leave'' then Some False
      else case rm_member m of
             Some ev \<Rightarrow> Some (getSender ev \<noteq> getStateKey ev)
           | None \<Rightarrow> None)"

definition getDMInviter :: "room_member \<Rightarrow> json" where
  "getDMInviter m =
     (case rm_member m of
        None \<Rightarrow> JUndef
      | Some memberEvent \<Rightarrow>
          (let joined = jget (getContent memberEvent) ''membership'' = JStr ''join'';
               memberContent = (if joined then getPrevContent memberEvent else getContent memberEvent);
               inviteSender = (if joined then jget (getUnsigned memberEvent) ''prev_sender''
                               else of_str (getSender memberEvent))
           in if jget memberContent ''membership'' = JStr ''invite'' \<and> truthy (jget memberContent ''is_direct'')
              then inviteSender else JUndef))"

definition getMxcAvatarUrl :: "room_member \<Rightarrow> json" where
  "getMxcAvatarUrl m =
     (case rm_member m of
        Some ev \<Rightarrow> jget (getDirectionalContent ev) ''avatar_url''
      | None \<Rightarrow> (case rm_userAvatar m of Some a \<Rightarrow> of_str a | None \<Rightarrow> JNull))"

section \<open>Members follow their events\<close>

lemma rm_emit_simps [ev_simps]:
  "rm_userId (rm_emit now em m) = rm_userId m"
  "rm_powerLevel (rm_emit now em m) = rm_powerLevel m"
  "rm_powerLevelNorm (rm_emit now em m) = rm_powerLevelNorm m"
  "rm_membership (rm_emit now em m) = rm_membership m"
  "rm_name (rm_emit now em m) = rm_name m"
  "rm_isOutOfBand (rm_emit now em m) = rm_isOutOfBand m"
  "rm_member (rm_emit now em m) = rm_member m"
  "rm_fired (rm_emit now em m) = rm_fired m @ [em]"
  by (simp_all add: rm_emit_def)

lemma setMembershipEvent_simps [ev_simps]:
  "rm_userId (setMembershipEvent unh now ev m) = rm_userId m"
  "rm_powerLevel (setMembershipEvent unh now ev m) = rm_powerLevel m"
  by (simp_all add: setMembershipEvent_def Let_def ev_simps)

lemma setPowerLevelEvent_simps [ev_simps]:
  "rm_userId (setPowerLevelEvent now ev m) = rm_userId m"
  "rm_membership (setPowerLevelEvent now ev m) = rm_membership m"
  "rm_name (setPowerLevelEvent now ev m) = rm_name m"
  "rm_isOutOfBand (setPowerLevelEvent now ev m) = rm_isOutOfBand m"
  "rm_member (setPowerLevelEvent now ev m) = rm_member m"
  "getType ev = Some ''m.room.power_levels'' \<Longrightarrow>
     rm_powerLevel (setPowerLevelEvent now ev m) = level_in (getDirectionalContent ev) (rm_userId m)"
  by (simp_all add: setPowerLevelEvent_def Let_def ev_simps)

lemma setMembershipEvent_member [ev_simps]:
  assumes "getType ev = Some ''m.room.member''"
  shows "rm_member (setMembershipEvent unh now ev m) = Some ev"
    and "rm_membership (setMembershipEvent unh now ev m) = as_str (jget (getDirectionalContent ev) ''membership'')"
    and "rm_isOutOfBand (setMembershipEvent unh now ev m) = False"
  using assms by (simp_all add: setMembershipEvent_def Let_def ev_simps)

lemma max_level_fold:
  "fold (\<lambda>(_, lvl) maxLevel. max maxLevel (num_of lvl)) d a =
     Max (insert a (num_of ` snd ` set d))"
proof (induction d arbitrary: a)
  case (Cons x d)
  show ?case
  proof (cases "d = []")
    case True
    then show ?thesis by (cases x) (simp add: max.commute)
  next
    case False
    then have "Max (insert (max a (num_of (snd x))) (num_of ` snd ` set d)) =
        Max (insert a (insert (num_of (snd x)) (num_of ` snd ` set d)))"
      by (simp add: max.assoc)
    then show ?thesis by (cases x) (simp add: Cons.IH)
  qed
qed simp

lemma max_level_ge:
  "num_of (js_or (jget c ''users_default'') (JNum 0)) \<le> max_level_in c"
  "(k, v) \<in> set (entries (js_or (jget c ''users'') empty_obj)) \<Longrightarrow> num_of v \<le> max_level_in c"
  by (auto simp: max_level_in_def max_level_fold intro!: Max_ge) force+

lemma jget_entries: "jget j k \<noteq> JUndef \<Longrightarrow> (k, jget j k) \<in> set (entries j)"
  by (cases j) (auto split: option.splits dest: map_of_SomeD)

lemma level_le_max: "max_level_in c > 0 \<Longrightarrow> level_in c u \<le> max_level_in c"
proof -
  assume pos: "max_level_in c > 0"
  have "num_of (jget c ''users_default'') \<le> max_level_in c"
    using max_level_ge(1) [of c] pos by (cases "jget c ''users_default''") (auto simp: js_simps split: if_splits)
  then show ?thesis
    using max_level_ge(2) [OF jget_entries] pos by (auto simp: level_in_def Let_def)
qed

text \<open>
  The normalised power level is a percentage: after a power-levels event the member's level is the
  one the event gives its user, the normalised level is at most 100, and it is the same share of
  100 as the level is of the largest level whenever some level is positive. The
  member announces a change exactly when one of the two numbers changed.
\<close>

theorem setPowerLevelEvent_norm:
  assumes "getType ev = Some ''m.room.power_levels''"
  shows "let m' = setPowerLevelEvent now ev m; c = getDirectionalContent ev in
    rm_powerLevel m' = level_in c (rm_userId m) \<and> rm_powerLevelNorm m' \<le> 100 \<and>
    (max_level_in c > 0 \<longrightarrow> rm_powerLevelNorm m' * max_level_in c = 100 * rm_powerLevel m') \<and>
    (rm_fired m' = rm_fired m @ [RmPowerLevel (ev_ref ev)] \<longleftrightarrow>
       rm_powerLevel m' \<noteq> rm_powerLevel m \<or> rm_powerLevelNorm m' \<noteq> rm_powerLevelNorm m)"
proof -
  let ?c = "getDirectionalContent ev" and ?m' = "setPowerLevelEvent now ev m"
  have norm: "rm_powerLevelNorm ?m' =
      (if max_level_in ?c > 0 then (level_in ?c (rm_userId m) * 100) / max_level_in ?c else 0)"
    using assms by (simp add: setPowerLevelEvent_def Let_def ev_simps)
  have "rm_powerLevelNorm ?m' \<le> 100"
    using level_le_max [of ?c "rm_userId m"] by (simp add: norm field_simps)
  moreover have "rm_powerLevelNorm ?m' * max_level_in ?c = 100 * rm_powerLevel ?m'" if "max_level_in ?c > 0"
    using that assms by (simp add: norm ev_simps field_simps)
  moreover have "rm_fired ?m' = rm_fired m @ [RmPowerLevel (ev_ref ev)] \<longleftrightarrow>
       rm_powerLevel ?m' \<noteq> rm_powerLevel m \<or> rm_powerLevelNorm ?m' \<noteq> rm_powerLevelNorm m"
    using assms by (auto simp: setPowerLevelEvent_def Let_def ev_simps)
  ultimately show ?thesis
    using assms by (simp add: Let_def ev_simps)
qed

definition sample_levels :: mx_event where
  "sample_levels = new_event 3 (JObj [(''type'', JStr ''m.room.power_levels''), (''state_key'', JStr ''''),
     (''room_id'', JStr ''!r''), (''content'', JObj [(''users'', JObj [(''@a'', JNum 100), (''@b'', JNum 50)])])])"

theorem setPowerLevelEvent_norm_witness:
  "rm_powerLevel (setPowerLevelEvent 9 sample_levels (new_member 5 (Some ''!r'') ''@b'')) = 50 \<and>
   rm_powerLevelNorm (setPowerLevelEvent 9 sample_levels (new_member 5 (Some ''!r'') ''@b'')) \<le> 100"
proof -
  have "getType sample_levels = Some ''m.room.power_levels''"
    by (simp add: sample_levels_def new_event_def getType_def getWireType_def)
  from setPowerLevelEvent_norm [OF this, of 9 "new_member 5 (Some ''!r'') ''@b''"] show ?thesis
    by (simp add: Let_def)
      (simp add: sample_levels_def new_event_def getDirectionalContent_def getContent_def
        getOriginalContent_def level_in_def js_simps isInteger.simps new_member_def)
qed

end
