(* ===== verification/RoomState.thy ===== *)
theory RoomState
  imports RoomMember
begin

text \<open>
  \<^verbatim>\<open>src/models/room-state.ts\<close>: the class \<open>RoomState\<close>. Members, events and caches are the
  dictionaries of the class; \<open>rs_oob\<close> is the address of the shared \<open>oobMemberFlags\<close> object,
  whose status the heap \<open>oob_heap\<close> holds, so that a clone shares it. \<open>setStateEvents\<close>
  mutates leave and ban events it is given (it fakes a display name and an avatar): the model returns the
  events as they are afterwards and stores the mutated event where the original was stored.
  \<open>rs_fired\<close> lists the emissions with the identity of the event and the user.
\<close>

section \<open>State\<close>

datatype oob_status = OobNotStarted | OobInProgress | OobFinished

type_synonym oob_heap = "nat \<Rightarrow> oob_status"

datatype rs_emission =
    RsEvents nat "nat option"
  | RsMembers nat string
  | RsNewMember nat string

record room_state =
  rs_roomId :: "string option"
  rs_oob :: nat
  rs_sentinels :: "(string, room_member) dict"
  rs_displayNameToUserIds :: "(string, string list) dict"
  rs_userIdsToDisplayNames :: "(string, json) dict"
  rs_tokenToInvite :: "(string, mx_event) dict"
  rs_joinedMemberCount :: "nat option"
  rs_summaryJoined :: "nat option"
  rs_invitedMemberCount :: "nat option"
  rs_summaryInvited :: "nat option"
  rs_modified :: nat
  rs_members :: "(string, room_member) dict"
  rs_events :: "(string option, (string option, mx_event) dict) dict"
  rs_paginationToken :: "string option"
  rs_fired :: "rs_emission list"

definition new_room_state :: "nat \<Rightarrow> string option \<Rightarrow> nat \<Rightarrow> room_state" where
  "new_room_state now roomId oob =
     \<lparr>rs_roomId = roomId, rs_oob = oob, rs_sentinels = [], rs_displayNameToUserIds = [],
      rs_userIdsToDisplayNames = [], rs_tokenToInvite = [], rs_joinedMemberCount = None,
      rs_summaryJoined = None, rs_invitedMemberCount = None, rs_summaryInvited = None,
      rs_modified = now, rs_members = [], rs_events = [], rs_paginationToken = None, rs_fired = []\<rparr>"

definition getMembers :: "room_state \<Rightarrow> room_member list" where
  "getMembers s = dvals (rs_members s)"

definition getMembersExcept :: "string list \<Rightarrow> room_state \<Rightarrow> room_member list" where
  "getMembersExcept excludedIds s = filter (\<lambda>m. rm_userId m \<notin> set excludedIds) (getMembers s)"

definition getMember :: "string \<Rightarrow> room_state \<Rightarrow> room_member option" where
  "getMember userId s = dget (rs_members s) userId"

definition count_membership :: "string \<Rightarrow> room_state \<Rightarrow> nat" where
  "count_membership ms s =
     fold (\<lambda>m count. if rm_membership m = Some ms then count + 1 else count) (getMembers s) 0"

definition getJoinedMemberCount :: "room_state \<Rightarrow> nat \<times> room_state" where
  "getJoinedMemberCount s =
     (case rs_summaryJoined s of
        Some n \<Rightarrow> (n, s)
      | None \<Rightarrow>
          (case rs_joinedMemberCount s of
             Some n \<Rightarrow> (n, s)
           | None \<Rightarrow> (let n = count_membership ''join'' s in (n, s\<lparr>rs_joinedMemberCount := Some n\<rparr>))))"

definition setJoinedMemberCount :: "nat \<Rightarrow> room_state \<Rightarrow> room_state" where
  "setJoinedMemberCount count s = s\<lparr>rs_summaryJoined := Some count\<rparr>"

definition getInvitedMemberCount :: "room_state \<Rightarrow> nat \<times> room_state" where
  "getInvitedMemberCount s =
     (case rs_summaryInvited s of
        Some n \<Rightarrow> (n, s)
      | None \<Rightarrow>
          (case rs_invitedMemberCount s of
             Some n \<Rightarrow> (n, s)
           | None \<Rightarrow> (let n = count_membership ''invite'' s in (n, s\<lparr>rs_invitedMemberCount := Some n\<rparr>))))"

definition setInvitedMemberCount :: "nat \<Rightarrow> room_state \<Rightarrow> room_state" where
  "setInvitedMemberCount count s = s\<lparr>rs_summaryInvited := Some count\<rparr>"

text \<open>\<open>getStateEvents\<close>, its two overloads.\<close>

definition getStateEvents :: "string option \<Rightarrow> room_state \<Rightarrow> mx_event list" where
  "getStateEvents eventType s =
     (case dget (rs_events s) eventType of None \<Rightarrow> [] | Some byKey \<Rightarrow> dvals byKey)"

definition getStateEvent :: "string option \<Rightarrow> string option \<Rightarrow> room_state \<Rightarrow> mx_event option" where
  "getStateEvent eventType stateKey s =
     (case dget (rs_events s) eventType of None \<Rightarrow> None | Some byKey \<Rightarrow> dget byKey stateKey)"

section \<open>Sentinels\<close>

definition getSentinelMember ::
  "(string \<Rightarrow> string) \<Rightarrow> nat \<Rightarrow> string \<Rightarrow> room_state \<Rightarrow> room_member option \<times> room_state" where
  "getSentinelMember unh now userId s =
     (if userId = [] then (None, s)
      else case dget (rs_sentinels s) userId of
             Some sentinel \<Rightarrow> (Some sentinel, s)
           | None \<Rightarrow>
               (let sentinel0 = new_member now (rs_roomId s) userId;
                    sentinel = (case dget (rs_members s) userId of
                                  Some member \<Rightarrow>
                                    (case rm_member member of
                                       Some ev \<Rightarrow> setMembershipEvent unh now ev sentinel0
                                     | None \<Rightarrow> sentinel0)
                                | None \<Rightarrow> sentinel0)
                in (Some sentinel, s\<lparr>rs_sentinels := dset userId sentinel (rs_sentinels s)\<rparr>)))"

section \<open>Caches\<close>

definition updateThirdPartyTokenCache :: "mx_event \<Rightarrow> room_state \<Rightarrow> room_state" where
  "updateThirdPartyTokenCache memberEvent s =
     (let invite = jget (getContent memberEvent) ''third_party_invite'' in
      if \<not> truthy invite then s
      else case jget (js_or (jget invite ''signed'') empty_obj) ''token'' of
             JStr token \<Rightarrow>
               (if token = [] then s
                else if getStateEvent (Some ''m.room.third_party_invite'') (Some token) s = None then s
                else s\<lparr>rs_tokenToInvite := dset token memberEvent (rs_tokenToInvite s)\<rparr>)
           | _ \<Rightarrow> s)"

definition updateDisplayNameCache ::
  "(string \<Rightarrow> string) \<Rightarrow> string \<Rightarrow> json \<Rightarrow> room_state \<Rightarrow> room_state" where
  "updateDisplayNameCache unh userId displayName s =
     (let oldName = (case dget (rs_userIdsToDisplayNames s) userId of Some n \<Rightarrow> n | None \<Rightarrow> JUndef);
          names1 = ddel userId (rs_userIdsToDisplayNames s);
          ids0 = rs_displayNameToUserIds s;
          ids1 = (if truthy oldName
                  then (let strippedOldName = removeHiddenChars unh oldName in
                        case dget ids0 strippedOldName of
                          Some existingUserIds \<Rightarrow>
                            dset strippedOldName (filter (\<lambda>i. i \<noteq> userId) existingUserIds) ids0
                        | None \<Rightarrow> ids0)
                  else ids0);
          names2 = dset userId displayName names1;
          stripped = (if truthy displayName then removeHiddenChars unh displayName else []);
          ids2 = (if stripped \<noteq> []
                  then dset stripped
                         ((case dget ids1 stripped of Some us \<Rightarrow> us | None \<Rightarrow> []) @ [userId]) ids1
                  else ids1)
      in s\<lparr>rs_userIdsToDisplayNames := names2, rs_displayNameToUserIds := ids2\<rparr>)"

definition getUserIdsWithDisplayName :: "(string \<Rightarrow> string) \<Rightarrow> json \<Rightarrow> room_state \<Rightarrow> string list" where
  "getUserIdsWithDisplayName unh displayName s =
     (case dget (rs_displayNameToUserIds s) (removeHiddenChars unh displayName) of
        Some us \<Rightarrow> us | None \<Rightarrow> [])"

definition getInviteForThreePidToken :: "string \<Rightarrow> room_state \<Rightarrow> mx_event option" where
  "getInviteForThreePidToken token s = dget (rs_tokenToInvite s) token"

section \<open>Setting state\<close>

definition rs_emit :: "rs_emission \<Rightarrow> room_state \<Rightarrow> room_state" where
  "rs_emit em s = s\<lparr>rs_fired := rs_fired s @ [em]\<rparr>"

definition setStateEvent :: "mx_event \<Rightarrow> room_state \<Rightarrow> room_state" where
  "setStateEvent ev s =
     (let byKey = (case dget (rs_events s) (getType ev) of Some d \<Rightarrow> d | None \<Rightarrow> []) in
      s\<lparr>rs_events := dset (getType ev) (dset (getStateKey ev) ev byKey) (rs_events s)\<rparr>)"

definition getStateEventMatching :: "mx_event \<Rightarrow> room_state \<Rightarrow> mx_event option" where
  "getStateEventMatching ev s =
     (case dget (rs_events s) (getType ev) of
        None \<Rightarrow> None | Some byKey \<Rightarrow> dget byKey (getStateKey ev))"

definition getOrCreateMember :: "nat \<Rightarrow> string \<Rightarrow> mx_event \<Rightarrow> room_state \<Rightarrow> room_member \<times> room_state" where
  "getOrCreateMember now userId ev s =
     (case dget (rs_members s) userId of
        Some member \<Rightarrow> (member, s)
      | None \<Rightarrow>
          (let member = new_member now (rs_roomId s) userId in
           (member, rs_emit (RsNewMember (ev_ref ev) userId)
                      (s\<lparr>rs_members := dset userId member (rs_members s)\<rparr>))))"

definition updateMember :: "nat \<Rightarrow> room_member \<Rightarrow> room_state \<Rightarrow> room_state" where
  "updateMember now member s =
     (let member1 = (case getStateEvent (Some ''m.room.power_levels'') (Some []) s of
                       Some pl \<Rightarrow> setPowerLevelEvent now pl member
                     | None \<Rightarrow> member)
      in s\<lparr>rs_sentinels := ddel (rm_userId member) (rs_sentinels s),
           rs_members := dset (rm_userId member) member1 (rs_members s),
           rs_joinedMemberCount := None, rs_invitedMemberCount := None\<rparr>)"

definition applies_to :: "room_state \<Rightarrow> mx_event \<Rightarrow> bool" where
  "applies_to s ev \<longleftrightarrow> getRoomId ev = rs_roomId s \<and> isState ev"

definition set_core_state :: "(string \<Rightarrow> string) \<Rightarrow> mx_event \<Rightarrow> room_state \<Rightarrow> room_state" where
  "set_core_state unh ev s =
     (if getRoomId ev \<noteq> rs_roomId s then s
      else if \<not> isState ev then s
      else
        let lastStateEvent = getStateEventMatching ev s;
            s1 = setStateEvent ev s;
            s2 = (if getType ev = Some ''m.room.member''
                  then updateThirdPartyTokenCache ev
                         (updateDisplayNameCache unh (case getStateKey ev of Some k \<Rightarrow> k | None \<Rightarrow> [])
                            (jget (getContent ev) ''displayname'') s1)
                  else s1)
        in rs_emit (RsEvents (ev_ref ev) (map_option ev_ref lastStateEvent)) s2)"

text \<open>An assignment to a property of the object that \<open>getContent()\<close> returns.\<close>

definition set_content_prop :: "string \<Rightarrow> json \<Rightarrow> mx_event \<Rightarrow> mx_event" where
  "set_content_prop k v ev =
     (if localRedactionEvent ev \<noteq> None then ev
      else case replacingEvent ev of
             Some r \<Rightarrow> (if truthy (rv_newContent r)
                        then ev\<lparr>replacingEvent := Some (r\<lparr>rv_newContent := set_prop k v (rv_newContent r)\<rparr>)\<rparr>
                        else ev)
           | None \<Rightarrow>
               if truthy (clearEvent ev)
               then (if truthy (jget (clearEvent ev) ''content'')
                     then ev\<lparr>clearEvent := set_prop ''content''
                                (set_prop k v (jget (clearEvent ev) ''content'')) (clearEvent ev)\<rparr>
                     else ev)
               else (if truthy (jget (event ev) ''content'')
                     then set_raw ''content'' (set_prop k v (jget (event ev) ''content'')) ev
                     else ev))"

definition fake_profile :: "mx_event \<Rightarrow> mx_event" where
  "fake_profile ev =
     (if jget (getContent ev) ''membership'' \<in> {JStr ''leave'', JStr ''ban''}
      then
        let ev1 = set_content_prop ''avatar_url''
                    (js_or (jget (getContent ev) ''avatar_url'') (jget (getPrevContent ev) ''avatar_url'')) ev
        in set_content_prop ''displayname''
             (js_or (jget (getContent ev1) ''displayname'') (jget (getPrevContent ev1) ''displayname'')) ev1
      else ev)"

text \<open>The object is shared with the dictionaries that already hold it.\<close>

definition sync_event :: "mx_event \<Rightarrow> room_state \<Rightarrow> room_state" where
  "sync_event ev s =
     (let s1 = (if map_option ev_ref (getStateEventMatching ev s) = Some (ev_ref ev)
                then setStateEvent ev s else s)
      in s1\<lparr>rs_tokenToInvite :=
             map (\<lambda>(k, e). (k, if ev_ref e = ev_ref ev then ev else e)) (rs_tokenToInvite s1)\<rparr>)"

definition set_levels :: "nat \<Rightarrow> mx_event \<Rightarrow> string \<Rightarrow> room_state \<Rightarrow> room_state" where
  "set_levels now ev userId s =
     (case dget (rs_members s) userId of
        None \<Rightarrow> s
      | Some member \<Rightarrow>
          (let member1 = setPowerLevelEvent now ev member;
               s1 = s\<lparr>rs_members := dset userId member1 (rs_members s)\<rparr>
           in if rm_modified member \<noteq> rm_modified member1
              then rs_emit (RsMembers (ev_ref ev) (rm_userId member)) s1 else s1))"

definition set_derived_state ::
  "(string \<Rightarrow> string) \<Rightarrow> nat \<Rightarrow> mx_event \<Rightarrow> room_state \<Rightarrow> mx_event \<times> room_state" where
  "set_derived_state unh now ev s =
     (if getRoomId ev \<noteq> rs_roomId s then (ev, s)
      else if \<not> isState ev then (ev, s)
      else if getType ev = Some ''m.room.member'' then
        (let userId = (case getStateKey ev of Some k \<Rightarrow> k | None \<Rightarrow> []);
             ev1 = fake_profile ev;
             s1 = sync_event ev1 s;
             (member, s2) = getOrCreateMember now userId ev1 s1;
             member1 = setMembershipEvent unh now ev1 member;
             s3 = updateMember now member1 s2
         in (ev1, rs_emit (RsMembers (ev_ref ev1) (rm_userId member1)) s3))
      else if getType ev = Some ''m.room.power_levels'' then
        (if getStateKey ev \<noteq> Some [] then (ev, s)
         else (ev, (fold (set_levels now ev) (dkeys (rs_members s)) s)\<lparr>rs_sentinels := []\<rparr>))
      else (ev, s))"

fun set_derived_states ::
  "(string \<Rightarrow> string) \<Rightarrow> nat \<Rightarrow> mx_event list \<Rightarrow> room_state \<Rightarrow> mx_event list \<times> room_state" where
  "set_derived_states unh now [] s = ([], s)"
| "set_derived_states unh now (ev # evs) s =
     (let (ev1, s1) = set_derived_state unh now ev s;
          (evs1, s2) = set_derived_states unh now evs s1
      in (ev1 # evs1, s2))"

definition setStateEvents ::
  "(string \<Rightarrow> string) \<Rightarrow> nat \<Rightarrow> mx_event list \<Rightarrow> room_state \<Rightarrow> mx_event list \<times> room_state" where
  "setStateEvents unh now stateEvents s =
     (let s1 = s\<lparr>rs_modified := now\<rparr>;
          s2 = fold (set_core_state unh) stateEvents s1
      in set_derived_states unh now stateEvents s2)"

definition setUnknownStateEvents ::
  "(string \<Rightarrow> string) \<Rightarrow> nat \<Rightarrow> mx_event list \<Rightarrow> room_state \<Rightarrow> room_state" where
  "setUnknownStateEvents unh now events s =
     (let unknownStateEvents = filter (\<lambda>ev. getStateEvent (getType ev) (getStateKey ev) s = None) events
      in snd (setStateEvents unh now unknownStateEvents s))"

section \<open>Out-of-band members\<close>

definition needsOutOfBandMembers :: "oob_heap \<Rightarrow> room_state \<Rightarrow> bool" where
  "needsOutOfBandMembers h s \<longleftrightarrow> h (rs_oob s) = OobNotStarted"

definition markOutOfBandMembersStarted :: "room_state \<Rightarrow> oob_heap \<Rightarrow> oob_heap" where
  "markOutOfBandMembersStarted s h =
     (if h (rs_oob s) \<noteq> OobNotStarted then h else h(rs_oob s := OobInProgress))"

definition markOutOfBandMembersFailed :: "room_state \<Rightarrow> oob_heap \<Rightarrow> oob_heap" where
  "markOutOfBandMembersFailed s h =
     (if h (rs_oob s) \<noteq> OobInProgress then h else h(rs_oob s := OobNotStarted))"

definition clearOutOfBandMembers :: "room_state \<Rightarrow> oob_heap \<Rightarrow> room_state \<times> oob_heap" where
  "clearOutOfBandMembers s h =
     (s\<lparr>rs_members := filter (\<lambda>e. \<not> rm_isOutOfBand (snd e)) (rs_members s)\<rparr>,
      h(rs_oob s := OobNotStarted))"

definition setOutOfBandMember ::
  "(string \<Rightarrow> string) \<Rightarrow> nat \<Rightarrow> mx_event \<Rightarrow> room_state \<Rightarrow> room_state" where
  "setOutOfBandMember unh now stateEvent s =
     (if getType stateEvent \<noteq> Some ''m.room.member'' then s
      else
        let userId = (case getStateKey stateEvent of Some k \<Rightarrow> k | None \<Rightarrow> []) in
        if (case getMember userId s of Some m \<Rightarrow> \<not> rm_isOutOfBand m | None \<Rightarrow> False) then s
        else
          let (member, s1) = getOrCreateMember now userId stateEvent s;
              member1 = markOutOfBand (setMembershipEvent unh now stateEvent member);
              s2 = updateDisplayNameCache unh (rm_userId member1) (JStr (rm_name member1)) s1;
              s3 = setStateEvent stateEvent s2;
              s4 = updateMember now member1 s3
          in rs_emit (RsMembers (ev_ref stateEvent) (rm_userId member1)) s4)"

definition setOutOfBandMembers ::
  "(string \<Rightarrow> string) \<Rightarrow> nat \<Rightarrow> mx_event list \<Rightarrow> room_state \<Rightarrow> oob_heap \<Rightarrow> room_state \<times> oob_heap" where
  "setOutOfBandMembers unh now stateEvents s h =
     (if h (rs_oob s) \<noteq> OobInProgress then (s, h)
      else (fold (setOutOfBandMember unh now) stateEvents s, h(rs_oob s := OobFinished)))"

definition rs_setTypingEvent :: "nat \<Rightarrow> mx_event \<Rightarrow> room_state \<Rightarrow> room_state" where
  "rs_setTypingEvent now ev s =
     s\<lparr>rs_members := map (\<lambda>(u, m). (u, member_setTypingEvent now ev m)) (rs_members s)\<rparr>"

text \<open>
  \<open>clone\<close>: the flags object is shared. While events are copied its status reads
  \<open>NotStarted\<close>; it is put back afterwards. A member the copy does not have makes the
  last loop throw (\<open>None\<close>).
\<close>

fun copy_oob_flags :: "room_member list \<Rightarrow> room_state \<Rightarrow> room_state option" where
  "copy_oob_flags [] c = Some c"
| "copy_oob_flags (member # ms) c =
     (if rm_isOutOfBand member
      then (case getMember (rm_userId member) c of
              Some cm \<Rightarrow>
                copy_oob_flags ms (c\<lparr>rs_members := dset (rm_userId member) (markOutOfBand cm) (rs_members c)\<rparr>)
            | None \<Rightarrow> None)
      else copy_oob_flags ms c)"

definition rs_clone :: "(string \<Rightarrow> string) \<Rightarrow> nat \<Rightarrow> room_state \<Rightarrow> oob_heap \<Rightarrow> room_state option" where
  "rs_clone unh now s h =
     (let copy0 = new_room_state now (rs_roomId s) (rs_oob s);
          copy1 = fold (\<lambda>byKey c. snd (setStateEvents unh now (dvals byKey) c)) (dvals (rs_events s)) copy0;
          copy2 = (case rs_summaryInvited s of
                     Some n \<Rightarrow> setInvitedMemberCount (fst (getInvitedMemberCount s)) copy1 | None \<Rightarrow> copy1);
          copy3 = (case rs_summaryJoined s of
                     Some n \<Rightarrow> setJoinedMemberCount (fst (getJoinedMemberCount s)) copy2 | None \<Rightarrow> copy2)
      in if h (rs_oob s) = OobFinished then copy_oob_flags (getMembers s) copy3 else Some copy3)"

section \<open>Permissions\<close>

definition hasSufficientPowerLevelFor :: "string \<Rightarrow> rat \<Rightarrow> room_state \<Rightarrow> bool" where
  "hasSufficientPowerLevelFor action powerLevel s =
     (let powerLevels = (case getStateEvent (Some ''m.room.power_levels'') (Some []) s of
                           Some ev \<Rightarrow> getContent ev | None \<Rightarrow> empty_obj);
          requiredLevel = (if isNumber (jget powerLevels action) then num_of (jget powerLevels action) else 50)
      in powerLevel \<ge> requiredLevel)"

definition maySendEventOfType :: "string \<Rightarrow> string \<Rightarrow> bool \<Rightarrow> room_state \<Rightarrow> bool" where
  "maySendEventOfType eventType userId state s =
     (let (eventsLevels, stateDefault, eventsDefault, powerLevel) =
        (case getStateEvent (Some ''m.room.power_levels'') (Some []) s of
           None \<Rightarrow> (empty_obj, 0, 0, 0)
         | Some ev \<Rightarrow>
             let powerLevels = getContent ev;
                 userPowerLevel = jget (jget powerLevels ''users'') userId
             in (js_or (jget powerLevels ''events'') empty_obj,
                 (if isSafeInteger (jget powerLevels ''state_default'')
                  then num_of (jget powerLevels ''state_default'') else 50),
                 (if isSafeInteger (jget powerLevels ''events_default'')
                  then num_of (jget powerLevels ''events_default'') else 0),
                 (if isSafeInteger userPowerLevel then num_of userPowerLevel
                  else if isSafeInteger (jget powerLevels ''users_default'')
                  then num_of (jget powerLevels ''users_default'') else 0)));
        requiredLevel0 = (if state then stateDefault else eventsDefault);
        requiredLevel = (if isSafeInteger (jget eventsLevels eventType)
                         then num_of (jget eventsLevels eventType) else requiredLevel0)
      in powerLevel \<ge> requiredLevel)"

definition maySendMessage :: "string \<Rightarrow> room_state \<Rightarrow> bool" where
  "maySendMessage userId s = maySendEventOfType ''m.room.message'' userId False s"

definition maySendEvent :: "string \<Rightarrow> string \<Rightarrow> room_state \<Rightarrow> bool" where
  "maySendEvent eventType userId s = maySendEventOfType eventType userId False s"

definition maySendStateEvent :: "string \<Rightarrow> string \<Rightarrow> room_state \<Rightarrow> bool" where
  "maySendStateEvent stateEventType userId s = maySendEventOfType stateEventType userId True s"

definition mayClientSendStateEvent :: "string \<Rightarrow> bool \<Rightarrow> string \<Rightarrow> room_state \<Rightarrow> bool" where
  "mayClientSendStateEvent stateEventType isGuest userId s =
     (if isGuest then False else maySendStateEvent stateEventType userId s)"

definition maySendRedactionForEvent :: "mx_event \<Rightarrow> string \<Rightarrow> room_state \<Rightarrow> bool" where
  "maySendRedactionForEvent mxEvent userId s =
     (case getMember userId s of
        None \<Rightarrow> False
      | Some member \<Rightarrow>
          if rm_membership member = Some ''leave'' then False
          else if status mxEvent \<noteq> None \<or> isRedacted mxEvent then False
          else let canRedact = maySendEvent ''m.room.redaction'' userId s in
               if getSender mxEvent = Some userId then canRedact
               else hasSufficientPowerLevelFor ''redact'' (rm_powerLevel member) s)"

definition mayTriggerNotifOfType :: "string \<Rightarrow> string \<Rightarrow> room_state \<Rightarrow> bool" where
  "mayTriggerNotifOfType notifLevelKey userId s =
     (case getMember userId s of
        None \<Rightarrow> False
      | Some member \<Rightarrow>
          (let notifLevel =
             (case getStateEvent (Some ''m.room.power_levels'') (Some []) s of
                Some ev \<Rightarrow>
                  (let n = jget (jget (getContent ev) ''notifications'') notifLevelKey in
                   if truthy (getContent ev) \<and> truthy (jget (getContent ev) ''notifications'') \<and> isNumber n
                   then num_of n else 50)
              | None \<Rightarrow> 50)
           in rm_powerLevel member \<ge> notifLevel))"

definition state_content_or :: "string \<Rightarrow> string \<Rightarrow> string \<Rightarrow> room_state \<Rightarrow> json" where
  "state_content_or eventType key dflt s =
     (let content = (case getStateEvent (Some eventType) (Some []) s of
                       Some ev \<Rightarrow> getContent ev | None \<Rightarrow> empty_obj)
      in js_or (jget content key) (JStr dflt))"

definition getJoinRule :: "room_state \<Rightarrow> json" where
  "getJoinRule = state_content_or ''m.room.join_rules'' ''join_rule'' ''invite''"

definition getHistoryVisibility :: "room_state \<Rightarrow> json" where
  "getHistoryVisibility = state_content_or ''m.room.history_visibility'' ''history_visibility'' ''shared''"

definition getGuestAccess :: "room_state \<Rightarrow> json" where
  "getGuestAccess = state_content_or ''m.room.guest_access'' ''guest_access'' ''forbidden''"

section \<open>What the operations touch\<close>

lemma rs_emit_fields [ev_simps]:
  "rs_roomId (rs_emit em s) = rs_roomId s" "rs_members (rs_emit em s) = rs_members s"
  "rs_events (rs_emit em s) = rs_events s" "rs_displayNameToUserIds (rs_emit em s) = rs_displayNameToUserIds s"
  "rs_userIdsToDisplayNames (rs_emit em s) = rs_userIdsToDisplayNames s"
  "rs_joinedMemberCount (rs_emit em s) = rs_joinedMemberCount s"
  "rs_invitedMemberCount (rs_emit em s) = rs_invitedMemberCount s"
  "rs_sentinels (rs_emit em s) = rs_sentinels s" "rs_oob (rs_emit em s) = rs_oob s"
  by (simp_all add: rs_emit_def)

lemma updateThirdPartyTokenCache_fields [ev_simps]:
  "rs_roomId (updateThirdPartyTokenCache e s) = rs_roomId s"
  "rs_members (updateThirdPartyTokenCache e s) = rs_members s"
  "rs_events (updateThirdPartyTokenCache e s) = rs_events s"
  "rs_displayNameToUserIds (updateThirdPartyTokenCache e s) = rs_displayNameToUserIds s"
  "rs_userIdsToDisplayNames (updateThirdPartyTokenCache e s) = rs_userIdsToDisplayNames s"
  "rs_joinedMemberCount (updateThirdPartyTokenCache e s) = rs_joinedMemberCount s"
  "rs_invitedMemberCount (updateThirdPartyTokenCache e s) = rs_invitedMemberCount s"
  by (simp_all add: updateThirdPartyTokenCache_def Let_def split: json.split)

lemma updateDisplayNameCache_fields [ev_simps]:
  "rs_roomId (updateDisplayNameCache unh u n s) = rs_roomId s"
  "rs_members (updateDisplayNameCache unh u n s) = rs_members s"
  "rs_events (updateDisplayNameCache unh u n s) = rs_events s"
  "rs_joinedMemberCount (updateDisplayNameCache unh u n s) = rs_joinedMemberCount s"
  "rs_invitedMemberCount (updateDisplayNameCache unh u n s) = rs_invitedMemberCount s"
  by (simp_all add: updateDisplayNameCache_def Let_def)

lemma setStateEvent_fields [ev_simps]:
  "rs_roomId (setStateEvent e s) = rs_roomId s" "rs_members (setStateEvent e s) = rs_members s"
  "rs_displayNameToUserIds (setStateEvent e s) = rs_displayNameToUserIds s"
  "rs_userIdsToDisplayNames (setStateEvent e s) = rs_userIdsToDisplayNames s"
  "rs_joinedMemberCount (setStateEvent e s) = rs_joinedMemberCount s"
  "rs_invitedMemberCount (setStateEvent e s) = rs_invitedMemberCount s"
  by (simp_all add: setStateEvent_def Let_def)

lemma sync_event_fields [ev_simps]:
  "rs_roomId (sync_event e s) = rs_roomId s" "rs_members (sync_event e s) = rs_members s"
  "rs_displayNameToUserIds (sync_event e s) = rs_displayNameToUserIds s"
  "rs_userIdsToDisplayNames (sync_event e s) = rs_userIdsToDisplayNames s"
  "rs_joinedMemberCount (sync_event e s) = rs_joinedMemberCount s"
  "rs_invitedMemberCount (sync_event e s) = rs_invitedMemberCount s"
  by (simp_all add: sync_event_def Let_def ev_simps)

lemma getOrCreateMember_fields [ev_simps]:
  "rs_roomId (snd (getOrCreateMember now u e s)) = rs_roomId s"
  "rs_events (snd (getOrCreateMember now u e s)) = rs_events s"
  "rs_displayNameToUserIds (snd (getOrCreateMember now u e s)) = rs_displayNameToUserIds s"
  "rs_userIdsToDisplayNames (snd (getOrCreateMember now u e s)) = rs_userIdsToDisplayNames s"
  "dget (rs_members (snd (getOrCreateMember now u e s))) v =
     (if v = u then Some (fst (getOrCreateMember now u e s)) else dget (rs_members s) v)"
  by (auto simp: getOrCreateMember_def Let_def ev_simps dict_simps split: option.split)

lemma updateMember_fields [ev_simps]:
  "rs_roomId (updateMember now m s) = rs_roomId s" "rs_events (updateMember now m s) = rs_events s"
  "rs_displayNameToUserIds (updateMember now m s) = rs_displayNameToUserIds s"
  "rs_userIdsToDisplayNames (updateMember now m s) = rs_userIdsToDisplayNames s"
  "rs_joinedMemberCount (updateMember now m s) = None"
  "rs_invitedMemberCount (updateMember now m s) = None"
  by (simp_all add: updateMember_def Let_def)

lemma getStateEvent_setStateEvent [ev_simps]:
  "getStateEvent t k (setStateEvent e s) =
     (if t = getType e \<and> k = getStateKey e then Some e else getStateEvent t k s)"
  by (auto simp: getStateEvent_def setStateEvent_def Let_def dict_simps split: option.splits)

lemma getStateEvent_cong: "rs_events s = rs_events s' \<Longrightarrow> getStateEvent t k s = getStateEvent t k s'"
  by (simp add: getStateEvent_def)

lemma getStateEventMatching_eq: "getStateEventMatching e s = getStateEvent (getType e) (getStateKey e) s"
  by (simp add: getStateEventMatching_def getStateEvent_def)

lemma getStateEvent_sync_event:
  "getStateEvent t k (sync_event e s) =
     (if t = getType e \<and> k = getStateKey e \<and> map_option ev_ref (getStateEvent t k s) = Some (ev_ref e)
      then Some e else getStateEvent t k s)"
proof -
  have "getStateEvent t k (sync_event e s) = getStateEvent t k
      (if map_option ev_ref (getStateEventMatching e s) = Some (ev_ref e) then setStateEvent e s else s)"
    by (rule getStateEvent_cong) (simp add: sync_event_def Let_def)
  then show ?thesis by (auto simp: ev_simps getStateEventMatching_eq)
qed

section \<open>The first pass: the core dictionary\<close>

lemma set_core_state_fields [ev_simps]:
  "rs_roomId (set_core_state unh e s) = rs_roomId s"
  "rs_members (set_core_state unh e s) = rs_members s"
  "rs_joinedMemberCount (set_core_state unh e s) = rs_joinedMemberCount s"
  "rs_invitedMemberCount (set_core_state unh e s) = rs_invitedMemberCount s"
  by (simp_all add: set_core_state_def Let_def ev_simps)

lemma fold_core_fields [ev_simps]:
  "rs_roomId (fold (set_core_state unh) evs s) = rs_roomId s"
  "rs_members (fold (set_core_state unh) evs s) = rs_members s"
  "rs_joinedMemberCount (fold (set_core_state unh) evs s) = rs_joinedMemberCount s"
  "rs_invitedMemberCount (fold (set_core_state unh) evs s) = rs_invitedMemberCount s"
  by (induction evs arbitrary: s) (simp_all add: ev_simps)

lemma getStateEvent_core:
  "getStateEvent t k (set_core_state unh e s) =
     (if applies_to s e \<and> getType e = t \<and> getStateKey e = k then Some e else getStateEvent t k s)"
proof (cases "applies_to s e")
  case True
  then have "getStateEvent t k (set_core_state unh e s) = getStateEvent t k (setStateEvent e s)"
    by (intro getStateEvent_cong) (simp add: set_core_state_def applies_to_def Let_def ev_simps)
  with True show ?thesis by (auto simp: ev_simps)
qed (auto simp: set_core_state_def applies_to_def)

definition last_for :: "room_state \<Rightarrow> string option \<Rightarrow> string option \<Rightarrow> mx_event list \<Rightarrow> mx_event option" where
  "last_for s t k evs =
     List.find (\<lambda>e. applies_to s e \<and> getType e = t \<and> getStateKey e = k) (rev evs)"

lemma find_append:
  "List.find P (xs @ ys) = (case List.find P xs of None \<Rightarrow> List.find P ys | Some x \<Rightarrow> Some x)"
  by (induction xs) auto

lemma applies_to_cong: "rs_roomId s = rs_roomId s' \<Longrightarrow> applies_to s = applies_to s'"
  by (simp add: applies_to_def fun_eq_iff)

lemma getStateEvent_fold_core:
  "getStateEvent t k (fold (set_core_state unh) evs s) =
     (case last_for s t k evs of Some e \<Rightarrow> Some e | None \<Rightarrow> getStateEvent t k s)"
proof (induction evs arbitrary: s)
  case (Cons e evs)
  have "last_for (set_core_state unh e s) t k evs = last_for s t k evs"
    using applies_to_cong [of "set_core_state unh e s" s] by (simp add: last_for_def ev_simps)
  then show ?case
    by (simp add: Cons.IH) (auto simp: getStateEvent_core last_for_def find_append split: option.split)
qed (simp add: last_for_def)

section \<open>The second pass: members and power levels\<close>

lemma set_content_prop_fields [ev_simps]:
  "ev_ref (set_content_prop k v e) = ev_ref e" "getType (set_content_prop k v e) = getType e"
  "getStateKey (set_content_prop k v e) = getStateKey e" "getRoomId (set_content_prop k v e) = getRoomId e"
  "isState (set_content_prop k v e) = isState e"
  by (auto simp: set_content_prop_def getType_def getWireType_def getStateKey_def getRoomId_def isState_def
      ev_simps js_simps split: option.split)

lemma fake_profile_fields [ev_simps]:
  "ev_ref (fake_profile e) = ev_ref e" "getType (fake_profile e) = getType e"
  "getStateKey (fake_profile e) = getStateKey e" "getRoomId (fake_profile e) = getRoomId e"
  "isState (fake_profile e) = isState e"
  by (simp_all add: fake_profile_def Let_def ev_simps)

text \<open>Members are stored under their user id.\<close>

definition members_ok :: "room_state \<Rightarrow> bool" where
  "members_ok s \<longleftrightarrow> (\<forall>u m. dget (rs_members s) u = Some m \<longrightarrow> rm_userId m = u)"

definition user_of :: "mx_event \<Rightarrow> string" where
  "user_of e = (case getStateKey e of Some k \<Rightarrow> k | None \<Rightarrow> [])"

lemma members_okD: "members_ok s \<Longrightarrow> dget (rs_members s) u = Some m \<Longrightarrow> rm_userId m = u"
  by (simp add: members_ok_def)

lemma getOrCreateMember_userId:
  "members_ok s \<Longrightarrow> rm_userId (fst (getOrCreateMember now u e s)) = u"
  by (auto simp: getOrCreateMember_def Let_def new_member_def members_ok_def split: option.split)

lemma dget_updateMember:
  "dget (rs_members (updateMember now m s)) u =
     (if u = rm_userId m
      then Some (case getStateEvent (Some ''m.room.power_levels'') (Some []) s of
                   Some pl \<Rightarrow> setPowerLevelEvent now pl m | None \<Rightarrow> m)
      else dget (rs_members s) u)"
  by (simp add: updateMember_def Let_def dict_simps)

lemma set_levels_fields [ev_simps]:
  "rs_roomId (set_levels now e u s) = rs_roomId s" "rs_events (set_levels now e u s) = rs_events s"
  "rs_displayNameToUserIds (set_levels now e u s) = rs_displayNameToUserIds s"
  "rs_userIdsToDisplayNames (set_levels now e u s) = rs_userIdsToDisplayNames s"
  "rs_joinedMemberCount (set_levels now e u s) = rs_joinedMemberCount s"
  "rs_invitedMemberCount (set_levels now e u s) = rs_invitedMemberCount s"
  "dget (rs_members (set_levels now e u s)) v =
     (if v = u then map_option (setPowerLevelEvent now e) (dget (rs_members s) u) else dget (rs_members s) v)"
  by (auto simp: set_levels_def Let_def ev_simps dict_simps split: option.split)

lemma fold_levels_fields [ev_simps]:
  "rs_roomId (fold (set_levels now e) us s) = rs_roomId s"
  "rs_events (fold (set_levels now e) us s) = rs_events s"
  "rs_displayNameToUserIds (fold (set_levels now e) us s) = rs_displayNameToUserIds s"
  "rs_userIdsToDisplayNames (fold (set_levels now e) us s) = rs_userIdsToDisplayNames s"
  "rs_joinedMemberCount (fold (set_levels now e) us s) = rs_joinedMemberCount s"
  "rs_invitedMemberCount (fold (set_levels now e) us s) = rs_invitedMemberCount s"
  by (induction us arbitrary: s) (simp_all add: ev_simps)

lemma members_ok_set_levels: "members_ok s \<Longrightarrow> members_ok (set_levels now e u s)"
  by (auto simp: members_ok_def ev_simps split: if_splits)

lemma members_ok_fold_levels: "members_ok s \<Longrightarrow> members_ok (fold (set_levels now e) us s)"
  by (induction us arbitrary: s) (simp_all add: members_ok_set_levels)

lemma fold_levels_level:
  assumes "getType e = Some ''m.room.power_levels''" and "members_ok s"
    and "u \<in> set us \<or> (\<forall>m. dget (rs_members s) u = Some m \<longrightarrow> rm_powerLevel m = level_in (getDirectionalContent e) u)"
    and "dget (rs_members (fold (set_levels now e) us s)) u = Some m"
  shows "rm_powerLevel m = level_in (getDirectionalContent e) u"
  using assms(2-)
proof (induction us arbitrary: s)
  case (Cons v us)
  have "u \<in> set us \<or> (\<forall>m. dget (rs_members (set_levels now e v s)) u = Some m \<longrightarrow>
      rm_powerLevel m = level_in (getDirectionalContent e) u)"
    using Cons.prems(1,2) assms(1) by (auto simp: ev_simps members_okD split: if_splits)
  from Cons.IH [OF members_ok_set_levels [OF Cons.prems(1)] this] Cons.prems(3) show ?case by simp
qed auto

text \<open>The result of one step of the second pass, by the kind of the event.\<close>

definition derived_member :: "(string \<Rightarrow> string) \<Rightarrow> nat \<Rightarrow> mx_event \<Rightarrow> room_state \<Rightarrow> room_state" where
  "derived_member unh now e s =
     (let e1 = fake_profile e;
          g = getOrCreateMember now (user_of e) e1 (sync_event e1 s);
          m1 = setMembershipEvent unh now e1 (fst g)
      in rs_emit (RsMembers (ev_ref e1) (rm_userId m1)) (updateMember now m1 (snd g)))"

lemma set_derived_state_cases:
  obtains (skip) "set_derived_state unh now e s = (e, s)"
      "\<not> applies_to s e \<or> (getType e \<noteq> Some ''m.room.member'' \<and>
        \<not> (getType e = Some ''m.room.power_levels'' \<and> getStateKey e = Some []))"
  | (member) "set_derived_state unh now e s = (fake_profile e, derived_member unh now e s)"
      "applies_to s e" "getType e = Some ''m.room.member''"
  | (levels) "set_derived_state unh now e s =
        (e, (fold (set_levels now e) (dkeys (rs_members s)) s)\<lparr>rs_sentinels := []\<rparr>)"
      "applies_to s e" "getType e = Some ''m.room.power_levels''" "getStateKey e = Some []"
proof (cases "applies_to s e")
  case False
  then have "set_derived_state unh now e s = (e, s)"
    by (auto simp: set_derived_state_def applies_to_def)
  with False show ?thesis using skip by blast
next
  case ap: True
  show ?thesis
  proof (cases "getType e = Some ''m.room.member''")
    case True
    then have "set_derived_state unh now e s = (fake_profile e, derived_member unh now e s)"
      using ap by (simp add: set_derived_state_def derived_member_def applies_to_def Let_def split_beta
          user_of_def ev_simps)
    with True ap show ?thesis using member by blast
  next
    case False
    then show ?thesis
      using ap skip levels
      by (cases "getType e = Some ''m.room.power_levels'' \<and> getStateKey e = Some []")
        (auto simp: set_derived_state_def applies_to_def)
  qed
qed

lemma derived_member_fields [ev_simps]:
  "rs_roomId (derived_member unh now e s) = rs_roomId s"
  "rs_displayNameToUserIds (derived_member unh now e s) = rs_displayNameToUserIds s"
  "rs_userIdsToDisplayNames (derived_member unh now e s) = rs_userIdsToDisplayNames s"
  "rs_joinedMemberCount (derived_member unh now e s) = None"
  "rs_invitedMemberCount (derived_member unh now e s) = None"
  "getStateEvent t k (derived_member unh now e s) = getStateEvent t k (sync_event (fake_profile e) s)"
  by (simp_all add: derived_member_def Let_def ev_simps getStateEvent_def)

lemma members_ok_sync [ev_simps]: "members_ok (sync_event e s) = members_ok s"
  by (simp add: members_ok_def ev_simps)

lemma dget_derived_member:
  assumes "members_ok s"
  shows "dget (rs_members (derived_member unh now e s)) u =
    (if u = user_of e
     then (let e1 = fake_profile e; s1 = sync_event e1 s;
               m1 = setMembershipEvent unh now e1 (fst (getOrCreateMember now (user_of e) e1 s1))
           in Some (case getStateEvent (Some ''m.room.power_levels'') (Some []) s1 of
                      Some pl \<Rightarrow> setPowerLevelEvent now pl m1 | None \<Rightarrow> m1))
     else dget (rs_members s) u)"
  using assms
  by (simp add: derived_member_def Let_def ev_simps dget_updateMember getOrCreateMember_userId
      getStateEvent_cong [of "snd (getOrCreateMember _ _ _ _)"])

lemma derived_fields [ev_simps]:
  "rs_roomId (snd (set_derived_state unh now e s)) = rs_roomId s"
  "rs_displayNameToUserIds (snd (set_derived_state unh now e s)) = rs_displayNameToUserIds s"
  "rs_userIdsToDisplayNames (snd (set_derived_state unh now e s)) = rs_userIdsToDisplayNames s"
  by (cases rule: set_derived_state_cases [where e = e and s = s and unh = unh and now = now];
      simp add: ev_simps)+

lemma derived_states_fields [ev_simps]:
  "rs_roomId (snd (set_derived_states unh now evs s)) = rs_roomId s"
  "rs_displayNameToUserIds (snd (set_derived_states unh now evs s)) = rs_displayNameToUserIds s"
  "rs_userIdsToDisplayNames (snd (set_derived_states unh now evs s)) = rs_userIdsToDisplayNames s"
  by (induction evs arbitrary: s) (simp_all add: Let_def split_beta ev_simps)

lemma members_ok_derived: "members_ok s \<Longrightarrow> members_ok (snd (set_derived_state unh now e s))"
proof (cases rule: set_derived_state_cases [where e = e and s = s and unh = unh and now = now])
  case member
  assume ok: "members_ok s"
  show ?thesis
    unfolding members_ok_def
  proof (intro allI impI)
    fix u m
    assume "dget (rs_members (snd (set_derived_state unh now e s))) u = Some m"
    then show "rm_userId m = u"
      using member ok getOrCreateMember_userId [of "sync_event (fake_profile e) s"]
      by (auto simp: dget_derived_member Let_def ev_simps members_okD split: if_splits option.splits)
  qed
next
  case levels
  assume "members_ok s"
  from members_ok_fold_levels [OF this] levels show ?thesis
    by (simp add: members_ok_def)
qed simp

lemma getStateEvent_derived:
  "map_option ev_ref (getStateEvent t k (snd (set_derived_state unh now e s))) =
     map_option ev_ref (getStateEvent t k s)"
proof (cases rule: set_derived_state_cases [where e = e and s = s and unh = unh and now = now])
  case member
  then show ?thesis by (auto simp: ev_simps getStateEvent_sync_event)
next
  case levels
  then show ?thesis by (simp add: getStateEvent_def ev_simps)
qed simp

lemma getStateEvent_deriveds:
  "map_option ev_ref (getStateEvent t k (snd (set_derived_states unh now evs s))) =
     map_option ev_ref (getStateEvent t k s)"
  by (induction evs arbitrary: s) (simp_all add: Let_def split_beta getStateEvent_derived)

lemma members_ok_deriveds: "members_ok s \<Longrightarrow> members_ok (snd (set_derived_states unh now evs s))"
  by (induction evs arbitrary: s) (simp_all add: Let_def split_beta members_ok_derived)

text \<open>
  C33. Setting state events is last-writer-wins for each pair of type and state key: afterwards
  the state holds, for a pair, the last event of the batch that has it and is a
  state event of this room, and what it held before when there is none. Events of other rooms
  and message events in the batch are ignored.
\<close>

theorem setStateEvents_last_wins:
  "map_option ev_ref (getStateEvent t k (snd (setStateEvents unh now evs s))) =
     (case last_for s t k evs of
        Some e \<Rightarrow> Some (ev_ref e)
      | None \<Rightarrow> map_option ev_ref (getStateEvent t k s))"
proof -
  have "last_for (s\<lparr>rs_modified := now\<rparr>) t k evs = last_for s t k evs"
    by (simp add: last_for_def applies_to_def)
  moreover have "getStateEvent t k (s\<lparr>rs_modified := now\<rparr>) = getStateEvent t k s"
    by (rule getStateEvent_cong) simp
  ultimately show ?thesis
    by (auto simp: setStateEvents_def Let_def getStateEvent_deriveds getStateEvent_fold_core split: option.split)
qed

section \<open>Invariants of room states\<close>

text \<open>Events are stored under their own type and key; levels follow the current power-levels event.\<close>

definition typed :: "room_state \<Rightarrow> bool" where
  "typed s \<longleftrightarrow> (\<forall>t k e. getStateEvent t k s = Some e \<longrightarrow> getType e = t \<and> getStateKey e = k)"

abbreviation levels_event :: "room_state \<Rightarrow> mx_event option" where
  "levels_event s \<equiv> getStateEvent (Some ''m.room.power_levels'') (Some []) s"

definition levels_at :: "mx_event \<Rightarrow> room_state \<Rightarrow> bool" where
  "levels_at pl s \<longleftrightarrow> (\<forall>u m. dget (rs_members s) u = Some m \<longrightarrow>
     rm_powerLevel m = level_in (getDirectionalContent pl) u)"

definition levels_ok :: "room_state \<Rightarrow> bool" where
  "levels_ok s \<longleftrightarrow> (\<forall>pl. levels_event s = Some pl \<longrightarrow> levels_at pl s)"

lemma typed_core: "typed s \<Longrightarrow> typed (set_core_state unh e s)"
  by (auto simp: typed_def getStateEvent_core split: if_splits)

lemma typed_fold_core: "typed s \<Longrightarrow> typed (fold (set_core_state unh) evs s)"
  by (induction evs arbitrary: s) (simp_all add: typed_core)

lemma typed_derived: "typed s \<Longrightarrow> typed (snd (set_derived_state unh now e s))"
proof (cases rule: set_derived_state_cases [where e = e and s = s and unh = unh and now = now])
  case member
  assume "typed s"
  with member show ?thesis
    by (auto simp: typed_def ev_simps getStateEvent_sync_event split: if_splits)
next
  case levels
  assume "typed s"
  then show ?thesis
    by (simp add: typed_def levels getStateEvent_def ev_simps)
qed simp

lemma typed_deriveds: "typed s \<Longrightarrow> typed (snd (set_derived_states unh now evs s))"
  by (induction evs arbitrary: s) (simp_all add: Let_def split_beta typed_derived)

lemma levels_event_derived: "levels_event (snd (set_derived_state unh now e s)) = levels_event s"
proof (cases rule: set_derived_state_cases [where e = e and s = s and unh = unh and now = now])
  case member
  then show ?thesis by (auto simp: ev_simps getStateEvent_sync_event)
next
  case levels
  then show ?thesis by (simp add: getStateEvent_def ev_simps)
qed simp

lemma levels_at_member:
  assumes "typed s" "members_ok s" "levels_event s = Some pl" "levels_at pl s"
    and "getType e = Some ''m.room.member''"
  shows "levels_at pl (derived_member unh now e s)"
proof -
  let ?e1 = "fake_profile e"
  have slot: "levels_event (sync_event ?e1 s) = Some pl"
    using assms(3,5) by (simp add: getStateEvent_sync_event ev_simps)
  have pt: "getType pl = Some ''m.room.power_levels''"
    using assms(1,3) by (auto simp: typed_def)
  show ?thesis
    using assms(2,4) getOrCreateMember_userId [of "sync_event ?e1 s" now "user_of e" ?e1]
    by (auto simp: levels_at_def dget_derived_member Let_def ev_simps slot pt)
qed

lemma levels_at_levels:
  assumes "members_ok s" "getType pl = Some ''m.room.power_levels''"
  shows "levels_at pl ((fold (set_levels now pl) (dkeys (rs_members s)) s)\<lparr>rs_sentinels := []\<rparr>)"
  unfolding levels_at_def
proof (intro allI impI)
  fix u m
  assume m: "dget (rs_members ((fold (set_levels now pl) (dkeys (rs_members s)) s)\<lparr>rs_sentinels := []\<rparr>)) u = Some m"
  have "u \<in> set (dkeys (rs_members s)) \<or>
      (\<forall>m. dget (rs_members s) u = Some m \<longrightarrow> rm_powerLevel m = level_in (getDirectionalContent pl) u)"
    using map_of_eq_None_iff [of "rs_members s" u] by auto
  moreover have "dget (rs_members (fold (set_levels now pl) (dkeys (rs_members s)) s)) u = Some m"
    using m by simp
  ultimately show "rm_powerLevel m = level_in (getDirectionalContent pl) u"
    by (rule fold_levels_level [OF assms(2,1)])
qed

lemma last_for_Cons:
  "last_for s t k (e # evs) =
     (case last_for s t k evs of Some x \<Rightarrow> Some x
      | None \<Rightarrow> if applies_to s e \<and> getType e = t \<and> getStateKey e = k then Some e else None)"
  by (auto simp: last_for_def find_append split: option.split)

lemma last_for_cong: "rs_roomId s = rs_roomId s' \<Longrightarrow> last_for s t k evs = last_for s' t k evs"
  by (simp add: last_for_def applies_to_cong [of s s'])

lemma levels_at_deriveds:
  assumes "typed s" "members_ok s" "levels_event s = Some pl"
    and "case last_for s (Some ''m.room.power_levels'') (Some []) evs of
           Some x \<Rightarrow> x = pl | None \<Rightarrow> levels_at pl s"
  shows "levels_at pl (snd (set_derived_states unh now evs s))"
  using assms
proof (induction evs arbitrary: s)
  case (Cons e evs)
  let ?s' = "snd (set_derived_state unh now e s)"
  have lf: "last_for ?s' t k evs = last_for s t k evs" for t k
    by (rule last_for_cong) (simp add: ev_simps)
  have "case last_for s (Some ''m.room.power_levels'') (Some []) evs of
           Some x \<Rightarrow> x = pl | None \<Rightarrow> levels_at pl ?s'"
  proof (cases "last_for s (Some ''m.room.power_levels'') (Some []) evs")
    case None
    show ?thesis
    proof (cases rule: set_derived_state_cases [where e = e and s = s and unh = unh and now = now])
      case skip
      with None Cons.prems(4) show ?thesis by (auto simp: last_for_Cons split: if_splits)
    next
      case member
      with None Cons.prems show ?thesis by (auto simp: last_for_Cons levels_at_member)
    next
      case levels
      with None Cons.prems show ?thesis by (auto simp: last_for_Cons intro: levels_at_levels)
    qed
  qed (use Cons.prems(4) in \<open>simp add: last_for_Cons\<close>)
  then show ?case
    using Cons.prems(1-3) Cons.IH [of ?s']
    by (simp add: Let_def split_beta typed_derived members_ok_derived levels_event_derived lf)
qed (simp add: last_for_def)

definition room_ok :: "room_state \<Rightarrow> bool" where
  "room_ok s \<longleftrightarrow> typed s \<and> members_ok s \<and> levels_ok s"

lemma room_ok_setStateEvents [inv_intros]:
  assumes "room_ok s"
  shows "room_ok (snd (setStateEvents unh now evs s))"
proof -
  define s1 where "s1 = s\<lparr>rs_modified := now\<rparr>"
  define s2 where "s2 = fold (set_core_state unh) evs s1"
  have ev1: "getStateEvent t k s1 = getStateEvent t k s" for t k
    by (rule getStateEvent_cong) (simp add: s1_def)
  have "typed s1"
    using assms by (simp add: room_ok_def typed_def ev1)
  then have t2: "typed s2"
    unfolding s2_def by (rule typed_fold_core)
  have m2: "members_ok s2"
    using assms by (simp add: s2_def room_ok_def members_ok_def ev_simps) (simp add: s1_def)
  have eq: "snd (setStateEvents unh now evs s) = snd (set_derived_states unh now evs s2)"
    by (simp add: setStateEvents_def Let_def s1_def s2_def)
  have "levels_ok (snd (set_derived_states unh now evs s2))"
    unfolding levels_ok_def
  proof (intro allI impI)
    fix pl
    have slot: "levels_event (snd (set_derived_states unh now es s)) = levels_event s" for es s
      by (induction es arbitrary: s) (simp_all add: Let_def split_beta levels_event_derived)
    assume "levels_event (snd (set_derived_states unh now evs s2)) = Some pl"
    then have pl2: "levels_event s2 = Some pl" by (simp add: slot)
    have "last_for s2 t k evs = last_for s1 t k evs" for t k
      by (rule last_for_cong) (simp add: s2_def ev_simps)
    moreover have "levels_at pl s2" if "levels_event s1 = Some pl"
      using that assms by (simp add: room_ok_def levels_ok_def levels_at_def ev1 s2_def ev_simps) (simp add: s1_def)
    ultimately show "levels_at pl (snd (set_derived_states unh now evs s2))"
      using pl2 by (intro levels_at_deriveds t2 m2)
        (auto simp: s2_def getStateEvent_fold_core split: option.splits)
  qed
  then show ?thesis
    using t2 m2 by (simp add: room_ok_def eq typed_deriveds members_ok_deriveds)
qed

lemma room_ok_setOutOfBandMember [inv_intros]:
  assumes "room_ok s"
  shows "room_ok (setOutOfBandMember unh now e s)"
proof (cases "getType e = Some ''m.room.member'' \<and>
    \<not> (case getMember (user_of e) s of Some m \<Rightarrow> \<not> rm_isOutOfBand m | None \<Rightarrow> False)")
  case True
  define g where "g = getOrCreateMember now (user_of e) e s"
  define m1 where "m1 = markOutOfBand (setMembershipEvent unh now e (fst g))"
  define s3 where "s3 = setStateEvent e (updateDisplayNameCache unh (rm_userId m1) (JStr (rm_name m1)) (snd g))"
  have eq: "setOutOfBandMember unh now e s = rs_emit (RsMembers (ev_ref e) (rm_userId m1)) (updateMember now m1 s3)"
    using True by (simp add: setOutOfBandMember_def user_of_def Let_def split_beta g_def m1_def s3_def)
  have u: "rm_userId m1 = user_of e"
    using assms by (simp add: m1_def markOutOfBand_def ev_simps g_def getOrCreateMember_userId room_ok_def)
  have ev3: "getStateEvent t k s3 = (if t = getType e \<and> k = getStateKey e then Some e else getStateEvent t k s)"
    for t k
    using getStateEvent_cong [of "updateDisplayNameCache unh (rm_userId m1) (JStr (rm_name m1)) (snd g)" s]
    by (simp add: s3_def getStateEvent_setStateEvent ev_simps g_def)
  have mem3: "dget (rs_members s3) v = (if v = user_of e then Some (fst g) else dget (rs_members s) v)" for v
    by (simp add: s3_def ev_simps g_def)
  have evf: "getStateEvent t k (setOutOfBandMember unh now e s) = getStateEvent t k s3" for t k
    by (rule getStateEvent_cong) (simp add: eq ev_simps)
  have memf: "dget (rs_members (setOutOfBandMember unh now e s)) v =
      (if v = user_of e
       then Some (case levels_event s of Some pl \<Rightarrow> setPowerLevelEvent now pl m1 | None \<Rightarrow> m1)
       else dget (rs_members s) v)" for v
    using True by (simp add: eq ev_simps dget_updateMember u mem3 ev3)
  have "typed (setOutOfBandMember unh now e s)"
    using assms by (auto simp: room_ok_def typed_def evf ev3)
  moreover have "members_ok (setOutOfBandMember unh now e s)"
    using assms u by (auto simp: room_ok_def members_ok_def memf ev_simps split: if_splits option.splits)
  moreover have "levels_ok (setOutOfBandMember unh now e s)"
    using assms True u
    by (auto simp: room_ok_def levels_ok_def levels_at_def evf ev3 memf typed_def ev_simps split: if_splits)
  ultimately show ?thesis by (simp add: room_ok_def)
next
  case False
  then have "setOutOfBandMember unh now e s = s"
    by (auto simp: setOutOfBandMember_def user_of_def Let_def)
  with assms show ?thesis by simp
qed

lemma room_ok_fold_oob: "room_ok s \<Longrightarrow> room_ok (fold (setOutOfBandMember unh now) evs s)"
  by (induction evs arbitrary: s) (simp_all add: room_ok_setOutOfBandMember)

lemma room_ok_cong:
  assumes "rs_events s' = rs_events s"
    and "\<And>u. dget (rs_members s') u = None \<or> (\<exists>m m'. dget (rs_members s) u = Some m \<and>
           dget (rs_members s') u = Some m' \<and> rm_userId m' = rm_userId m \<and> rm_powerLevel m' = rm_powerLevel m)"
    and "room_ok s"
  shows "room_ok s'"
proof -
  have ev: "getStateEvent t k s' = getStateEvent t k s" for t k
    by (rule getStateEvent_cong) (rule assms(1))
  have mem: "\<exists>m. dget (rs_members s) u = Some m \<and> rm_userId m' = rm_userId m \<and> rm_powerLevel m' = rm_powerLevel m"
    if "dget (rs_members s') u = Some m'" for u m'
    using assms(2) [of u] that by auto
  have "typed s'"
    using assms(3) by (simp add: room_ok_def typed_def ev)
  moreover have "members_ok s'"
    unfolding members_ok_def
  proof (intro allI impI)
    fix u m'
    assume "dget (rs_members s') u = Some m'"
    from mem [OF this] assms(3) show "rm_userId m' = u" by (auto simp: room_ok_def members_ok_def)
  qed
  moreover have "levels_ok s'"
    unfolding levels_ok_def levels_at_def ev
  proof (intro allI impI)
    fix pl u m'
    assume "levels_event s = Some pl" and "dget (rs_members s') u = Some m'"
    with mem [OF this(2)] assms(3) show "rm_powerLevel m' = level_in (getDirectionalContent pl) u"
      by (auto simp: room_ok_def levels_ok_def levels_at_def)
  qed
  ultimately show ?thesis by (simp add: room_ok_def)
qed

lemma dget_filter_snd:
  "dict_ok d \<Longrightarrow> dget (filter (\<lambda>e. P (snd e)) d) k = (case dget d k of Some v \<Rightarrow> if P v then Some v else None | None \<Rightarrow> None)"
  by (induction d) (auto simp: dict_ok_def map_of_eq_None_iff split: option.split)

section \<open>The members dictionary has one entry per user\<close>

lemma dict_members [ev_simps]:
  "dict_ok (rs_members s) \<Longrightarrow> dict_ok (rs_members (snd (getOrCreateMember now u e s)))"
  "dict_ok (rs_members s) \<Longrightarrow> dict_ok (rs_members (updateMember now m s))"
  "dict_ok (rs_members s) \<Longrightarrow> dict_ok (rs_members (set_levels now e u s))"
  by (auto simp: getOrCreateMember_def updateMember_def set_levels_def Let_def ev_simps dict_simps split: option.split)

lemma dict_members_fold: "dict_ok (rs_members s) \<Longrightarrow> dict_ok (rs_members (fold (set_levels now e) us s))"
  by (induction us arbitrary: s) (simp_all add: ev_simps)

lemma dict_members_derived:
  "dict_ok (rs_members s) \<Longrightarrow> dict_ok (rs_members (snd (set_derived_state unh now e s)))"
  by (cases rule: set_derived_state_cases [where e = e and s = s and unh = unh and now = now])
    (simp_all add: derived_member_def Let_def ev_simps dict_members_fold)

lemma dict_members_deriveds:
  "dict_ok (rs_members s) \<Longrightarrow> dict_ok (rs_members (snd (set_derived_states unh now evs s)))"
  by (induction evs arbitrary: s) (simp_all add: Let_def split_beta dict_members_derived)

lemma dict_members_set:
  "dict_ok (rs_members s) \<Longrightarrow> dict_ok (rs_members (snd (setStateEvents unh now evs s)))"
  unfolding setStateEvents_def Let_def by (rule dict_members_deriveds) (simp add: ev_simps)

lemma dict_members_oob: "dict_ok (rs_members s) \<Longrightarrow> dict_ok (rs_members (setOutOfBandMember unh now e s))"
  by (simp add: setOutOfBandMember_def Let_def split_beta ev_simps)

lemma dict_members_fold_oob:
  "dict_ok (rs_members s) \<Longrightarrow> dict_ok (rs_members (fold (setOutOfBandMember unh now) evs s))"
  by (induction evs arbitrary: s) (simp_all add: dict_members_oob)

section \<open>Runs\<close>

text \<open>A run of a room state with its flags, as the client drives it.\<close>

inductive room_step ::
  "(string \<Rightarrow> string) \<Rightarrow> room_state \<times> oob_heap \<Rightarrow> room_state \<times> oob_heap \<Rightarrow> bool" for unh where
  state_events: "room_step unh (s, h) (snd (setStateEvents unh now evs s), h)"
| unknown_events: "room_step unh (s, h) (setUnknownStateEvents unh now evs s, h)"
| sentinel: "room_step unh (s, h) (snd (getSentinelMember unh now u s), h)"
| typing: "room_step unh (s, h) (rs_setTypingEvent now e s, h)"
| count_joined: "room_step unh (s, h) (snd (getJoinedMemberCount s), h)"
| count_invited: "room_step unh (s, h) (snd (getInvitedMemberCount s), h)"
| summary_joined: "room_step unh (s, h) (setJoinedMemberCount n s, h)"
| summary_invited: "room_step unh (s, h) (setInvitedMemberCount n s, h)"
| oob_started: "room_step unh (s, h) (s, markOutOfBandMembersStarted s h)"
| oob_failed: "room_step unh (s, h) (s, markOutOfBandMembersFailed s h)"
| oob_set: "room_step unh (s, h) (setOutOfBandMembers unh now evs s h)"
| oob_clear: "room_step unh (s, h) (clearOutOfBandMembers s h)"

inductive room_reachable :: "(string \<Rightarrow> string) \<Rightarrow> room_state \<times> oob_heap \<Rightarrow> bool" for unh where
  initial: "room_reachable unh (new_room_state now r a, h)"
| step: "room_reachable unh c \<Longrightarrow> room_step unh c c' \<Longrightarrow> room_reachable unh c'"

lemma typing_member [ev_simps]:
  "rm_userId (member_setTypingEvent now e m) = rm_userId m"
  "rm_powerLevel (member_setTypingEvent now e m) = rm_powerLevel m"
  "rm_membership (member_setTypingEvent now e m) = rm_membership m"
  by (simp_all add: member_setTypingEvent_def Let_def ev_simps split: json.split)

lemma dget_typing:
  "dget (rs_members (rs_setTypingEvent now e s)) u =
     map_option (member_setTypingEvent now e) (dget (rs_members s) u)"
  by (simp add: rs_setTypingEvent_def map_of_map)

lemma room_ok_same:
  assumes "rs_events s' = rs_events s" "rs_members s' = rs_members s" "room_ok s"
  shows "room_ok s'"
proof (rule room_ok_cong [OF assms(1) _ assms(3)])
  fix u
  show "dget (rs_members s') u = None \<or> (\<exists>m m'. dget (rs_members s) u = Some m \<and>
      dget (rs_members s') u = Some m' \<and> rm_userId m' = rm_userId m \<and> rm_powerLevel m' = rm_powerLevel m)"
    using assms(2) by (cases "dget (rs_members s) u") auto
qed

lemma room_ok_typing: "room_ok s \<Longrightarrow> room_ok (rs_setTypingEvent now e s)"
proof (rule room_ok_cong [of _ s])
  fix u
  show "dget (rs_members (rs_setTypingEvent now e s)) u = None \<or> (\<exists>m m'. dget (rs_members s) u = Some m \<and>
      dget (rs_members (rs_setTypingEvent now e s)) u = Some m' \<and> rm_userId m' = rm_userId m \<and>
      rm_powerLevel m' = rm_powerLevel m)"
    by (cases "dget (rs_members s) u") (auto simp: dget_typing ev_simps)
qed (simp_all add: rs_setTypingEvent_def)

lemma room_ok_clear:
  "dict_ok (rs_members s) \<Longrightarrow> room_ok s \<Longrightarrow> room_ok (fst (clearOutOfBandMembers s h))"
proof (rule room_ok_cong [of _ s])
  fix u
  assume "dict_ok (rs_members s)"
  then show "dget (rs_members (fst (clearOutOfBandMembers s h))) u = None \<or> (\<exists>m m'. dget (rs_members s) u = Some m \<and>
      dget (rs_members (fst (clearOutOfBandMembers s h))) u = Some m' \<and> rm_userId m' = rm_userId m \<and>
      rm_powerLevel m' = rm_powerLevel m)"
    by (cases "dget (rs_members s) u")
      (auto simp: clearOutOfBandMembers_def dget_filter_snd [where P = "\<lambda>m. \<not> rm_isOutOfBand m"])
qed (simp_all add: clearOutOfBandMembers_def)

definition room_inv :: "room_state \<Rightarrow> bool" where
  "room_inv s \<longleftrightarrow> room_ok s \<and> dict_ok (rs_members s)"

lemma room_inv_same:
  "rs_events s' = rs_events s \<Longrightarrow> rs_members s' = rs_members s \<Longrightarrow> room_inv s \<Longrightarrow> room_inv s'"
  by (auto simp: room_inv_def intro: room_ok_same)

lemma cache_only [ev_simps]:
  "rs_events (snd (getSentinelMember unh now u s)) = rs_events s"
  "rs_members (snd (getSentinelMember unh now u s)) = rs_members s"
  "rs_events (snd (getJoinedMemberCount s)) = rs_events s"
  "rs_members (snd (getJoinedMemberCount s)) = rs_members s"
  "rs_events (snd (getInvitedMemberCount s)) = rs_events s"
  "rs_members (snd (getInvitedMemberCount s)) = rs_members s"
  "rs_events (setJoinedMemberCount n s) = rs_events s" "rs_members (setJoinedMemberCount n s) = rs_members s"
  "rs_events (setInvitedMemberCount n s) = rs_events s" "rs_members (setInvitedMemberCount n s) = rs_members s"
  by (simp_all add: getSentinelMember_def getJoinedMemberCount_def getInvitedMemberCount_def
      setJoinedMemberCount_def setInvitedMemberCount_def Let_def split: option.split)

lemma room_inv_step: "room_step unh c c' \<Longrightarrow> room_inv (fst c) \<Longrightarrow> room_inv (fst c')"
proof (induction rule: room_step.induct)
  case (typing s h now e)
  then show ?case
    by (simp add: room_inv_def room_ok_typing) (simp add: dict_ok_def rs_setTypingEvent_def split_beta comp_def)
next
  case (oob_clear s h)
  then show ?case
    by (simp add: room_inv_def room_ok_clear) (simp add: clearOutOfBandMembers_def dict_ok_def distinct_map_filter)
next
  case (oob_set s h now evs)
  then show ?case
    by (simp add: room_inv_def setOutOfBandMembers_def room_ok_fold_oob dict_members_fold_oob)
next
  case (state_events s h now evs)
  then show ?case by (simp add: room_inv_def room_ok_setStateEvents dict_members_set)
next
  case (unknown_events s h now evs)
  then show ?case
    by (simp add: room_inv_def setUnknownStateEvents_def Let_def room_ok_setStateEvents dict_members_set)
qed (simp_all add: room_inv_same ev_simps)

lemma room_inv_reachable: "room_reachable unh c \<Longrightarrow> room_inv (fst c)"
proof (induction rule: room_reachable.induct)
  case (initial now r a h)
  show ?case
    by (simp add: room_inv_def room_ok_def typed_def members_ok_def levels_ok_def new_room_state_def
        getStateEvent_def dict_ok_def levels_at_def)
qed (rule room_inv_step)

text \<open>
  C3. However a room state is driven (state events from sync, lazily loaded members, clears, typing,
  counts and sentinels in any order), each member stands under its own user id and its power level is
  the one the current power-levels event of the room gives that user.
\<close>

theorem member_levels_follow_state:
  assumes "room_reachable unh (s, h)" and "getMember u s = Some m"
  shows "rm_userId m = u \<and>
    (\<forall>pl. getStateEvent (Some ''m.room.power_levels'') (Some []) s = Some pl \<longrightarrow>
       rm_powerLevel m = level_in (getDirectionalContent pl) u)"
  using room_inv_reachable [OF assms(1)] assms(2)
  by (simp add: room_inv_def room_ok_def members_ok_def levels_ok_def levels_at_def getMember_def)

definition sample_join :: mx_event where
  "sample_join = new_event 4 (JObj [(''type'', JStr ''m.room.member''), (''state_key'', JStr ''@b''),
     (''room_id'', JStr ''!r''), (''content'', JObj [(''membership'', JStr ''join''), (''displayname'', JStr ''B'')])])"

definition sample_state :: room_state where
  "sample_state = snd (setStateEvents id 2 [sample_join]
     (snd (setStateEvents id 1 [sample_levels] (new_room_state 0 (Some ''!r'') 0))))"

lemma sample_reachable: "room_reachable id (sample_state, \<lambda>_. OobNotStarted)"
  unfolding sample_state_def
  by (intro room_reachable.step [OF _ room_step.state_events] room_reachable.initial)

lemma setStateEvents_single:
  assumes "members_ok s" "applies_to s e" "getType e = Some ''m.room.member''"
  shows "\<exists>m. getMember (user_of e) (snd (setStateEvents unh now [e] s)) = Some m"
proof -
  define s2 where "s2 = set_core_state unh e (s\<lparr>rs_modified := now\<rparr>)"
  have m2: "members_ok s2"
    using assms(1) by (simp add: s2_def members_ok_def ev_simps)
  have "applies_to s2 = applies_to s"
    by (rule applies_to_cong) (simp add: s2_def ev_simps)
  then have "snd (setStateEvents unh now [e] s) = derived_member unh now e s2"
    using assms by (cases rule: set_derived_state_cases [where e = e and s = s2 and unh = unh and now = now])
      (simp_all add: setStateEvents_def Let_def s2_def [symmetric])
  then show ?thesis
    by (simp add: getMember_def dget_derived_member [OF m2] Let_def)
qed

lemma levels_event_set:
  "levels_event (snd (setStateEvents unh now evs s)) =
     (case last_for s (Some ''m.room.power_levels'') (Some []) evs of
        Some e \<Rightarrow> Some e | None \<Rightarrow> levels_event s)"
proof -
  have slot: "levels_event (snd (set_derived_states unh now es s)) = levels_event s" for es s
    by (induction es arbitrary: s) (simp_all add: Let_def split_beta levels_event_derived)
  have "last_for (s\<lparr>rs_modified := now\<rparr>) t k evs = last_for s t k evs" for t k
    by (rule last_for_cong) simp
  then show ?thesis
    using getStateEvent_cong [of "s\<lparr>rs_modified := now\<rparr>" s]
    by (simp add: setStateEvents_def Let_def slot getStateEvent_fold_core split: option.split)
qed

lemma setStateEvents_roomId [ev_simps]: "rs_roomId (snd (setStateEvents unh now evs s)) = rs_roomId s"
  by (simp add: setStateEvents_def Let_def ev_simps)

lemma derived_summary [ev_simps]:
  "rs_summaryJoined (snd (set_derived_state unh now e s)) = rs_summaryJoined s"
proof -
  have [simp]: "rs_summaryJoined (fold (set_levels now e) us s) = rs_summaryJoined s" for us s
    by (induction us arbitrary: s) (simp_all add: set_levels_def rs_emit_def Let_def split: option.split)
  show ?thesis
    by (simp add: set_derived_state_def Let_def split_beta rs_emit_def updateMember_def getOrCreateMember_def
        sync_event_def setStateEvent_def split: option.split)
qed

lemma setStateEvents_summary:
  "rs_summaryJoined (snd (setStateEvents unh now evs s)) = rs_summaryJoined s"
proof -
  have c: "rs_summaryJoined (fold (set_core_state unh) evs s) = rs_summaryJoined s" for s
    by (induction evs arbitrary: s)
      (simp_all add: set_core_state_def rs_emit_def updateThirdPartyTokenCache_def updateDisplayNameCache_def
        setStateEvent_def Let_def split: json.split)
  have d: "rs_summaryJoined (snd (set_derived_states unh now evs s)) = rs_summaryJoined s" for s
    by (induction evs arbitrary: s) (simp_all add: Let_def split_beta ev_simps)
  show ?thesis by (simp add: setStateEvents_def Let_def c d)
qed

lemmas sample_event_simps = sample_join_def sample_levels_def new_event_def getType_def getWireType_def
  getStateKey_def getRoomId_def isState_def applies_to_def user_of_def new_room_state_def ev_simps

lemma sample_levels_event: "levels_event sample_state = Some sample_levels"
  by (simp add: sample_state_def levels_event_set last_for_def sample_event_simps)

lemma sample_member: "\<exists>m. getMember ''@b'' sample_state = Some m"
proof -
  let ?s = "snd (setStateEvents id 1 [sample_levels] (new_room_state 0 (Some ''!r'') 0))"
  have "room_reachable id (?s, \<lambda>_. OobNotStarted)"
    by (intro room_reachable.step [OF _ room_step.state_events] room_reachable.initial)
  from room_inv_reachable [OF this] have "members_ok ?s"
    by (simp add: room_inv_def room_ok_def)
  from setStateEvents_single [OF this, of sample_join id 2] show ?thesis
    by (simp add: sample_state_def sample_event_simps)
qed

theorem member_levels_follow_state_witness:
  "\<exists>m. getMember ''@b'' sample_state = Some m \<and> rm_powerLevel m = 50"
proof -
  obtain m where m: "getMember ''@b'' sample_state = Some m" using sample_member by blast
  from member_levels_follow_state [OF sample_reachable m] sample_levels_event
  have "rm_powerLevel m = level_in (getDirectionalContent sample_levels) ''@b''" by simp
  also have "\<dots> = 50"
    by (simp add: sample_levels_def new_event_def getDirectionalContent_def getContent_def
        getOriginalContent_def level_in_def js_simps)
  finally show ?thesis using m by blast
qed

section \<open>The display-name index\<close>

definition stripped_name :: "(string \<Rightarrow> string) \<Rightarrow> string \<Rightarrow> room_state \<Rightarrow> string" where
  "stripped_name unh u s =
     (case dget (rs_userIdsToDisplayNames s) u of
        Some n \<Rightarrow> if truthy n then removeHiddenChars unh n else []
      | None \<Rightarrow> [])"

definition ids_for :: "room_state \<Rightarrow> string \<Rightarrow> string list" where
  "ids_for s n = (case dget (rs_displayNameToUserIds s) n of Some us \<Rightarrow> us | None \<Rightarrow> [])"

definition names_ok :: "(string \<Rightarrow> string) \<Rightarrow> room_state \<Rightarrow> bool" where
  "names_ok unh s \<longleftrightarrow> (\<forall>n. distinct (ids_for s n) \<and>
     (\<forall>u. u \<in> set (ids_for s n) \<longleftrightarrow> n \<noteq> [] \<and> stripped_name unh u s = n))"

lemma ids_for_update:
  assumes "ids_for s [] = []"
  shows "ids_for (updateDisplayNameCache unh u d s) n =
     (let ids1 = (if n = stripped_name unh u s then filter (\<lambda>i. i \<noteq> u) (ids_for s n) else ids_for s n);
          new = (if truthy d then removeHiddenChars unh d else [])
      in if n = new \<and> n \<noteq> [] then ids1 @ [u] else ids1)"
proof (cases "dget (rs_userIdsToDisplayNames s) u")
  case None
  with assms show ?thesis
    by (auto simp: ids_for_def updateDisplayNameCache_def Let_def dict_simps stripped_name_def split: option.split)
next
  case (Some j)
  with assms show ?thesis
    by (cases "truthy j"; cases "dget (rs_displayNameToUserIds s) (removeHiddenChars unh j)")
      (auto simp: ids_for_def updateDisplayNameCache_def Let_def dict_simps stripped_name_def split: option.split)
qed

lemma stripped_update:
  "stripped_name unh v (updateDisplayNameCache unh u d s) =
     (if v = u then (if truthy d then removeHiddenChars unh d else []) else stripped_name unh v s)"
  by (auto simp: stripped_name_def updateDisplayNameCache_def Let_def dict_simps split: option.split)

lemma names_okD:
  assumes "names_ok unh s"
  shows "distinct (ids_for s n)" and "u \<in> set (ids_for s n) \<longleftrightarrow> n \<noteq> [] \<and> stripped_name unh u s = n"
  using assms by (simp_all add: names_ok_def)

lemma names_ok_update [inv_intros]:
  assumes ok: "names_ok unh s"
  shows "names_ok unh (updateDisplayNameCache unh u d s)"
  unfolding names_ok_def
proof (intro allI conjI)
  fix n v
  define new where "new = (if truthy d then removeHiddenChars unh d else [])"
  define ids1 where "ids1 = (if n = stripped_name unh u s then filter (\<lambda>i. i \<noteq> u) (ids_for s n) else ids_for s n)"
  have empty: "ids_for s [] = []"
    using names_okD(2) [OF ok, of _ "[]"] by (cases "ids_for s []") auto
  have ids: "ids_for (updateDisplayNameCache unh u d s) n = (if n = new \<and> n \<noteq> [] then ids1 @ [u] else ids1)"
    using ids_for_update [OF empty, of unh u d n] unfolding Let_def new_def [symmetric] ids1_def [symmetric] .
  have u1: "u \<notin> set ids1"
    using names_okD(2) [OF ok, of u n] by (auto simp: ids1_def)
  show "distinct (ids_for (updateDisplayNameCache unh u d s) n)"
  proof -
    have "distinct ids1"
      using names_okD(1) [OF ok] by (simp add: ids1_def)
    with u1 show ?thesis by (simp add: ids)
  qed
  have "v \<in> set ids1 \<longleftrightarrow> v \<noteq> u \<and> v \<in> set (ids_for s n)"
    using u1 by (auto simp: ids1_def split: if_splits)
  then show "v \<in> set (ids_for (updateDisplayNameCache unh u d s) n) \<longleftrightarrow>
      n \<noteq> [] \<and> stripped_name unh v (updateDisplayNameCache unh u d s) = n"
    using u1 names_okD(2) [OF ok, of v n] by (auto simp: ids stripped_update new_def [symmetric])
qed

lemma names_ok_cong:
  "rs_displayNameToUserIds s' = rs_displayNameToUserIds s \<Longrightarrow>
   rs_userIdsToDisplayNames s' = rs_userIdsToDisplayNames s \<Longrightarrow> names_ok unh s' = names_ok unh s"
  by (simp add: names_ok_def ids_for_def stripped_name_def)

lemma names_ok_core: "names_ok unh s \<Longrightarrow> names_ok unh (set_core_state unh e s)"
proof -
  assume ok: "names_ok unh s"
  then have s1: "names_ok unh (setStateEvent e s)"
    using names_ok_cong [of "setStateEvent e s" s unh] by (simp add: ev_simps)
  from names_ok_update [OF this] s1 ok show ?thesis
    by (auto simp: set_core_state_def Let_def
        names_ok_cong [of "rs_emit _ _"] names_ok_cong [of "updateThirdPartyTokenCache _ _"] ev_simps)
qed

lemma names_ok_fold_core: "names_ok unh s \<Longrightarrow> names_ok unh (fold (set_core_state unh) evs s)"
  by (induction evs arbitrary: s) (simp_all add: names_ok_core)

lemma names_ok_set: "names_ok unh s \<Longrightarrow> names_ok unh (snd (setStateEvents unh now evs s))"
proof -
  assume "names_ok unh s"
  then have "names_ok unh (s\<lparr>rs_modified := now\<rparr>)"
    using names_ok_cong [of "s\<lparr>rs_modified := now\<rparr>" s unh] by simp
  from names_ok_fold_core [OF this] show ?thesis
    by (simp add: setStateEvents_def Let_def names_ok_cong [of "snd (set_derived_states _ _ _ _)"] ev_simps)
qed

lemma names_ok_oob: "names_ok unh s \<Longrightarrow> names_ok unh (setOutOfBandMember unh now e s)"
proof -
  assume ok: "names_ok unh s"
  have g: "names_ok unh (snd (getOrCreateMember now u e s))" for u
    using ok names_ok_cong [of "snd (getOrCreateMember now u e s)" s unh] by (simp add: ev_simps)
  show ?thesis
    using ok names_ok_update [OF g]
    by (auto simp: setOutOfBandMember_def Let_def split_beta names_ok_cong [of "rs_emit _ _"]
        names_ok_cong [of "updateMember _ _ _"] names_ok_cong [of "setStateEvent _ _"] ev_simps)
qed

lemma names_ok_fold_oob: "names_ok unh s \<Longrightarrow> names_ok unh (fold (setOutOfBandMember unh now) evs s)"
  by (induction evs arbitrary: s) (simp_all add: names_ok_oob)

lemma names_only [ev_simps]:
  "rs_displayNameToUserIds (snd (getSentinelMember unh now u s)) = rs_displayNameToUserIds s"
  "rs_userIdsToDisplayNames (snd (getSentinelMember unh now u s)) = rs_userIdsToDisplayNames s"
  "rs_displayNameToUserIds (snd (getJoinedMemberCount s)) = rs_displayNameToUserIds s"
  "rs_userIdsToDisplayNames (snd (getJoinedMemberCount s)) = rs_userIdsToDisplayNames s"
  "rs_displayNameToUserIds (snd (getInvitedMemberCount s)) = rs_displayNameToUserIds s"
  "rs_userIdsToDisplayNames (snd (getInvitedMemberCount s)) = rs_userIdsToDisplayNames s"
  "rs_displayNameToUserIds (setJoinedMemberCount n s) = rs_displayNameToUserIds s"
  "rs_userIdsToDisplayNames (setJoinedMemberCount n s) = rs_userIdsToDisplayNames s"
  "rs_displayNameToUserIds (setInvitedMemberCount n s) = rs_displayNameToUserIds s"
  "rs_userIdsToDisplayNames (setInvitedMemberCount n s) = rs_userIdsToDisplayNames s"
  "rs_displayNameToUserIds (rs_setTypingEvent now e s) = rs_displayNameToUserIds s"
  "rs_userIdsToDisplayNames (rs_setTypingEvent now e s) = rs_userIdsToDisplayNames s"
  "rs_displayNameToUserIds (fst (clearOutOfBandMembers s h)) = rs_displayNameToUserIds s"
  "rs_userIdsToDisplayNames (fst (clearOutOfBandMembers s h)) = rs_userIdsToDisplayNames s"
  by (simp_all add: getSentinelMember_def getJoinedMemberCount_def getInvitedMemberCount_def
      setJoinedMemberCount_def setInvitedMemberCount_def rs_setTypingEvent_def clearOutOfBandMembers_def
      Let_def split: option.split)

lemma names_ok_step: "room_step unh c c' \<Longrightarrow> names_ok unh (fst c) \<Longrightarrow> names_ok unh (fst c')"
proof (induction rule: room_step.induct)
  case (oob_set s h now evs)
  then show ?case by (simp add: setOutOfBandMembers_def names_ok_fold_oob)
next
  case (state_events s h now evs)
  then show ?case by (simp add: names_ok_set)
next
  case (unknown_events s h now evs)
  then show ?case by (simp add: setUnknownStateEvents_def Let_def names_ok_set)
qed (simp_all add: names_ok_def ids_for_def stripped_name_def ev_simps)


lemma char_of_66: "char_of (66 :: nat) = CHR ''B''"
proof -
  have "of_char (char_of (66 :: nat)) = (of_char (CHR ''B'') :: nat)" by simp
  then show ?thesis by (simp only: of_char_eq_iff)
qed


section \<open>Cached counts\<close>

definition count_ok :: "room_state \<Rightarrow> bool" where
  "count_ok s \<longleftrightarrow> (\<forall>n. rs_joinedMemberCount s = Some n \<longrightarrow> n = count_membership ''join'' s)"

lemma fold_count: "fold (\<lambda>m c. if P m then c + 1 else c) ms a = a + length (filter P ms)" for a :: nat
  by (induction ms arbitrary: a) auto

lemma count_membership_length:
  "count_membership ms s = length (filter (\<lambda>m. rm_membership m = Some ms) (dvals (rs_members s)))"
  by (simp add: count_membership_def fold_count getMembers_def)

lemma update_same_filter:
  "dget d u = Some m \<Longrightarrow> P m' = P m \<Longrightarrow>
   length (filter (P \<circ> snd) (dset u m' d)) = length (filter (P \<circ> snd) d)"
  by (induction d) auto

lemma count_set_levels: "count_membership ms (set_levels now e u s) = count_membership ms s"
  by (auto simp: set_levels_def Let_def count_membership_length ev_simps
      intro: update_same_filter split: option.split)

lemma count_fold_levels: "count_membership ms (fold (set_levels now e) us s) = count_membership ms s"
  by (induction us arbitrary: s) (simp_all add: count_set_levels)

lemma count_ok_derived: "count_ok s \<Longrightarrow> count_ok (snd (set_derived_state unh now e s))"
proof (cases rule: set_derived_state_cases [where e = e and s = s and unh = unh and now = now])
  case levels
  assume "count_ok s"
  with levels count_fold_levels [of "''join''" now e "dkeys (rs_members s)" s] show ?thesis
    by (simp add: count_ok_def ev_simps) (simp add: count_membership_length)
qed (simp_all add: count_ok_def ev_simps)

lemma count_ok_deriveds: "count_ok s \<Longrightarrow> count_ok (snd (set_derived_states unh now evs s))"
  by (induction evs arbitrary: s) (simp_all add: Let_def split_beta count_ok_derived)

lemma count_ok_set [inv_intros]: "count_ok s \<Longrightarrow> count_ok (snd (setStateEvents unh now evs s))"
  unfolding setStateEvents_def Let_def
  by (rule count_ok_deriveds) (simp add: count_ok_def ev_simps count_membership_length)

text \<open>
  The cached member count is right under state events: when the server sends no summary,
  the count after any batch of state events is the number of
  members whose membership is join, whether the cache was filled before or not.
\<close>

theorem joined_count_correct:
  assumes "count_ok s" and "rs_summaryJoined s = None"
  shows "fst (getJoinedMemberCount (snd (setStateEvents unh now evs s))) =
    length (filter (\<lambda>m. rm_membership m = Some ''join'') (getMembers (snd (setStateEvents unh now evs s))))"
proof -
  have "rs_summaryJoined (snd (setStateEvents unh now evs s)) = None"
    using assms(2) setStateEvents_summary [of unh now evs s] by simp
  with count_ok_set [OF assms(1), of unh now evs] show ?thesis
    by (auto simp: getJoinedMemberCount_def count_ok_def count_membership_length getMembers_def Let_def
        split: option.split)
qed

theorem joined_count_correct_witness:
  "fst (getJoinedMemberCount (snd (setStateEvents id 2 [sample_join] (new_room_state 0 (Some ''!r'') 0)))) =
    length (filter (\<lambda>m. rm_membership m = Some ''join'')
      (getMembers (snd (setStateEvents id 2 [sample_join] (new_room_state 0 (Some ''!r'') 0)))))"
  by (rule joined_count_correct) (simp_all add: count_ok_def new_room_state_def)

text \<open>
  Clearing the lazily loaded members leaves the count stale: \<open>clearOutOfBandMembers\<close>
  deletes members and keeps the cached count, so when a joined member was removed the room goes on
  answering a count larger than the members it has.
\<close>

theorem clear_leaves_stale_count:
  assumes "rs_summaryJoined s = None" and "rs_joinedMemberCount s = Some (count_membership ''join'' s)"
    and "m \<in> set (getMembers s)" and "rm_isOutOfBand m" and "rm_membership m = Some ''join''"
  shows "count_membership ''join'' (fst (clearOutOfBandMembers s h)) <
    fst (getJoinedMemberCount (fst (clearOutOfBandMembers s h)))"
proof -
  have "length (filter (\<lambda>e. rm_membership (snd e) = Some ''join'' \<and> \<not> rm_isOutOfBand (snd e)) (rs_members s)) <
      length (filter (\<lambda>e. rm_membership (snd e) = Some ''join'') (rs_members s))"
  proof -
    obtain e where e: "e \<in> set (rs_members s)" "snd e = m"
      using assms(3) by (auto simp: getMembers_def)
    have "filter (\<lambda>e. rm_membership (snd e) = Some ''join'' \<and> \<not> rm_isOutOfBand (snd e)) (rs_members s) =
        filter (\<lambda>e. \<not> rm_isOutOfBand (snd e)) (filter (\<lambda>e. rm_membership (snd e) = Some ''join'') (rs_members s))"
      by (simp add: conj_commute)
    moreover have "e \<in> set (filter (\<lambda>e. rm_membership (snd e) = Some ''join'') (rs_members s))"
      using e assms(5) by simp
    ultimately show ?thesis
      using assms(4) e(2) by (metis (mono_tags, lifting) length_filter_less)
  qed
  then show ?thesis
    using assms(1,2)
    by (simp add: getJoinedMemberCount_def clearOutOfBandMembers_def count_membership_length filter_map comp_def
        conj_commute)
qed

definition sample_oob :: room_state where
  "sample_oob = (new_room_state 0 (Some ''!r'') 0)
     \<lparr>rs_members := [(''@c'', (new_member 0 (Some ''!r'') ''@c'')\<lparr>rm_isOutOfBand := True, rm_membership := Some ''join''\<rparr>)],
      rs_joinedMemberCount := Some 1\<rparr>"

theorem clear_leaves_stale_count_witness:
  "count_membership ''join'' (fst (clearOutOfBandMembers sample_oob (\<lambda>_. OobFinished))) <
    fst (getJoinedMemberCount (fst (clearOutOfBandMembers sample_oob (\<lambda>_. OobFinished))))"
  by (rule clear_leaves_stale_count
        [where m = "(new_member 0 (Some ''!r'') ''@c'')\<lparr>rm_isOutOfBand := True, rm_membership := Some ''join''\<rparr>"])
    (simp_all add: sample_oob_def new_room_state_def getMembers_def count_membership_length)



text \<open>
  C38. Every reachable room state is well typed: the event filed under a type and a state key has that type and that key, and
  the member filed under a user id has that id, whatever sequence of state events, typing events, out-of-band members
  and clean-ups led there.
\<close>

theorem room_state_typed:
  assumes "room_reachable unh c"
  shows "(\<forall>t k e. getStateEvent t k (fst c) = Some e \<longrightarrow> getType e = t \<and> getStateKey e = k) \<and>
    (\<forall>u m. getMember u (fst c) = Some m \<longrightarrow> rm_userId m = u)"
  using room_inv_reachable [OF assms]
  unfolding room_inv_def room_ok_def typed_def members_ok_def getMember_def by blast

theorem room_state_typed_witness:
  "getType sample_levels = Some ''m.room.power_levels'' \<and> (\<exists>m. getMember ''@b'' sample_state = Some m \<and> rm_userId m = ''@b'')"
proof -
  have t: "(\<forall>t k e. getStateEvent t k sample_state = Some e \<longrightarrow> getType e = t \<and> getStateKey e = k) \<and>
      (\<forall>u m. getMember u sample_state = Some m \<longrightarrow> rm_userId m = u)"
    using room_state_typed [OF sample_reachable] by simp
  then show ?thesis using sample_levels_event sample_member by blast
qed

end
