(* ===== verification/Timeline.thy ===== *)
theory Timeline
  imports RoomState
begin

text \<open>
  \<^verbatim>\<open>src/models/event-timeline.ts\<close>: the class \<open>EventTimeline\<close>. Room states are held by
  value, neighbours by the number of the timeline in the store of its set. A room state that the
  caller passes (\<open>stateContext\<close>) is returned updated. What a thrown error aborts is
  \<open>Inl\<close> of its message. \<open>forkLive\<close> and \<open>fork\<close> are modelled at the direction the code calls
  them with, forwards. Events are not frozen in the model.
\<close>

section \<open>State\<close>

datatype direction = Backward | Forward

record timeline =
  tl_roomId :: "string option"
  tl_events :: "mx_event list"
  tl_baseIndex :: nat
  tl_start :: room_state
  tl_end :: room_state
  tl_prev :: "nat option"
  tl_next :: "nat option"

definition new_timeline :: "nat \<Rightarrow> string option \<Rightarrow> nat \<Rightarrow> timeline" where
  "new_timeline now roomId oob =
     \<lparr>tl_roomId = roomId, tl_events = [], tl_baseIndex = 0,
      tl_start = new_room_state now roomId oob, tl_end = new_room_state now roomId (oob + 1),
      tl_prev = None, tl_next = None\<rparr>"

definition getState :: "direction \<Rightarrow> timeline \<Rightarrow> room_state" where
  "getState d tln = (case d of Backward \<Rightarrow> tl_start tln | Forward \<Rightarrow> tl_end tln)"

definition set_state :: "direction \<Rightarrow> room_state \<Rightarrow> timeline \<Rightarrow> timeline" where
  "set_state d s tln = (case d of Backward \<Rightarrow> tln\<lparr>tl_start := s\<rparr> | Forward \<Rightarrow> tln\<lparr>tl_end := s\<rparr>)"

definition getPaginationToken :: "direction \<Rightarrow> timeline \<Rightarrow> string option" where
  "getPaginationToken d tln = rs_paginationToken (getState d tln)"

definition setPaginationToken :: "string option \<Rightarrow> direction \<Rightarrow> timeline \<Rightarrow> timeline" where
  "setPaginationToken token d tln =
     set_state d ((getState d tln)\<lparr>rs_paginationToken := token\<rparr>) tln"

definition getNeighbouringTimeline :: "direction \<Rightarrow> timeline \<Rightarrow> nat option" where
  "getNeighbouringTimeline d tln = (case d of Backward \<Rightarrow> tl_prev tln | Forward \<Rightarrow> tl_next tln)"

definition setNeighbouringTimeline :: "nat \<Rightarrow> direction \<Rightarrow> timeline \<Rightarrow> string + timeline" where
  "setNeighbouringTimeline neighbour d tln =
     (if getNeighbouringTimeline d tln \<noteq> None
      then Inl ''timeline already has a neighbouring timeline - cannot reset neighbour''
      else Inr (setPaginationToken None d
                  (case d of Backward \<Rightarrow> tln\<lparr>tl_prev := Some neighbour\<rparr>
                           | Forward \<Rightarrow> tln\<lparr>tl_next := Some neighbour\<rparr>)))"

section \<open>Adding and removing events\<close>

definition member_view_of :: "room_member \<Rightarrow> member_view" where
  "member_view_of m =
     \<lparr>mv_userId = Some (rm_userId m), mv_name = Some (rm_name m),
      mv_rawDisplayName = Some (rm_rawDisplayName m), mv_membership = rm_membership m,
      mv_hasMemberEvent = (rm_member m \<noteq> None)\<rparr>"

definition sentinel_view ::
  "(string \<Rightarrow> string) \<Rightarrow> nat \<Rightarrow> string option \<Rightarrow> room_state \<Rightarrow> member_view option \<times> room_state" where
  "sentinel_view unh now userId s =
     (let (m, s1) = getSentinelMember unh now (case userId of Some u \<Rightarrow> u | None \<Rightarrow> []) s
      in (map_option member_view_of m, s1))"

definition has_member_event :: "member_view option \<Rightarrow> bool" where
  "has_member_event v = (case v of Some m \<Rightarrow> mv_hasMemberEvent m | None \<Rightarrow> False)"

definition setEventMetadata ::
  "(string \<Rightarrow> string) \<Rightarrow> nat \<Rightarrow> room_state \<Rightarrow> bool \<Rightarrow> mx_event \<Rightarrow> mx_event \<times> room_state" where
  "setEventMetadata unh now stateContext toStartOfTimeline ev =
     (let (ev1, s1) = (if \<not> has_member_event (sender ev)
                       then (let (v, s) = sentinel_view unh now (getSender ev) stateContext
                             in (ev\<lparr>sender := v\<rparr>, s))
                       else (ev, stateContext));
          (ev2, s2) = (if \<not> has_member_event (target ev1) \<and> getType ev1 = Some ''m.room.member''
                       then (let (v, s) = sentinel_view unh now (getStateKey ev1) s1
                             in (ev1\<lparr>target := v\<rparr>, s))
                       else (ev1, s1));
          ev3 = (if isState ev2 \<and> toStartOfTimeline then ev2\<lparr>forwardLooking := False\<rparr> else ev2)
      in (ev3, s2))"

text \<open>
  \<open>hasRoom\<close> says whether the set has a room, \<open>unfiltered\<close> whether the set is the room's unfiltered one.
\<close>

definition prepare_event ::
  "(string \<Rightarrow> string) \<Rightarrow> nat \<Rightarrow> bool \<Rightarrow> bool \<Rightarrow> bool \<Rightarrow> room_state \<Rightarrow> mx_event \<Rightarrow> mx_event \<times> room_state" where
  "prepare_event unh now hasRoom unfiltered atStart ctx ev =
     (if \<not> hasRoom then (ev, ctx)
      else
        let (ev1, c1) = setEventMetadata unh now ctx atStart ev in
        if isState ev1 \<and> unfiltered then
          (let (evs, c2) = setStateEvents unh now [ev1] c1; ev2 = hd (evs @ [ev1]) in
           if sender ev2 = None \<or> (getType ev2 = Some ''m.room.member'' \<and> \<not> atStart)
           then setEventMetadata unh now c2 atStart ev2
           else (ev2, c2))
        else (ev1, c1))"

definition timeline_addEvent ::
  "(string \<Rightarrow> string) \<Rightarrow> nat \<Rightarrow> bool \<Rightarrow> bool \<Rightarrow> mx_event \<Rightarrow> bool \<Rightarrow> room_state option \<Rightarrow>
   timeline \<Rightarrow> mx_event \<times> timeline \<times> room_state option" where
  "timeline_addEvent unh now hasRoom unfiltered ev atStart stateContext tln =
     (let d = (if atStart then Backward else Forward);
          ctx = (case stateContext of Some s \<Rightarrow> s | None \<Rightarrow> getState d tln);
          (ev1, ctx1) = prepare_event unh now hasRoom unfiltered atStart ctx ev;
          tl1 = (case stateContext of Some _ \<Rightarrow> tln | None \<Rightarrow> set_state d ctx1 tln);
          insertIndex = (if atStart then 0 else length (tl_events tl1));
          tl2 = tl1\<lparr>tl_events := take insertIndex (tl_events tl1) @ ev1 # drop insertIndex (tl_events tl1)\<rparr>;
          tl3 = (if atStart then tl2\<lparr>tl_baseIndex := tl_baseIndex tl2 + 1\<rparr> else tl2)
      in (ev1, tl3, map_option (\<lambda>_. ctx1) stateContext))"

text \<open>The loop of \<open>removeEvent\<close> runs from the last index down to 0.\<close>

fun find_last_index :: "(mx_event \<Rightarrow> bool) \<Rightarrow> mx_event list \<Rightarrow> nat \<Rightarrow> nat option" where
  "find_last_index P evs 0 = None"
| "find_last_index P evs (Suc i) = (if P (evs ! i) then Some i else find_last_index P evs i)"

definition timeline_removeEvent :: "string option \<Rightarrow> timeline \<Rightarrow> mx_event option \<times> timeline" where
  "timeline_removeEvent eventId tln =
     (case find_last_index (\<lambda>ev. getId ev = eventId) (tl_events tln) (length (tl_events tln)) of
        None \<Rightarrow> (None, tln)
      | Some i \<Rightarrow>
          (let tl1 = tln\<lparr>tl_events := take i (tl_events tln) @ drop (i + 1) (tl_events tln)\<rparr>;
               tl2 = (if i < tl_baseIndex tl1 then tl1\<lparr>tl_baseIndex := tl_baseIndex tl1 - 1\<rparr> else tl1)
           in (Some (tl_events tln ! i), tl2)))"

definition initialiseState ::
  "(string \<Rightarrow> string) \<Rightarrow> nat \<Rightarrow> mx_event list \<Rightarrow> timeline \<Rightarrow> string + timeline" where
  "initialiseState unh now stateEvents tln =
     (if length (tl_events tln) > 0 then Inl ''Cannot initialise state after events are added''
      else
        let (evs1, s1) = setStateEvents unh now stateEvents (tl_start tln);
            (evs2, s2) = setStateEvents unh now evs1 (tl_end tln)
        in Inr (tln\<lparr>tl_start := s1, tl_end := s2\<rparr>))"

section \<open>Forks\<close>

definition forkLive ::
  "(string \<Rightarrow> string) \<Rightarrow> nat \<Rightarrow> oob_heap \<Rightarrow> nat \<Rightarrow> timeline \<Rightarrow> (timeline \<times> timeline) option" where
  "forkLive unh now h oob tln =
     (let forkState = getState Forward tln in
      case rs_clone unh now forkState h of
        None \<Rightarrow> None
      | Some copy \<Rightarrow>
          Some ((new_timeline now (tl_roomId tln) oob)\<lparr>tl_start := copy, tl_end := forkState\<rparr>,
                tln\<lparr>tl_end := copy\<rparr>))"

definition fork ::
  "(string \<Rightarrow> string) \<Rightarrow> nat \<Rightarrow> oob_heap \<Rightarrow> nat \<Rightarrow> timeline \<Rightarrow> timeline option" where
  "fork unh now h oob tln =
     (let forkState = getState Forward tln in
      case rs_clone unh now forkState h of
        None \<Rightarrow> None
      | Some copy \<Rightarrow>
          Some ((new_timeline now (tl_roomId tln) oob)\<lparr>tl_start := copy, tl_end := copy\<rparr>))"

section \<open>What the operations keep\<close>

lemma set_state_fields [ev_simps]:
  "tl_events (set_state d s tln) = tl_events tln" "tl_baseIndex (set_state d s tln) = tl_baseIndex tln"
  "tl_prev (set_state d s tln) = tl_prev tln" "tl_next (set_state d s tln) = tl_next tln"
  "getState d' (set_state d s tln) = (if d' = d then s else getState d' tln)"
  by (simp_all add: set_state_def getState_def split: direction.split)

lemma setPaginationToken_fields [ev_simps]:
  "tl_events (setPaginationToken t d tln) = tl_events tln"
  "tl_baseIndex (setPaginationToken t d tln) = tl_baseIndex tln"
  "tl_prev (setPaginationToken t d tln) = tl_prev tln" "tl_next (setPaginationToken t d tln) = tl_next tln"
  "getPaginationToken d' (setPaginationToken t d tln) = (if d' = d then t else getPaginationToken d' tln)"
  by (simp_all add: setPaginationToken_def getPaginationToken_def ev_simps)

lemma neighbour_fields [ev_simps]:
  "getNeighbouringTimeline d (setPaginationToken t d' tln) = getNeighbouringTimeline d tln"
  "getNeighbouringTimeline d (tln\<lparr>tl_events := es\<rparr>) = getNeighbouringTimeline d tln"
  by (simp_all add: getNeighbouringTimeline_def ev_simps split: direction.split)

lemma setNeighbouring_ok:
  assumes "setNeighbouringTimeline n d tln = Inr tln'"
  shows "getNeighbouringTimeline d tln = None"
    and "getNeighbouringTimeline d' tln' = (if d' = d then Some n else getNeighbouringTimeline d' tln)"
    and "tl_events tln' = tl_events tln" and "tl_baseIndex tln' = tl_baseIndex tln"
    and "getPaginationToken d' tln' = (if d' = d then None else getPaginationToken d' tln)"
  using assms
  by (auto simp: setNeighbouringTimeline_def ev_simps getNeighbouringTimeline_def getPaginationToken_def
      getState_def setPaginationToken_def set_state_def split: if_splits direction.splits)

lemma setEventMetadata_fields [ev_simps]:
  "getId (fst (setEventMetadata unh now c b e)) = getId e"
  "ev_ref (fst (setEventMetadata unh now c b e)) = ev_ref e"
  by (simp_all add: setEventMetadata_def Let_def split_beta getId_def)

lemma getId_set_content_prop [ev_simps]: "getId (set_content_prop k v e) = getId e"
  by (auto simp: set_content_prop_def getId_def ev_simps js_simps split: option.split)

lemma getId_fake_profile [ev_simps]: "getId (fake_profile e) = getId e"
  by (simp add: fake_profile_def Let_def ev_simps)

lemma setStateEvents_single_event:
  "fst (setStateEvents unh now [e] s) = [e] \<or> fst (setStateEvents unh now [e] s) = [fake_profile e]"
  by (rule set_derived_state_cases [where e = e and unh = unh and now = now
        and s = "set_core_state unh e (s\<lparr>rs_modified := now\<rparr>)"])
    (simp_all add: setStateEvents_def Let_def)

lemma prepare_event_fields [ev_simps]:
  "getId (fst (prepare_event unh now r u b c e)) = getId e"
  "ev_ref (fst (prepare_event unh now r u b c e)) = ev_ref e"
proof -
  have "getId (hd (fst (setStateEvents unh now [e] s) @ [e])) = getId e \<and>
      ev_ref (hd (fst (setStateEvents unh now [e] s) @ [e])) = ev_ref e" for e s
    using setStateEvents_single_event [of unh now e s] by (auto simp: ev_simps)
  then show "getId (fst (prepare_event unh now r u b c e)) = getId e"
    "ev_ref (fst (prepare_event unh now r u b c e)) = ev_ref e"
    by (simp_all add: prepare_event_def Let_def split_beta ev_simps)
qed

lemma timeline_addEvent_fields:
  assumes "timeline_addEvent unh now r u e atStart ctx tln = (e1, tl1, ctx1)"
  shows "getId e1 = getId e" and "ev_ref e1 = ev_ref e"
    and "tl_events tl1 = (if atStart then e1 # tl_events tln else tl_events tln @ [e1])"
    and "tl_baseIndex tl1 = (if atStart then tl_baseIndex tln + 1 else tl_baseIndex tln)"
    and "getNeighbouringTimeline d tl1 = getNeighbouringTimeline d tln"
  using assms prepare_event_fields [of unh now r u atStart _ e]
  by (auto simp: timeline_addEvent_def Let_def split_beta ev_simps getNeighbouringTimeline_def
      split: option.splits direction.splits)

lemma find_last_index_some:
  "find_last_index P evs n = Some i \<longleftrightarrow> i < n \<and> P (evs ! i) \<and> (\<forall>j. i < j \<and> j < n \<longrightarrow> \<not> P (evs ! j))"
  by (induction n) (auto simp: less_Suc_eq)

lemma find_last_index_none: "find_last_index P evs n = None \<longleftrightarrow> (\<forall>i<n. \<not> P (evs ! i))"
  by (induction n) (auto simp: less_Suc_eq)

text \<open>The event at a position relative to the base index, which other components keep.\<close>

definition at_rel :: "timeline \<Rightarrow> int \<Rightarrow> mx_event option" where
  "at_rel tln r =
     (let i = r + int (tl_baseIndex tln) in
      if 0 \<le> i \<and> i < int (length (tl_events tln)) then Some (tl_events tln ! nat i) else None)"

lemma at_rel_add:
  assumes "tl_events t1 = (if atStart then e1 # tl_events t else tl_events t @ [e1])"
    and "tl_baseIndex t1 = (if atStart then tl_baseIndex t + 1 else tl_baseIndex t)"
    and "at_rel t i = Some x"
  shows "at_rel t1 i = Some x"
proof -
  have "nat (i + (1 + int (tl_baseIndex t))) = Suc (nat (i + int (tl_baseIndex t)))"
    using assms(3) by (auto simp: at_rel_def Let_def split: if_splits)
  with assms show ?thesis
    by (auto simp: at_rel_def Let_def nth_append algebra_simps split: if_splits)
qed

lemma at_rel_remove:
  assumes "find_last_index (\<lambda>ev. getId ev = k) (tl_events t) (length (tl_events t)) = Some j"
    and "if j < tl_baseIndex t then 0 \<le> i else i < int j - int (tl_baseIndex t)"
    and "at_rel t i = Some x"
  shows "at_rel (snd (timeline_removeEvent k t)) i = Some x"
proof -
  have j: "j < length (tl_events t)"
    using assms(1) by (simp add: find_last_index_some)
  show ?thesis
  proof (cases "j < tl_baseIndex t")
    case True
    then have "nat (i + int (tl_baseIndex t)) = Suc (nat (i + int (tl_baseIndex t - 1)))"
      and "j \<le> nat (i + int (tl_baseIndex t - 1))"
      using assms(2) by auto
    with True j assms show ?thesis
      by (auto simp: at_rel_def Let_def timeline_removeEvent_def nth_append min_def split: if_splits)
  next
    case False
    with j assms show ?thesis
      by (auto simp: at_rel_def Let_def timeline_removeEvent_def nth_append min_def nat_less_iff split: if_splits)
  qed
qed

text \<open>
  Positions relative to the base index are stable: adding an event, at either end, leaves the event at
  every relative position where it was and keeps the new event's id; removing an event leaves where they
  were those on the other side of the hole from the removed one: the later ones when it
  stood before the base index, the earlier ones otherwise.
\<close>

theorem relative_index_stable:
  assumes "timeline_addEvent unh now r u e atStart ctx t = (e1, t1, ctx1)"
    and "at_rel t i = Some x"
  shows "at_rel t1 i = Some x \<and> getId e1 = getId e \<and> length (tl_events t1) = length (tl_events t) + 1 \<and>
    (\<forall>j. find_last_index (\<lambda>ev. getId ev = k) (tl_events t) (length (tl_events t)) = Some j \<and>
       (if j < tl_baseIndex t then 0 \<le> i else i < int j - int (tl_baseIndex t)) \<longrightarrow>
       at_rel (snd (timeline_removeEvent k t)) i = Some x)"
  using timeline_addEvent_fields [OF assms(1)] at_rel_add [OF _ _ assms(2), of t1] at_rel_remove [OF _ _ assms(2)]
  by auto

definition sample_timeline :: timeline where
  "sample_timeline = (new_timeline 0 (Some ''!r'') 0)\<lparr>tl_events := [sample_join], tl_baseIndex := 0\<rparr>"

theorem relative_index_stable_witness:
  "at_rel (fst (snd (timeline_addEvent id 3 False False sample_levels True None sample_timeline))) 0 = Some sample_join"
proof -
  obtain e1 t1 c1 where add: "timeline_addEvent id 3 False False sample_levels True None sample_timeline = (e1, t1, c1)"
    by (metis prod_cases3)
  have "at_rel sample_timeline 0 = Some sample_join"
    by (simp add: at_rel_def sample_timeline_def)
  from relative_index_stable [OF add this] add show ?thesis by simp
qed

end
