(* ===== verification/TimelineSet.thy ===== *)
theory TimelineSet
  imports Timeline FilterDef
begin

text \<open>
  \<^verbatim>\<open>src/models/event-timeline-set.ts\<close>: the class \<open>EventTimelineSet\<close>. Timelines live in the
  store \<open>ts_store\<close> and are named by their position in it; \<open>ts_timelines\<close> are the ones
  the set knows, \<open>ts_index\<close> is \<open>_eventIdToTimeline\<close>. \<open>ts_relations\<close> logs what is
  handed to the relation collections, which are not part of this theory. An operation that can throw returns the message
  (\<open>None\<close> when it returns normally) with the state at that point.
\<close>

section \<open>State\<close>

datatype ts_emission =
    TsTimeline nat bool bool nat bool
  | TsReset bool

datatype relation_call =
    RelTarget nat
  | RelWait nat
  | RelAdd nat json

record timeline_set =
  ts_hasRoom :: bool
  ts_roomId :: "string option"
  ts_unfiltered :: bool
  ts_timelineSupport :: bool
  ts_unstable :: bool
  ts_live :: nat
  ts_timelines :: "nat list"
  ts_index :: "(string option, nat) dict"
  ts_filter :: "mx_filter option"
  ts_store :: "timeline list"
  ts_nextOob :: nat
  ts_heap :: oob_heap
  ts_relations :: "relation_call list"
  ts_fired :: "ts_emission list"

definition new_timeline_set ::
  "nat \<Rightarrow> string option \<Rightarrow> bool \<Rightarrow> bool \<Rightarrow> bool \<Rightarrow> mx_filter option \<Rightarrow> oob_heap \<Rightarrow> timeline_set" where
  "new_timeline_set now roomId unfiltered support unstable flt h =
     \<lparr>ts_hasRoom = (roomId \<noteq> None), ts_roomId = roomId, ts_unfiltered = unfiltered,
      ts_timelineSupport = support, ts_unstable = unstable, ts_live = 0, ts_timelines = [0],
      ts_index = [], ts_filter = flt, ts_store = [new_timeline now roomId 0], ts_nextOob = 2,
      ts_heap = h, ts_relations = [], ts_fired = []\<rparr>"

definition timeline_at :: "timeline_set \<Rightarrow> nat \<Rightarrow> timeline" where
  "timeline_at s t = ts_store s ! t"

definition put_timeline :: "nat \<Rightarrow> timeline \<Rightarrow> timeline_set \<Rightarrow> timeline_set" where
  "put_timeline t x s = s\<lparr>ts_store := (ts_store s)[t := x]\<rparr>"

definition getTimelineForEvent :: "string option \<Rightarrow> timeline_set \<Rightarrow> nat option" where
  "getTimelineForEvent eventId s = dget (ts_index s) eventId"

definition findEventById :: "string option \<Rightarrow> timeline_set \<Rightarrow> mx_event option" where
  "findEventById eventId s =
     (case getTimelineForEvent eventId s of
        None \<Rightarrow> None
      | Some t \<Rightarrow> List.find (\<lambda>ev. getId ev = eventId) (tl_events (timeline_at s t)))"

definition replaceEventId :: "string option \<Rightarrow> string option \<Rightarrow> timeline_set \<Rightarrow> timeline_set" where
  "replaceEventId oldEventId newEventId s =
     (case dget (ts_index s) oldEventId of
        Some existingTimeline \<Rightarrow>
          s\<lparr>ts_index := dset newEventId existingTimeline (ddel oldEventId (ts_index s))\<rparr>
      | None \<Rightarrow> s)"

definition setFilter :: "mx_filter option \<Rightarrow> timeline_set \<Rightarrow> timeline_set" where
  "setFilter flt s = s\<lparr>ts_filter := flt\<rparr>"

definition apply_filter :: "timeline_set \<Rightarrow> mx_event list \<Rightarrow> mx_event list option" where
  "apply_filter s events =
     (case ts_filter s of None \<Rightarrow> Some events | Some f \<Rightarrow> filterRoomTimeline f events)"

definition getPendingEvents :: "mx_event list \<Rightarrow> timeline_set \<Rightarrow> mx_event list option" where
  "getPendingEvents roomPending s = (if \<not> ts_hasRoom s then Some [] else apply_filter s roomPending)"

section \<open>Relations hooks\<close>

definition setRelationsTarget :: "mx_event \<Rightarrow> timeline_set \<Rightarrow> timeline_set" where
  "setRelationsTarget ev s =
     (if \<not> ts_unstable s then s else s\<lparr>ts_relations := ts_relations s @ [RelTarget (ev_ref ev)]\<rparr>)"

definition aggregateRelations :: "mx_event \<Rightarrow> timeline_set \<Rightarrow> timeline_set" where
  "aggregateRelations ev s =
     (if \<not> ts_unstable s then s
      else if isRedacted ev \<or> status ev = Some CANCELLED then s
      else if isBeingDecrypted ev \<or> shouldAttemptDecryption ev
        then s\<lparr>ts_relations := ts_relations s @ [RelWait (ev_ref ev)]\<rparr>
      else case getRelation ev of
             None \<Rightarrow> s
           | Some relation \<Rightarrow> s\<lparr>ts_relations := ts_relations s @ [RelAdd (ev_ref ev) relation]\<rparr>)"

section \<open>Adding events\<close>

definition addEventToTimeline ::
  "(string \<Rightarrow> string) \<Rightarrow> nat \<Rightarrow> mx_event \<Rightarrow> nat \<Rightarrow> bool \<Rightarrow> bool \<Rightarrow> room_state option \<Rightarrow>
   timeline_set \<Rightarrow> room_state option \<times> timeline_set" where
  "addEventToTimeline unh now ev t toStartOfTimeline fromCache roomState s =
     (let (ev1, tl1, ctx) = timeline_addEvent unh now (ts_hasRoom s) (ts_unfiltered s) ev
                              toStartOfTimeline roomState (timeline_at s t);
          s1 = put_timeline t tl1 s;
          s2 = s1\<lparr>ts_index := dset (getId ev) t (ts_index s1)\<rparr>;
          s3 = aggregateRelations ev1 (setRelationsTarget ev1 s2);
          live = (\<not> toStartOfTimeline \<and> t = ts_live s \<and> \<not> fromCache)
      in (ctx, s3\<lparr>ts_fired := ts_fired s3 @ [TsTimeline (ev_ref ev) toStartOfTimeline False t live]\<rparr>))"

definition inverse_direction :: "direction \<Rightarrow> direction" where
  "inverse_direction d = (case d of Backward \<Rightarrow> Forward | Forward \<Rightarrow> Backward)"

definition join_timelines ::
  "direction \<Rightarrow> nat \<Rightarrow> nat \<Rightarrow> timeline_set \<Rightarrow> string option \<times> timeline_set" where
  "join_timelines d t existing s =
     (case setNeighbouringTimeline existing d (timeline_at s t) of
        Inl err \<Rightarrow> (Some err, s)
      | Inr t1 \<Rightarrow>
          (let s1 = put_timeline t t1 s in
           case setNeighbouringTimeline t (inverse_direction d) (timeline_at s1 existing) of
             Inl err \<Rightarrow> (Some err, s1)
           | Inr e1 \<Rightarrow> (None, put_timeline existing e1 s1)))"

text \<open>The loop: the timeline worked on, \<open>didUpdate\<close> and \<open>lastEventWasNew\<close> are its variables.\<close>

fun add_events_loop ::
  "(string \<Rightarrow> string) \<Rightarrow> nat \<Rightarrow> direction \<Rightarrow> mx_event list \<Rightarrow> nat \<Rightarrow> bool \<Rightarrow> bool \<Rightarrow> timeline_set \<Rightarrow>
   string option \<times> nat \<times> bool \<times> bool \<times> timeline_set" where
  "add_events_loop unh now d [] t didUpdate lastEventWasNew s = (None, t, didUpdate, lastEventWasNew, s)"
| "add_events_loop unh now d (ev # evs) t didUpdate lastEventWasNew s =
     (case dget (ts_index s) (getId ev) of
        None \<Rightarrow>
          add_events_loop unh now d evs t True True
            (snd (addEventToTimeline unh now ev t (d = Backward) False None s))
      | Some existing \<Rightarrow>
          if existing = t then add_events_loop unh now d evs t didUpdate False s
          else if getNeighbouringTimeline d (timeline_at s t) \<noteq> None
            then add_events_loop unh now d evs existing didUpdate False s
          else if (d = Backward \<and> existing = ts_live s) \<or> (d = Forward \<and> t = ts_live s)
            then add_events_loop unh now d evs t didUpdate False s
          else
            (case join_timelines d t existing s of
               (Some err, s1) \<Rightarrow> (Some err, t, didUpdate, False, s1)
             | (None, s1) \<Rightarrow> add_events_loop unh now d evs existing True False s1))"

definition addEventsToTimeline ::
  "(string \<Rightarrow> string) \<Rightarrow> nat \<Rightarrow> mx_event list \<Rightarrow> bool \<Rightarrow> nat option \<Rightarrow> string option \<Rightarrow>
   timeline_set \<Rightarrow> string option \<times> timeline_set" where
  "addEventsToTimeline unh now events toStartOfTimeline tlOpt paginationToken s =
     (case tlOpt of
        None \<Rightarrow> (Some ''timeline not specified for EventTimelineSet.addEventsToTimeline'', s)
      | Some t \<Rightarrow>
          if \<not> toStartOfTimeline \<and> t = ts_live s
          then (Some ''EventTimelineSet.addEventsToTimeline cannot be used for adding events to the live timeline'', s)
          else case apply_filter s events of
                 None \<Rightarrow> (Some ''TypeError'', s)
               | Some evs \<Rightarrow>
                   if ts_filter s \<noteq> None \<and> evs = [] then (None, s)
                   else
                     let d = (if toStartOfTimeline then Backward else Forward) in
                     case add_events_loop unh now d evs t False False s of
                       (Some err, _, _, _, s1) \<Rightarrow> (Some err, s1)
                     | (None, t1, didUpdate, lastEventWasNew, s1) \<Rightarrow>
                         if lastEventWasNew \<or> \<not> didUpdate then
                           (if d = Forward \<and> t1 = ts_live s1 then (None, s1)
                            else (None, put_timeline t1
                                          (setPaginationToken paginationToken d (timeline_at s1 t1)) s1))
                         else (None, s1))"

datatype duplicate_strategy = DupIgnore | DupReplace

fun replace_first :: "(mx_event \<Rightarrow> bool) \<Rightarrow> mx_event \<Rightarrow> mx_event list \<Rightarrow> mx_event list" where
  "replace_first P ev [] = []"
| "replace_first P ev (x # xs) = (if P x then ev # xs else x # replace_first P ev xs)"

definition replace_duplicate ::
  "(string \<Rightarrow> string) \<Rightarrow> nat \<Rightarrow> mx_event \<Rightarrow> nat \<Rightarrow> room_state option \<Rightarrow> timeline_set \<Rightarrow>
   room_state option \<times> timeline_set" where
  "replace_duplicate unh now ev t roomState s =
     (let tlx = timeline_at s t in
      if \<not> list_ex (\<lambda>x. getId x = getId ev) (tl_events tlx) then (roomState, s)
      else
        let ctx = (case roomState of Some rs \<Rightarrow> rs | None \<Rightarrow> getState Forward tlx);
            (ev1, ctx1) = setEventMetadata unh now ctx False ev;
            tl1 = (case roomState of Some _ \<Rightarrow> tlx | None \<Rightarrow> set_state Forward ctx1 tlx);
            tl2 = tl1\<lparr>tl_events := replace_first (\<lambda>x. getId x = getId ev) ev1 (tl_events tl1)\<rparr>
        in (map_option (\<lambda>_. ctx1) roomState, put_timeline t tl2 s))"

definition addLiveEvent ::
  "(string \<Rightarrow> string) \<Rightarrow> nat \<Rightarrow> mx_event \<Rightarrow> duplicate_strategy \<Rightarrow> bool \<Rightarrow> room_state option \<Rightarrow>
   timeline_set \<Rightarrow> string option \<times> room_state option \<times> timeline_set" where
  "addLiveEvent unh now ev duplicateStrategy fromCache roomState s =
     (case apply_filter s [ev] of
        None \<Rightarrow> (Some ''TypeError'', roomState, s)
      | Some [] \<Rightarrow> (None, roomState, s)
      | Some _ \<Rightarrow>
          (case dget (ts_index s) (getId ev) of
             Some t \<Rightarrow>
               (if duplicateStrategy = DupReplace
                then (None, replace_duplicate unh now ev t roomState s)
                else (None, roomState, s))
           | None \<Rightarrow> (None, addEventToTimeline unh now ev (ts_live s) False fromCache roomState s)))"

definition set_handleRemoteEcho ::
  "(string \<Rightarrow> string) \<Rightarrow> nat \<Rightarrow> mx_event \<Rightarrow> string option \<Rightarrow> string option \<Rightarrow> timeline_set \<Rightarrow>
   string option \<times> timeline_set" where
  "set_handleRemoteEcho unh now localEvent oldEventId newEventId s =
     (case dget (ts_index s) oldEventId of
        Some existingTimeline \<Rightarrow>
          (None, s\<lparr>ts_index := dset newEventId existingTimeline (ddel oldEventId (ts_index s))\<rparr>)
      | None \<Rightarrow>
          (case apply_filter s [localEvent] of
             None \<Rightarrow> (Some ''TypeError'', s)
           | Some [] \<Rightarrow> (None, s)
           | Some _ \<Rightarrow> (None, snd (addEventToTimeline unh now localEvent (ts_live s) False False None s))))"

definition set_removeEvent :: "string option \<Rightarrow> timeline_set \<Rightarrow> mx_event option \<times> timeline_set" where
  "set_removeEvent eventId s =
     (case dget (ts_index s) eventId of
        None \<Rightarrow> (None, s)
      | Some t \<Rightarrow>
          (let (removed, tl1) = timeline_removeEvent eventId (timeline_at s t); s1 = put_timeline t tl1 s in
           case removed of
             None \<Rightarrow> (None, s1)
           | Some ev \<Rightarrow>
               (Some ev, s1\<lparr>ts_index := ddel eventId (ts_index s1),
                            ts_fired := ts_fired s1 @ [TsTimeline (ev_ref ev) False True t False]\<rparr>)))"

section \<open>New timelines\<close>

definition addTimeline :: "nat \<Rightarrow> timeline_set \<Rightarrow> string + (nat \<times> timeline_set)" where
  "addTimeline now s =
     (if \<not> ts_timelineSupport s then Inl ''timeline support is disabled''
      else
        let t = length (ts_store s) in
        Inr (t, s\<lparr>ts_store := ts_store s @ [new_timeline now (ts_roomId s) (ts_nextOob s)],
                  ts_nextOob := ts_nextOob s + 2, ts_timelines := ts_timelines s @ [t]\<rparr>))"

definition token_given :: "string option \<Rightarrow> bool" where
  "token_given t = (case t of Some s \<Rightarrow> s \<noteq> [] | None \<Rightarrow> False)"

text \<open>\<open>None\<close>: cloning the room state threw.\<close>

definition resetLiveTimeline ::
  "(string \<Rightarrow> string) \<Rightarrow> nat \<Rightarrow> string option \<Rightarrow> string option \<Rightarrow> timeline_set \<Rightarrow> timeline_set option" where
  "resetLiveTimeline unh now backToken forwardToken s =
     (let resetAllTimelines = (\<not> ts_timelineSupport s \<or> \<not> token_given forwardToken);
          old = ts_live s; new = length (ts_store s);
          forked = (if resetAllTimelines
                    then forkLive unh now (ts_heap s) (ts_nextOob s) (timeline_at s old)
                    else map_option (\<lambda>n. (n, timeline_at s old))
                           (fork unh now (ts_heap s) (ts_nextOob s) (timeline_at s old)))
      in case forked of
           None \<Rightarrow> None
         | Some (newTimeline, oldTimeline) \<Rightarrow>
             (let s1 = (put_timeline old oldTimeline s)\<lparr>ts_nextOob := ts_nextOob s + 2\<rparr>;
                  s2 = s1\<lparr>ts_store := ts_store s1 @ [newTimeline],
                          ts_timelines := (if resetAllTimelines then [new] else ts_timelines s1 @ [new]),
                          ts_index := (if resetAllTimelines then [] else ts_index s1)\<rparr>;
                  s3 = (if token_given forwardToken
                        then put_timeline old (setPaginationToken forwardToken Forward (timeline_at s2 old)) s2
                        else s2);
                  s4 = put_timeline new (setPaginationToken backToken Backward (timeline_at s3 new)) s3
              in Some (s4\<lparr>ts_live := new, ts_fired := ts_fired s4 @ [TsReset resetAllTimelines]\<rparr>)))"

section \<open>Order of events\<close>

datatype ordering_result = OrderUnknown | OrderBy int | OrderNaN | OrderDiverges

fun find_both ::
  "string option \<Rightarrow> string option \<Rightarrow> mx_event list \<Rightarrow> nat \<Rightarrow> nat option \<Rightarrow> nat option \<Rightarrow> nat option \<times> nat option" where
  "find_both id1 id2 [] idx i1 i2 = (i1, i2)"
| "find_both id1 id2 (ev # evs) idx i1 i2 =
     (if i1 \<noteq> None \<and> i2 \<noteq> None then (i1, i2)
      else find_both id1 id2 evs (idx + 1)
             (if getId ev = id1 then Some idx else i1) (if getId ev = id2 then Some idx else i2))"

text \<open>A walk along the neighbours: \<open>None\<close> when the fuel runs out.\<close>

fun walk :: "timeline_set \<Rightarrow> direction \<Rightarrow> nat \<Rightarrow> nat \<Rightarrow> nat option \<Rightarrow> bool option" where
  "walk s d 0 goal cur = None"
| "walk s d (Suc fuel) goal None = Some False"
| "walk s d (Suc fuel) goal (Some t) =
     (if t = goal then Some True
      else walk s d fuel goal (getNeighbouringTimeline d (timeline_at s t)))"

definition compareEventOrdering ::
  "nat \<Rightarrow> string option \<Rightarrow> string option \<Rightarrow> timeline_set \<Rightarrow> ordering_result" where
  "compareEventOrdering fuel eventId1 eventId2 s =
     (if eventId1 = eventId2 then OrderBy 0
      else case (dget (ts_index s) eventId1, dget (ts_index s) eventId2) of
             (Some timeline1, Some timeline2) \<Rightarrow>
               if timeline1 = timeline2 then
                 (case find_both eventId1 eventId2 (tl_events (timeline_at s timeline1)) 0 None None of
                    (Some idx1, Some idx2) \<Rightarrow> OrderBy (int idx1 - int idx2)
                  | _ \<Rightarrow> OrderNaN)
               else (case walk s Forward fuel timeline2 (Some timeline1) of
                       None \<Rightarrow> OrderDiverges
                     | Some True \<Rightarrow> OrderBy (- 1)
                     | Some False \<Rightarrow>
                         (case walk s Backward fuel timeline2 (Some timeline1) of
                            None \<Rightarrow> OrderDiverges
                          | Some True \<Rightarrow> OrderBy 1
                          | Some False \<Rightarrow> OrderUnknown))
           | _ \<Rightarrow> OrderUnknown)"

section \<open>The invariant of a timeline set\<close>

definition ids_at :: "timeline_set \<Rightarrow> nat \<Rightarrow> string option list" where
  "ids_at s t = map getId (tl_events (timeline_at s t))"

definition nb :: "timeline_set \<Rightarrow> direction \<Rightarrow> nat \<Rightarrow> nat option" where
  "nb s d t = getNeighbouringTimeline d (timeline_at s t)"

text \<open>
  The live timeline is known and has nothing after it; the index names, for each event id, the one known timeline
  that holds the event, each id once; the neighbour links are symmetric.
\<close>

definition shape_ok :: "timeline_set \<Rightarrow> bool" where
  "shape_ok s \<longleftrightarrow> ts_live s \<in> set (ts_timelines s) \<and> (\<forall>t\<in>set (ts_timelines s). t < length (ts_store s))"

definition index_ok :: "timeline_set \<Rightarrow> bool" where
  "index_ok s \<longleftrightarrow>
     (\<forall>i t. dget (ts_index s) i = Some t \<longleftrightarrow> t \<in> set (ts_timelines s) \<and> i \<in> set (ids_at s t)) \<and>
     (\<forall>t\<in>set (ts_timelines s). distinct (ids_at s t))"

definition links_ok :: "timeline_set \<Rightarrow> bool" where
  "links_ok s \<longleftrightarrow>
     (\<forall>a b d. a < length (ts_store s) \<and> nb s d a = Some b \<longrightarrow>
        b < length (ts_store s) \<and> nb s (inverse_direction d) b = Some a) \<and>
     nb s Forward (ts_live s) = None"

definition set_ok :: "timeline_set \<Rightarrow> bool" where
  "set_ok s \<longleftrightarrow> shape_ok s \<and> index_ok s \<and> links_ok s"

lemma set_ok_cong:
  assumes "ts_live s' = ts_live s" "ts_timelines s' = ts_timelines s" "ts_index s' = ts_index s"
    "length (ts_store s') = length (ts_store s)" "ids_at s' = ids_at s" "nb s' = nb s"
  shows "set_ok s' = set_ok s"
  using assms by (simp add: set_ok_def shape_ok_def index_ok_def links_ok_def)

lemma timeline_at_put [ev_simps]:
  "t < length (ts_store s) \<Longrightarrow> timeline_at (put_timeline t x s) u = (if u = t then x else timeline_at s u)"
  by (simp add: timeline_at_def put_timeline_def)

lemma put_timeline_fields [ev_simps]:
  "ts_live (put_timeline t x s) = ts_live s" "ts_timelines (put_timeline t x s) = ts_timelines s"
  "ts_index (put_timeline t x s) = ts_index s" "length (ts_store (put_timeline t x s)) = length (ts_store s)"
  "ts_filter (put_timeline t x s) = ts_filter s"
  by (simp_all add: put_timeline_def)

lemma set_ok_put_same:
  assumes "t < length (ts_store s)" "map getId (tl_events x) = ids_at s t"
    "\<And>d. getNeighbouringTimeline d x = nb s d t"
  shows "set_ok (put_timeline t x s) = set_ok s"
  by (rule set_ok_cong) (use assms in \<open>auto simp: ev_simps ids_at_def nb_def fun_eq_iff\<close>)

lemma hooks_fields [ev_simps]:
  "ts_live (aggregateRelations e (setRelationsTarget e s)) = ts_live s"
  "ts_timelines (aggregateRelations e (setRelationsTarget e s)) = ts_timelines s"
  "ts_index (aggregateRelations e (setRelationsTarget e s)) = ts_index s"
  "ts_store (aggregateRelations e (setRelationsTarget e s)) = ts_store s"
  "ts_filter (aggregateRelations e (setRelationsTarget e s)) = ts_filter s"
  by (simp_all add: aggregateRelations_def setRelationsTarget_def split: option.split)

lemma addEventToTimeline_fields:
  assumes "t < length (ts_store s)"
    and s'_def: "s' = snd (addEventToTimeline unh now e t b fc rs s)"
  shows "ts_live s' = ts_live s" and "ts_timelines s' = ts_timelines s"
    and "ts_index s' = dset (getId e) t (ts_index s)" and "length (ts_store s') = length (ts_store s)"
    and "ids_at s' u = (if u = t then (if b then getId e # ids_at s t else ids_at s t @ [getId e]) else ids_at s u)"
    and "nb s' d u = nb s d u" and "ts_filter s' = ts_filter s"
proof -
  obtain e1 tl1 ctx where add: "timeline_addEvent unh now (ts_hasRoom s) (ts_unfiltered s) e b rs (timeline_at s t) = (e1, tl1, ctx)"
    by (metis prod_cases3)
  define s3 where "s3 = aggregateRelations e1 (setRelationsTarget e1
    ((put_timeline t tl1 s)\<lparr>ts_index := dset (getId e) t (ts_index s)\<rparr>))"
  have st: "ts_store s' = ts_store (put_timeline t tl1 s)"
    by (simp add: s'_def addEventToTimeline_def add Let_def ev_simps)
  then have at: "timeline_at s' u = (if u = t then tl1 else timeline_at s u)" for u
    using assms(1) by (simp add: timeline_at_def put_timeline_def)
  show "ts_live s' = ts_live s" "ts_timelines s' = ts_timelines s" "ts_filter s' = ts_filter s"
    "ts_index s' = dset (getId e) t (ts_index s)" "length (ts_store s') = length (ts_store s)"
    by (simp_all add: s'_def addEventToTimeline_def add Let_def ev_simps)
  show "ids_at s' u = (if u = t then (if b then getId e # ids_at s t else ids_at s t @ [getId e]) else ids_at s u)"
    "nb s' d u = nb s d u"
    using timeline_addEvent_fields [OF add] by (simp_all add: ids_at_def nb_def at)
qed

lemma set_ok_addEventToTimeline [inv_intros]:
  assumes "set_ok s" "t \<in> set (ts_timelines s)" "dget (ts_index s) (getId e) = None"
  shows "set_ok (snd (addEventToTimeline unh now e t b fc rs s))"
proof -
  have t: "t < length (ts_store s)"
    using assms by (simp add: set_ok_def shape_ok_def)
  note f = addEventToTimeline_fields [OF t refl, of unh now e b fc rs]
  have "dget (ts_index s) i = Some u \<longleftrightarrow> u \<in> set (ts_timelines s) \<and> i \<in> set (ids_at s u)" for i u
    using assms(1) by (simp add: set_ok_def index_ok_def)
  then have fresh: "getId e \<notin> set (ids_at s u)" if "u \<in> set (ts_timelines s)" for u
    using assms(3) that by (metis option.distinct(1))
  have "index_ok (snd (addEventToTimeline unh now e t b fc rs s))"
    using assms fresh unfolding set_ok_def index_ok_def
    by (auto simp: f dict_simps split: if_splits)
  moreover have "shape_ok (snd (addEventToTimeline unh now e t b fc rs s))"
    using assms(1) by (simp add: set_ok_def shape_ok_def f)
  moreover have "links_ok (snd (addEventToTimeline unh now e t b fc rs s))"
    using assms(1) unfolding set_ok_def links_ok_def by (simp add: f)
  ultimately show ?thesis by (simp add: set_ok_def)
qed

lemma inverse_inverse [simp]: "inverse_direction (inverse_direction d) = d"
  by (simp add: inverse_direction_def split: direction.split)

lemma inverse_neq [simp]: "inverse_direction d \<noteq> d" "d \<noteq> inverse_direction d"
  by (simp_all add: inverse_direction_def split: direction.split)

lemma inverse_cases: "d' = d \<or> d' = inverse_direction d"
  by (cases d; cases d') (simp_all add: inverse_direction_def)

lemma join_timelines_ok:
  assumes "join_timelines d t e s = (None, s')" and "t \<noteq> e"
    and "t < length (ts_store s)" "e < length (ts_store s)"
  shows "nb s d t = None" and "nb s (inverse_direction d) e = None"
    and "nb s' d' u = (if u = t \<and> d' = d then Some e else if u = e \<and> d' = inverse_direction d then Some t else nb s d' u)"
    and "ids_at s' = ids_at s" and "ts_live s' = ts_live s" and "ts_timelines s' = ts_timelines s"
    and "ts_index s' = ts_index s" and "length (ts_store s') = length (ts_store s)" and "ts_filter s' = ts_filter s"
proof -
  from assms(1) obtain t1 where t1: "setNeighbouringTimeline e d (timeline_at s t) = Inr t1"
    by (auto simp: join_timelines_def split: sum.splits)
  have at1: "timeline_at (put_timeline t t1 s) e = timeline_at s e"
    using assms by (simp add: ev_simps)
  from assms(1) t1 obtain e1 where e1: "setNeighbouringTimeline t (inverse_direction d) (timeline_at s e) = Inr e1"
    and s': "s' = put_timeline e e1 (put_timeline t t1 s)"
    by (auto simp: join_timelines_def at1 Let_def split: sum.splits)
  have at: "timeline_at s' u = (if u = e then e1 else if u = t then t1 else timeline_at s u)" for u
    using assms(3,4) by (simp add: s' ev_simps)
  note nt = setNeighbouring_ok [OF t1] and ne = setNeighbouring_ok [OF e1]
  show "nb s d t = None" "nb s (inverse_direction d) e = None"
    using nt(1) ne(1) by (simp_all add: nb_def)
  show "nb s' d' u = (if u = t \<and> d' = d then Some e else if u = e \<and> d' = inverse_direction d then Some t else nb s d' u)"
    using assms(2) nt(2) ne(2) by (auto simp: nb_def at)
  show "ids_at s' = ids_at s"
    using nt(3) ne(3) by (auto simp: ids_at_def at fun_eq_iff)
  show "ts_live s' = ts_live s" "ts_timelines s' = ts_timelines s" "ts_index s' = ts_index s"
    "length (ts_store s') = length (ts_store s)" "ts_filter s' = ts_filter s"
    by (simp_all add: s' ev_simps)
qed

lemma set_ok_join:
  assumes ok: "set_ok s" and join: "join_timelines d t e s = (None, s')" and ne: "t \<noteq> e"
    and t: "t \<in> set (ts_timelines s)" and e: "e \<in> set (ts_timelines s)"
    and live: "\<not> ((d = Backward \<and> e = ts_live s) \<or> (d = Forward \<and> t = ts_live s))"
  shows "set_ok s'"
proof -
  have len: "t < length (ts_store s)" "e < length (ts_store s)"
    using ok t e by (simp_all add: set_ok_def shape_ok_def)
  note j = join_timelines_ok [OF join ne len]
  have sym: "b < length (ts_store s) \<and> nb s (inverse_direction dd) b = Some a"
    if "a < length (ts_store s)" "nb s dd a = Some b" for a b dd
    using ok that unfolding set_ok_def links_ok_def by blast
  have link: "b < length (ts_store s') \<and> nb s' (inverse_direction dd) b = Some a"
    if a: "a < length (ts_store s')" and n: "nb s' dd a = Some b" for a b dd
  proof -
    have jt: "nb s' dd' u = nb s dd' u" if "\<not> (u = t \<and> dd' = d)" "\<not> (u = e \<and> dd' = inverse_direction d)" for dd' u
      using that by (simp only: j(3) if_False)
    have jd: "nb s' d t = Some e" "nb s' (inverse_direction d) e = Some t"
      using ne by (simp_all add: j(3))
    show ?thesis
    proof (cases "(a = t \<and> dd = d) \<or> (a = e \<and> dd = inverse_direction d)")
      case True
      with n jd len j(8) show ?thesis by auto
    next
      case False
      with n jt [of a dd] have "nb s dd a = Some b" by auto
      with a j(8) have sy: "b < length (ts_store s)" "nb s (inverse_direction dd) b = Some a"
        using sym [of a dd b] by auto
      have "\<not> (b = t \<and> inverse_direction dd = d)" "\<not> (b = e \<and> inverse_direction dd = inverse_direction d)"
        using j(1,2) sy(2) by auto
      from jt [OF this] sy j(8) show ?thesis by simp
    qed
  qed
  have "nb s Forward (ts_live s) = None"
    using ok unfolding set_ok_def links_ok_def by blast
  then have "nb s' Forward (ts_live s') = None"
    using live unfolding j(3) j(5) by (cases d) (auto simp: inverse_direction_def)
  with link have "links_ok s'"
    unfolding links_ok_def by blast
  moreover have "shape_ok s'"
    using ok j(4-8) by (simp add: set_ok_def shape_ok_def)
  moreover have "index_ok s' = index_ok s"
    using j(4-8) by (simp add: index_ok_def)
  ultimately show ?thesis
    using ok by (simp add: set_ok_def)
qed

section \<open>Every operation keeps the invariant\<close>

lemma index_target: "set_ok s \<Longrightarrow> dget (ts_index s) i = Some t \<Longrightarrow> t \<in> set (ts_timelines s)"
  by (simp add: set_ok_def index_ok_def)

lemma timeline_len: "set_ok s \<Longrightarrow> t \<in> set (ts_timelines s) \<Longrightarrow> t < length (ts_store s)"
  by (simp add: set_ok_def shape_ok_def)

lemma add_events_loop_ok:
  "add_events_loop unh now d evs t du le s = (None, t1, du1, le1, s1) \<Longrightarrow> set_ok s \<Longrightarrow>
   t \<in> set (ts_timelines s) \<Longrightarrow> set_ok s1 \<and> t1 \<in> set (ts_timelines s1)"
proof (induction unh now d evs t du le s rule: add_events_loop.induct)
  case (2 unh now d ev evs t du le s)
  note eq = 2(6) and ok = 2(7) and mem = 2(8)
  show ?case
  proof (cases "dget (ts_index s) (getId ev)")
    case None
    let ?s = "snd (addEventToTimeline unh now ev t (d = Backward) False None s)"
    have "set_ok ?s"
      by (rule set_ok_addEventToTimeline [OF ok mem None])
    moreover have "t \<in> set (ts_timelines ?s)"
      using addEventToTimeline_fields(2) [OF timeline_len [OF ok mem] refl] mem by simp
    ultimately show ?thesis using 2(1) [OF None] eq None by simp
  next
    case (Some e)
    have e: "e \<in> set (ts_timelines s)"
      using index_target [OF ok Some] .
    show ?thesis
    proof (cases "e = t")
      case True
      with 2(2) [OF Some True] eq ok mem Some show ?thesis by simp
    next
      case ne: False
      show ?thesis
      proof (cases "getNeighbouringTimeline d (timeline_at s t) \<noteq> None")
        case True
        from 2(3) [OF Some ne True _ ok e] eq Some ne True show ?thesis by simp
      next
        case free: False
        show ?thesis
        proof (cases "(d = Backward \<and> e = ts_live s) \<or> (d = Forward \<and> t = ts_live s)")
          case True
          from 2(4) [OF Some ne free True _ ok mem] eq Some ne free True show ?thesis by simp
        next
          case live: False
          obtain err s' where j: "join_timelines d t e s = (err, s')" by fastforce
          with eq Some ne free live have none: "err = None"
            by (auto split: option.splits)
          have ok': "set_ok s'"
            using j none by (intro set_ok_join [OF ok _ ne [symmetric] mem e live]) simp
          have "ts_timelines s' = ts_timelines s"
            using j none timeline_len [OF ok mem] timeline_len [OF ok e]
            by (intro join_timelines_ok(6) [where d = d and t = t and e = e]) (use ne in auto)
          with e have e': "e \<in> set (ts_timelines s')" by simp
          have "add_events_loop unh now d evs e True False s' = (None, t1, du1, le1, s1)"
            using eq by (simp only: add_events_loop.simps Some option.case ne if_False free if_not_P [OF live]
                j none prod.case)
          from 2(5) [OF Some ne free live j [symmetric] none this ok' e'] show ?thesis .
        qed
      qed
    qed
  qed
qed simp

lemma set_ok_token:
  assumes "set_ok s" "t \<in> set (ts_timelines s)"
  shows "set_ok (put_timeline t (setPaginationToken tok d (timeline_at s t)) s)"
  by (subst set_ok_put_same) (use assms timeline_len in \<open>simp_all add: ids_at_def nb_def ev_simps\<close>)

lemma set_ok_addEventsToTimeline:
  assumes "addEventsToTimeline unh now evs b tlo tok s = (None, s1)" and "set_ok s"
    and "\<And>t. tlo = Some t \<Longrightarrow> t \<in> set (ts_timelines s)"
  shows "set_ok s1"
proof -
  obtain t where t: "tlo = Some t"
    using assms(1) by (cases tlo) (auto simp: addEventsToTimeline_def)
  show ?thesis
    using assms(1,2) assms(3) [OF t]
    by (auto simp: addEventsToTimeline_def t Let_def set_ok_token dest!: add_events_loop_ok
        split: if_splits option.splits prod.splits)
qed

lemma set_ok_same: "ts_live s' = ts_live s \<Longrightarrow> ts_timelines s' = ts_timelines s \<Longrightarrow> ts_index s' = ts_index s \<Longrightarrow>
    ts_store s' = ts_store s \<Longrightarrow> set_ok s' = set_ok s"
  by (rule set_ok_cong) (auto simp: ids_at_def nb_def timeline_at_def fun_eq_iff)

lemma replace_first_ids:
  "getId ev = getId e \<Longrightarrow> map getId (replace_first (\<lambda>x. getId x = getId e) ev evs) = map getId evs"
  by (induction evs) auto

lemma set_ok_replace_duplicate:
  assumes "set_ok s" "t \<in> set (ts_timelines s)"
  shows "set_ok (snd (replace_duplicate unh now e t rs s))"
  using assms timeline_len [OF assms]
  by (auto simp: replace_duplicate_def Let_def split_beta set_ok_put_same ids_at_def nb_def ev_simps
      replace_first_ids getNeighbouringTimeline_def split: option.split direction.split)

lemma live_mem: "set_ok s \<Longrightarrow> ts_live s \<in> set (ts_timelines s)"
  by (simp add: set_ok_def shape_ok_def)

lemma set_ok_addLiveEvent:
  "set_ok s \<Longrightarrow> set_ok (snd (snd (addLiveEvent unh now e ds fc rs s)))"
  using index_target [of s "getId e"]
  by (auto simp: addLiveEvent_def set_ok_replace_duplicate set_ok_addEventToTimeline live_mem
      split: option.split list.split)

lemma removed_ids:
  assumes "find_last_index (\<lambda>ev. getId ev = i) evs (length evs) = Some j" "distinct (map getId evs)"
  shows "set (map getId (take j evs @ drop (j + 1) evs)) = set (map getId evs) - {i}"
    and "distinct (map getId (take j evs @ drop (j + 1) evs))"
proof -
  have j: "j < length evs" "getId (evs ! j) = i"
    using assms(1) by (simp_all add: find_last_index_some)
  have evs: "evs = take j evs @ evs ! j # drop (j + 1) evs"
    using j(1) by (simp add: id_take_nth_drop)
  have "distinct (map getId (take j evs @ evs ! j # drop (j + 1) evs))"
    using assms(2) evs by simp
  moreover have "set (map getId evs) = set (map getId (take j evs @ evs ! j # drop (j + 1) evs))"
    using evs by simp
  ultimately show "set (map getId (take j evs @ drop (j + 1) evs)) = set (map getId evs) - {i}"
    "distinct (map getId (take j evs @ drop (j + 1) evs))"
    using j(2) by auto
qed

lemma set_ok_removeEvent:
  assumes "set_ok s"
  shows "set_ok (snd (set_removeEvent i s))"
proof (cases "dget (ts_index s) i")
  case (Some t)
  have t: "t \<in> set (ts_timelines s)" and len: "t < length (ts_store s)"
    using index_target [OF assms Some] timeline_len [OF assms] by auto
  have mem: "i \<in> set (ids_at s t)" and dist: "distinct (map getId (tl_events (timeline_at s t)))"
    using assms Some t by (simp_all add: set_ok_def index_ok_def ids_at_def)
  obtain j where j: "find_last_index (\<lambda>ev. getId ev = i) (tl_events (timeline_at s t))
      (length (tl_events (timeline_at s t))) = Some j"
    using mem find_last_index_none [of "\<lambda>ev. getId ev = i" "tl_events (timeline_at s t)"]
    by (cases "find_last_index (\<lambda>ev. getId ev = i) (tl_events (timeline_at s t))
      (length (tl_events (timeline_at s t)))") (auto simp: ids_at_def in_set_conv_nth)
  define tx where "tx = snd (timeline_removeEvent i (timeline_at s t))"
  define s' where "s' = snd (set_removeEvent i s)"
  have tx: "map getId (tl_events tx) = map getId (take j (tl_events (timeline_at s t)) @ drop (j + 1) (tl_events (timeline_at s t)))"
    "getNeighbouringTimeline d tx = nb s d t" for d
    by (auto simp: tx_def timeline_removeEvent_def j Let_def nb_def getNeighbouringTimeline_def split: direction.split)
  have s': "ts_index s' = ddel i (ts_index s)" "ts_store s' = (ts_store s)[t := tx]" "ts_live s' = ts_live s"
    "ts_timelines s' = ts_timelines s"
    by (simp_all add: s'_def set_removeEvent_def Some timeline_removeEvent_def j Let_def split_beta
        put_timeline_def tx_def)
  have at: "timeline_at s' u = (if u = t then tx else timeline_at s u)" for u
    using len by (simp add: timeline_at_def s')
  have nb': "nb s' = nb s"
    using tx(2) by (auto simp: nb_def at fun_eq_iff)
  have ids: "set (ids_at s' u) = (if u = t then set (ids_at s u) - {i} else set (ids_at s u))"
    and dis: "u \<in> set (ts_timelines s) \<Longrightarrow> distinct (ids_at s' u)" for u
  proof -
    have it: "ids_at s' u = (if u = t
        then map getId (take j (tl_events (timeline_at s t)) @ drop (j + 1) (tl_events (timeline_at s t)))
        else ids_at s u)" for u
      using tx(1) by (simp add: ids_at_def at)
    show "set (ids_at s' u) = (if u = t then set (ids_at s u) - {i} else set (ids_at s u))"
      using removed_ids(1) [OF j dist] unfolding it by (simp add: ids_at_def)
    show "u \<in> set (ts_timelines s) \<Longrightarrow> distinct (ids_at s' u)"
      using removed_ids(2) [OF j dist] assms unfolding it by (simp add: set_ok_def index_ok_def)
  qed
  have iff: "dget (ts_index s) k = Some u \<longleftrightarrow> u \<in> set (ts_timelines s) \<and> k \<in> set (ids_at s u)" for k u
    using assms by (simp add: set_ok_def index_ok_def)
  have "index_ok s'"
    unfolding index_ok_def s'(1,4)
  proof (intro conjI allI ballI)
    fix k u
    show "dget (ddel i (ts_index s)) k = Some u \<longleftrightarrow> u \<in> set (ts_timelines s) \<and> k \<in> set (ids_at s' u)"
      using iff [of k u] Some unfolding ids by (auto simp: dict_simps)
  qed (rule dis)
  then show ?thesis
    using assms nb' by (simp add: set_ok_def shape_ok_def links_ok_def s' s'_def [symmetric])
qed (use assms in \<open>simp add: set_removeEvent_def\<close>)

lemma set_ok_append:
  assumes ok: "set_ok s" and st: "ts_store s' = ts_store s @ [x]"
    and x: "tl_events x = []" "\<And>d. getNeighbouringTimeline d x = None"
    and tls: "(ts_timelines s' = ts_timelines s @ [length (ts_store s)] \<and> ts_index s' = ts_index s) \<or>
              (ts_timelines s' = [length (ts_store s)] \<and> ts_index s' = [])"
    and live: "ts_live s' = length (ts_store s) \<or>
      (ts_live s' = ts_live s \<and> ts_timelines s' = ts_timelines s @ [length (ts_store s)])"
  shows "set_ok s'"
proof -
  let ?n = "length (ts_store s)"
  have at: "timeline_at s' u = (if u = ?n then x else timeline_at s u)" if "u \<le> ?n" for u
    using that by (simp add: timeline_at_def st nth_append)
  have lt: "t < ?n" if "t \<in> set (ts_timelines s)" for t
    using timeline_len [OF ok that] .
  have ids: "ids_at s' ?n = []" "t \<in> set (ts_timelines s) \<Longrightarrow> ids_at s' t = ids_at s t" for t
    using lt [of t] x(1) by (auto simp: ids_at_def at)
  have nbs: "nb s' d u = (if u = ?n then None else nb s d u)" if "u \<le> ?n" for d u
    using that x(2) by (simp add: nb_def at)
  have iff: "dget (ts_index s) k = Some u \<longleftrightarrow> u \<in> set (ts_timelines s) \<and> k \<in> set (ids_at s u)" for k u
    using ok by (simp add: set_ok_def index_ok_def)
  have dis: "distinct (ids_at s u)" if "u \<in> set (ts_timelines s)" for u
    using ok that by (simp add: set_ok_def index_ok_def)
  have "shape_ok s'"
    using tls live lt live_mem [OF ok] by (auto simp: shape_ok_def st less_Suc_eq)
  moreover have "index_ok s'"
    using tls
  proof
    assume t: "ts_timelines s' = ts_timelines s @ [?n] \<and> ts_index s' = ts_index s"
    show ?thesis
      unfolding index_ok_def
    proof (intro conjI allI ballI)
      fix i t'
      show "dget (ts_index s') i = Some t' \<longleftrightarrow> t' \<in> set (ts_timelines s') \<and> i \<in> set (ids_at s' t')"
        using t iff [of i t'] ids lt by auto
      show "t' \<in> set (ts_timelines s') \<Longrightarrow> distinct (ids_at s' t')"
        using t ids dis by auto
    qed
  qed (use ids in \<open>auto simp: index_ok_def\<close>)
  moreover have "links_ok s'"
    unfolding links_ok_def
  proof (intro conjI allI impI)
    fix a b d
    assume "a < length (ts_store s') \<and> nb s' d a = Some b"
    then have "a < ?n" "nb s d a = Some b"
      using nbs [of a d] by (auto simp: st split: if_splits)
    then have "b < ?n" "nb s (inverse_direction d) b = Some a"
      using ok unfolding set_ok_def links_ok_def by blast+
    then show "b < length (ts_store s')" "nb s' (inverse_direction d) b = Some a"
      by (simp_all add: st nbs)
  next
    have "nb s Forward (ts_live s) = None"
      using ok unfolding set_ok_def links_ok_def by blast
    then show "nb s' Forward (ts_live s') = None"
      using live lt [OF live_mem [OF ok]] by (auto simp: nbs)
  qed
  ultimately show ?thesis by (simp add: set_ok_def)
qed

lemma set_ok_addTimeline:
  assumes "addTimeline now s = Inr (t, s')" and "set_ok s"
  shows "set_ok s'"
  by (rule set_ok_append [OF assms(2), where x = "new_timeline now (ts_roomId s) (ts_nextOob s)"])
    (use assms(1) in \<open>auto simp: addTimeline_def Let_def new_timeline_def getNeighbouringTimeline_def
      split: if_splits direction.split\<close>)

lemma forked_fields:
  assumes "(if b then forkLive unh now h k t else map_option (\<lambda>n. (n, t)) (fork unh now h k t)) = Some (n, old)"
  shows "tl_events n = []" and "getNeighbouringTimeline d n = None"
    and "tl_events old = tl_events t" and "getNeighbouringTimeline d old = getNeighbouringTimeline d t"
  using assms
  by (auto simp: forkLive_def fork_def Let_def new_timeline_def getNeighbouringTimeline_def
      split: if_splits option.splits direction.splits)

lemma set_ok_resetLiveTimeline:
  assumes r: "resetLiveTimeline unh now bt ft s = Some s'" and ok: "set_ok s"
  shows "set_ok s'"
proof -
  let ?old = "ts_live s" and ?new = "length (ts_store s)"
  define b where "b = (\<not> ts_timelineSupport s \<or> \<not> token_given ft)"
  obtain n old where f: "(if b then forkLive unh now (ts_heap s) (ts_nextOob s) (timeline_at s ?old)
      else map_option (\<lambda>n. (n, timeline_at s ?old)) (fork unh now (ts_heap s) (ts_nextOob s) (timeline_at s ?old))) = Some (n, old)"
    using r by (auto simp: resetLiveTimeline_def Let_def b_def split: option.splits)
  note ff = forked_fields [OF f]
  have l: "?old < ?new" using timeline_len [OF ok live_mem [OF ok]] .
  define old' where "old' = (if token_given ft then setPaginationToken ft Forward old else old)"
  define n' where "n' = setPaginationToken bt Backward n"
  have "ts_store s' = (ts_store s)[?old := old'] @ [n']"
    "ts_timelines s' = (if b then [?new] else ts_timelines s @ [?new])"
    "ts_index s' = (if b then [] else ts_index s)" "ts_live s' = ?new"
    using r f l unfolding resetLiveTimeline_def Let_def b_def [symmetric]
    by (auto simp: put_timeline_def timeline_at_def old'_def n'_def nth_append list_update_append)
  moreover have "set_ok (put_timeline ?old old' s)"
    by (subst set_ok_put_same [OF l]) (simp_all add: ok old'_def ev_simps ff ids_at_def nb_def)
  moreover have "tl_events n' = []" "getNeighbouringTimeline d n' = None" for d
    using ff by (simp_all add: n'_def ev_simps)
  ultimately show ?thesis
    by (intro set_ok_append [of "put_timeline ?old old' s" s' n']) (auto simp: put_timeline_def)
qed

section \<open>Runs of a timeline set\<close>

inductive ts_step :: "(string \<Rightarrow> string) \<Rightarrow> timeline_set \<Rightarrow> timeline_set \<Rightarrow> bool" for unh where
  add_events: "addEventsToTimeline unh now evs b tlo tok s = (None, s') \<Longrightarrow>
    \<forall>t. tlo = Some t \<longrightarrow> t \<in> set (ts_timelines s) \<Longrightarrow> ts_step unh s s'"
| add_live: "ts_step unh s (snd (snd (addLiveEvent unh now e ds fc rs s)))"
| remove: "ts_step unh s (snd (set_removeEvent i s))"
| add_timeline: "addTimeline now s = Inr (t, s') \<Longrightarrow> ts_step unh s s'"
| reset: "resetLiveTimeline unh now bt ft s = Some s' \<Longrightarrow> ts_step unh s s'"
| set_filter: "ts_step unh s (setFilter flt s)"

inductive ts_reachable :: "(string \<Rightarrow> string) \<Rightarrow> timeline_set \<Rightarrow> bool" for unh where
  initial: "ts_reachable unh (new_timeline_set now r u supp unst flt h)"
| step: "ts_reachable unh s \<Longrightarrow> ts_step unh s s' \<Longrightarrow> ts_reachable unh s'"

lemma set_ok_step:
  assumes "ts_step unh s s'" and ok: "set_ok s"
  shows "set_ok s'"
  using assms(1)
proof cases
  case (add_events now evs b tlo tok)
  show ?thesis
    by (rule set_ok_addEventsToTimeline [OF add_events(1) ok]) (use add_events(2) in blast)
next
  case (add_live now e ds fc rs)
  show ?thesis unfolding add_live by (rule set_ok_addLiveEvent [OF ok])
next
  case (remove i)
  show ?thesis unfolding remove by (rule set_ok_removeEvent [OF ok])
next
  case (add_timeline now t)
  show ?thesis by (rule set_ok_addTimeline [OF add_timeline ok])
next
  case (reset now bt ft)
  show ?thesis by (rule set_ok_resetLiveTimeline [OF reset ok])
next
  case (set_filter flt)
  show ?thesis unfolding set_filter setFilter_def by (subst set_ok_same [of _ s]) (simp_all add: ok)
qed

lemma set_ok_reachable: "ts_reachable unh s \<Longrightarrow> set_ok s"
proof (induction rule: ts_reachable.induct)
  case (initial now r u supp unst flt h)
  show ?case
    by (auto simp: set_ok_def shape_ok_def index_ok_def links_ok_def new_timeline_set_def ids_at_def nb_def
        timeline_at_def new_timeline_def getNeighbouringTimeline_def split: direction.splits)
qed (rule set_ok_step)

lemma find_unique:
  "distinct (map f xs) \<Longrightarrow> x \<in> set xs \<Longrightarrow> List.find (\<lambda>y. f y = f x) xs = Some x"
  by (induction xs) (auto simp: image_iff)


definition sample_set :: timeline_set where
  "sample_set = snd (snd (addLiveEvent id 1 sample_redaction DupIgnore False None
     (new_timeline_set 0 None True True False None (\<lambda>_. OobNotStarted))))"

lemma sample_set_reachable: "ts_reachable id sample_set"
  unfolding sample_set_def by (rule ts_reachable.step [OF ts_reachable.initial ts_step.add_live])

lemma sample_set_events: "timeline_at sample_set 0 = (new_timeline 0 None 0)\<lparr>tl_events := [sample_redaction]\<rparr> \<and>
    ts_timelines sample_set = [0]"
  by (simp add: sample_set_def addLiveEvent_def new_timeline_set_def apply_filter_def addEventToTimeline_def
      timeline_addEvent_def prepare_event_def Let_def timeline_at_def put_timeline_def setRelationsTarget_def
      aggregateRelations_def new_timeline_def set_state_def getState_def)



definition bare_event :: "nat \<Rightarrow> string \<Rightarrow> mx_event" where
  "bare_event r i = new_event r (JObj [(''event_id'', JStr i)])"

text \<open>A set without a room, with two more timelines, one event in each, the second joined after the first.\<close>

definition two_timelines :: timeline_set where
  "two_timelines =
     (let s0 = new_timeline_set 0 None True True False None (\<lambda>_. OobNotStarted);
          s1 = (case addTimeline 1 s0 of Inr (_, s) \<Rightarrow> s | Inl _ \<Rightarrow> s0);
          s2 = (case addTimeline 2 s1 of Inr (_, s) \<Rightarrow> s | Inl _ \<Rightarrow> s1);
          s3 = snd (addEventsToTimeline id 3 [bare_event 1 ''$x''] True (Some 1) None s2);
          s4 = snd (addEventsToTimeline id 3 [bare_event 2 ''$y''] True (Some 2) None s3)
      in snd (addEventsToTimeline id 5 [bare_event 3 ''$y''] False (Some 1) None s4))"

lemmas set_eval = new_timeline_set_def addTimeline_def addEventsToTimeline_def apply_filter_def
  addEventToTimeline_def timeline_addEvent_def prepare_event_def Let_def timeline_at_def put_timeline_def
  setRelationsTarget_def aggregateRelations_def new_timeline_def set_state_def getState_def
  join_timelines_def setNeighbouringTimeline_def getNeighbouringTimeline_def setPaginationToken_def
  inverse_direction_def bare_event_def getId_def new_event_def

lemma two_timelines_reachable: "ts_reachable id two_timelines"
proof -
  define s0 where "s0 = new_timeline_set 0 None True True False None (\<lambda>_. OobNotStarted)"
  define s1 where "s1 = (case addTimeline 1 s0 of Inr (_, s) \<Rightarrow> s | Inl _ \<Rightarrow> s0)"
  define s2 where "s2 = (case addTimeline 2 s1 of Inr (_, s) \<Rightarrow> s | Inl _ \<Rightarrow> s1)"
  define s3 where "s3 = snd (addEventsToTimeline id 3 [bare_event 1 ''$x''] True (Some 1) None s2)"
  define s4 where "s4 = snd (addEventsToTimeline id 3 [bare_event 2 ''$y''] True (Some 2) None s3)"
  define s5 where "s5 = snd (addEventsToTimeline id 5 [bare_event 3 ''$y''] False (Some 1) None s4)"
  note defs = s0_def s1_def s2_def s3_def s4_def s5_def
  have "\<exists>t. addTimeline 1 s0 = Inr (t, s1)" "\<exists>t. addTimeline 2 s1 = Inr (t, s2)"
    by (simp_all add: defs addTimeline_def new_timeline_set_def Let_def)
  then obtain t t' where a: "addTimeline 1 s0 = Inr (t, s1)" "addTimeline 2 s1 = Inr (t', s2)"
    by blast
  have r2: "ts_reachable id s2"
    by (rule ts_reachable.step [OF ts_reachable.step [OF _ ts_step.add_timeline [OF a(1)]] ts_step.add_timeline [OF a(2)]])
      (simp only: s0_def ts_reachable.initial)
  have e3: "addEventsToTimeline id 3 [bare_event 1 ''$x''] True (Some 1) None s2 = (None, s3)"
    and t2: "ts_timelines s2 = [0, 1, 2]"
    by (simp_all add: defs set_eval)
  have e4: "addEventsToTimeline id 3 [bare_event 2 ''$y''] True (Some 2) None s3 = (None, s4)"
    and t3: "ts_timelines s3 = [0, 1, 2]"
    by (simp_all add: defs set_eval)
  have e5: "addEventsToTimeline id 5 [bare_event 3 ''$y''] False (Some 1) None s4 = (None, s5)"
    and t4: "ts_timelines s4 = [0, 1, 2]"
    by (simp_all add: defs set_eval)
  have "ts_reachable id s3"
    by (rule ts_reachable.step [OF r2 ts_step.add_events [OF e3]]) (simp add: t2)
  then have "ts_reachable id s4"
    by (rule ts_reachable.step [OF _ ts_step.add_events [OF e4]]) (simp add: t3)
  then have "ts_reachable id s5"
    by (rule ts_reachable.step [OF _ ts_step.add_events [OF e5]]) (simp add: t4)
  then show ?thesis
    unfolding two_timelines_def Let_def s5_def s4_def s3_def s2_def s1_def s0_def .
qed

lemma two_timelines_links:
  "getNeighbouringTimeline Forward (timeline_at two_timelines 1) = Some 2"
  "getNeighbouringTimeline Backward (timeline_at two_timelines 1) = None"
  "getNeighbouringTimeline Forward (timeline_at two_timelines 2) = None"
  "length (ts_store two_timelines) = 3" "ts_live two_timelines = 0" "ts_filter two_timelines = None"
  "dget (ts_index two_timelines) (Some ''$x'') = Some 1"
  by (simp_all add: two_timelines_def set_eval)


section \<open>The order of events\<close>

definition next_rel :: "timeline_set \<Rightarrow> direction \<Rightarrow> (nat \<times> nat) set" where
  "next_rel s d = {(a, b). a < length (ts_store s) \<and> nb s d a = Some b}"

lemma walk_stop: "walk s d k goal None \<noteq> Some True"
  by (cases k) auto

lemma nb_len: "set_ok s \<Longrightarrow> a < length (ts_store s) \<Longrightarrow> nb s d a = Some b \<Longrightarrow> b < length (ts_store s)"
  unfolding set_ok_def links_ok_def by blast

lemma walk_True:
  "set_ok s \<Longrightarrow> t < length (ts_store s) \<Longrightarrow> walk s d k goal (Some t) = Some True \<Longrightarrow> (t, goal) \<in> (next_rel s d)\<^sup>*"
proof (induction k arbitrary: t)
  case (Suc k)
  show ?case
  proof (cases "t = goal")
    case False
    then have w: "walk s d k goal (nb s d t) = Some True" using Suc.prems(3) by (simp add: nb_def)
    then obtain u where u: "nb s d t = Some u" using walk_stop by (cases "nb s d t") auto
    have "(u, goal) \<in> (next_rel s d)\<^sup>*"
      using Suc.IH [OF Suc.prems(1) nb_len [OF Suc.prems(1,2) u]] w u by simp
    moreover have "(t, u) \<in> next_rel s d" using u Suc.prems(2) by (simp add: next_rel_def)
    ultimately show ?thesis by (rule converse_rtrancl_into_rtrancl [rotated])
  qed simp
qed simp

lemma walk_False: "walk s d k goal (Some t) = Some False \<Longrightarrow> (t, goal) \<notin> (next_rel s d)\<^sup>*"
proof (induction k arbitrary: t)
  case (Suc k)
  then have tg: "t \<noteq> goal" by (auto split: if_splits)
  show ?case
  proof
    assume "(t, goal) \<in> (next_rel s d)\<^sup>*"
    with tg obtain u where u: "nb s d t = Some u" "(u, goal) \<in> (next_rel s d)\<^sup>*"
      by (auto simp: next_rel_def elim: converse_rtranclE)
    with Suc tg show False by (simp add: nb_def)
  qed
qed simp

lemma walk_ends:
  assumes "set_ok s" and "\<And>a b. a < length (ts_store s) \<Longrightarrow> nb s d a = Some b \<Longrightarrow> g b < (g a :: nat)"
    and "t < length (ts_store s)" and "g t + 1 < k"
  shows "walk s d k goal (Some t) \<noteq> None"
  using assms(3,4)
proof (induction k arbitrary: t)
  case (Suc k)
  show ?case
  proof (cases "nb s d t")
    case None
    with Suc.prems show ?thesis by (cases k) (auto simp: nb_def)
  next
    case (Some u)
    have "walk s d k goal (Some u) \<noteq> None"
      using assms(2) [OF Suc.prems(1) Some] nb_len [OF assms(1) Suc.prems(1) Some] Suc.prems(2)
      by (intro Suc.IH) simp_all
    with Some show ?thesis by (auto simp: nb_def)
  qed
qed simp

text \<open>The timelines are numbered along the chains: no chain runs in a circle.\<close>

definition chain_order :: "timeline_set \<Rightarrow> (nat \<Rightarrow> nat) \<Rightarrow> bool" where
  "chain_order s f \<longleftrightarrow>
     (\<forall>t. f t \<le> length (ts_store s)) \<and>
     (\<forall>a<length (ts_store s). \<forall>b. nb s Forward a = Some b \<longrightarrow> f a < f b)"

lemma chain_rel:
  assumes "set_ok s" and "chain_order s f"
  shows "(t, u) \<in> (next_rel s Backward)\<^sup>* \<longleftrightarrow> (u, t) \<in> (next_rel s Forward)\<^sup>*"
    and "(t, u) \<in> (next_rel s Forward)\<^sup>* \<Longrightarrow> f t \<le> f u \<and> (t \<noteq> u \<longrightarrow> f t < f u)"
proof -
  have sym: "b < length (ts_store s) \<and> nb s (inverse_direction d) b = Some a"
    if "a < length (ts_store s)" "nb s d a = Some b" for a b d
    using assms(1) that unfolding set_ok_def links_ok_def by blast
  have "(a, b) \<in> next_rel s Backward \<longleftrightarrow> (b, a) \<in> next_rel s Forward" for a b
    using sym [of a Backward b] sym [of b Forward a] by (auto simp: next_rel_def inverse_direction_def)
  then have "next_rel s Backward = (next_rel s Forward)\<inverse>" by auto
  then show "(t, u) \<in> (next_rel s Backward)\<^sup>* \<longleftrightarrow> (u, t) \<in> (next_rel s Forward)\<^sup>*"
    by (simp add: rtrancl_converse)
  show "(t, u) \<in> (next_rel s Forward)\<^sup>* \<Longrightarrow> f t \<le> f u \<and> (t \<noteq> u \<longrightarrow> f t < f u)"
  proof (induction rule: rtrancl_induct)
    case (step y z)
    then have "f y < f z" using assms(2) by (auto simp: chain_order_def next_rel_def)
    with step.IH show ?case by auto
  qed simp
qed

lemma walk_chain:
  assumes ok: "set_ok s" and ch: "chain_order s f" and k: "length (ts_store s) + 1 < k"
    and t: "t < length (ts_store s)"
  shows "walk s d k goal (Some t) = Some ((t, goal) \<in> (next_rel s d)\<^sup>*)"
proof -
  have f: "f t \<le> length (ts_store s)" for t
    using ch by (simp add: chain_order_def)
  have "walk s d k goal (Some t) \<noteq> None"
  proof (cases d)
    case Forward
    have "length (ts_store s) - f b < length (ts_store s) - f a"
      if "a < length (ts_store s)" "nb s Forward a = Some b" for a b
    proof -
      have "f a < f b" using ch that unfolding chain_order_def by blast
      with f [of b] show ?thesis by (intro diff_less_mono2) simp_all
    qed
    from walk_ends [OF ok this t, where k = k and goal = goal] show ?thesis
      unfolding Forward using k by simp
  next
    case Backward
    have "f b < f a" if "a < length (ts_store s)" "nb s Backward a = Some b" for a b
    proof -
      have "b < length (ts_store s) \<and> nb s (inverse_direction Backward) b = Some a"
        using ok that unfolding set_ok_def links_ok_def by blast
      then show ?thesis using ch by (simp add: chain_order_def inverse_direction_def)
    qed
    moreover have "f t + 1 < k" using f [of t] k by simp
    ultimately show ?thesis unfolding Backward using walk_ends [OF ok _ t, where g = f] by blast
  qed
  then obtain b where b: "walk s d k goal (Some t) = Some b" by blast
  show ?thesis
  proof (cases b)
    case True
    with b walk_True [OF ok t, of d k goal] show ?thesis by simp
  next
    case False
    with b walk_False [of s d k goal t] show ?thesis by simp
  qed
qed

lemma find_both_done: "find_both a b evs n (Some i) (Some j) = (Some i, Some j)"
  by (cases evs) auto

lemma find_both_left:
  assumes "distinct (map getId evs)" and "j < length evs" and "a \<notin> set (map getId evs)"
  shows "find_both a (getId (evs ! j)) evs n (Some i) None = (Some i, Some (n + j))"
  using assms
proof (induction evs arbitrary: n j)
  case (Cons e evs)
  then show ?case by (cases j) (auto simp: find_both_done)
qed simp

lemma find_both_right:
  assumes "distinct (map getId evs)" and "i < length evs" and "b \<notin> set (map getId evs)"
  shows "find_both (getId (evs ! i)) b evs n None (Some j) = (Some (n + i), Some j)"
  using assms
proof (induction evs arbitrary: n i)
  case (Cons e evs)
  then show ?case by (cases i) (auto simp: find_both_done)
qed simp

lemma getId_nth: "distinct (map getId (e # evs)) \<Longrightarrow> j < length evs \<Longrightarrow> getId (evs ! j) \<noteq> getId e"
  by (metis distinct.simps(2) image_eqI list.set_map list.simps(9) nth_mem)

lemma find_both_spec:
  "distinct (map getId evs) \<Longrightarrow> i < length evs \<Longrightarrow> j < length evs \<Longrightarrow> i \<noteq> j \<Longrightarrow>
   find_both (getId (evs ! i)) (getId (evs ! j)) evs n None None = (Some (n + i), Some (n + j))"
proof (induction evs arbitrary: n i j)
  case (Cons e evs)
  show ?case
  proof (cases i)
    case 0
    then obtain j' where j': "j = Suc j'" using Cons.prems(4) by (cases j) auto
    have "getId (evs ! j') \<noteq> getId e"
      using getId_nth [OF Cons.prems(1)] Cons.prems(3) j' by simp
    with find_both_left [of evs j' "getId e"] Cons.prems 0 j' show ?thesis by simp
  next
    case (Suc i')
    show ?thesis
    proof (cases j)
      case 0
      have "getId (evs ! i') \<noteq> getId e"
        using getId_nth [OF Cons.prems(1)] Cons.prems(2) Suc by simp
      with find_both_right [of evs i' "getId e"] Cons.prems 0 Suc show ?thesis by simp
    next
      case (Suc j')
      have "getId (evs ! i') \<noteq> getId e" "getId (evs ! j') \<noteq> getId e"
        using getId_nth [OF Cons.prems(1)] Cons.prems(2,3) \<open>i = Suc i'\<close> Suc by simp_all
      with Cons.IH [of i' j' "n + 1"] Cons.prems Suc \<open>i = Suc i'\<close> show ?thesis by simp
    qed
  qed
qed simp

lemma id_position:
  "i \<in> set (ids_at s t) \<Longrightarrow> \<exists>p < length (tl_events (timeline_at s t)). getId (tl_events (timeline_at s t) ! p) = i"
  by (auto simp: ids_at_def in_set_conv_nth)

lemma compare_same_timeline:
  assumes ok: "set_ok s" and ne: "e1 \<noteq> e2" and t: "dget (ts_index s) e1 = Some t" "dget (ts_index s) e2 = Some t"
  obtains p q where "compareEventOrdering fuel e1 e2 s = OrderBy (int p - int q)"
    "compareEventOrdering fuel e2 e1 s = OrderBy (int q - int p)"
proof -
  let ?evs = "tl_events (timeline_at s t)"
  have mem: "e1 \<in> set (ids_at s t)" "e2 \<in> set (ids_at s t)" and dist: "distinct (map getId ?evs)"
    using ok t unfolding set_ok_def index_ok_def by (auto simp: ids_at_def)
  obtain p q where p: "p < length ?evs" "getId (?evs ! p) = e1" and q: "q < length ?evs" "getId (?evs ! q) = e2"
    using id_position [OF mem(1)] id_position [OF mem(2)] by blast
  have "p \<noteq> q" using p q ne by auto
  then have "find_both e1 e2 ?evs 0 None None = (Some p, Some q)" "find_both e2 e1 ?evs 0 None None = (Some q, Some p)"
    using find_both_spec [OF dist p(1) q(1), of 0] find_both_spec [OF dist q(1) p(1), of 0] p(2) q(2) by auto
  then show ?thesis
    using ne t by (intro that [of p q]) (simp_all add: compareEventOrdering_def)
qed

lemma compare_answers:
  assumes ok: "set_ok s" and "chain_order s f" and "length (ts_store s) + 1 < fuel"
  shows "compareEventOrdering fuel e1 e2 s \<noteq> OrderDiverges \<and>
    compareEventOrdering fuel e1 e2 s \<noteq> OrderNaN \<and>
    (\<forall>k. compareEventOrdering fuel e1 e2 s = OrderBy k \<longleftrightarrow>
         compareEventOrdering fuel e2 e1 s = OrderBy (- k))"
proof -
  consider "e1 = e2" | "dget (ts_index s) e1 = None \<or> dget (ts_index s) e2 = None" "e1 \<noteq> e2"
    | t where "e1 \<noteq> e2" "dget (ts_index s) e1 = Some t" "dget (ts_index s) e2 = Some t"
    | t u where "e1 \<noteq> e2" "dget (ts_index s) e1 = Some t" "dget (ts_index s) e2 = Some u" "t \<noteq> u"
    by (cases "dget (ts_index s) e1"; cases "dget (ts_index s) e2") auto
  then show ?thesis
  proof cases
    case 3
    obtain p q where "compareEventOrdering fuel e1 e2 s = OrderBy (int p - int q)"
      "compareEventOrdering fuel e2 e1 s = OrderBy (int q - int p)"
      using compare_same_timeline [OF ok 3] .
    then show ?thesis by auto
  next
    case 4
    have "\<not> ((t, u) \<in> (next_rel s Forward)\<^sup>* \<and> (u, t) \<in> (next_rel s Forward)\<^sup>*)"
      using chain_rel(2) [OF ok assms(2), of t u] chain_rel(2) [OF ok assms(2), of u t] 4(4) by auto
    moreover have "t < length (ts_store s)" "u < length (ts_store s)"
      using 4(2,3) index_target [OF ok] timeline_len [OF ok] by auto
    ultimately show ?thesis
      using 4 by (auto simp: compareEventOrdering_def walk_chain [OF ok assms(2,3)] chain_rel(1) [OF ok assms(2)]
          split: bool.splits)
  qed (auto simp: compareEventOrdering_def split: option.splits)
qed



text \<open>
  A page that overlaps a timeline further back in the same chain closes a circle: with timeline
  \<open>a\<close> before \<open>b\<close>, paginating \<open>b\<close> forwards onto an event of \<open>a\<close> links \<open>b\<close> to \<open>a\<close>, without an error. From then on,
  comparing an event of the circle with one outside it never returns, whatever the fuel.
\<close>

theorem circular_chain_diverges:
  assumes "nb s Forward a = Some b" and "nb s Forward b = None" and "nb s Backward a = None"
    and "dget (ts_index s) (getId ev) = Some a" and "a \<noteq> b" and "b \<noteq> ts_live s" and "ts_filter s = None"
    and "a < length (ts_store s)" and "b < length (ts_store s)"
    and "dget (ts_index s) e2 = Some c" and "c \<notin> {a, b}"
  shows "let (err, s') = addEventsToTimeline unh now [ev] False (Some b) tok s in
    err = None \<and> nb s' Forward a = Some b \<and> nb s' Forward b = Some a \<and>
    compareEventOrdering fuel (getId ev) e2 s' = OrderDiverges"
proof -
  obtain b1 where b1: "setNeighbouringTimeline a Forward (timeline_at s b) = Inr b1"
    using assms(2) by (auto simp: setNeighbouringTimeline_def nb_def)
  obtain a1 where a1: "setNeighbouringTimeline b Backward (timeline_at s a) = Inr a1"
    using assms(3) by (auto simp: setNeighbouringTimeline_def nb_def)
  have "join_timelines Forward b a s = (None, put_timeline a a1 (put_timeline b b1 s))"
    using assms(5,9) a1 by (simp add: join_timelines_def b1 Let_def ev_simps inverse_direction_def)
  then obtain s1 where j: "join_timelines Forward b a s = (None, s1)" by blast
  note jo = join_timelines_ok [OF j assms(5) [symmetric] assms(9,8)]
  have add: "addEventsToTimeline unh now [ev] False (Some b) tok s = (None, s1)"
    using assms j by (simp add: addEventsToTimeline_def apply_filter_def nb_def)
  have ring: "nb s1 Forward a = Some b" "nb s1 Forward b = Some a"
    using assms(1,5) by (simp_all add: jo(3) inverse_direction_def)
  have div: "t \<in> {a, b} \<Longrightarrow> walk s1 Forward k c (Some t) = None" for k t
    using assms(11) ring by (induction k arbitrary: t) (auto simp: nb_def)
  have "getId ev \<noteq> e2"
    using assms(4,10,11) by auto
  then have "compareEventOrdering fuel (getId ev) e2 s1 = OrderDiverges"
    using assms(4,10,11) div [of a fuel] by (auto simp: compareEventOrdering_def jo(7))
  with add ring show ?thesis by simp
qed

theorem circular_chain_diverges_witness:
  "compareEventOrdering 100 (Some ''$x'') (Some ''$z'')
     (snd (addEventsToTimeline id 6 [bare_event 9 ''$x''] False (Some 2) None
        (two_timelines\<lparr>ts_index := dset (Some ''$z'') 0 (ts_index two_timelines)\<rparr>))) = OrderDiverges"
proof -
  let ?s = "two_timelines\<lparr>ts_index := dset (Some ''$z'') 0 (ts_index two_timelines)\<rparr>"
  have at: "timeline_at ?s = timeline_at two_timelines"
    by (simp add: timeline_at_def fun_eq_iff)
  have "nb ?s Forward 1 = Some 2" "nb ?s Forward 2 = None" "nb ?s Backward 1 = None"
    "dget (ts_index ?s) (getId (bare_event 9 ''$x'')) = Some 1" "(1::nat) \<noteq> 2" "2 \<noteq> ts_live ?s"
    "ts_filter ?s = None" "1 < length (ts_store ?s)" "2 < length (ts_store ?s)"
    "dget (ts_index ?s) (Some ''$z'') = Some 0" "(0::nat) \<notin> {1, 2}"
    using two_timelines_links
    by (simp_all add: nb_def at dict_simps bare_event_def getId_def new_event_def)
  from circular_chain_diverges [OF this, of id 6 None 100] show ?thesis
    by (auto simp: Let_def split_beta bare_event_def getId_def new_event_def)
qed

section \<open>The contract of a set towards those who walk its timelines\<close>

text \<open>
  What a client that moves an index along the timelines relies on: neighbours are members,
  being neighbours is symmetric, and each timeline has an interval of indices.
  Positions along a chain are then additive: crossing a border moves nothing.
\<close>

locale neighbour_chain =
  fixes valid :: "'s \<Rightarrow> bool"
    and member :: "'s \<Rightarrow> 't \<Rightarrow> bool"
    and neighbour :: "'s \<Rightarrow> direction \<Rightarrow> 't \<Rightarrow> 't option"
    and lo :: "'s \<Rightarrow> 't \<Rightarrow> int"
    and hi :: "'s \<Rightarrow> 't \<Rightarrow> int"
  assumes neighbour_member:
      "valid s \<Longrightarrow> member s a \<Longrightarrow> neighbour s d a = Some b \<Longrightarrow> member s b"
    and neighbour_sym:
      "valid s \<Longrightarrow> member s a \<Longrightarrow> neighbour s d a = Some b \<Longrightarrow> neighbour s (inverse_direction d) b = Some a"
    and lo_le_hi: "lo s a \<le> hi s a"
begin

definition offsets :: "'s \<Rightarrow> ('t \<Rightarrow> int) \<Rightarrow> bool" where
  "offsets s off \<longleftrightarrow> (\<forall>a b. member s a \<longrightarrow> neighbour s Forward a = Some b \<longrightarrow> off b = off a + (hi s a - lo s a))"

definition position :: "'s \<Rightarrow> ('t \<Rightarrow> int) \<Rightarrow> 't \<Rightarrow> int \<Rightarrow> int" where
  "position s off t i = off t + (i - lo s t)"

definition ahead :: "'s \<Rightarrow> ('t \<times> 't) set" where
  "ahead s = {(a, b). member s a \<and> neighbour s Forward a = Some b}\<^sup>*"

lemma cross_forward:
  "offsets s off \<Longrightarrow> member s a \<Longrightarrow> neighbour s Forward a = Some b \<Longrightarrow>
   position s off b (lo s b) = position s off a (hi s a)"
  by (simp add: offsets_def position_def)

lemma cross_backward:
  assumes "valid s" "offsets s off" "member s a" "neighbour s Backward a = Some b"
  shows "position s off b (hi s b) = position s off a (lo s a)"
proof -
  have "neighbour s Forward b = Some a" "member s b"
    using neighbour_sym [OF assms(1,3,4)] neighbour_member [OF assms(1,3,4)]
    by (simp_all add: inverse_direction_def)
  with assms(2) show ?thesis by (simp add: offsets_def position_def)
qed

lemma ahead_refl: "(a, a) \<in> ahead s"
  by (simp add: ahead_def)

lemma ahead_trans: "(a, b) \<in> ahead s \<Longrightarrow> (b, c) \<in> ahead s \<Longrightarrow> (a, c) \<in> ahead s"
  unfolding ahead_def by (rule rtrancl_trans)

lemma ahead_forward: "member s a \<Longrightarrow> neighbour s Forward a = Some b \<Longrightarrow> (a, b) \<in> ahead s"
  by (auto simp: ahead_def)

lemma ahead_backward:
  "valid s \<Longrightarrow> member s a \<Longrightarrow> neighbour s Backward a = Some b \<Longrightarrow> (b, a) \<in> ahead s"
  using neighbour_sym [of s a Backward b] neighbour_member [of s a Backward b] ahead_forward [of s b a]
  by (simp add: inverse_direction_def)

lemma ahead_offset:
  assumes "offsets s off" and "(a, b) \<in> ahead s"
  shows "off a \<le> off b \<and> (a \<noteq> b \<longrightarrow> off a + (hi s a - lo s a) \<le> off b)"
  using assms(2) unfolding ahead_def
proof (induction rule: rtrancl_induct)
  case (step y z)
  then have "off z = off y + (hi s y - lo s y)"
    using assms(1) by (auto simp: offsets_def)
  with step.IH lo_le_hi [of s y] show ?case by auto
qed simp

text \<open>Chains do not branch: of two timelines ahead of a third, one is ahead of the other.\<close>

lemma ahead_linear:
  assumes "(a, b) \<in> ahead s" "(a, c) \<in> ahead s"
  shows "(b, c) \<in> ahead s \<or> (c, b) \<in> ahead s"
  using assms(1) unfolding ahead_def
proof (induction rule: rtrancl_induct)
  case base
  then show ?case using assms(2) by (simp add: ahead_def)
next
  case (step y z)
  from step.IH show ?case
  proof
    assume "(y, c) \<in> {(a, b). member s a \<and> neighbour s Forward a = Some b}\<^sup>*"
    then show ?thesis
    proof (cases rule: converse_rtranclE)
      case base
      then show ?thesis using step.hyps(2) by auto
    next
      case (step w)
      with \<open>(y, z) \<in> _\<close> show ?thesis by auto
    qed
  next
    assume "(c, y) \<in> {(a, b). member s a \<and> neighbour s Forward a = Some b}\<^sup>*"
    with step.hyps(2) show ?thesis by (meson rtrancl.rtrancl_into_rtrancl)
  qed
qed

lemma behind_linear:
  assumes "valid s" "(b, a) \<in> ahead s" "(c, a) \<in> ahead s"
  shows "(b, c) \<in> ahead s \<or> (c, b) \<in> ahead s"
  using assms(2) unfolding ahead_def
proof (induction rule: converse_rtrancl_induct)
  case base
  then show ?case using assms(3) by (simp add: ahead_def)
next
  case (step z y)
  from step.IH show ?case
  proof
    assume "(c, y) \<in> {(a, b). member s a \<and> neighbour s Forward a = Some b}\<^sup>*"
    then show ?thesis
    proof (cases rule: rtranclE)
      case base
      then show ?thesis using step.hyps(1) by auto
    next
      case (step w)
      then have w: "member s w" "neighbour s Forward w = Some y" by auto
      have z: "member s z" "neighbour s Forward z = Some y" using \<open>(z, y) \<in> _\<close> by auto
      have "neighbour s Backward y = Some w" "neighbour s Backward y = Some z"
        using neighbour_sym [OF assms(1) w] neighbour_sym [OF assms(1) z] by (simp_all add: inverse_direction_def)
      with step(1) show ?thesis by simp
    qed
  next
    assume "(y, c) \<in> {(a, b). member s a \<and> neighbour s Forward a = Some b}\<^sup>*"
    with step.hyps(1) show ?thesis by (meson converse_rtrancl_into_rtrancl)
  qed
qed

end

definition stored_timeline :: "timeline_set \<Rightarrow> nat \<Rightarrow> bool" where
  "stored_timeline s t \<longleftrightarrow> t < length (ts_store s)"

interpretation tlchain: neighbour_chain set_ok stored_timeline nb
    "\<lambda>s t. - int (tl_baseIndex (timeline_at s t))"
    "\<lambda>s t. int (length (tl_events (timeline_at s t))) - int (tl_baseIndex (timeline_at s t))"
proof unfold_locales
  fix s a d b
  assume s: "set_ok s" "stored_timeline s a" "nb s d a = Some b"
  show "stored_timeline s b"
    using nb_len [of s a d b] s by (simp add: stored_timeline_def)
  show "nb s (inverse_direction d) b = Some a"
    using s unfolding set_ok_def links_ok_def stored_timeline_def by blast
qed simp

end
