(* ===== verification/TimelineWindow.thy ===== *)
theory TimelineWindow
  imports TimelineSet
begin

text \<open>
  \<^verbatim>\<open>src/timeline-window.ts\<close>: the classes \<open>TimelineWindow\<close> and \<open>TimelineIndex\<close>. A window reads
  a timeline set and never changes it; between the request of \<open>paginate\<close> and its
  response the set may have changed, so the response is a separate operation. Loops over timelines take
  fuel (one unit per timeline entered); \<open>Diverge\<close> is the answer when it runs out, \<open>Throw\<close> carries the message and
  the state at that point.
\<close>

section \<open>Indices\<close>

datatype 'a run = Diverge | Throw string 'a | Ret 'a

record tl_index =
  ti_timeline :: nat
  ti_index :: int
  ti_pending :: bool

definition minIndex :: "timeline_set \<Rightarrow> nat \<Rightarrow> int" where
  "minIndex s t = int (tl_baseIndex (timeline_at s t)) * (- 1)"

definition maxIndex :: "timeline_set \<Rightarrow> nat \<Rightarrow> int" where
  "maxIndex s t = int (length (tl_events (timeline_at s t))) - int (tl_baseIndex (timeline_at s t))"

text \<open>\<open>advance\<close> returns the number of events moved by, negative when it moves backwards.\<close>

fun advance :: "nat \<Rightarrow> timeline_set \<Rightarrow> int \<Rightarrow> tl_index \<Rightarrow> (int \<times> tl_index) option" where
  "advance 0 s delta ti = None"
| "advance (Suc fuel) s delta ti =
     (if delta = 0 then Some (0, ti)
      else
        let t = ti_timeline ti;
            cappedDelta = (if delta < 0 then max delta (minIndex s t - ti_index ti)
                           else min delta (maxIndex s t - ti_index ti))
        in if (delta < 0 \<and> cappedDelta < 0) \<or> (0 < delta \<and> 0 < cappedDelta)
           then Some (cappedDelta, ti\<lparr>ti_index := ti_index ti + cappedDelta\<rparr>)
           else case getNeighbouringTimeline (if delta < 0 then Backward else Forward) (timeline_at s t) of
                  Some neighbour \<Rightarrow>
                    advance fuel s delta
                      (ti\<lparr>ti_timeline := neighbour,
                          ti_index := (if delta < 0 then maxIndex s neighbour else minIndex s neighbour)\<rparr>)
                | None \<Rightarrow> Some (0, ti))"

definition retreat :: "nat \<Rightarrow> timeline_set \<Rightarrow> int \<Rightarrow> tl_index \<Rightarrow> (int \<times> tl_index) option" where
  "retreat fuel s delta ti = map_option (\<lambda>(c, ti1). (c * (- 1), ti1)) (advance fuel s (delta * (- 1)) ti)"

section \<open>Windows\<close>

record window =
  w_limit :: int
  w_start :: "tl_index option"
  w_end :: "tl_index option"
  w_count :: int

definition new_window :: "int \<Rightarrow> window" where
  "new_window windowLimit =
     \<lparr>w_limit = (if windowLimit = 0 then 1000 else windowLimit), w_start = None, w_end = None, w_count = 0\<rparr>"

fun first_index :: "(mx_event \<Rightarrow> bool) \<Rightarrow> mx_event list \<Rightarrow> nat \<Rightarrow> nat option" where
  "first_index P [] i = None"
| "first_index P (x # xs) i = (if P x then Some i else first_index P xs (i + 1))"

text \<open>\<open>initFields\<close> of \<open>load\<close>; \<open>initialWindowSize\<close> is an integer, \<open>Math.ceil\<close> rounds its half up.\<close>

definition initFields ::
  "timeline_set \<Rightarrow> string option \<Rightarrow> int \<Rightarrow> nat \<Rightarrow> window \<Rightarrow> window run" where
  "initFields s initialEventId initialWindowSize t w =
     (let events = tl_events (timeline_at s t); base = int (tl_baseIndex (timeline_at s t));
          eventIndex = (if \<not> token_given initialEventId then Some (length events)
                        else first_index (\<lambda>ev. getId ev = initialEventId) events 0)
      in case eventIndex of
           None \<Rightarrow> Throw ''getEventTimeline result didn't include requested event'' w
         | Some i \<Rightarrow>
             (let endIndex = min (int (length events)) (int i + (initialWindowSize + 1) div 2);
                  startIndex = max 0 (endIndex - initialWindowSize)
              in Ret (w\<lparr>w_start := Some \<lparr>ti_timeline = t, ti_index = startIndex - base, ti_pending = False\<rparr>,
                        w_end := Some \<lparr>ti_timeline = t, ti_index = endIndex - base, ti_pending = False\<rparr>,
                        w_count := endIndex - startIndex\<rparr>)))"

text \<open>
  \<open>load\<close>: \<open>fetched\<close> is the timeline that \<open>client.getEventTimeline\<close> delivers when the
  set does not know the event (\<open>None\<close>: the request failed and nothing changes).
\<close>

definition window_load ::
  "timeline_set \<Rightarrow> string option \<Rightarrow> int \<Rightarrow> nat option \<Rightarrow> window \<Rightarrow> window run" where
  "window_load s initialEventId initialWindowSize fetched w =
     (if token_given initialEventId then
        (case getTimelineForEvent initialEventId s of
           Some t \<Rightarrow> initFields s initialEventId initialWindowSize t w
         | None \<Rightarrow> (case fetched of
                      Some t \<Rightarrow> initFields s initialEventId initialWindowSize t w
                    | None \<Rightarrow> Throw ''request failed'' w))
      else initFields s initialEventId initialWindowSize (ts_live s) w)"

definition getTimelineIndex :: "direction \<Rightarrow> window \<Rightarrow> tl_index option" where
  "getTimelineIndex d w = (case d of Backward \<Rightarrow> w_start w | Forward \<Rightarrow> w_end w)"

definition put_index :: "direction \<Rightarrow> tl_index \<Rightarrow> window \<Rightarrow> window" where
  "put_index d ti w = (case d of Backward \<Rightarrow> w\<lparr>w_start := Some ti\<rparr> | Forward \<Rightarrow> w\<lparr>w_end := Some ti\<rparr>)"

text \<open>The loop of \<open>unpaginate\<close> on the index it moves; every round moves at least one event or throws.\<close>

function unpaginate_loop ::
  "nat \<Rightarrow> timeline_set \<Rightarrow> bool \<Rightarrow> int \<Rightarrow> tl_index \<Rightarrow> int \<Rightarrow> (tl_index \<times> int) run" where
  "unpaginate_loop fuel s startOfTimeline delta ti eventCount =
     (if delta \<le> 0 then Ret (ti, eventCount)
      else case (if startOfTimeline then advance fuel s delta ti else retreat fuel s delta ti) of
             None \<Rightarrow> Diverge
           | Some (count, ti1) \<Rightarrow>
               if count \<le> 0 then Throw ''Unable to unpaginate any further'' (ti1, eventCount)
               else unpaginate_loop fuel s startOfTimeline (delta - count) ti1 (eventCount - count))"
  by pat_completeness auto
termination
  by (relation "measure (\<lambda>(fuel, s, b, delta, ti, c). nat delta)") auto

declare unpaginate_loop.simps [simp del]

definition unpaginate :: "nat \<Rightarrow> timeline_set \<Rightarrow> int \<Rightarrow> bool \<Rightarrow> window \<Rightarrow> window run" where
  "unpaginate fuel s delta startOfTimeline w =
     (let d = (if startOfTimeline then Backward else Forward) in
      if delta > w_count w \<or> delta < 0 then Throw ''Attemting to unpaginate'' w
      else case getTimelineIndex d w of
             None \<Rightarrow> (if delta > 0 then Throw ''TypeError'' w else Ret w)
           | Some ti \<Rightarrow>
               (case unpaginate_loop fuel s startOfTimeline delta ti (w_count w) of
                  Diverge \<Rightarrow> Diverge
                | Throw msg (ti1, c) \<Rightarrow> Throw msg ((put_index d ti1 w)\<lparr>w_count := c\<rparr>)
                | Ret (ti1, c) \<Rightarrow> Ret ((put_index d ti1 w)\<lparr>w_count := c\<rparr>)))"

definition window_extend ::
  "nat \<Rightarrow> timeline_set \<Rightarrow> direction \<Rightarrow> int \<Rightarrow> window \<Rightarrow> (bool \<times> window) run" where
  "window_extend fuel s d sz w =
     (case getTimelineIndex d w of
        None \<Rightarrow> Ret (False, w)
      | Some ti \<Rightarrow>
          (case (if d = Backward then retreat fuel s sz ti else advance fuel s sz ti) of
             None \<Rightarrow> Diverge
           | Some (count, ti1) \<Rightarrow>
               let w1 = put_index d ti1 w in
               if count = 0 then Ret (False, w1)
               else
                 let w2 = w1\<lparr>w_count := w_count w1 + count\<rparr>; excess = w_count w2 - w_limit w2 in
                 if excess > 0
                 then (case unpaginate fuel s excess (d \<noteq> Backward) w2 of
                         Diverge \<Rightarrow> Diverge
                       | Throw msg w3 \<Rightarrow> Throw msg (True, w3)
                       | Ret w3 \<Rightarrow> Ret (True, w3))
                 else Ret (True, w2)))"

definition canPaginate :: "timeline_set \<Rightarrow> direction \<Rightarrow> window \<Rightarrow> bool" where
  "canPaginate s d w =
     (case getTimelineIndex d w of
        None \<Rightarrow> False
      | Some ti \<Rightarrow>
          (d = Backward \<and> ti_index ti > minIndex s (ti_timeline ti)) \<or>
          (d \<noteq> Backward \<and> ti_index ti < maxIndex s (ti_timeline ti)) \<or>
          getNeighbouringTimeline d (timeline_at s (ti_timeline ti)) \<noteq> None \<or>
          token_given (getPaginationToken d (timeline_at s (ti_timeline ti))))"

datatype paginate_result = PgResolved bool | PgJoined | PgRequest nat direction int

definition paginate ::
  "nat \<Rightarrow> timeline_set \<Rightarrow> direction \<Rightarrow> int \<Rightarrow> bool \<Rightarrow> nat \<Rightarrow> window \<Rightarrow> (paginate_result \<times> window) run" where
  "paginate fuel s d sz makeRequest requestLimit w =
     (case getTimelineIndex d w of
        None \<Rightarrow> Ret (PgResolved False, w)
      | Some ti \<Rightarrow>
          if ti_pending ti then Ret (PgJoined, w)
          else case window_extend fuel s d sz w of
                 Diverge \<Rightarrow> Diverge
               | Throw msg (b, w1) \<Rightarrow> Throw msg (PgResolved False, w1)
               | Ret (True, w1) \<Rightarrow> Ret (PgResolved True, w1)
               | Ret (False, w1) \<Rightarrow>
                   (if \<not> makeRequest \<or> requestLimit = 0 then Ret (PgResolved False, w1)
                    else case getTimelineIndex d w1 of
                           None \<Rightarrow> Ret (PgResolved False, w1)
                         | Some ti1 \<Rightarrow>
                             if \<not> token_given (getPaginationToken d (timeline_at s (ti_timeline ti1)))
                             then Ret (PgResolved False, w1)
                             else Ret (PgRequest (ti_timeline ti1) d sz,
                                       put_index d (ti1\<lparr>ti_pending := True\<rparr>) w1)))"

text \<open>The response of the request that \<open>paginate\<close> made, on the set as it is then.\<close>

definition paginate_response ::
  "nat \<Rightarrow> timeline_set \<Rightarrow> direction \<Rightarrow> int \<Rightarrow> nat \<Rightarrow> bool \<Rightarrow> window \<Rightarrow> (paginate_result \<times> window) run" where
  "paginate_response fuel s d sz requestLimit r w =
     (case getTimelineIndex d w of
        None \<Rightarrow> Ret (PgResolved False, w)
      | Some ti \<Rightarrow>
          (let w1 = put_index d (ti\<lparr>ti_pending := False\<rparr>) w in
           if \<not> r then Ret (PgResolved False, w1)
           else paginate fuel s d sz True (requestLimit - 1) w1))"

text \<open>\<open>events[i]\<close> for a range of indices; an index outside the array reads as \<open>undefined\<close> (\<open>None\<close>).\<close>

definition events_between :: "mx_event list \<Rightarrow> int \<Rightarrow> int \<Rightarrow> mx_event option list" where
  "events_between evs i j =
     map (\<lambda>k. if 0 \<le> k \<and> k < int (length evs) then Some (evs ! nat k) else None) [i..j - 1]"

fun window_events_from ::
  "nat \<Rightarrow> timeline_set \<Rightarrow> tl_index \<Rightarrow> tl_index \<Rightarrow> nat option \<Rightarrow> mx_event option list run" where
  "window_events_from 0 s st en t = Diverge"
| "window_events_from (Suc fuel) s st en None = Throw ''TypeError'' []"
| "window_events_from (Suc fuel) s st en (Some t) =
     (let events = tl_events (timeline_at s t); base = int (tl_baseIndex (timeline_at s t));
          startIndex = (if t = ti_timeline st then ti_index st + base else 0);
          endIndex = (if t = ti_timeline en then ti_index en + base else int (length events));
          here = events_between events startIndex endIndex
      in if t = ti_timeline en then Ret here
         else case window_events_from fuel s st en (getNeighbouringTimeline Forward (timeline_at s t)) of
                Ret rest \<Rightarrow> Ret (here @ rest)
              | r \<Rightarrow> r)"

definition window_getEvents :: "nat \<Rightarrow> timeline_set \<Rightarrow> window \<Rightarrow> mx_event option list run" where
  "window_getEvents fuel s w =
     (case (w_start w, w_end w) of
        (Some st, Some en) \<Rightarrow> window_events_from fuel s st en (Some (ti_timeline st))
      | (Some st, None) \<Rightarrow> Throw ''TypeError'' []
      | (None, _) \<Rightarrow> Ret [])"

section \<open>Indices move by what they return\<close>

text \<open>The position of an index along its chain, given where each timeline of the chain begins.\<close>

abbreviation chain_offsets :: "timeline_set \<Rightarrow> (nat \<Rightarrow> int) \<Rightarrow> bool" where
  "chain_offsets s off \<equiv> tlchain.offsets s off"

definition pos_of :: "timeline_set \<Rightarrow> (nat \<Rightarrow> int) \<Rightarrow> tl_index \<Rightarrow> int" where
  "pos_of s off ti = off (ti_timeline ti) + (ti_index ti - minIndex s (ti_timeline ti))"

definition index_valid :: "timeline_set \<Rightarrow> tl_index \<Rightarrow> bool" where
  "index_valid s ti \<longleftrightarrow> ti_timeline ti < length (ts_store s) \<and>
     minIndex s (ti_timeline ti) \<le> ti_index ti \<and> ti_index ti \<le> maxIndex s (ti_timeline ti)"

lemma min_le_max: "minIndex s t \<le> maxIndex s t"
  by (simp add: minIndex_def maxIndex_def)

lemma pos_position: "pos_of s off ti = tlchain.position s off (ti_timeline ti) (ti_index ti)"
  by (simp add: pos_of_def tlchain.position_def minIndex_def)

text \<open>Which way a timeline lies.\<close>

definition reached :: "timeline_set \<Rightarrow> int \<Rightarrow> nat \<Rightarrow> nat \<Rightarrow> bool" where
  "reached s delta t u \<longleftrightarrow> (if delta < 0 then (u, t) \<in> tlchain.ahead s else (t, u) \<in> tlchain.ahead s)"

lemma nb_chain: "getNeighbouringTimeline d (timeline_at s t) = nb s d t"
  by (simp add: nb_def)

lemma cross_pos:
  assumes "set_ok s" "chain_offsets s off" "t < length (ts_store s)"
    and "nb s (if delta < 0 then Backward else Forward) t = Some u"
    and "ti_timeline ti = t" "ti_index ti = (if delta < (0::int) then minIndex s t else maxIndex s t)"
  shows "pos_of s off (ti\<lparr>ti_timeline := u, ti_index := (if delta < 0 then maxIndex s u else minIndex s u)\<rparr>) =
      pos_of s off ti"
    and "u < length (ts_store s)" and "reached s delta t u"
proof -
  have st: "stored_timeline s t" using assms(3) by (simp add: stored_timeline_def)
  show "u < length (ts_store s)"
    using nb_len [OF assms(1,3,4)] .
  show "pos_of s off (ti\<lparr>ti_timeline := u, ti_index := (if delta < 0 then maxIndex s u else minIndex s u)\<rparr>) =
      pos_of s off ti"
  proof (cases "delta < 0")
    case True
    with tlchain.cross_backward [OF assms(1,2) st, of u] assms(4-6) show ?thesis
      by (simp add: pos_of_def tlchain.position_def minIndex_def maxIndex_def)
  next
    case False
    with tlchain.cross_forward [OF assms(2) st, of u] assms(4-6) show ?thesis
      by (simp add: pos_of_def tlchain.position_def minIndex_def maxIndex_def)
  qed
  show "reached s delta t u"
    using tlchain.ahead_backward [OF assms(1) st, of u] tlchain.ahead_forward [OF st, of u] assms(4)
    by (simp add: reached_def split: if_splits)
qed

lemma reached_trans: "reached s delta t u \<Longrightarrow> reached s delta u v \<Longrightarrow> reached s delta t v"
  using tlchain.ahead_trans by (auto simp: reached_def split: if_splits)

definition advance_post :: "timeline_set \<Rightarrow> (nat \<Rightarrow> int) \<Rightarrow> int \<Rightarrow> tl_index \<Rightarrow> int \<Rightarrow> tl_index \<Rightarrow> bool" where
  "advance_post s off delta ti c ti1 \<longleftrightarrow>
    pos_of s off ti1 = pos_of s off ti + c \<and> index_valid s ti1 \<and>
    (if delta < 0 then delta \<le> c \<and> c \<le> 0 else 0 \<le> c \<and> c \<le> delta) \<and>
    reached s delta (ti_timeline ti) (ti_timeline ti1) \<and>
    (c = 0 \<and> delta \<noteq> 0 \<longrightarrow>
       nb s (if delta < 0 then Backward else Forward) (ti_timeline ti1) = None \<and>
       ti_index ti1 = (if delta < 0 then minIndex s (ti_timeline ti1) else maxIndex s (ti_timeline ti1))) \<and>
    (c \<noteq> 0 \<longrightarrow> (if delta < 0 then ti_index ti1 < maxIndex s (ti_timeline ti1)
                else minIndex s (ti_timeline ti1) < ti_index ti1))"

lemma advance_spec:
  assumes "set_ok s" and "chain_offsets s off"
    and "index_valid s ti" and "advance fuel s delta ti = Some (c, ti1)"
  shows "advance_post s off delta ti c ti1"
  using assms(3,4)
proof (induction fuel arbitrary: ti)
  case (Suc fuel)
  let ?t = "ti_timeline ti"
  define capped where "capped = (if delta < 0 then max delta (minIndex s ?t - ti_index ti)
                           else min delta (maxIndex s ?t - ti_index ti))"
  have refl: "reached s delta t t" for t
    by (simp add: reached_def tlchain.ahead_refl)
  show ?case
  proof (cases "delta = 0")
    case True
    with Suc.prems refl show ?thesis by (simp add: advance_post_def)
  next
    case nz: False
    show ?thesis
    proof (cases "(delta < 0 \<and> capped < 0) \<or> (0 < delta \<and> 0 < capped)")
      case True
      then have "c = capped" "ti1 = ti\<lparr>ti_index := ti_index ti + capped\<rparr>"
        using Suc.prems(2) nz by (auto simp: Let_def capped_def [symmetric])
      with True Suc.prems(1) refl show ?thesis
        by (auto simp: advance_post_def pos_of_def index_valid_def capped_def split: if_splits)
    next
      case stuck: False
      then have edge: "ti_index ti = (if delta < 0 then minIndex s ?t else maxIndex s ?t)"
        using Suc.prems(1) nz by (auto simp: capped_def index_valid_def split: if_splits)
      show ?thesis
      proof (cases "nb s (if delta < 0 then Backward else Forward) ?t")
        case None
        then have "c = 0" "ti1 = ti"
          using Suc.prems(2) nz stuck by (auto simp: Let_def capped_def [symmetric] nb_chain split: if_splits)
        with Suc.prems(1) None edge refl show ?thesis by (simp add: advance_post_def)
      next
        case (Some u)
        let ?ti = "ti\<lparr>ti_timeline := u, ti_index := (if delta < 0 then maxIndex s u else minIndex s u)\<rparr>"
        have len: "?t < length (ts_store s)" using Suc.prems(1) by (simp add: index_valid_def)
        note cr = cross_pos [OF assms(1,2) len Some HOL.refl edge]
        have "index_valid s ?ti"
          using cr(2) min_le_max by (simp add: index_valid_def)
        moreover have "advance fuel s delta ?ti = Some (c, ti1)"
          using Suc.prems(2) nz stuck Some by (auto simp: Let_def capped_def [symmetric] nb_chain split: if_splits)
        ultimately have "advance_post s off delta ?ti c ti1" by (rule Suc.IH)
        with cr show ?thesis
          unfolding advance_post_def using reached_trans [OF cr(3)] by auto
      qed
    qed
  qed
qed simp

lemma advance_total:
  assumes ok: "set_ok s" and ch: "chain_order s f" and k: "length (ts_store s) + 1 < fuel"
    and t: "ti_timeline ti < length (ts_store s)"
  shows "advance fuel s delta ti \<noteq> None"
proof -
  define g where "g t = (if delta < 0 then f t else length (ts_store s) - f t)" for t
  have bound: "f t \<le> length (ts_store s)" for t using ch by (simp add: chain_order_def)
  have fwd: "f a < f b" if "a < length (ts_store s)" "nb s Forward a = Some b" for a b
    using ch that unfolding chain_order_def by blast
  have bwd: "f b < f a" if "a < length (ts_store s)" "nb s Backward a = Some b" for a b
    using fwd [of b a] tlchain.neighbour_sym [OF ok, of a Backward b] nb_len [OF ok that] that
    by (simp add: stored_timeline_def inverse_direction_def)
  have dec: "g b < g a" if "a < length (ts_store s)" "nb s (if delta < 0 then Backward else Forward) a = Some b" for a b
    using that fwd [of a b] bwd [of a b] bound [of b] by (auto simp: g_def split: if_splits)
  have "g t \<le> length (ts_store s)" for t
    using bound [of t] by (simp add: g_def)
  then have "g (ti_timeline ti) + 1 < fuel"
    using k by (meson add_mono1 add_le_mono1 le_less_trans)
  with t show ?thesis
  proof (induction fuel arbitrary: ti)
    case (Suc fuel)
    show ?case
    proof (cases "nb s (if delta < 0 then Backward else Forward) (ti_timeline ti)")
      case None
      then show ?thesis by (auto simp: Let_def nb_chain)
    next
      case (Some u)
      have "advance fuel s delta (ti\<lparr>ti_timeline := u, ti_index := i\<rparr>) \<noteq> None" for i
        using dec [OF Suc.prems(1) Some] nb_len [OF ok Suc.prems(1) Some] Suc.prems(2) by (intro Suc.IH) simp_all
      with Some show ?thesis by (auto simp: Let_def nb_chain)
    qed
  qed simp
qed

definition anchored :: "timeline_set \<Rightarrow> (nat \<Rightarrow> int) \<Rightarrow> bool \<Rightarrow> tl_index \<Rightarrow> tl_index \<Rightarrow> int \<Rightarrow> bool" where
  "anchored s off b ti an delta \<longleftrightarrow> index_valid s an \<and>
     (if b then (ti_timeline ti, ti_timeline an) \<in> tlchain.ahead s \<and> delta \<le> pos_of s off an - pos_of s off ti
      else (ti_timeline an, ti_timeline ti) \<in> tlchain.ahead s \<and> delta \<le> pos_of s off ti - pos_of s off an)"

lemma pos_bounds:
  assumes "index_valid s ti"
  shows "off (ti_timeline ti) \<le> pos_of s off ti"
    and "pos_of s off ti \<le> off (ti_timeline ti) + (maxIndex s (ti_timeline ti) - minIndex s (ti_timeline ti))"
  using assms by (auto simp: index_valid_def pos_of_def)

lemma ahead_off:
  assumes "chain_offsets s off" "(t, u) \<in> tlchain.ahead s" "t \<noteq> u"
  shows "off t + (maxIndex s t - minIndex s t) \<le> off u"
  using tlchain.ahead_offset [OF assms(1,2)] assms(3) by (simp add: maxIndex_def minIndex_def)

lemma ahead_stop:
  assumes "(t, u) \<in> tlchain.ahead s" "nb s Forward t = None"
  shows "u = t"
  using assms(1) unfolding tlchain.ahead_def by (cases rule: converse_rtranclE) (use assms(2) in auto)

lemma behind_stop:
  assumes "set_ok s" "(u, t) \<in> tlchain.ahead s" "nb s Backward t = None"
  shows "u = t"
  using assms(2) unfolding tlchain.ahead_def
proof (cases rule: rtranclE)
  case (step y)
  then have "nb s (inverse_direction Forward) t = Some y"
    using tlchain.neighbour_sym [OF assms(1), of y Forward t] by simp
  with assms(3) show ?thesis by (simp add: inverse_direction_def)
qed simp

lemma unpaginate_step:
  assumes ok: "set_ok s" and off: "chain_offsets s off" and v: "index_valid s ti" and a: "anchored s off b ti an delta"
    and pos: "0 < delta" and st: "(if b then advance fuel s delta ti else retreat fuel s delta ti) = Some (c, ti1)"
  shows "0 < c \<and> c \<le> delta \<and> index_valid s ti1 \<and> anchored s off b ti1 an (delta - c) \<and>
    pos_of s off ti1 = (if b then pos_of s off ti + c else pos_of s off ti - c)"
proof (cases b)
  case True
  let ?t = "ti_timeline ti" and ?u = "ti_timeline ti1" and ?a = "ti_timeline an"
  have post: "advance_post s off delta ti c ti1"
    using advance_spec [OF ok off v] st True by simp
  have an: "index_valid s an" "(?t, ?a) \<in> tlchain.ahead s" "delta \<le> pos_of s off an - pos_of s off ti"
    using a True by (simp_all add: anchored_def)
  have u: "(?t, ?u) \<in> tlchain.ahead s" "index_valid s ti1" "pos_of s off ti1 = pos_of s off ti + c" "0 \<le> c" "c \<le> delta"
    using post pos by (simp_all add: advance_post_def reached_def)
  consider "(?u, ?a) \<in> tlchain.ahead s" | "(?a, ?u) \<in> tlchain.ahead s" "?a \<noteq> ?u"
    using tlchain.ahead_linear [OF u(1) an(2)] tlchain.ahead_refl by metis
  then have lin: "(?u, ?a) \<in> tlchain.ahead s" "c \<noteq> 0"
  proof (atomize (full), cases)
    case 1
    have "c \<noteq> 0"
    proof
      assume "c = 0"
      then have "nb s Forward ?u = None" "ti_index ti1 = maxIndex s ?u"
        using post pos by (simp_all add: advance_post_def)
      with ahead_stop [OF 1] have "pos_of s off an \<le> pos_of s off ti1"
        using an(1) by (simp add: pos_of_def index_valid_def)
      with u(3) an(3) pos \<open>c = 0\<close> show False by simp
    qed
    with 1 show "(?u, ?a) \<in> tlchain.ahead s \<and> c \<noteq> 0" by simp
  next
    case 2
    have le: "pos_of s off an \<le> off ?u"
      using ahead_off [OF off 2] pos_bounds(2) [OF an(1), of off] by simp
    have "off ?u \<le> pos_of s off ti1" using pos_bounds(1) [OF u(2)] .
    with le u(3,5) an(3) have "c = delta" "pos_of s off ti1 = off ?u" by simp_all
    moreover have "minIndex s ?u < ti_index ti1"
      using post pos \<open>c = delta\<close> by (simp add: advance_post_def)
    ultimately show "(?u, ?a) \<in> tlchain.ahead s \<and> c \<noteq> 0" by (simp add: pos_of_def)
  qed
  with u an True show ?thesis by (simp add: anchored_def)
next
  case False
  let ?t = "ti_timeline ti" and ?u = "ti_timeline ti1" and ?a = "ti_timeline an"
  obtain c' where c': "advance fuel s (- delta) ti = Some (c', ti1)" "c = - c'"
    using st False by (auto simp: retreat_def)
  have post: "advance_post s off (- delta) ti c' ti1"
    using advance_spec [OF ok off v c'(1)] .
  have an: "index_valid s an" "(?a, ?t) \<in> tlchain.ahead s" "delta \<le> pos_of s off ti - pos_of s off an"
    using a False by (simp_all add: anchored_def)
  have u: "(?u, ?t) \<in> tlchain.ahead s" "index_valid s ti1" "pos_of s off ti1 = pos_of s off ti - c" "0 \<le> c" "c \<le> delta"
    using post pos c'(2) by (auto simp: advance_post_def reached_def)
  consider "(?a, ?u) \<in> tlchain.ahead s" | "(?u, ?a) \<in> tlchain.ahead s" "?u \<noteq> ?a"
    using tlchain.behind_linear [OF ok u(1) an(2)] tlchain.ahead_refl by metis
  then have lin: "(?a, ?u) \<in> tlchain.ahead s" "c \<noteq> 0"
  proof (atomize (full), cases)
    case 1
    have "c \<noteq> 0"
    proof
      assume "c = 0"
      then have "nb s Backward ?u = None" "ti_index ti1 = minIndex s ?u"
        using post pos c'(2) by (simp_all add: advance_post_def)
      with behind_stop [OF ok 1] have "pos_of s off ti1 \<le> pos_of s off an"
        using an(1) by (simp add: pos_of_def index_valid_def)
      with u(3) an(3) pos \<open>c = 0\<close> show False by simp
    qed
    with 1 show "(?a, ?u) \<in> tlchain.ahead s \<and> c \<noteq> 0" by simp
  next
    case 2
    have le: "pos_of s off ti1 \<le> off ?a"
      using ahead_off [OF off 2] pos_bounds(2) [OF u(2), of off] by simp
    have "off ?a \<le> pos_of s off an" using pos_bounds(1) [OF an(1)] .
    with le u(3,5) an(3) have cd: "c = delta" "pos_of s off ti1 = off ?a" by simp_all
    moreover have "ti_index ti1 < maxIndex s ?u"
      using post pos cd(1) c'(2) by (simp add: advance_post_def)
    ultimately show "(?a, ?u) \<in> tlchain.ahead s \<and> c \<noteq> 0"
      using ahead_off [OF off 2] by (simp add: pos_of_def)
  qed
  with u an False show ?thesis by (simp add: anchored_def)
qed

lemma unpaginate_loop_spec:
  assumes ok: "set_ok s" and off: "chain_offsets s off" and ch: "chain_order s f"
    and k: "length (ts_store s) + 1 < fuel"
  shows "index_valid s ti \<Longrightarrow> anchored s off b ti an delta \<Longrightarrow> 0 \<le> delta \<Longrightarrow>
    \<exists>ti1. unpaginate_loop fuel s b delta ti n = Ret (ti1, n - delta) \<and> index_valid s ti1 \<and>
      anchored s off b ti1 an 0 \<and> pos_of s off ti1 = (if b then pos_of s off ti + delta else pos_of s off ti - delta)"
proof (induction "nat delta" arbitrary: delta ti n rule: less_induct)
  case less
  show ?case
  proof (cases "delta = 0")
    case True
    with less.prems show ?thesis by (simp add: unpaginate_loop.simps)
  next
    case False
    then have pos: "0 < delta" using less.prems(3) by simp
    have t: "ti_timeline ti < length (ts_store s)" using less.prems(1) by (simp add: index_valid_def)
    have "(if b then advance fuel s delta ti else retreat fuel s delta ti) \<noteq> None"
      using advance_total [OF ok ch k t, of delta] advance_total [OF ok ch k t, of "- delta"]
      by (auto simp: retreat_def)
    then obtain c ti1 where st: "(if b then advance fuel s delta ti else retreat fuel s delta ti) = Some (c, ti1)"
      by (metis option.exhaust surj_pair)
    note step = unpaginate_step [OF ok off less.prems(1,2) pos st]
    have "unpaginate_loop fuel s b delta ti n = unpaginate_loop fuel s b (delta - c) ti1 (n - c)"
      using st step pos by (subst unpaginate_loop.simps) simp
    moreover have "\<exists>ti2. unpaginate_loop fuel s b (delta - c) ti1 (n - c) = Ret (ti2, n - c - (delta - c)) \<and>
        index_valid s ti2 \<and> anchored s off b ti2 an 0 \<and>
        pos_of s off ti2 = (if b then pos_of s off ti1 + (delta - c) else pos_of s off ti1 - (delta - c))"
      using step pos by (intro less.hyps) auto
    ultimately show ?thesis using step by (auto split: if_splits)
  qed
qed

text \<open>A loaded window: it spans the events between its two indices, and keeps to its limit.\<close>

definition window_ok :: "timeline_set \<Rightarrow> (nat \<Rightarrow> int) \<Rightarrow> window \<Rightarrow> bool" where
  "window_ok s off w \<longleftrightarrow>
     (case (w_start w, w_end w) of
        (Some st, Some en) \<Rightarrow>
          index_valid s st \<and> index_valid s en \<and> (ti_timeline st, ti_timeline en) \<in> tlchain.ahead s \<and>
          pos_of s off st \<le> pos_of s off en \<and> w_count w = pos_of s off en - pos_of s off st \<and>
          w_count w \<le> w_limit w
      | _ \<Rightarrow> False)"

lemma window_okI:
  "w_start w = Some st \<Longrightarrow> w_end w = Some en \<Longrightarrow> index_valid s st \<Longrightarrow> index_valid s en \<Longrightarrow>
   (ti_timeline st, ti_timeline en) \<in> tlchain.ahead s \<Longrightarrow> w_count w = pos_of s off en - pos_of s off st \<Longrightarrow>
   0 \<le> w_count w \<Longrightarrow> w_count w \<le> w_limit w \<Longrightarrow> window_ok s off w"
  by (simp add: window_ok_def)

lemma unpaginate_spec:
  assumes ok: "set_ok s" "chain_offsets s off" "chain_order s f" "length (ts_store s) + 1 < fuel"
    and w: "w_start w = Some st" "w_end w = Some en" "index_valid s st" "index_valid s en"
      "(ti_timeline st, ti_timeline en) \<in> tlchain.ahead s" "w_count w = pos_of s off en - pos_of s off st"
    and d: "0 \<le> delta" "delta \<le> w_count w" and lim: "w_count w - delta \<le> w_limit w"
  obtains w' where "unpaginate fuel s delta b w = Ret w'" "window_ok s off w'" "w_count w' = w_count w - delta"
    "w_limit w' = w_limit w" "(if b then w_end w' = w_end w else w_start w' = w_start w)"
proof (cases b)
  case True
  have "anchored s off True st en delta"
    using w d by (simp add: anchored_def)
  from unpaginate_loop_spec [OF ok w(3) this d(1), of "w_count w"] obtain ti1 where
    l: "unpaginate_loop fuel s True delta st (w_count w) = Ret (ti1, w_count w - delta)" "index_valid s ti1"
      "anchored s off True ti1 en 0" "pos_of s off ti1 = pos_of s off st + delta" by auto
  show ?thesis
    by (rule that [of "(w\<lparr>w_start := Some ti1\<rparr>)\<lparr>w_count := w_count w - delta\<rparr>"])
      (use True l w d lim in \<open>simp_all add: unpaginate_def getTimelineIndex_def put_index_def window_ok_def anchored_def\<close>)
next
  case False
  have "anchored s off False en st delta"
    using w d by (simp add: anchored_def)
  from unpaginate_loop_spec [OF ok w(4) this d(1), of "w_count w"] obtain ti1 where
    l: "unpaginate_loop fuel s False delta en (w_count w) = Ret (ti1, w_count w - delta)" "index_valid s ti1"
      "anchored s off False ti1 st 0" "pos_of s off ti1 = pos_of s off en - delta" by auto
  show ?thesis
    by (rule that [of "(w\<lparr>w_end := Some ti1\<rparr>)\<lparr>w_count := w_count w - delta\<rparr>"])
      (use False l w d lim in \<open>simp_all add: unpaginate_def getTimelineIndex_def put_index_def window_ok_def anchored_def\<close>)
qed


definition sample_index :: "int \<Rightarrow> tl_index" where
  "sample_index i = \<lparr>ti_timeline = 0, ti_index = i, ti_pending = False\<rparr>"

definition sample_window :: window where
  "sample_window = \<lparr>w_limit = 5, w_start = Some (sample_index 1), w_end = Some (sample_index 1), w_count = 0\<rparr>"

lemma sample_set_store: "length (ts_store sample_set) = 1"
  by (simp add: sample_set_def addLiveEvent_def new_timeline_set_def apply_filter_def addEventToTimeline_def
      timeline_addEvent_def prepare_event_def Let_def timeline_at_def put_timeline_def setRelationsTarget_def
      aggregateRelations_def)

lemma sample_chain: "chain_order sample_set (\<lambda>_. 0)" "chain_offsets sample_set (\<lambda>_. 0)"
  using sample_set_events sample_set_store
  by (simp_all add: chain_order_def tlchain.offsets_def stored_timeline_def nb_def getNeighbouringTimeline_def
      new_timeline_def)

lemma sample_window_ok: "window_ok sample_set (\<lambda>_. 0) sample_window"
  using sample_set_events sample_set_store
  by (simp add: window_ok_def sample_window_def index_valid_def sample_index_def minIndex_def maxIndex_def
      new_timeline_def tlchain.ahead_refl pos_of_def)


lemma events_between_length: "length (events_between evs i j) = nat (j - i)"
  by (simp add: events_between_def)

lemma events_between_all: "0 \<le> i \<Longrightarrow> j \<le> int (length evs) \<Longrightarrow> None \<notin> set (events_between evs i j)"
  by (auto simp: events_between_def)

lemma ahead_rank:
  assumes "set_ok s" "chain_order s f" "(t, u) \<in> tlchain.ahead s"
  shows "f t \<le> f u"
proof -
  have "tlchain.ahead s = (next_rel s Forward)\<^sup>*"
    by (simp add: tlchain.ahead_def next_rel_def stored_timeline_def)
  with chain_rel(2) [OF assms(1,2), of t u] assms(3) show ?thesis by simp
qed

lemma window_events_spec:
  assumes ok: "set_ok s" and off: "chain_offsets s off" and ch: "chain_order s f"
    and st: "index_valid s st" and en: "index_valid s en"
    and se: "ti_timeline st = ti_timeline en \<Longrightarrow> ti_index st \<le> ti_index en"
  shows "(ti_timeline st, t) \<in> tlchain.ahead s \<Longrightarrow> (t, ti_timeline en) \<in> tlchain.ahead s \<Longrightarrow>
    t < length (ts_store s) \<Longrightarrow> length (ts_store s) - f t + 1 < fuel \<Longrightarrow>
    \<exists>evs. window_events_from fuel s st en (Some t) = Ret evs \<and> None \<notin> set evs \<and>
      int (length evs) = pos_of s off en - (if t = ti_timeline st then pos_of s off st else off t)"
proof (induction fuel arbitrary: t)
  case (Suc fuel)
  let ?events = "tl_events (timeline_at s t)" and ?base = "int (tl_baseIndex (timeline_at s t))"
  define i where "i = (if t = ti_timeline st then ti_index st + ?base else 0)"
  define j where "j = (if t = ti_timeline en then ti_index en + ?base else int (length ?events))"
  have ij: "0 \<le> i" "j \<le> int (length ?events)" "i \<le> j"
    using st en se by (auto simp: i_def j_def index_valid_def minIndex_def maxIndex_def)
  have here: "None \<notin> set (events_between ?events i j)" "int (length (events_between ?events i j)) = j - i"
    using ij events_between_all by (auto simp: events_between_length)
  have start: "off t + i = (if t = ti_timeline st then pos_of s off st else off t)"
    by (auto simp: i_def pos_of_def minIndex_def)
  show ?case
  proof (cases "t = ti_timeline en")
    case True
    then have "off t + j = pos_of s off en" by (simp add: j_def pos_of_def minIndex_def)
    with here start True show ?thesis by (auto simp: Let_def i_def j_def)
  next
    case False
    obtain u where u: "nb s Forward t = Some u" "(u, ti_timeline en) \<in> tlchain.ahead s"
      using Suc.prems(2) False unfolding tlchain.ahead_def by (cases rule: converse_rtranclE) auto
    have stt: "stored_timeline s t" using Suc.prems(3) by (simp add: stored_timeline_def)
    have ul: "u < length (ts_store s)" using nb_len [OF ok Suc.prems(3) u(1)] .
    have fu: "f t < f u" using ch Suc.prems(3) u(1) unfolding chain_order_def by blast
    have "f u \<le> length (ts_store s)" using ch by (simp add: chain_order_def)
    then have "length (ts_store s) - f u + 1 < fuel" using fu Suc.prems(4) by simp
    moreover have "(ti_timeline st, u) \<in> tlchain.ahead s"
      using tlchain.ahead_trans [OF Suc.prems(1) tlchain.ahead_forward [OF stt u(1)]] .
    ultimately obtain evs where evs: "window_events_from fuel s st en (Some u) = Ret evs" "None \<notin> set evs"
      "int (length evs) = pos_of s off en - (if u = ti_timeline st then pos_of s off st else off u)"
      using Suc.IH [OF _ u(2) ul] by blast
    have "u \<noteq> ti_timeline st"
      using ahead_rank [OF ok ch Suc.prems(1)] fu by auto
    moreover have "off u = off t + int (length ?events)"
      using off stt u(1) by (simp add: tlchain.offsets_def)
    ultimately have "int (length evs) = pos_of s off en - (off t + j)"
      using evs(3) False by (simp add: j_def)
    moreover have "window_events_from (Suc fuel) s st en (Some t) = Ret (events_between ?events i j @ evs)"
      using False evs(1) u(1) by (simp add: Let_def nb_chain i_def j_def)
    ultimately show ?thesis
      using here evs(2) start by auto
  qed
qed simp

text \<open>
  The window's content matches its bookkeeping: reading the events of a loaded window returns, without
  running past the end of the chain, as many events as the window counts, each of them an event of a timeline.
\<close>

theorem window_getEvents_count:
  assumes "ts_reachable unh s" and "chain_offsets s off" and "chain_order s f"
    and "length (ts_store s) + 1 < fuel" and "window_ok s off w"
  shows "\<exists>evs. window_getEvents fuel s w = Ret evs \<and> int (length evs) = w_count w \<and> None \<notin> set evs"
proof -
  have ok: "set_ok s" by (rule set_ok_reachable [OF assms(1)])
  obtain st en where w: "w_start w = Some st" "w_end w = Some en" "index_valid s st" "index_valid s en"
    "(ti_timeline st, ti_timeline en) \<in> tlchain.ahead s" "pos_of s off st \<le> pos_of s off en"
    "w_count w = pos_of s off en - pos_of s off st"
    using assms(5) by (auto simp: window_ok_def split: option.splits)
  have "ti_timeline st = ti_timeline en \<Longrightarrow> ti_index st \<le> ti_index en"
    using w(6) by (simp add: pos_of_def)
  moreover have "ti_timeline st < length (ts_store s)" using w(3) by (simp add: index_valid_def)
  moreover have "length (ts_store s) - f (ti_timeline st) + 1 < fuel" using assms(4) by simp
  ultimately show ?thesis
    using window_events_spec [OF ok assms(2,3) w(3,4) _ tlchain.ahead_refl w(5), of fuel] w(1,2,7)
    by (auto simp: window_getEvents_def)
qed

theorem window_getEvents_count_witness:
  "\<exists>evs. window_getEvents 9 sample_set sample_window = Ret evs \<and> evs = []"
  using window_getEvents_count [OF sample_set_reachable sample_chain(2,1) _ sample_window_ok, of 9] sample_set_store
  by (auto simp: sample_window_def)

end
