(* ===== verification/Scheduler.thy ===== *)
theory Scheduler
  imports Event
begin

text \<open>
  \<^verbatim>\<open>src/scheduler.ts\<close>: the class \<open>SendingNetworkScheduler\<close>, and \<open>removeElement\<close> of
  \<^verbatim>\<open>src/utils.ts\<close>. The entries of the queues are shared objects (the handlers of a sent event
  keep a reference to theirs), so they live in a store and the queues hold their
  addresses; the address also names the deferred of the entry. What the scheduler leaves
  to the event loop (a microtask before the call of the process function, the pending call, a
  timer) is a list of tasks; the environment picks the task that runs next
  and the answer of a pending call.
\<close>

section \<open>Removing one element\<close>

fun remove_first :: "('a \<Rightarrow> bool) \<Rightarrow> 'a list \<Rightarrow> 'a option \<times> 'a list" where
  "remove_first p [] = (None, [])"
| "remove_first p (x # xs) =
     (if p x then (Some x, xs) else let (r, ys) = remove_first p xs in (r, x # ys))"

definition removeElement :: "('a \<Rightarrow> bool) \<Rightarrow> bool \<Rightarrow> 'a list \<Rightarrow> 'a option \<times> 'a list" where
  "removeElement p reverse xs =
     (if reverse then let (r, ys) = remove_first p (rev xs) in (r, rev ys) else remove_first p xs)"

lemma remove_first_None [simp]: "fst (remove_first p xs) = None \<longleftrightarrow> (\<forall>x \<in> set xs. \<not> p x)"
  by (induction xs) (auto split: prod.splits)

lemma remove_first_unchanged: "fst (remove_first p xs) = None \<Longrightarrow> snd (remove_first p xs) = xs"
proof (induction xs)
  case (Cons x xs)
  then show ?case by (cases "remove_first p xs") (auto split: if_splits)
qed simp

lemma remove_first_split:
  "remove_first p xs = (Some x, ys) \<Longrightarrow> \<exists>as bs. xs = as @ x # bs \<and> ys = as @ bs \<and> p x \<and> (\<forall>a \<in> set as. \<not> p a)"
proof (induction xs arbitrary: ys)
  case (Cons z zs)
  show ?case
  proof (cases "p z")
    case True
    with Cons.prems have "z # zs = [] @ x # zs" "ys = [] @ zs" "p x" by auto
    then show ?thesis by (metis empty_iff list.set(1))
  next
    case False
    with Cons.prems obtain ws where w: "remove_first p zs = (Some x, ws)" "ys = z # ws"
      by (auto split: prod.splits)
    from Cons.IH [OF w(1)] obtain as bs where "zs = as @ x # bs" "ws = as @ bs" "p x" "\<forall>a \<in> set as. \<not> p a"
      by blast
    with w False show ?thesis by (intro exI [of _ "z # as"] exI [of _ bs]) simp
  qed
qed simp

lemma filter_not_eq: "x \<notin> set xs \<Longrightarrow> filter (\<lambda>z. z \<noteq> x) xs = xs"
  by (auto simp: filter_id_conv)

lemma remove_first_filter:
  assumes "distinct xs" and "remove_first p xs = (Some x, ys)"
  shows "ys = filter (\<lambda>z. z \<noteq> x) xs" and "x \<in> set xs"
  using remove_first_split [OF assms(2)] assms(1) by (auto simp: filter_not_eq)

section \<open>Algorithms\<close>

text \<open>The wait before the next attempt; \<open>-1\<close> gives up; \<open>Inl\<close> when reading the error throws.\<close>

definition RETRY_BACKOFF_RATELIMIT :: "mx_event \<Rightarrow> nat \<Rightarrow> json \<Rightarrow> string + rat" where
  "RETRY_BACKOFF_RATELIMIT ev attempts err =
     (if js_nullish err then Inl ''TypeError''
      else if jget err ''httpStatus'' \<in> {JNum 400, JNum 403, JNum 401} then Inr (- 1)
      else if jget err ''cors'' = JStr ''rejected'' then Inr (- 1)
      else if jget err ''name'' = JStr ''M_TOO_LARGE'' then Inr (- 1)
      else if jget err ''name'' = JStr ''M_LIMIT_EXCEEDED'' \<and> js_nullish (jget err ''data'') then Inl ''TypeError''
      else
        let backoff = (if 4 < attempts then - 1 else 1000 * 2 ^ attempts)
        in case (if jget err ''name'' = JStr ''M_LIMIT_EXCEEDED''
                 then as_num (jget (jget err ''data'') ''retry_after_ms'') else None) of
             Some waitTime \<Rightarrow> Inr (if 0 < waitTime then waitTime else backoff)
           | None \<Rightarrow> Inr backoff)"

definition QUEUE_MESSAGES :: "mx_event \<Rightarrow> string option" where
  "QUEUE_MESSAGES ev =
     (if getType ev = Some ''m.room.message'' \<or> hasAssocation ev then Some ''message'' else None)"

section \<open>State\<close>

datatype outcome = Resolved json | Rejected json

record queue_entry =
  q_event :: mx_event
  q_attempts :: nat

datatype sched_task =
    Call string nat
  | Await string nat
  | Timer string rat

record scheduler =
  sc_retry :: "mx_event \<Rightarrow> nat \<Rightarrow> json \<Rightarrow> string + rat"
  sc_queueAlg :: "mx_event \<Rightarrow> string option"
  sc_queues :: "(string, nat list) dict"
  sc_entries :: "queue_entry list"
  sc_active :: "string list"
  sc_procFn :: "nat option"
  sc_tasks :: "sched_task list"
  sc_calls :: "(nat \<times> nat) list"
  sc_settled :: "(nat \<times> outcome) list"

definition new_scheduler ::
  "(mx_event \<Rightarrow> nat \<Rightarrow> json \<Rightarrow> string + rat) \<Rightarrow> (mx_event \<Rightarrow> string option) \<Rightarrow> scheduler" where
  "new_scheduler retry alg =
     \<lparr>sc_retry = retry, sc_queueAlg = alg, sc_queues = [], sc_entries = [], sc_active = [],
      sc_procFn = None, sc_tasks = [], sc_calls = [], sc_settled = []\<rparr>"

definition entry_event :: "scheduler \<Rightarrow> nat \<Rightarrow> mx_event" where
  "entry_event s i = q_event (sc_entries s ! i)"

text \<open>A queue name of the algorithm counts when it is a non-empty string (\<open>if (!queueName)\<close>).\<close>

definition queue_name :: "scheduler \<Rightarrow> mx_event \<Rightarrow> string option" where
  "queue_name s ev =
     (case sc_queueAlg s ev of Some q \<Rightarrow> (if q = [] then None else Some q) | None \<Rightarrow> None)"

section \<open>Operations\<close>

definition getQueueForEvent :: "scheduler \<Rightarrow> mx_event \<Rightarrow> mx_event list option" where
  "getQueueForEvent s ev =
     (case queue_name s ev of
        None \<Rightarrow> None
      | Some q \<Rightarrow> (case dget (sc_queues s) q of
          None \<Rightarrow> None
        | Some xs \<Rightarrow> Some (map (entry_event s) xs)))"

definition removeEventFromQueue :: "mx_event \<Rightarrow> scheduler \<Rightarrow> bool \<times> scheduler" where
  "removeEventFromQueue ev s =
     (case queue_name s ev of
        None \<Rightarrow> (False, s)
      | Some q \<Rightarrow> (case dget (sc_queues s) q of
          None \<Rightarrow> (False, s)
        | Some xs \<Rightarrow>
            let (r, ys) = removeElement (\<lambda>i. getId (entry_event s i) = getId ev) False xs
            in (r \<noteq> None, s\<lparr>sc_queues := dset q ys (sc_queues s)\<rparr>)))"

definition peekNextEvent :: "string \<Rightarrow> scheduler \<Rightarrow> nat option" where
  "peekNextEvent q s =
     (case dget (sc_queues s) q of Some (i # _) \<Rightarrow> Some i | _ \<Rightarrow> None)"

definition removeNextEvent :: "string \<Rightarrow> scheduler \<Rightarrow> scheduler" where
  "removeNextEvent q s =
     (case dget (sc_queues s) q of
        None \<Rightarrow> s
      | Some xs \<Rightarrow> s\<lparr>sc_queues := dset q (tl xs) (sc_queues s)\<rparr>)"

definition processQueue :: "string \<Rightarrow> scheduler \<Rightarrow> scheduler" where
  "processQueue q s =
     (case peekNextEvent q s of
        None \<Rightarrow> s\<lparr>sc_active := remove1 q (sc_active s)\<rparr>
      | Some i \<Rightarrow> s\<lparr>sc_tasks := sc_tasks s @ [Call q i]\<rparr>)"

definition spin_up :: "string \<Rightarrow> scheduler \<Rightarrow> scheduler" where
  "spin_up q s = processQueue q (s\<lparr>sc_active := sc_active s @ [q]\<rparr>)"

definition startProcessingQueues :: "scheduler \<Rightarrow> scheduler" where
  "startProcessingQueues s =
     (if sc_procFn s = None then s
      else fold spin_up
             (filter (\<lambda>q. q \<notin> set (sc_active s) \<and> dget (sc_queues s) q \<noteq> Some []) (dkeys (sc_queues s))) s)"

definition setProcessFunction :: "nat option \<Rightarrow> scheduler \<Rightarrow> scheduler" where
  "setProcessFunction fn s = startProcessingQueues (s\<lparr>sc_procFn := fn\<rparr>)"

text \<open>The promise of a queued event is named by the address of its entry.\<close>

definition queueEvent :: "mx_event \<Rightarrow> scheduler \<Rightarrow> nat option \<times> scheduler" where
  "queueEvent ev s =
     (case queue_name s ev of
        None \<Rightarrow> (None, s)
      | Some q \<Rightarrow>
          let i = length (sc_entries s);
              xs = (case dget (sc_queues s) q of Some xs \<Rightarrow> xs | None \<Rightarrow> [])
          in (Some i,
              startProcessingQueues
                (s\<lparr>sc_queues := dset q (xs @ [i]) (sc_queues s),
                   sc_entries := sc_entries s @ [\<lparr>q_event = ev, q_attempts = 0\<rparr>]\<rparr>)))"

text \<open>Settling a deferred a second time has no effect.\<close>

definition settle :: "nat \<Rightarrow> outcome \<Rightarrow> scheduler \<Rightarrow> scheduler" where
  "settle i r s =
     (if i \<in> fst ` set (sc_settled s) then s else s\<lparr>sc_settled := sc_settled s @ [(i, r)]\<rparr>)"

definition on_sent :: "string \<Rightarrow> nat \<Rightarrow> json \<Rightarrow> scheduler \<Rightarrow> scheduler" where
  "on_sent q i res s = processQueue q (settle i (Resolved res) (removeNextEvent q s))"

definition count_attempt :: "nat \<Rightarrow> scheduler \<Rightarrow> scheduler" where
  "count_attempt i s =
     s\<lparr>sc_entries := (sc_entries s)[i := (sc_entries s ! i)\<lparr>q_attempts := q_attempts (sc_entries s ! i) + 1\<rparr>]\<rparr>"

text \<open>When the retry algorithm throws, the handler stops there: the queue stays active, nothing runs on it.\<close>

definition on_failed :: "string \<Rightarrow> nat \<Rightarrow> json \<Rightarrow> scheduler \<Rightarrow> scheduler" where
  "on_failed q i err s =
     (let s1 = count_attempt i s
      in case sc_retry s (entry_event s1 i) (q_attempts (sc_entries s1 ! i)) err of
           Inl _ \<Rightarrow> s1
         | Inr waitTimeMs \<Rightarrow>
             if waitTimeMs = - 1
             then processQueue q (settle i (Rejected err) (removeNextEvent q s1))
             else s1\<lparr>sc_tasks := sc_tasks s1 @ [Timer q waitTimeMs]\<rparr>)"

definition on_answer :: "string \<Rightarrow> nat \<Rightarrow> outcome \<Rightarrow> scheduler \<Rightarrow> scheduler" where
  "on_answer q i r s = (case r of Resolved res \<Rightarrow> on_sent q i res s | Rejected err \<Rightarrow> on_failed q i err s)"

section \<open>The event loop\<close>

definition drop_task :: "nat \<Rightarrow> scheduler \<Rightarrow> scheduler" where
  "drop_task n s = s\<lparr>sc_tasks := take n (sc_tasks s) @ drop (Suc n) (sc_tasks s)\<rparr>"

text \<open>
  One turn: the task at a position runs. A pending call takes the answer given; a microtask calls
  the process function, and without one the call throws a \<open>TypeError\<close>, which is its answer.
\<close>

definition run_task :: "nat \<Rightarrow> outcome \<Rightarrow> scheduler \<Rightarrow> scheduler" where
  "run_task n r s =
     (if n < length (sc_tasks s)
      then let s1 = drop_task n s in
        (case sc_tasks s ! n of
           Call q i \<Rightarrow>
             (case sc_procFn s of
                Some f \<Rightarrow> s1\<lparr>sc_tasks := sc_tasks s1 @ [Await q i], sc_calls := sc_calls s1 @ [(f, i)]\<rparr>
              | None \<Rightarrow> on_failed q i (JObj [(''name'', JStr ''TypeError'')]) s1)
         | Await q i \<Rightarrow> on_answer q i r s1
         | Timer q w \<Rightarrow> processQueue q s1)
      else s)"

datatype sched_op =
    QueueEvent mx_event
  | RemoveEvent mx_event
  | SetProcessFunction nat
  | RunTask nat outcome

fun sched_exec :: "sched_op \<Rightarrow> scheduler \<Rightarrow> scheduler" where
  "sched_exec (QueueEvent ev) s = snd (queueEvent ev s)"
| "sched_exec (RemoveEvent ev) s = snd (removeEventFromQueue ev s)"
| "sched_exec (SetProcessFunction f) s = setProcessFunction (Some f) s"
| "sched_exec (RunTask n r) s = run_task n r s"

section \<open>First in, first out\<close>

definition qget :: "string \<Rightarrow> scheduler \<Rightarrow> nat list" where
  "qget q s = (case dget (sc_queues s) q of Some xs \<Rightarrow> xs | None \<Rightarrow> [])"

definition entry_queue :: "scheduler \<Rightarrow> nat \<Rightarrow> string option" where
  "entry_queue s i = queue_name s (entry_event s i)"

fun task_queue :: "sched_task \<Rightarrow> string" where
  "task_queue (Call q i) = q"
| "task_queue (Await q i) = q"
| "task_queue (Timer q w) = q"

fun task_entry :: "sched_task \<Rightarrow> nat option" where
  "task_entry (Call q i) = Some i"
| "task_entry (Await q i) = Some i"
| "task_entry (Timer q w) = None"

text \<open>The entries of a queue whose promise is settled, in the order they were.\<close>

definition settled_of :: "string \<Rightarrow> scheduler \<Rightarrow> nat list" where
  "settled_of q s = filter (\<lambda>i. entry_queue s i = Some q) (map fst (sc_settled s))"

text \<open>The abstract queue: the entries ever queued under a name, in order, less the removed ones.\<close>

definition queued_under :: "string \<Rightarrow> nat set \<Rightarrow> scheduler \<Rightarrow> nat list" where
  "queued_under q R s = filter (\<lambda>i. i \<notin> R \<and> entry_queue s i = Some q) [0..<length (sc_entries s)]"

text \<open>
  \<open>E\<close> is the set of active queues that no task works on: empty between turns unless a
  retry algorithm has thrown.
\<close>

definition sched_inv :: "nat set \<Rightarrow> string set \<Rightarrow> scheduler \<Rightarrow> bool" where
  "sched_inv R E s \<longleftrightarrow>
     dict_ok (sc_queues s) \<and> distinct (sc_active s) \<and> distinct (map task_queue (sc_tasks s)) \<and>
     set (sc_active s) = set (map task_queue (sc_tasks s)) \<union> E \<and> E \<inter> set (map task_queue (sc_tasks s)) = {} \<and>
     (\<forall>t i. t \<in> set (sc_tasks s) \<longrightarrow> task_entry t = Some i \<longrightarrow> peekNextEvent (task_queue t) s = Some i) \<and>
     (\<forall>q. settled_of q s @ qget q s = queued_under q R s) \<and>
     (\<forall>i \<in> fst ` set (sc_settled s) \<union> R. i < length (sc_entries s))"

definition all_spun :: "scheduler \<Rightarrow> bool" where
  "all_spun s \<longleftrightarrow> (sc_procFn s \<noteq> None \<longrightarrow> (\<forall>q. qget q s \<noteq> [] \<longrightarrow> q \<in> set (sc_active s)))"

lemma peek_qget: "peekNextEvent q s = (case qget q s of [] \<Rightarrow> None | i # _ \<Rightarrow> Some i)"
  by (simp add: peekNextEvent_def qget_def split: option.split list.split)

lemma qget_removeNext: "qget p (removeNextEvent q s) = (if p = q then tl (qget q s) else qget p s)"
  by (simp add: removeNextEvent_def qget_def dict_simps split: option.split)

lemma entry_queue_cong:
  "sc_queueAlg s' = sc_queueAlg s \<Longrightarrow> map q_event (sc_entries s') = map q_event (sc_entries s) \<Longrightarrow>
   i < length (sc_entries s) \<Longrightarrow> entry_queue s' i = entry_queue s i"
proof -
  assume a: "sc_queueAlg s' = sc_queueAlg s" and m: "map q_event (sc_entries s') = map q_event (sc_entries s)"
    and i: "i < length (sc_entries s)"
  from m have "length (sc_entries s') = length (sc_entries s)" by (rule map_eq_imp_length_eq)
  moreover from m have "map q_event (sc_entries s') ! i = map q_event (sc_entries s) ! i" by (rule arg_cong)
  ultimately have "q_event (sc_entries s' ! i) = q_event (sc_entries s ! i)" using i by simp
  with a show ?thesis by (simp add: entry_queue_def entry_event_def queue_name_def)
qed

lemma queued_under_cong:
  assumes "sc_queueAlg s' = sc_queueAlg s" "map q_event (sc_entries s') = map q_event (sc_entries s)"
  shows "queued_under q R s' = queued_under q R s"
proof -
  have "length (sc_entries s') = length (sc_entries s)"
    using assms(2) map_eq_imp_length_eq by blast
  then show ?thesis
    using entry_queue_cong [OF assms] unfolding queued_under_def by (intro filter_cong) simp_all
qed

lemma settled_of_cong:
  assumes "sc_queueAlg s' = sc_queueAlg s" "map q_event (sc_entries s') = map q_event (sc_entries s)"
    "sc_settled s' = sc_settled s" "\<forall>i \<in> fst ` set (sc_settled s). i < length (sc_entries s)"
  shows "settled_of q s' = settled_of q s"
  using entry_queue_cong [OF assms(1,2)] assms(3,4) unfolding settled_of_def by (intro filter_cong) auto

lemma inv_processQueue:
  assumes "sched_inv R E s" and "q \<in> E"
  shows "sched_inv R (E - {q}) (processQueue q s)"
proof (cases "peekNextEvent q s")
  case None
  have "sched_inv R (E - {q}) (s\<lparr>sc_active := remove1 q (sc_active s)\<rparr>)"
    using assms unfolding sched_inv_def settled_of_def queued_under_def entry_queue_def entry_event_def
      queue_name_def qget_def peekNextEvent_def by auto
  with None show ?thesis by (simp add: processQueue_def)
next
  case (Some i)
  have "sched_inv R (E - {q}) (s\<lparr>sc_tasks := sc_tasks s @ [Call q i]\<rparr>)"
    using assms Some unfolding sched_inv_def settled_of_def queued_under_def entry_queue_def entry_event_def
      queue_name_def qget_def peekNextEvent_def by auto
  with Some show ?thesis by (simp add: processQueue_def)
qed

lemma inv_drop:
  assumes "sched_inv R E s" and "n < length (sc_tasks s)"
  shows "sched_inv R (insert (task_queue (sc_tasks s ! n)) E) (drop_task n s)"
    and "task_queue (sc_tasks s ! n) \<notin> E"
proof -
  let ?ts = "sc_tasks s"
  have split: "?ts = take n ?ts @ ?ts ! n # drop (Suc n) ?ts"
    using assms(2) by (rule id_take_nth_drop)
  have d: "distinct (map task_queue (take n ?ts @ ?ts ! n # drop (Suc n) ?ts))"
    using assms(1) split unfolding sched_inv_def by metis
  have sub: "set (take n ?ts @ drop (Suc n) ?ts) \<subseteq> set ?ts"
    by (simp add: set_take_subset set_drop_subset)
  have qs: "set (map task_queue ?ts) = insert (task_queue (?ts ! n)) (set (map task_queue (take n ?ts @ drop (Suc n) ?ts)))"
    by (subst split) simp
  show "task_queue (?ts ! n) \<notin> E"
    using assms unfolding sched_inv_def by auto
  show "sched_inv R (insert (task_queue (?ts ! n)) E) (drop_task n s)"
    using assms(1) d sub qs unfolding sched_inv_def drop_task_def settled_of_def queued_under_def entry_queue_def
      entry_event_def queue_name_def qget_def peekNextEvent_def by auto
qed

lemma distinct_of_inv:
  assumes "sched_inv R E s"
  shows "distinct (settled_of q s @ qget q s)"
proof -
  have "settled_of q s @ qget q s = queued_under q R s" using assms by (simp add: sched_inv_def)
  then show ?thesis by (simp only:) (simp add: queued_under_def)
qed

lemma inv_entries:
  assumes "sched_inv R E s" and "i \<in> set (qget q s)"
  shows "i < length (sc_entries s)" and "entry_queue s i = Some q" and "i \<notin> R" and "i \<notin> fst ` set (sc_settled s)"
proof -
  have eq: "settled_of q s @ qget q s = queued_under q R s" using assms by (simp add: sched_inv_def)
  then have "i \<in> set (queued_under q R s)" using assms(2) by (metis Un_iff set_append)
  then show *: "i < length (sc_entries s)" "entry_queue s i = Some q" "i \<notin> R"
    by (auto simp: queued_under_def)
  show "i \<notin> fst ` set (sc_settled s)"
  proof
    assume "i \<in> fst ` set (sc_settled s)"
    then have "i \<in> set (settled_of q s)" using * by (simp add: settled_of_def)
    then show False using distinct_of_inv [OF assms(1), of q] assms(2) by auto
  qed
qed

text \<open>Removing the head of a queue together with settling its promise.\<close>

lemma inv_settle:
  assumes inv: "sched_inv R E s" and q: "q \<in> E" and hd: "qget q s = i # xs"
  shows "sched_inv R E (settle i r (removeNextEvent q s))"
proof -
  let ?s = "settle i r (removeNextEvent q s)"
  have i: "i < length (sc_entries s)" "entry_queue s i = Some q" "i \<notin> fst ` set (sc_settled s)"
    using inv_entries [OF inv, of i q] hd by simp_all
  obtain d where d: "dget (sc_queues s) q = Some (i # xs)"
    using hd by (auto simp: qget_def split: option.splits)
  have s': "?s = s\<lparr>sc_queues := dset q xs (sc_queues s), sc_settled := sc_settled s @ [(i, r)]\<rparr>"
    using d i(3) by (simp add: removeNextEvent_def settle_def)
  have eqn: "entry_queue ?s j = entry_queue s j" for j
    by (simp add: s' entry_queue_def entry_event_def queue_name_def)
  have "settled_of p ?s @ qget p ?s = queued_under p R ?s" for p
  proof -
    have old: "settled_of p s @ qget p s = queued_under p R s" using inv by (simp add: sched_inv_def)
    have "queued_under p R ?s = queued_under p R s"
      by (simp add: queued_under_def eqn) (simp add: s')
    moreover have "settled_of p ?s = settled_of p s @ (if p = q then [i] else [])"
      using i(2) by (simp add: settled_of_def eqn) (simp add: s')
    moreover have "qget p ?s = (if p = q then xs else qget p s)"
      by (simp add: s' qget_def dict_simps)
    ultimately show ?thesis using old hd by (auto split: if_splits)
  qed
  moreover have "peekNextEvent p ?s = (if p = q then peekNextEvent p ?s else peekNextEvent p s)" for p
    by (simp add: s' peekNextEvent_def dict_simps)
  moreover have "task_queue t \<noteq> q" if "t \<in> set (sc_tasks s)" for t
    using inv q that by (auto simp: sched_inv_def)
  ultimately show ?thesis
    using inv i(1) unfolding sched_inv_def by (auto simp: s' dict_simps)
qed

lemma count_attempt_events: "map q_event (sc_entries (count_attempt i s)) = map q_event (sc_entries s)"
proof (cases "i < length (sc_entries s)")
  case True
  then have "q_event (sc_entries s ! i) = map q_event (sc_entries s) ! i" by simp
  then show ?thesis by (simp add: count_attempt_def map_update)
qed (simp add: count_attempt_def not_less list_update_beyond)

lemma inv_count_attempt:
  assumes "sched_inv R E s"
  shows "sched_inv R E (count_attempt i s)"
proof -
  note m = count_attempt_events [of i s]
  have a: "sc_queueAlg (count_attempt i s) = sc_queueAlg s" by (simp add: count_attempt_def)
  have "\<forall>i \<in> fst ` set (sc_settled s). i < length (sc_entries s)" using assms by (simp add: sched_inv_def)
  then have so: "settled_of q (count_attempt i s) = settled_of q s" for q
    by (rule settled_of_cong [OF a m, rotated]) (simp add: count_attempt_def)
  have "peekNextEvent q (count_attempt i s) = peekNextEvent q s" "qget q (count_attempt i s) = qget q s" for q
    by (simp_all add: count_attempt_def peekNextEvent_def qget_def)
  then show ?thesis
    using assms so queued_under_cong [OF a m] unfolding sched_inv_def by (simp add: count_attempt_def)
qed

lemma qget_count_attempt: "qget q (count_attempt i s) = qget q s"
  by (simp add: count_attempt_def qget_def)

lemma inv_on_sent:
  assumes "sched_inv R E s" "q \<in> E" "qget q s = i # xs"
  shows "sched_inv R (E - {q}) (on_sent q i res s)"
  unfolding on_sent_def by (rule inv_processQueue [OF inv_settle [OF assms] assms(2)])

lemma inv_on_failed:
  assumes inv: "sched_inv R E s" and q: "q \<in> E" and h: "qget q s = i # xs"
  shows "\<exists>F \<subseteq> E. sched_inv R F (on_failed q i err s) \<and>
    ((\<exists>w. sc_retry s (entry_event s i) (Suc (q_attempts (sc_entries s ! i))) err = Inr w) \<longrightarrow> F = E - {q})"
proof -
  let ?c = "count_attempt i s"
  have inv': "sched_inv R E ?c" and h': "qget q ?c = i # xs"
    using inv_count_attempt [OF inv] h by (simp_all add: qget_count_attempt)
  have i: "i < length (sc_entries s)" using inv_entries [OF inv, of i q] h by simp
  have ev: "entry_event ?c i = entry_event s i" "q_attempts (sc_entries ?c ! i) = Suc (q_attempts (sc_entries s ! i))"
    "sc_retry ?c = sc_retry s"
    using i by (simp_all add: count_attempt_def entry_event_def)
  show ?thesis
  proof (cases "sc_retry s (entry_event s i) (Suc (q_attempts (sc_entries s ! i))) err")
    case (Inl e)
    then show ?thesis using inv' by (intro exI [of _ E]) (simp add: on_failed_def Let_def ev)
  next
    case (Inr w)
    have "sched_inv R (E - {q}) (on_failed q i err s)"
    proof (cases "w = -1")
      case True
      with Inr have "on_failed q i err s = processQueue q (settle i (Rejected err) (removeNextEvent q ?c))"
        by (simp add: on_failed_def Let_def ev)
      then show ?thesis using inv_processQueue [OF inv_settle [OF inv' q h'] q] by simp
    next
      case False
      with Inr have "on_failed q i err s = ?c\<lparr>sc_tasks := sc_tasks ?c @ [Timer q w]\<rparr>"
        by (simp add: on_failed_def Let_def ev)
      moreover have "sched_inv R (E - {q}) (?c\<lparr>sc_tasks := sc_tasks ?c @ [Timer q w]\<rparr>)"
        using inv' q unfolding sched_inv_def settled_of_def queued_under_def entry_queue_def entry_event_def
          queue_name_def qget_def peekNextEvent_def by auto
      ultimately show ?thesis by simp
    qed
    then show ?thesis by blast
  qed
qed

abbreviation type_error :: json where
  "type_error \<equiv> JObj [(''name'', JStr ''TypeError'')]"

definition retry_total ::
  "(json \<Rightarrow> bool) \<Rightarrow> (mx_event \<Rightarrow> nat \<Rightarrow> json \<Rightarrow> string + rat) \<Rightarrow> bool" where
  "retry_total ok retry \<longleftrightarrow> (\<forall>ev n err. ok err \<or> err = type_error \<longrightarrow> (\<exists>w. retry ev n err = Inr w))"

definition answer_ok :: "(json \<Rightarrow> bool) \<Rightarrow> outcome \<Rightarrow> bool" where
  "answer_ok ok r = (case r of Rejected err \<Rightarrow> ok err | Resolved _ \<Rightarrow> True)"

lemma drop_task_fields [simp]:
  "qget q (drop_task n s) = qget q s" "sc_retry (drop_task n s) = sc_retry s"
  "sc_procFn (drop_task n s) = sc_procFn s" "sc_active (drop_task n s) = sc_active s"
  "sc_entries (drop_task n s) = sc_entries s" "entry_event (drop_task n s) i = entry_event s i"
  by (simp_all add: drop_task_def qget_def entry_event_def)

lemma inv_push_task:
  "sched_inv R (insert q E) s \<Longrightarrow> q \<notin> E \<Longrightarrow> task_queue t = q \<Longrightarrow>
   (\<And>i. task_entry t = Some i \<Longrightarrow> peekNextEvent q s = Some i) \<Longrightarrow>
   sched_inv R E (s\<lparr>sc_tasks := sc_tasks s @ [t], sc_calls := cs\<rparr>)"
  unfolding sched_inv_def settled_of_def queued_under_def entry_queue_def entry_event_def
    queue_name_def qget_def peekNextEvent_def by auto

lemma inv_run_task:
  assumes inv: "sched_inv R E s"
  shows "\<exists>F. sched_inv R F (run_task n r s) \<and> (retry_total ok (sc_retry s) \<and> answer_ok ok r \<longrightarrow> F = E)"
proof (cases "n < length (sc_tasks s)")
  case False
  with inv show ?thesis by (intro exI [of _ E]) (simp add: run_task_def)
next
  case True
  let ?t = "sc_tasks s ! n" and ?s = "drop_task n s"
  define q where "q = task_queue ?t"
  have d: "sched_inv R (insert q E) ?s" "q \<notin> E" using inv_drop [OF inv True] by (simp_all add: q_def)
  have e: "insert q E - {q} = E" using d(2) by simp
  have head: "\<exists>xs. qget q ?s = i # xs" if "task_entry ?t = Some i" for i
  proof -
    have "peekNextEvent q s = Some i" using inv True that by (simp add: sched_inv_def q_def)
    then show ?thesis by (auto simp: peek_qget split: list.splits)
  qed
  have fail: "\<exists>F. sched_inv R F (on_failed q i err ?s) \<and> (retry_total ok (sc_retry s) \<and> (ok err \<or> err = type_error) \<longrightarrow> F = E)"
    if te: "task_entry ?t = Some i" for i err
  proof -
    obtain xs where "qget q ?s = i # xs" using head [OF te] by blast
    from inv_on_failed [OF d(1) _ this, of err] obtain F where
      "sched_inv R F (on_failed q i err ?s)"
      "(\<exists>w. sc_retry ?s (entry_event ?s i) (Suc (q_attempts (sc_entries ?s ! i))) err = Inr w) \<longrightarrow> F = insert q E - {q}"
      by auto
    with e show ?thesis by (auto simp: retry_total_def)
  qed
  show ?thesis
  proof (cases ?t)
    case (Call p i)
    then have p: "p = q" and te: "task_entry ?t = Some i" by (simp_all add: q_def)
    obtain xs where h: "qget q ?s = i # xs" using head [OF te] by blast
    show ?thesis
    proof (cases "sc_procFn s")
      case None
      then have "run_task n r s = on_failed q i type_error ?s"
        using True Call p by (simp add: run_task_def Let_def)
      with fail [OF te, of type_error] show ?thesis by auto
    next
      case (Some f)
      then have "run_task n r s = ?s\<lparr>sc_tasks := sc_tasks ?s @ [Await q i], sc_calls := sc_calls ?s @ [(f, i)]\<rparr>"
        using True Call p by (simp add: run_task_def Let_def)
      moreover have "sched_inv R E (?s\<lparr>sc_tasks := sc_tasks ?s @ [Await q i], sc_calls := sc_calls ?s @ [(f, i)]\<rparr>)"
        by (rule inv_push_task [OF d]) (use h in \<open>simp_all add: peek_qget\<close>)
      ultimately show ?thesis by auto
    qed
  next
    case (Await p i)
    then have p: "p = q" and te: "task_entry ?t = Some i" by (simp_all add: q_def)
    obtain xs where h: "qget q ?s = i # xs" using head [OF te] by blast
    have run: "run_task n r s = on_answer q i r ?s"
      using True Await p by (simp add: run_task_def Let_def)
    show ?thesis
    proof (cases r)
      case (Resolved res)
      with inv_on_sent [OF d(1) _ h, of res] e run show ?thesis
        by (intro exI [of _ E]) (simp add: on_answer_def)
    next
      case (Rejected err)
      with fail [OF te, of err] run show ?thesis by (auto simp: on_answer_def answer_ok_def)
    qed
  next
    case (Timer p w)
    then have "p = q" by (simp add: q_def)
    with inv_processQueue [OF d(1), of q] e True Timer show ?thesis
      by (intro exI [of _ E]) (simp add: run_task_def Let_def)
  qed
qed

lemma inv_spin_up:
  assumes "sched_inv R E s" and "q \<notin> set (sc_active s)"
  shows "sched_inv R E (spin_up q s)"
proof -
  have "q \<notin> E" using assms by (auto simp: sched_inv_def)
  moreover have "sched_inv R (insert q E) (s\<lparr>sc_active := sc_active s @ [q]\<rparr>)"
    using assms unfolding sched_inv_def settled_of_def queued_under_def entry_queue_def entry_event_def
      queue_name_def qget_def peekNextEvent_def by auto
  ultimately show ?thesis
    using inv_processQueue [of R "insert q E" "s\<lparr>sc_active := sc_active s @ [q]\<rparr>" q] by (simp add: spin_up_def)
qed

lemma spin_up_fields:
  "sc_queues (spin_up q s) = sc_queues s" "sc_procFn (spin_up q s) = sc_procFn s" "sc_retry (spin_up q s) = sc_retry s"
  "sc_entries (spin_up q s) = sc_entries s" "sc_queueAlg (spin_up q s) = sc_queueAlg s"
  "sc_settled (spin_up q s) = sc_settled s"
  by (simp_all add: spin_up_def processQueue_def split: option.split)

lemma spin_up_active:
  "qget q s \<noteq> [] \<Longrightarrow> sc_active (spin_up q s) = sc_active s @ [q]"
  by (cases "qget q s") (simp_all add: spin_up_def processQueue_def peek_qget [of q "s\<lparr>sc_active := _\<rparr>"] qget_def)

lemma fold_spin_up:
  "sched_inv R E s \<Longrightarrow> distinct qs \<Longrightarrow> set qs \<inter> set (sc_active s) = {} \<Longrightarrow> (\<And>q. q \<in> set qs \<Longrightarrow> qget q s \<noteq> []) \<Longrightarrow>
   sched_inv R E (fold spin_up qs s) \<and> set (sc_active (fold spin_up qs s)) = set (sc_active s) \<union> set qs \<and>
   sc_queues (fold spin_up qs s) = sc_queues s \<and> sc_procFn (fold spin_up qs s) = sc_procFn s \<and>
   sc_retry (fold spin_up qs s) = sc_retry s \<and> sc_entries (fold spin_up qs s) = sc_entries s \<and>
   sc_queueAlg (fold spin_up qs s) = sc_queueAlg s \<and> sc_settled (fold spin_up qs s) = sc_settled s"
proof (induction qs arbitrary: s)
  case (Cons q qs)
  have a: "sc_active (spin_up q s) = sc_active s @ [q]" using Cons.prems(4) by (intro spin_up_active) simp
  have qg: "qget p (spin_up q s) = qget p s" for p by (simp add: qget_def spin_up_fields)
  have "sched_inv R E (spin_up q s)" using Cons.prems by (intro inv_spin_up) auto
  from Cons.IH [OF this] show ?case using Cons.prems a qg by (auto simp: spin_up_fields)
qed simp

lemma startProcessing_spec:
  assumes "sched_inv R E s"
  shows "sched_inv R E (startProcessingQueues s)" and "all_spun (startProcessingQueues s)"
    and "sc_retry (startProcessingQueues s) = sc_retry s" "sc_queueAlg (startProcessingQueues s) = sc_queueAlg s"
    and "sc_entries (startProcessingQueues s) = sc_entries s" "sc_queues (startProcessingQueues s) = sc_queues s"
    and "sc_procFn (startProcessingQueues s) = sc_procFn s"
proof -
  let ?qs = "filter (\<lambda>q. q \<notin> set (sc_active s) \<and> dget (sc_queues s) q \<noteq> Some []) (dkeys (sc_queues s))"
  have d: "distinct ?qs" using assms by (simp add: sched_inv_def dict_ok_def)
  have ne: "qget q s \<noteq> []" if "q \<in> set ?qs" for q
    using that weak_map_of_SomeI by (fastforce simp: qget_def split: option.splits)
  have mem: "q \<in> set ?qs" if "qget q s \<noteq> []" "q \<notin> set (sc_active s)" for q
    using that by (auto simp: qget_def image_iff split: option.splits dest!: map_of_SomeD intro: bexI [rotated])
  note f = fold_spin_up [OF assms d _ ne, simplified]
  show "sched_inv R E (startProcessingQueues s)" "sc_retry (startProcessingQueues s) = sc_retry s"
    "sc_queueAlg (startProcessingQueues s) = sc_queueAlg s" "sc_entries (startProcessingQueues s) = sc_entries s"
    "sc_queues (startProcessingQueues s) = sc_queues s" "sc_procFn (startProcessingQueues s) = sc_procFn s"
    using f assms by (auto simp: startProcessingQueues_def)
  show "all_spun (startProcessingQueues s)"
  proof (cases "sc_procFn s = None")
    case True
    then show ?thesis by (simp add: startProcessingQueues_def all_spun_def)
  next
    case False
    have "set (sc_active (fold spin_up ?qs s)) = set (sc_active s) \<union> set ?qs"
      "sc_queues (fold spin_up ?qs s) = sc_queues s"
      using fold_spin_up [OF assms d _ ne] by auto
    with mem False show ?thesis by (auto simp: startProcessingQueues_def all_spun_def qget_def)
  qed
qed

lemma inv_enqueue:
  assumes inv: "sched_inv R E s" and q: "queue_name s ev = Some q"
    and s': "s' = s\<lparr>sc_queues := dset q (qget q s @ [length (sc_entries s)]) (sc_queues s),
                    sc_entries := sc_entries s @ [\<lparr>q_event = ev, q_attempts = 0\<rparr>]\<rparr>"
  shows "sched_inv R E s'"
proof -
  let ?i = "length (sc_entries s)"
  have old: "entry_queue s' j = entry_queue s j" if "j < ?i" for j
    using that by (simp add: s' entry_queue_def entry_event_def queue_name_def nth_append)
  have new: "entry_queue s' ?i = Some q"
    using q by (simp add: s' entry_queue_def entry_event_def queue_name_def nth_append)
  have bound: "\<forall>i \<in> fst ` set (sc_settled s) \<union> R. i < ?i" using inv by (simp add: sched_inv_def)
  have "settled_of p s' = settled_of p s" for p
    using bound old unfolding settled_of_def by (intro filter_cong) (simp_all add: s')
  moreover have "queued_under p R s' = queued_under p R s @ (if p = q then [?i] else [])" for p
  proof -
    have "filter (\<lambda>i. i \<notin> R \<and> entry_queue s' i = Some p) [0..<?i] = filter (\<lambda>i. i \<notin> R \<and> entry_queue s i = Some p) [0..<?i]"
      using old by (intro filter_cong) auto
    moreover have "?i \<notin> R" using bound by blast
    ultimately show ?thesis using new by (auto simp: queued_under_def s')
  qed
  moreover have qg: "qget p s' = qget p s @ (if p = q then [?i] else [])" for p
    by (simp add: s' qget_def dict_simps)
  moreover have "peekNextEvent p s = Some j \<Longrightarrow> peekNextEvent p s' = Some j" for p j
    by (auto simp: peek_qget qg split: list.splits)
  moreover have "settled_of p s @ qget p s = queued_under p R s" for p using inv by (simp add: sched_inv_def)
  ultimately show ?thesis
    using inv bound unfolding sched_inv_def by (simp add: s' dict_simps less_Suc_eq)
qed

lemma inv_queueEvent:
  assumes "sched_inv R E s"
  shows "sched_inv R E (snd (queueEvent ev s))"
proof (cases "queue_name s ev")
  case None
  with assms show ?thesis by (simp add: queueEvent_def)
next
  case (Some q)
  have "sched_inv R E (s\<lparr>sc_queues := dset q (qget q s @ [length (sc_entries s)]) (sc_queues s),
                    sc_entries := sc_entries s @ [\<lparr>q_event = ev, q_attempts = 0\<rparr>]\<rparr>)"
    by (rule inv_enqueue [OF assms Some refl])
  from startProcessing_spec(1) [OF this] Some show ?thesis
    by (simp add: queueEvent_def Let_def qget_def [symmetric])
qed

text \<open>The entries an operation takes out of the queues without settling them.\<close>

fun removed_by :: "sched_op \<Rightarrow> scheduler \<Rightarrow> nat set" where
  "removed_by (RemoveEvent ev) s =
     {i. \<exists>q. i \<in> set (qget q s) \<and> i \<notin> set (qget q (snd (removeEventFromQueue ev s)))}"
| "removed_by _ s = {}"

lemma inv_remove:
  assumes inv: "sched_inv R E s"
    and free: "\<forall>i \<in> removed_by (RemoveEvent ev) s. \<forall>t \<in> set (sc_tasks s). task_entry t \<noteq> Some i"
  shows "sched_inv (R \<union> removed_by (RemoveEvent ev) s) E (snd (removeEventFromQueue ev s))"
proof (cases "\<exists>q xs x ys. queue_name s ev = Some q \<and> dget (sc_queues s) q = Some xs \<and>
    remove_first (\<lambda>i. getId (entry_event s i) = getId ev) xs = (Some x, ys)")
  case False
  have triv: "qget p (s\<lparr>sc_queues := dset q xs (sc_queues s)\<rparr>) = qget p s"
    "peekNextEvent p (s\<lparr>sc_queues := dset q xs (sc_queues s)\<rparr>) = peekNextEvent p s"
    if "dget (sc_queues s) q = Some xs" for p q xs
    using that by (auto simp: qget_def peekNextEvent_def dict_simps)
  have "snd (removeEventFromQueue ev s) = s \<or>
    (\<exists>q xs. dget (sc_queues s) q = Some xs \<and> snd (removeEventFromQueue ev s) = s\<lparr>sc_queues := dset q xs (sc_queues s)\<rparr>)"
  proof (cases "queue_name s ev")
    case (Some q)
    show ?thesis
    proof (cases "dget (sc_queues s) q")
      case (Some xs)
      obtain r ys where r: "remove_first (\<lambda>i. getId (entry_event s i) = getId ev) xs = (r, ys)" by fastforce
      with False \<open>queue_name s ev = Some q\<close> Some have "r = None" by (cases r) auto
      with r have "ys = xs" using remove_first_unchanged [of "\<lambda>i. getId (entry_event s i) = getId ev" xs] by simp
      with r \<open>queue_name s ev = Some q\<close> Some show ?thesis
        by (auto simp: removeEventFromQueue_def removeElement_def)
    qed (use Some in \<open>simp add: removeEventFromQueue_def\<close>)
  qed (simp add: removeEventFromQueue_def)
  then show ?thesis
  proof
    assume "snd (removeEventFromQueue ev s) = s"
    then show ?thesis using inv by simp
  next
    assume "\<exists>q xs. dget (sc_queues s) q = Some xs \<and> snd (removeEventFromQueue ev s) = s\<lparr>sc_queues := dset q xs (sc_queues s)\<rparr>"
    then obtain q xs where d: "dget (sc_queues s) q = Some xs"
      and s': "snd (removeEventFromQueue ev s) = s\<lparr>sc_queues := dset q xs (sc_queues s)\<rparr>" by blast
    have "sched_inv R E (s\<lparr>sc_queues := dset q xs (sc_queues s)\<rparr>)"
      using inv triv [OF d] unfolding sched_inv_def settled_of_def queued_under_def entry_queue_def entry_event_def
        queue_name_def by (simp add: dict_simps)
    with s' triv(1) [OF d] show ?thesis by simp
  qed
next
  case True
  then obtain q xs x ys where q: "queue_name s ev = Some q" and d: "dget (sc_queues s) q = Some xs"
    and r: "remove_first (\<lambda>i. getId (entry_event s i) = getId ev) xs = (Some x, ys)" by blast
  let ?s = "s\<lparr>sc_queues := dset q ys (sc_queues s)\<rparr>"
  have s': "snd (removeEventFromQueue ev s) = ?s"
    using q d r by (simp add: removeEventFromQueue_def removeElement_def Let_def)
  have qx: "qget q s = xs" using d by (simp add: qget_def)
  have dis: "distinct xs" using distinct_of_inv [OF inv, of q] qx by simp
  have ys: "ys = filter (\<lambda>z. z \<noteq> x) xs" and x: "x \<in> set xs"
    using remove_first_filter [OF dis r] by simp_all
  have xi: "x < length (sc_entries s)" "entry_queue s x = Some q" "x \<notin> fst ` set (sc_settled s)"
    using inv_entries [OF inv, of x q] x qx by simp_all
  have qg: "qget p ?s = filter (\<lambda>z. z \<noteq> x) (qget p s)" for p
  proof (cases "p = q")
    case True
    then show ?thesis using ys qx by (simp add: qget_def dict_simps)
  next
    case False
    then have "x \<notin> set (qget p s)" using inv_entries(2) [OF inv, of x p] xi(2) by auto
    with False show ?thesis by (simp add: qget_def dict_simps filter_not_eq)
  qed
  have rem: "removed_by (RemoveEvent ev) s = {x}"
    using x qx by (auto simp: s' qg)
  have eqn: "entry_queue ?s j = entry_queue s j" for j
    by (simp add: entry_queue_def entry_event_def queue_name_def)
  have "settled_of p ?s @ qget p ?s = queued_under p (insert x R) ?s" for p
  proof -
    have old: "settled_of p s @ qget p s = queued_under p R s" using inv by (simp add: sched_inv_def)
    have "x \<notin> set (settled_of p s)" using xi(3) by (auto simp: settled_of_def)
    then have "settled_of p ?s = filter (\<lambda>z. z \<noteq> x) (settled_of p s)"
      by (simp add: filter_not_eq) (simp add: settled_of_def eqn)
    moreover have "queued_under p (insert x R) ?s = filter (\<lambda>z. z \<noteq> x) (queued_under p R s)"
      by (simp add: queued_under_def eqn conj_ac) 
    ultimately show ?thesis using old by (metis filter_append qg)
  qed
  moreover have "peekNextEvent (task_queue t) ?s = Some i" if "t \<in> set (sc_tasks s)" "task_entry t = Some i" for t i
  proof -
    have "\<forall>t \<in> set (sc_tasks s). task_entry t \<noteq> Some x" using free unfolding rem by simp
    then have "x \<noteq> i" using that by blast
    moreover have "peekNextEvent (task_queue t) s = Some i" using inv that by (simp add: sched_inv_def)
    ultimately show ?thesis unfolding peek_qget qg by (auto split: list.splits)
  qed
  ultimately show ?thesis
    using inv xi(1) unfolding rem s' sched_inv_def by (simp add: dict_simps)
qed

fun op_ok :: "(json \<Rightarrow> bool) \<Rightarrow> sched_op \<Rightarrow> scheduler \<Rightarrow> bool" where
  "op_ok ok (RemoveEvent ev) s \<longleftrightarrow>
     (\<forall>i \<in> removed_by (RemoveEvent ev) s. \<forall>t \<in> set (sc_tasks s). task_entry t \<noteq> Some i)"
| "op_ok ok (RunTask n r) s \<longleftrightarrow> answer_ok ok r"
| "op_ok ok _ s \<longleftrightarrow> True"

text \<open>
  Schedulers that the operations and turns of the event loop lead to, when the calls fail with errors in
  \<open>ok\<close> only and no event is removed while its call is under way; \<open>R\<close> are the removed entries.
\<close>

inductive sched_reach ::
  "(json \<Rightarrow> bool) \<Rightarrow> (mx_event \<Rightarrow> nat \<Rightarrow> json \<Rightarrow> string + rat) \<Rightarrow> (mx_event \<Rightarrow> string option) \<Rightarrow>
   nat set \<Rightarrow> scheduler \<Rightarrow> bool"
  for ok retry alg where
  start: "sched_reach ok retry alg {} (new_scheduler retry alg)"
| step: "sched_reach ok retry alg R s \<Longrightarrow> op_ok ok p s \<Longrightarrow>
    sched_reach ok retry alg (R \<union> removed_by p s) (sched_exec p s)"

lemma inv_new: "sched_inv {} {} (new_scheduler retry alg)"
  by (simp add: sched_inv_def new_scheduler_def dict_ok_def settled_of_def qget_def queued_under_def)

lemma inv_exec:
  assumes "sched_inv R E s" and "op_ok ok p s"
  shows "\<exists>F. sched_inv (R \<union> removed_by p s) F (sched_exec p s) \<and> (retry_total ok (sc_retry s) \<longrightarrow> F = E)"
proof (cases p)
  case (QueueEvent ev)
  with inv_queueEvent [OF assms(1)] show ?thesis by auto
next
  case (RemoveEvent ev)
  with inv_remove [OF assms(1), of ev] assms(2) show ?thesis by (auto simp del: removed_by.simps(1))
next
  case (SetProcessFunction f)
  have "sched_inv R E (s\<lparr>sc_procFn := Some f\<rparr>)"
    using assms(1) unfolding sched_inv_def settled_of_def queued_under_def entry_queue_def entry_event_def
      queue_name_def qget_def peekNextEvent_def by auto
  from startProcessing_spec(1) [OF this] SetProcessFunction show ?thesis
    by (auto simp: setProcessFunction_def)
next
  case (RunTask n r)
  with inv_run_task [OF assms(1), of n r ok] assms(2) show ?thesis by auto
qed

lemma queue_ops_config:
  "sc_retry (processQueue q s) = sc_retry s" "sc_retry (removeNextEvent q s) = sc_retry s"
  "sc_retry (settle i r s) = sc_retry s" "sc_retry (count_attempt i s) = sc_retry s"
  "sc_procFn (processQueue q s) = sc_procFn s" "sc_procFn (removeNextEvent q s) = sc_procFn s"
  "sc_procFn (settle i r s) = sc_procFn s" "sc_procFn (count_attempt i s) = sc_procFn s"
  by (simp_all add: processQueue_def removeNextEvent_def settle_def count_attempt_def split: option.split)

lemma run_task_config:
  "sc_retry (run_task n r s) = sc_retry s" "sc_procFn (run_task n r s) = sc_procFn s"
  by (simp_all add: run_task_def Let_def on_answer_def on_sent_def on_failed_def queue_ops_config
      split: sched_task.split option.split outcome.split sum.split)

lemma spin_up_fold_config:
  "sc_retry (fold spin_up qs s) = sc_retry s"
  by (induction qs arbitrary: s) (simp_all add: spin_up_fields)

lemma exec_config: "sc_retry (sched_exec p s) = sc_retry s"
  by (cases p) (simp_all add: run_task_config setProcessFunction_def queueEvent_def removeEventFromQueue_def
      startProcessingQueues_def spin_up_fold_config Let_def split: option.split prod.split)

lemma reach_retry: "sched_reach ok retry alg R s \<Longrightarrow> sc_retry s = retry"
  by (induction rule: sched_reach.induct) (simp_all add: exec_config new_scheduler_def)

lemma reach_inv:
  "sched_reach ok retry alg R s \<Longrightarrow> \<exists>E. sched_inv R E s \<and> (retry_total ok retry \<longrightarrow> E = {})"
proof (induction rule: sched_reach.induct)
  case start
  then show ?case using inv_new by blast
next
  case (step R s p)
  then obtain E where E: "sched_inv R E s" "retry_total ok retry \<longrightarrow> E = {}" by blast
  from inv_exec [OF E(1) step.hyps(2)] reach_retry [OF step.hyps(1)] E(2) show ?case by metis
qed

section \<open>Nothing is left behind\<close>

lemma spun_step:
  assumes "all_spun s" and "sc_procFn s' = sc_procFn s"
    and "\<And>q. qget q s' \<noteq> [] \<Longrightarrow> qget q s \<noteq> [] \<and> (q \<in> set (sc_active s) \<longrightarrow> q \<in> set (sc_active s'))"
  shows "all_spun s'"
  using assms by (auto simp: all_spun_def)

lemma spun_processQueue:
  assumes "all_spun s"
  shows "all_spun (processQueue q s)"
proof (rule spun_step [OF assms])
  fix p assume "qget p (processQueue q s) \<noteq> []"
  then have "qget p s \<noteq> []" by (simp add: processQueue_def qget_def split: option.splits)
  then show "qget p s \<noteq> [] \<and> (p \<in> set (sc_active s) \<longrightarrow> p \<in> set (sc_active (processQueue q s)))"
    by (cases "p = q") (auto simp: processQueue_def peek_qget in_set_remove1 split: option.split list.splits)
qed (simp add: queue_ops_config)

lemma spun_smaller:
  "all_spun s \<Longrightarrow> all_spun (settle i r (removeNextEvent q s))" "all_spun s \<Longrightarrow> all_spun (count_attempt i s)"
  "all_spun s \<Longrightarrow> all_spun (drop_task n s)" "all_spun s \<Longrightarrow> all_spun (s\<lparr>sc_tasks := ts\<rparr>)"
  "all_spun s \<Longrightarrow> all_spun (s\<lparr>sc_tasks := ts, sc_calls := cs\<rparr>)"
proof -
  have t: "tl xs \<noteq> [] \<Longrightarrow> xs \<noteq> []" for xs :: "nat list" by auto
  show "all_spun s \<Longrightarrow> all_spun (settle i r (removeNextEvent q s))"
    by (erule spun_step)
      (auto simp: settle_def removeNextEvent_def qget_def dict_simps split: option.splits if_splits)
qed (auto simp: all_spun_def count_attempt_def drop_task_def qget_def)

lemma spun_run_task: "all_spun s \<Longrightarrow> all_spun (run_task n r s)"
proof -
  assume s: "all_spun s"
  have failed: "all_spun (on_failed q i err t)" if "all_spun t" for q i err t
    using that unfolding on_failed_def Let_def
    by (cases "sc_retry t (entry_event (count_attempt i t) i) (q_attempts (sc_entries (count_attempt i t) ! i)) err")
      (simp_all add: spun_smaller spun_processQueue)
  have sent: "all_spun (on_sent q i res t)" if "all_spun t" for q i res t
    using that by (simp add: on_sent_def spun_smaller spun_processQueue)
  have d: "all_spun (drop_task n s)" using s by (rule spun_smaller)
  show ?thesis
  proof (cases "n < length (sc_tasks s)")
    case True
    show ?thesis
    proof (cases "sc_tasks s ! n")
      case (Call q i)
      with True d failed show ?thesis
        by (cases "sc_procFn s") (simp_all add: run_task_def Let_def spun_smaller(5))
    next
      case (Await q i)
      with True d failed sent show ?thesis
        by (cases r) (simp_all add: run_task_def Let_def on_answer_def)
    next
      case (Timer q w)
      with True d spun_processQueue show ?thesis by (simp add: run_task_def Let_def)
    qed
  qed (simp add: run_task_def s)
qed

lemma remove_ops:
  "sc_active (snd (removeEventFromQueue ev s)) = sc_active s"
  "sc_procFn (snd (removeEventFromQueue ev s)) = sc_procFn s"
  "qget q s = [] \<Longrightarrow> qget q (snd (removeEventFromQueue ev s)) = []"
  by (simp_all add: removeEventFromQueue_def removeElement_def qget_def dict_simps
      split: option.split prod.split) (auto split: if_splits option.splits)

lemma spun_exec:
  assumes "sched_inv R E s" and "all_spun s" and "op_ok ok p s"
  shows "all_spun (sched_exec p s)"
proof (cases p)
  case (QueueEvent ev)
  show ?thesis
  proof (cases "queue_name s ev")
    case (Some q)
    from startProcessing_spec(2) [OF inv_enqueue [OF assms(1) Some refl]] Some QueueEvent show ?thesis
      by (simp add: queueEvent_def Let_def qget_def [symmetric])
  qed (use assms QueueEvent in \<open>simp add: queueEvent_def\<close>)
next
  case (RemoveEvent ev)
  let ?s = "snd (removeEventFromQueue ev s)"
  have "qget q s \<noteq> []" if "qget q ?s \<noteq> []" for q
    using that remove_ops(3) [of q s ev] by (cases "qget q s = []") simp_all
  moreover have "sc_active ?s = sc_active s" "sc_procFn ?s = sc_procFn s" by (rule remove_ops)+
  ultimately show ?thesis
    using RemoveEvent assms(2) by (auto simp: all_spun_def)
next
  case (SetProcessFunction f)
  have "sched_inv R E (s\<lparr>sc_procFn := Some f\<rparr>)"
    using assms(1) unfolding sched_inv_def settled_of_def queued_under_def entry_queue_def entry_event_def
      queue_name_def qget_def peekNextEvent_def by auto
  from startProcessing_spec(2) [OF this] SetProcessFunction show ?thesis by (simp add: setProcessFunction_def)
next
  case (RunTask n r)
  with spun_run_task [OF assms(2)] show ?thesis by simp
qed

lemma reach_spun: "sched_reach ok retry alg R s \<Longrightarrow> all_spun s"
proof (induction rule: sched_reach.induct)
  case start
  then show ?case by (simp add: all_spun_def new_scheduler_def)
next
  case (step R s p)
  then show ?case using reach_inv [OF step.hyps(1)] spun_exec by blast
qed

section \<open>Draining a queue\<close>

definition task_of :: "string \<Rightarrow> scheduler \<Rightarrow> sched_task option" where
  "task_of q s = List.find (\<lambda>t. task_queue t = q) (sc_tasks s)"

fun task_index :: "string \<Rightarrow> sched_task list \<Rightarrow> nat option" where
  "task_index q [] = None"
| "task_index q (t # ts) = (if task_queue t = q then Some 0 else map_option Suc (task_index q ts))"

definition next_answer :: "(nat \<Rightarrow> nat \<Rightarrow> outcome) \<Rightarrow> sched_task \<Rightarrow> scheduler \<Rightarrow> outcome" where
  "next_answer answers t s =
     (case task_entry t of Some i \<Rightarrow> answers i (q_attempts (sc_entries s ! i)) | None \<Rightarrow> Resolved JNull)"

text \<open>The event loop when only the tasks of one queue run; \<open>answers\<close> gives the answer of each attempt.\<close>

fun drive :: "nat \<Rightarrow> (nat \<Rightarrow> nat \<Rightarrow> outcome) \<Rightarrow> string \<Rightarrow> scheduler \<Rightarrow> scheduler" where
  "drive 0 answers q s = s"
| "drive (Suc k) answers q s =
     (case task_index q (sc_tasks s) of
        None \<Rightarrow> s
      | Some n \<Rightarrow> drive k answers q (run_task n (next_answer answers (sc_tasks s ! n) s) s))"

lemma task_index_Some:
  "task_index q ts = Some n \<Longrightarrow> n < length ts \<and> task_queue (ts ! n) = q"
  by (induction ts arbitrary: n) (auto split: if_splits)

lemma task_index_None: "task_index q ts = None \<longleftrightarrow> q \<notin> set (map task_queue ts)"
  by (induction ts) auto

lemma find_sole:
  "distinct (map task_queue ts) \<Longrightarrow> n < length ts \<Longrightarrow>
   List.find (\<lambda>t. task_queue t = task_queue (ts ! n)) ts = Some (ts ! n)"
proof (induction ts arbitrary: n)
  case (Cons t ts)
  then show ?case by (cases n) (auto simp: image_iff)
qed simp

lemma find_append_None: "List.find P (xs @ ys) = (case List.find P xs of Some x \<Rightarrow> Some x | None \<Rightarrow> List.find P ys)"
  by (induction xs) auto

fun phase :: "sched_task \<Rightarrow> nat \<Rightarrow> nat" where
  "phase (Call q i) k = 3 * k + 2"
| "phase (Await q i) k = 3 * k + 1"
| "phase (Timer q w) k = 3 * k + 3"

text \<open>The turns a queue still needs when every entry gives up after \<open>L + 1\<close> failures.\<close>

definition turns_left :: "nat \<Rightarrow> string \<Rightarrow> scheduler \<Rightarrow> nat" where
  "turns_left L q s =
     (case task_of q s of
        None \<Rightarrow> 0
      | Some t \<Rightarrow> (case qget q s of
          [] \<Rightarrow> 1
        | i # xs \<Rightarrow> phase t (L - q_attempts (sc_entries s ! i)) + (3 * L + 3) * length xs))"

lemma turns_left_bound: "turns_left L q s \<le> (3 * L + 3) * length (qget q s) + 1"
proof (cases "task_of q s")
  case (Some t)
  have ph: "phase t (L - a) \<le> 3 * L + 3" for a by (cases t) auto
  show ?thesis
  proof (cases "qget q s")
    case (Cons i xs)
    then show ?thesis using Some ph [of "q_attempts (sc_entries s ! i)"] by (simp add: turns_left_def)
  qed (use Some in \<open>simp add: turns_left_def\<close>)
qed (simp add: turns_left_def)

lemma inv_head:
  assumes "sched_inv R E s" "t \<in> set (sc_tasks s)" "task_entry t = Some i"
  shows "\<exists>xs. qget (task_queue t) s = i # xs"
proof -
  have "peekNextEvent (task_queue t) s = Some i" using assms unfolding sched_inv_def by blast
  then show ?thesis by (auto simp: peek_qget split: list.splits)
qed

lemma task_of_processQueue:
  "task_of q s = None \<Longrightarrow>
   task_of q (processQueue q s) = (case qget q s of [] \<Rightarrow> None | i # _ \<Rightarrow> Some (Call q i))"
  by (simp add: task_of_def processQueue_def peek_qget find_append_None split: list.split)

lemma qget_processQueue: "qget p (processQueue q s) = qget p s" "sc_entries (processQueue q s) = sc_entries s"
  by (simp_all add: processQueue_def qget_def split: option.split)

lemma turns_left_processQueue:
  assumes "task_of q s = None"
  shows "turns_left L q (processQueue q s) \<le> (3 * L + 3) * length (qget q s)"
proof (cases "qget q s")
  case (Cons i xs)
  then show ?thesis using assms
    by (simp add: turns_left_def task_of_processQueue qget_processQueue)
qed (use assms in \<open>simp add: turns_left_def task_of_processQueue\<close>)

locale retry_algorithm =
  fixes retry :: "mx_event \<Rightarrow> nat \<Rightarrow> json \<Rightarrow> string + rat"
    and ok :: "json \<Rightarrow> bool"
    and limit :: nat
  assumes answers: "ok err \<Longrightarrow> \<exists>w. retry ev n err = Inr w"
    and gives_up: "ok err \<Longrightarrow> limit < n \<Longrightarrow> retry ev n err = Inr (- 1)"
    and type_error_ok: "ok type_error"
begin

lemma total: "retry_total ok retry"
  using answers type_error_ok by (auto simp: retry_total_def)

lemma reach_whole: "sched_reach ok retry alg R s \<Longrightarrow> sched_inv R {} s"
  using reach_inv total by blast

lemma turn:
  assumes inv: "sched_inv R {} s" and r: "sc_retry s = retry" and f: "sc_procFn s \<noteq> None"
    and n: "task_index q (sc_tasks s) = Some n" and ans: "answer_ok ok r"
  shows "turns_left limit q (run_task n r s) < turns_left limit q s"
proof -
  let ?t = "sc_tasks s ! n" and ?s = "drop_task n s"
  have nl: "n < length (sc_tasks s)" "task_queue ?t = q" using task_index_Some [OF n] by simp_all
  have tq: "task_of q s = Some ?t"
    using find_sole [of "sc_tasks s" n] inv nl by (simp add: task_of_def sched_inv_def)
  have d: "sched_inv R {q} ?s" using inv_drop(1) [OF inv nl(1)] nl(2) by simp
  then have none: "task_of q ?s = None" by (auto simp: sched_inv_def task_of_def find_None_iff)
  have cong: "task_of q s' = None" if "sc_tasks s' = sc_tasks ?s" for s'
    using none that by (simp add: task_of_def)
  show ?thesis
  proof (cases ?t)
    case (Timer p w)
    then have run: "run_task n r s = processQueue q ?s" using nl by (simp add: run_task_def Let_def)
    show ?thesis
      using none tq Timer unfolding run
      by (simp add: turns_left_def task_of_processQueue qget_processQueue split: list.split)
  next
    case (Call p i)
    then have p: "p = q" using nl by simp
    obtain xs where h: "qget q s = i # xs" using inv_head [OF inv nth_mem [OF nl(1)], of i] nl(2) Call by auto
    obtain g where g: "sc_procFn s = Some g" using f by blast
    have run: "run_task n r s = ?s\<lparr>sc_tasks := sc_tasks ?s @ [Await q i], sc_calls := sc_calls ?s @ [(g, i)]\<rparr>"
      using nl Call p g by (simp add: run_task_def Let_def)
    have "task_of q (run_task n r s) = Some (Await q i)"
      using none unfolding run by (simp add: task_of_def find_append_None)
    moreover have "qget q (run_task n r s) = i # xs" "sc_entries (run_task n r s) = sc_entries s"
      using h unfolding run by (simp_all add: qget_def drop_task_def)
    ultimately show ?thesis using tq Call h by (simp add: turns_left_def)
  next
    case (Await p i)
    then have p: "p = q" using nl by simp
    obtain xs where h: "qget q s = i # xs" using inv_head [OF inv nth_mem [OF nl(1)], of i] nl(2) Await by auto
    have old: "turns_left limit q s = 3 * (limit - q_attempts (sc_entries s ! i)) + 1 + (3 * limit + 3) * length xs"
      using tq Await h by (simp add: turns_left_def)
    have run: "run_task n r s = on_answer q i r ?s" using nl Await p by (simp add: run_task_def Let_def)
    have settled: "turns_left limit q (processQueue q (settle i v (removeNextEvent q s'))) < turns_left limit q s"
      if "sc_tasks s' = sc_tasks ?s" "qget q s' = i # xs" for s' v
    proof -
      let ?u = "settle i v (removeNextEvent q s')"
      have "sc_tasks ?u = sc_tasks s'" "qget q ?u = xs"
        using that(2) qget_removeNext [of q q s']
        by (auto simp: settle_def removeNextEvent_def qget_def split: option.splits)
      then show ?thesis using turns_left_processQueue [OF cong, of ?u limit] that old by simp
    qed
    show ?thesis
    proof (cases r)
      case (Resolved res)
      with settled [of ?s] h run show ?thesis by (simp add: on_answer_def on_sent_def)
    next
      case (Rejected err)
      let ?c = "count_attempt i ?s" and ?a = "q_attempts (sc_entries s ! i)"
      have i: "i < length (sc_entries s)" using inv_entries(1) [OF inv, of i q] h by simp
      have c: "sc_tasks ?c = sc_tasks ?s" "qget q ?c = i # xs" "sc_retry ?c = retry"
          "q_attempts (sc_entries ?c ! i) = Suc ?a"
        using h i r by (simp_all add: qget_count_attempt) (simp_all add: count_attempt_def)
      have ok: "ok err" using ans Rejected by (simp add: answer_ok_def)
      then obtain w where w: "retry (entry_event ?c i) (Suc ?a) err = Inr w" using answers by blast
      show ?thesis
      proof (cases "w = -1")
        case True
        with settled [OF c(1,2)] run Rejected w c show ?thesis
          by (simp add: on_answer_def on_failed_def queue_ops_config)
      next
        case False
        then have "Suc ?a \<le> limit" using gives_up [OF ok, of "Suc ?a" "entry_event ?c i"] w by (cases "limit < Suc ?a") auto
        moreover have res: "run_task n r s = ?c\<lparr>sc_tasks := sc_tasks ?c @ [Timer q w]\<rparr>"
          using run Rejected w c False by (simp add: on_answer_def on_failed_def Let_def queue_ops_config)
        moreover have "task_of q (run_task n r s) = Some (Timer q w)"
          using cong [OF c(1)] unfolding res by (simp add: task_of_def find_append_None)
        moreover have "qget q (run_task n r s) = i # xs" using c(2) unfolding res by (simp add: qget_def)
        ultimately show ?thesis using c(4) old by (simp add: turns_left_def)
      qed
    qed
  qed
qed

lemma inv_turn:
  assumes "sched_inv R {} s" "sc_retry s = retry" "answer_ok ok r"
  shows "sched_inv R {} (run_task n r s)"
  using inv_run_task [OF assms(1), of n r ok] total assms(2,3) by auto

lemma drained:
  assumes "\<And>i n. answer_ok ok (answers i n)"
  shows "sched_inv R {} s \<Longrightarrow> all_spun s \<Longrightarrow> sc_retry s = retry \<Longrightarrow> sc_procFn s \<noteq> None \<Longrightarrow>
    turns_left limit q s \<le> k \<Longrightarrow>
    sched_inv R {} (drive k answers q s) \<and> all_spun (drive k answers q s) \<and> qget q (drive k answers q s) = []"
proof (induction k arbitrary: s)
  case 0
  have "qget q s = []"
  proof (rule ccontr)
    assume ne: "qget q s \<noteq> []"
    then have "q \<in> set (sc_active s)" using 0 by (simp add: all_spun_def)
    then have "q \<in> set (map task_queue (sc_tasks s))" using 0 by (simp add: sched_inv_def)
    then have "task_of q s \<noteq> None" by (auto simp: task_of_def find_None_iff)
    moreover have pos: "phase t m \<noteq> 0" for t m by (cases t) auto
    ultimately show False using 0(5) ne by (auto simp: turns_left_def pos split: list.splits)
  qed
  with 0 show ?case by simp
next
  case (Suc k)
  show ?case
  proof (cases "task_index q (sc_tasks s)")
    case None
    then have "q \<notin> set (sc_active s)" using Suc.prems(1) by (simp add: sched_inv_def task_index_None)
    with None Suc.prems show ?thesis by (auto simp: all_spun_def)
  next
    case (Some n)
    let ?r = "next_answer answers (sc_tasks s ! n) s"
    have r: "answer_ok ok ?r"
      using assms by (simp add: next_answer_def answer_ok_def split: option.split)
    have "turns_left limit q (run_task n ?r s) \<le> k"
      using turn [OF Suc.prems(1,3,4) Some r] Suc.prems(5) by simp
    from Suc.IH [OF inv_turn [OF Suc.prems(1,3) r] spun_run_task [OF Suc.prems(2)] _ _ this] Suc.prems(3,4) Some
    show ?thesis by (simp add: run_task_config)
  qed
qed

end

definition no_rate_limit :: "json \<Rightarrow> bool" where
  "no_rate_limit err \<longleftrightarrow> \<not> js_nullish err \<and> jget err ''name'' \<noteq> JStr ''M_LIMIT_EXCEEDED''"

interpretation backoff: retry_algorithm RETRY_BACKOFF_RATELIMIT no_rate_limit 4
  by unfold_locales (auto simp: RETRY_BACKOFF_RATELIMIT_def no_rate_limit_def Let_def js_nullish_def)

lemma config_events:
  "sc_queueAlg (processQueue q s) = sc_queueAlg s" "sc_queueAlg (removeNextEvent q s) = sc_queueAlg s"
  "sc_queueAlg (settle i r s) = sc_queueAlg s" "sc_queueAlg (count_attempt i s) = sc_queueAlg s"
  "sc_entries (processQueue q s) = sc_entries s" "sc_entries (removeNextEvent q s) = sc_entries s"
  "sc_entries (settle i r s) = sc_entries s"
  by (simp_all add: processQueue_def removeNextEvent_def settle_def count_attempt_def split: option.split)

lemma answer_events:
  "sc_queueAlg (on_answer q i r s) = sc_queueAlg s \<and> map q_event (sc_entries (on_answer q i r s)) = map q_event (sc_entries s)"
  "sc_queueAlg (on_failed q i err s) = sc_queueAlg s \<and> map q_event (sc_entries (on_failed q i err s)) = map q_event (sc_entries s)"
  by (simp_all add: on_answer_def on_sent_def on_failed_def Let_def config_events count_attempt_events
      split: outcome.split sum.split)

lemma run_task_events:
  "sc_queueAlg (run_task n r s) = sc_queueAlg s \<and> map q_event (sc_entries (run_task n r s)) = map q_event (sc_entries s)"
proof (cases "n < length (sc_tasks s)")
  case True
  then show ?thesis
    by (cases "sc_tasks s ! n"; cases "sc_procFn s")
      (simp_all add: run_task_def Let_def answer_events config_events drop_task_def)
qed (simp add: run_task_def)

lemma drive_events:
  "sc_queueAlg (drive k answers q s) = sc_queueAlg s \<and> map q_event (sc_entries (drive k answers q s)) = map q_event (sc_entries s)"
proof (induction k arbitrary: s)
  case (Suc k)
  then show ?case by (cases "task_index q (sc_tasks s)") (simp_all add: run_task_events)
qed simp

text \<open>One queue for everything, two queued events, the process function set last.\<close>

definition sample_scheduler :: scheduler where
  "sample_scheduler =
     sched_exec (SetProcessFunction 0)
       (sched_exec (QueueEvent sample_redaction)
         (sched_exec (QueueEvent sample_message) (new_scheduler RETRY_BACKOFF_RATELIMIT (\<lambda>_. Some ''q''))))"

lemma sample_scheduler_reach:
  "sched_reach no_rate_limit RETRY_BACKOFF_RATELIMIT (\<lambda>_. Some ''q'') {} sample_scheduler"
proof -
  let ?reach = "sched_reach no_rate_limit RETRY_BACKOFF_RATELIMIT (\<lambda>_. Some ''q'')"
  have step: "?reach {} s \<Longrightarrow> ?reach {} (sched_exec (QueueEvent ev) s)"
    "?reach {} s \<Longrightarrow> ?reach {} (sched_exec (SetProcessFunction n) s)" for s ev n
    using sched_reach.step [of no_rate_limit RETRY_BACKOFF_RATELIMIT "\<lambda>_. Some ''q''" "{}" s "QueueEvent ev"]
      sched_reach.step [of no_rate_limit RETRY_BACKOFF_RATELIMIT "\<lambda>_. Some ''q''" "{}" s "SetProcessFunction n"]
    by simp_all
  show ?thesis unfolding sample_scheduler_def by (intro step sched_reach.start)
qed

lemma sample_scheduler_eval:
  "sc_queues sample_scheduler = [(''q'', [0, 1])]" "sc_tasks sample_scheduler = [Call ''q'' 0]"
  "sc_procFn sample_scheduler = Some 0" "sc_settled sample_scheduler = []" "sc_active sample_scheduler = [''q'']"
  "sc_entries sample_scheduler = [\<lparr>q_event = sample_message, q_attempts = 0\<rparr>, \<lparr>q_event = sample_redaction, q_attempts = 0\<rparr>]"
  "sc_queueAlg sample_scheduler = (\<lambda>_. Some ''q'')" "sc_calls sample_scheduler = []"
  by (simp_all add: sample_scheduler_def queueEvent_def setProcessFunction_def startProcessingQueues_def
      new_scheduler_def queue_name_def Let_def spin_up_def processQueue_def peekNextEvent_def)

lemma sample_queued: "queued_under ''q'' {} sample_scheduler = [0, 1]"
  by (simp add: queued_under_def entry_queue_def queue_name_def sample_scheduler_eval upt_rec)




text \<open>Both events fail once and are then accepted.\<close>

definition fail_once :: "nat \<Rightarrow> nat \<Rightarrow> outcome" where
  "fail_once i n = (if n = 0 then Rejected type_error else Resolved JNull)"


text \<open>
  Outside the guard of the theorems above: \<open>removeEventFromQueue\<close> may take out the event whose call is
  under way. The answer of that call then shifts the next event out of the queue, which is never sent and whose
  promise is never settled.
\<close>

lemma remove_in_flight_drops_next:
  assumes "s = run_task 0 (Resolved JNull) (snd (removeEventFromQueue sample_message (run_task 0 (Resolved JNull) sample_scheduler)))"
  shows "qget ''q'' s = []" and "sc_tasks s = []" and "1 \<notin> fst ` set (sc_settled s)" and "1 \<notin> snd ` set (sc_calls s)"
proof -
  have q: "queue_name t ev = Some ''q''" if "sc_queueAlg t = (\<lambda>_. Some ''q'')" for t ev
    using that by (simp add: queue_name_def)
  show "qget ''q'' s = []" "sc_tasks s = []" "1 \<notin> fst ` set (sc_settled s)" "1 \<notin> snd ` set (sc_calls s)"
    unfolding assms
    by (simp_all add: run_task_def Let_def drop_task_def sample_scheduler_eval removeEventFromQueue_def q
        removeElement_def entry_event_def on_answer_def on_sent_def removeNextEvent_def settle_def processQueue_def
        peekNextEvent_def qget_def)
qed

end
