(* ===== verification/Dict2.thy ===== *)
theory Dict2
  imports Prelude
begin

text \<open>
  Dictionaries of dictionaries (state events by type and state key, receipts by type and user) and
  further facts on dictionaries that several components use.
\<close>

section \<open>Two-level dictionaries\<close>

type_synonym ('j, 'k, 'v) dict2 = "('j, ('k, 'v) dict) dict"

definition put2 :: "'j \<Rightarrow> 'k \<Rightarrow> 'v \<Rightarrow> ('j, 'k, 'v) dict2 \<Rightarrow> ('j, 'k, 'v) dict2" where
  "put2 j k v m = dset j (dset k v (case dget m j of Some d \<Rightarrow> d | None \<Rightarrow> [])) m"

definition get2 :: "('j, 'k, 'v) dict2 \<Rightarrow> 'j \<Rightarrow> 'k \<Rightarrow> 'v option" where
  "get2 m j k = (case dget m j of Some d \<Rightarrow> dget d k | None \<Rightarrow> None)"

definition dict2_ok :: "('j, 'k, 'v) dict2 \<Rightarrow> bool" where
  "dict2_ok m \<longleftrightarrow> dict_ok m \<and> (\<forall>(j, d) \<in> set m. dict_ok d)"

definition items2 :: "('j, 'k, 'v) dict2 \<Rightarrow> ('j \<times> 'k \<times> 'v) list" where
  "items2 m = concat (map (\<lambda>(j, d). map (\<lambda>(k, v). (j, k, v)) d) m)"

lemma get2_put2 [dict_simps]: "get2 (put2 j k v m) i l = (if i = j \<and> l = k then Some v else get2 m i l)"
  by (auto simp: get2_def put2_def dict_simps split: option.splits)

lemma dict2_ok_put2 [dict_simps]:
  assumes "dict2_ok m"
  shows "dict2_ok (put2 j k v m)"
proof -
  have "dict_ok d" if "dget m j = Some d" for d
    using assms map_of_SomeD [OF that] by (auto simp: dict2_ok_def)
  then have "dict_ok (dset k v (case dget m j of Some d \<Rightarrow> d | None \<Rightarrow> []))"
    by (intro dict_ok_dset) (auto simp: dict_ok_def split: option.split)
  moreover have "set (dset j x m) \<subseteq> insert (j, x) (set m)" for x
    by (induction m) auto
  ultimately show ?thesis
    using assms by (fastforce simp: dict2_ok_def put2_def dict_laws)
qed

lemma items2_get2:
  assumes "dict2_ok m"
  shows "(j, k, v) \<in> set (items2 m) \<longleftrightarrow> get2 m j k = Some v"
proof
  assume "(j, k, v) \<in> set (items2 m)"
  then obtain d where d: "(j, d) \<in> set m" "(k, v) \<in> set d" by (auto simp: items2_def)
  with assms have "dget m j = Some d" "dget d k = Some v"
    by (auto simp: dict2_ok_def dict_ok_def)
  then show "get2 m j k = Some v" by (simp add: get2_def)
next
  assume "get2 m j k = Some v"
  then show "(j, k, v) \<in> set (items2 m)"
    by (fastforce simp: get2_def items2_def dest: map_of_SomeD split: option.splits)
qed

lemma get2_Nil: "get2 [] j k = None"
  by (simp add: get2_def)

lemma set_dset: "set (dset k v d) \<subseteq> insert (k, v) (set d)"
  by (induction d) auto

lemma dset_twice: "dset k v (dset k w d) = dset k v d"
  by (induction d) auto

lemma map_of_functional:
  assumes "\<And>u v. (u, v) \<in> set items \<longleftrightarrow> m u = Some v"
  shows "map_of items = m"
proof
  fix u
  show "map_of items u = m u"
  proof (cases "m u")
    case None
    then have "u \<notin> fst ` set items" using assms by force
    then show ?thesis using None by (simp add: map_of_eq_None_iff)
  next
    case (Some v)
    then have "u \<in> fst ` set items" using assms by force
    then obtain w where "map_of items u = Some w" by (cases "map_of items u") (auto simp: map_of_eq_None_iff)
    with map_of_SomeD [OF this] assms Some show ?thesis by auto
  qed
qed

end
