(* ===== verification/SyncAccumulator.thy ===== *)
theory SyncAccumulator
  imports Json Dict2
begin

text \<open>
  \<^verbatim>\<open>src/sync-accumulator.ts\<close>: the class \<open>SyncAccumulator\<close>, which folds the responses of
  \<open>/sync\<close> into one, and \<open>getJSON\<close>, which renders what it holds as an initial response.
  Events are JSON objects; the fields of a response that the code tests for presence are options. Responses are taken
  to have the declared types: a field of another type reads as absent.
  \<open>Date.now()\<close> is the argument \<open>now\<close>.
\<close>

section \<open>State\<close>

text \<open>The dictionary key of a state event; \<open>None\<close> when \<open>setState\<close> ignores the event.\<close>

definition state_id :: "json \<Rightarrow> (string \<times> string) option" where
  "state_id e =
     (case (as_str (jget e ''type''), as_str (jget e ''state_key'')) of
        (Some t, Some k) \<Rightarrow> if t = [] then None else Some (t, k)
      | _ \<Rightarrow> None)"

definition setState :: "json \<Rightarrow> (string, string, json) dict2 \<Rightarrow> (string, string, json) dict2" where
  "setState e eventMap = (case state_id e of None \<Rightarrow> eventMap | Some (t, k) \<Rightarrow> put2 t k e eventMap)"

record joined_room =
  jr_currentState :: "(string, string, json) dict2"
  jr_timeline :: "(json \<times> string option) list"
  jr_summary :: json
  jr_accountData :: "(string, json) dict"
  jr_unread :: json
  jr_receipts :: "(string, json \<times> string) dict"

definition new_joined_room :: joined_room where
  "new_joined_room =
     \<lparr>jr_currentState = [], jr_timeline = [], jr_summary = empty_obj, jr_accountData = [],
      jr_unread = empty_obj, jr_receipts = []\<rparr>"

record timeline_data =
  td_events :: "json list option"
  td_limited :: bool
  td_prev_batch :: "string option"

record join_data =
  jd_account_data :: "json list option"
  jd_unread :: "json option"
  jd_summary :: "json option"
  jd_ephemeral :: "json list option"
  jd_state :: "json list option"
  jd_timeline :: "timeline_data option"

text \<open>An invited room is its stripped state; \<open>None\<close> when the response has none.\<close>

record sync_rooms =
  sr_invite :: "(string, json list option) dict"
  sr_join :: "(string, join_data) dict"
  sr_leave :: "string list"

datatype category = Invite | Leave | Join

record sync_response =
  sy_next_batch :: "string option"
  sy_rooms :: "sync_rooms option"
  sy_account_data :: "json list option"
  sy_groups :: "(category \<Rightarrow> (string, json) dict) option"

record accumulator =
  sa_max :: nat
  sa_accountData :: "(string, json) dict"
  sa_inviteRooms :: "(string, json list) dict"
  sa_joinRooms :: "(string, joined_room) dict"
  sa_nextBatch :: "string option"
  sa_groups :: "category \<Rightarrow> (string, json) dict"

definition new_accumulator :: "nat option \<Rightarrow> accumulator" where
  "new_accumulator maxEntries =
     \<lparr>sa_max = (case maxEntries of Some n \<Rightarrow> (if n = 0 then 50 else n) | None \<Rightarrow> 50),
      sa_accountData = [], sa_inviteRooms = [], sa_joinRooms = [], sa_nextBatch = None,
      sa_groups = (\<lambda>_. [])\<rparr>"

section \<open>Accumulating\<close>

text \<open>\<open>accountData[e.type] = e\<close> for each event.\<close>

definition clobber_by_type :: "json list \<Rightarrow> (string, json) dict \<Rightarrow> (string, json) dict" where
  "clobber_by_type es d =
     fold (\<lambda>e d. case as_str (jget e ''type'') of Some t \<Rightarrow> dset t e d | None \<Rightarrow> d) es d"

definition accumulateAccountData :: "sync_response \<Rightarrow> accumulator \<Rightarrow> accumulator" where
  "accumulateAccountData r a =
     (case sy_account_data r of
        None \<Rightarrow> a
      | Some es \<Rightarrow> a\<lparr>sa_accountData := clobber_by_type es (sa_accountData a)\<rparr>)"

text \<open>Every entry of the same type and state key is replaced; without one the event is appended.\<close>

definition merge_invite_event :: "json list \<Rightarrow> json \<Rightarrow> json list" where
  "merge_invite_event cur e =
     (let same = (\<lambda>c. jget c ''type'' = jget e ''type'' \<and>
                      (jget c ''state_key'' = jget e ''state_key'' \<or>
                       js_nullish (jget c ''state_key'') \<and> js_nullish (jget e ''state_key'')))
      in if \<exists>c \<in> set cur. same c then map (\<lambda>c. if same c then e else c) cur else cur @ [e])"

definition accumulateInviteState :: "string \<Rightarrow> json list option \<Rightarrow> accumulator \<Rightarrow> accumulator" where
  "accumulateInviteState roomId data a =
     (case data of
        None \<Rightarrow> a
      | Some es \<Rightarrow>
          let cur = (case dget (sa_inviteRooms a) roomId of
                       None \<Rightarrow> es
                     | Some old \<Rightarrow> foldl merge_invite_event old es)
          in a\<lparr>sa_inviteRooms := dset roomId cur (sa_inviteRooms a)\<rparr>)"

definition summary_keys :: "string list" where
  "summary_keys = [''m.heroes'', ''m.joined_member_count'', ''m.invited_member_count'']"

definition merge_summary :: "json \<Rightarrow> json \<Rightarrow> json" where
  "merge_summary sm acc = fold (\<lambda>k acc. set_prop k (js_or (jget sm k) (jget acc k)) acc) summary_keys acc"

text \<open>Receipt events are keyed by event; they are stored by user.\<close>

definition receipt_items :: "json \<Rightarrow> (string \<times> json \<times> string) list" where
  "receipt_items content =
     concat (map (\<lambda>(eventId, v). map (\<lambda>(userId, d). (userId, d, eventId)) (entries (jget v ''m.read'')))
       (entries content))"

definition accumulate_ephemeral ::
  "json list \<Rightarrow> (string, json \<times> string) dict \<Rightarrow> (string, json \<times> string) dict" where
  "accumulate_ephemeral es rs =
     fold (\<lambda>e rs.
       if jget e ''type'' \<noteq> JStr ''m.receipt'' \<or> \<not> truthy (jget e ''content'') then rs
       else fold (\<lambda>(userId, v). dset userId v) (receipt_items (jget e ''content'')) rs) es rs"

definition object_copy :: "json \<Rightarrow> json" where
  "object_copy j = JObj (entries j)"

definition copy_event :: "json \<Rightarrow> json" where
  "copy_event e =
     (if jget e ''unsigned'' \<noteq> JUndef
      then set_prop ''unsigned'' (object_copy (jget e ''unsigned'')) (object_copy e) else object_copy e)"

text \<open>The stored form of a timeline event: its age becomes a local time stamp.\<close>

definition stamp_event :: "bool \<Rightarrow> rat \<Rightarrow> json \<Rightarrow> json" where
  "stamp_event fromDatabase now e =
     (if fromDatabase then e
      else
        let age = (if truthy (jget e ''unsigned'') then jget (jget e ''unsigned'') ''age'' else jget e ''age'')
        in case as_num age of
             Some n \<Rightarrow> set_prop ''_localTs'' (JNum (now - n)) (copy_event e)
           | None \<Rightarrow> copy_event e)"

definition truthy_str :: "string option \<Rightarrow> bool" where
  "truthy_str t \<longleftrightarrow> t \<noteq> None \<and> t \<noteq> Some []"

text \<open>Cut the timeline at the first event with a token among its last \<open>mx\<close> ones, if it is too long and there is one.\<close>

definition prune_timeline :: "nat \<Rightarrow> (json \<times> string option) list \<Rightarrow> (json \<times> string option) list" where
  "prune_timeline mx tml =
     (if mx < length tml
      then let kept = dropWhile (\<lambda>(e, tok). \<not> truthy_str tok) (drop (length tml - mx) tml)
           in if kept = [] then tml else kept
      else tml)"

definition with_tokens :: "string option \<Rightarrow> json list \<Rightarrow> (json \<times> string option) list" where
  "with_tokens prev_batch es = zip es (prev_batch # replicate (length es) None)"

text \<open>\<open>if (x) ...\<close> on an optional part of the response.\<close>

definition if_present :: "'a option \<Rightarrow> ('a \<Rightarrow> 'r \<Rightarrow> 'r) \<Rightarrow> 'r \<Rightarrow> 'r" where
  "if_present part f r = (case part of Some x \<Rightarrow> f x r | None \<Rightarrow> r)"

definition add_timeline :: "bool \<Rightarrow> rat \<Rightarrow> timeline_data \<Rightarrow> joined_room \<Rightarrow> joined_room" where
  "add_timeline fromDatabase now td = if_present (td_events td) (\<lambda>es r.
     r\<lparr>jr_currentState := fold setState es (jr_currentState r),
       jr_timeline := jr_timeline r @ with_tokens (td_prev_batch td) (map (stamp_event fromDatabase now) es)\<rparr>)"

definition accumulateJoinState ::
  "nat \<Rightarrow> rat \<Rightarrow> bool \<Rightarrow> join_data \<Rightarrow> joined_room \<Rightarrow> joined_room" where
  "accumulateJoinState mx now fromDatabase data r0 =
     (let r1 = if_present (jd_account_data data) (\<lambda>es r. r\<lparr>jr_accountData := clobber_by_type es (jr_accountData r)\<rparr>) r0;
          r2 = if_present (jd_unread data) (\<lambda>u r. r\<lparr>jr_unread := u\<rparr>) r1;
          r3 = if_present (jd_summary data) (\<lambda>sm r. r\<lparr>jr_summary := merge_summary sm (jr_summary r)\<rparr>) r2;
          r4 = if_present (jd_ephemeral data) (\<lambda>es r. r\<lparr>jr_receipts := accumulate_ephemeral es (jr_receipts r)\<rparr>) r3;
          r5 = if_present (jd_timeline data) (\<lambda>td r. if td_limited td then r\<lparr>jr_timeline := []\<rparr> else r) r4;
          r6 = if_present (jd_state data) (\<lambda>es r. r\<lparr>jr_currentState := fold setState es (jr_currentState r)\<rparr>) r5;
          r7 = if_present (jd_timeline data) (add_timeline fromDatabase now) r6
      in r7\<lparr>jr_timeline := prune_timeline mx (jr_timeline r7)\<rparr>)"

definition accumulate_invite :: "string \<times> json list option \<Rightarrow> accumulator \<Rightarrow> accumulator" where
  "accumulate_invite = (\<lambda>(roomId, data). accumulateInviteState roomId data)"

definition accumulate_join :: "rat \<Rightarrow> bool \<Rightarrow> string \<times> join_data \<Rightarrow> accumulator \<Rightarrow> accumulator" where
  "accumulate_join now fromDatabase = (\<lambda>(roomId, data) a.
     let r = (case dget (sa_joinRooms a) roomId of Some r \<Rightarrow> r | None \<Rightarrow> new_joined_room)
     in a\<lparr>sa_inviteRooms := ddel roomId (sa_inviteRooms a),
          sa_joinRooms := dset roomId (accumulateJoinState (sa_max a) now fromDatabase data r) (sa_joinRooms a)\<rparr>)"

definition accumulate_leave :: "string \<Rightarrow> accumulator \<Rightarrow> accumulator" where
  "accumulate_leave roomId a =
     (if dget (sa_inviteRooms a) roomId \<noteq> None
      then a\<lparr>sa_inviteRooms := ddel roomId (sa_inviteRooms a)\<rparr>
      else a\<lparr>sa_joinRooms := ddel roomId (sa_joinRooms a)\<rparr>)"

definition accumulateRooms :: "rat \<Rightarrow> bool \<Rightarrow> sync_response \<Rightarrow> accumulator \<Rightarrow> accumulator" where
  "accumulateRooms now fromDatabase r a =
     (case sy_rooms r of
        None \<Rightarrow> a
      | Some rooms \<Rightarrow>
          fold accumulate_leave (sr_leave rooms)
            (fold (accumulate_join now fromDatabase) (sr_join rooms)
              (fold accumulate_invite (sr_invite rooms) a)))"

definition accumulateGroup :: "category \<Rightarrow> string \<times> json \<Rightarrow> accumulator \<Rightarrow> accumulator" where
  "accumulateGroup cat = (\<lambda>(groupId, data) a.
     let g = (\<lambda>c. ddel groupId (sa_groups a c))
     in a\<lparr>sa_groups := g(cat := dset groupId data (g cat))\<rparr>)"

definition accumulateGroups :: "sync_response \<Rightarrow> accumulator \<Rightarrow> accumulator" where
  "accumulateGroups r a =
     (case sy_groups r of
        None \<Rightarrow> a
      | Some g \<Rightarrow> fold (accumulateGroup Leave) (g Leave)
                   (fold (accumulateGroup Join) (g Join)
                     (fold (accumulateGroup Invite) (g Invite) a)))"

definition accumulate :: "rat \<Rightarrow> sync_response \<Rightarrow> bool \<Rightarrow> accumulator \<Rightarrow> accumulator" where
  "accumulate now r fromDatabase a =
     (accumulateAccountData r (accumulateGroups r (accumulateRooms now fromDatabase r a)))
       \<lparr>sa_nextBatch := sy_next_batch r\<rparr>"

section \<open>Rendering\<close>

record sync_data =
  sd_nextBatch :: "string option"
  sd_invite :: "(string, json list) dict"
  sd_join :: "(string, join_data) dict"
  sd_groups :: "category \<Rightarrow> (string, json) dict"
  sd_accountData :: "json list"

definition add_receipt :: "json \<Rightarrow> string \<times> json \<times> string \<Rightarrow> json" where
  "add_receipt content = (\<lambda>(userId, d, eventId).
     let c = (if truthy (jget content eventId) then content
              else set_prop eventId (JObj [(''m.read'', JObj [])]) content);
         ev = jget c eventId
     in set_prop eventId (set_prop ''m.read'' (set_prop userId d (jget ev ''m.read'')) ev) c)"

definition receipt_event :: "string \<Rightarrow> (string, json \<times> string) dict \<Rightarrow> json list" where
  "receipt_event roomId rs =
     (let content = foldl add_receipt empty_obj rs
      in if entries content = [] then []
         else [JObj [(''type'', JStr ''m.receipt''), (''room_id'', JStr roomId), (''content'', content)]])"

definition fresh_age :: "bool \<Rightarrow> rat \<Rightarrow> json \<Rightarrow> json" where
  "fresh_age forDatabase now e =
     (if \<not> forDatabase \<and> truthy (jget e ''_localTs'')
      then let t = del_prop ''_localTs'' (copy_event e);
               age = (case as_num (jget e ''_localTs'') of Some ts \<Rightarrow> JNum (now - ts) | None \<Rightarrow> JUndef)
           in set_prop ''unsigned'' (set_prop ''age'' age (js_or (jget t ''unsigned'') empty_obj)) t
      else e)"

fun json_timeline ::
  "bool \<Rightarrow> rat \<Rightarrow> (json \<times> string option) list \<Rightarrow> string option \<Rightarrow> json list \<times> string option" where
  "json_timeline db now [] prev_batch = ([], prev_batch)"
| "json_timeline db now ((e, tok) # ms) prev_batch =
     (if \<not> truthy_str prev_batch \<and> \<not> truthy_str tok then json_timeline db now ms prev_batch
      else let (es, pb) = json_timeline db now ms (if truthy_str prev_batch then prev_batch else tok)
           in (fresh_age db now e # es, pb))"

text \<open>The state event before a timeline event, as far as its \<open>unsigned\<close> part tells.\<close>

definition previous_event :: "json \<Rightarrow> json" where
  "previous_event e =
     (let p = json_clean e; u = jget p ''unsigned'';
          p1 = (if truthy u \<and> truthy (jget u ''prev_content'') then set_prop ''content'' (jget u ''prev_content'') p else p)
      in if truthy u \<and> truthy (jget u ''prev_sender'') then set_prop ''sender'' (jget u ''prev_sender'') p1 else p1)"

definition roll_back :: "json list \<Rightarrow> (string, string, json) dict2" where
  "roll_back es =
     foldr (\<lambda>e m. if js_nullish (jget e ''state_key'') then m else setState (previous_event e) m) es []"

definition room_json :: "bool \<Rightarrow> rat \<Rightarrow> string \<times> joined_room \<Rightarrow> string \<times> join_data" where
  "room_json forDatabase now = (\<lambda>(roomId, r).
     let (es, prev_batch) = json_timeline forDatabase now (jr_timeline r) None;
         rb = roll_back es;
         st = map (\<lambda>(t, k, ev). case get2 rb t k of Some p \<Rightarrow> p | None \<Rightarrow> ev) (items2 (jr_currentState r))
     in (roomId,
         \<lparr>jd_account_data = Some (dvals (jr_accountData r)),
          jd_unread = Some (jr_unread r),
          jd_summary = Some (jr_summary r),
          jd_ephemeral = Some (receipt_event roomId (jr_receipts r)),
          jd_state = Some st,
          jd_timeline = Some \<lparr>td_events = Some es, td_limited = False, td_prev_batch = prev_batch\<rparr>\<rparr>))"

definition getJSON :: "bool \<Rightarrow> rat \<Rightarrow> accumulator \<Rightarrow> sync_data" where
  "getJSON forDatabase now a =
     \<lparr>sd_nextBatch = sa_nextBatch a,
      sd_invite = sa_inviteRooms a,
      sd_join = map (room_json forDatabase now) (sa_joinRooms a),
      sd_groups = sa_groups a,
      sd_accountData = dvals (sa_accountData a)\<rparr>"

definition getNextBatchToken :: "accumulator \<Rightarrow> string option" where
  "getNextBatchToken a = sa_nextBatch a"

section \<open>The current state is the last event of each key\<close>

text \<open>Events that agree on everything but what ageing rewrites.\<close>

definition same_event :: "json \<Rightarrow> json \<Rightarrow> bool" where
  "same_event e f \<longleftrightarrow> (\<forall>k. k \<notin> {''unsigned'', ''_localTs''} \<longrightarrow> jget e k = jget f k)"

fun last_with :: "string \<times> string \<Rightarrow> json list \<Rightarrow> json option" where
  "last_with i [] = None"
| "last_with i (e # es) =
     (case last_with i es of Some f \<Rightarrow> Some f | None \<Rightarrow> if state_id e = Some i then Some e else None)"

lemma same_event_refl: "same_event e e"
  by (simp add: same_event_def)

lemma same_event_sym: "same_event e f \<Longrightarrow> same_event f e"
  by (simp add: same_event_def)

lemma same_event_trans: "same_event e f \<Longrightarrow> same_event f g \<Longrightarrow> same_event e g"
  by (simp add: same_event_def)

lemma same_event_id: "same_event e f \<Longrightarrow> state_id e = state_id f"
  by (simp add: same_event_def state_id_def)

lemma jget_dset: "jget (JObj (dset k v d)) j = (if j = k then v else jget (JObj d) j)"
  by (simp add: dict_simps)

lemma jget_object_copy: "jget (object_copy e) k = jget e k"
  by (cases e) (simp_all add: object_copy_def)

lemma jget_copy_event: "k \<noteq> ''unsigned'' \<Longrightarrow> jget (copy_event e) k = jget e k"
  using jget_object_copy [of e k] unfolding copy_event_def object_copy_def by (simp add: jget_dset del: jget.simps)

lemma copy_event_obj: "\<exists>d. copy_event e = JObj d"
  by (simp add: copy_event_def object_copy_def)

lemma same_stamp: "same_event (stamp_event db now e) e"
proof -
  obtain d where "copy_event e = JObj d" using copy_event_obj by blast
  then show ?thesis
    using jget_copy_event [of _ e]
    by (auto simp: same_event_def stamp_event_def Let_def jget_dset simp del: jget.simps split: option.split)
qed

lemma same_fresh: "same_event (fresh_age db now e) e"
proof -
  obtain d where d: "copy_event e = JObj d" using copy_event_obj by blast
  have "jget (set_prop ''unsigned'' v (del_prop ''_localTs'' (JObj d))) k = jget (JObj d) k"
    if "k \<noteq> ''unsigned''" "k \<noteq> ''_localTs''" for v k
    using that by (simp add: dict_simps)
  then show ?thesis
    using d jget_copy_event [of _ e]
    by (auto simp: same_event_def fresh_age_def Let_def simp del: jget.simps del_prop.simps set_prop.simps)
qed

lemma get2_setState: "get2 (setState e m) t k = (if state_id e = Some (t, k) then Some e else get2 m t k)"
  by (auto simp: setState_def dict_simps split: option.split)

lemma last_with_append: "last_with i (es @ fs) = (case last_with i fs of Some e \<Rightarrow> Some e | None \<Rightarrow> last_with i es)"
  by (induction es) (auto split: option.splits)

lemma last_with_id: "last_with i es = Some e \<Longrightarrow> state_id e = Some i \<and> e \<in> set es"
  by (induction es) (auto split: option.splits if_splits)

lemma last_with_None: "last_with i es = None \<longleftrightarrow> (\<forall>e \<in> set es. state_id e \<noteq> Some i)"
  by (induction es) (auto split: option.splits)

lemma get2_fold_setState:
  "get2 (fold setState es m) t k = (case last_with (t, k) es of Some e \<Rightarrow> Some e | None \<Rightarrow> get2 m t k)"
  by (induction es arbitrary: m) (auto simp: get2_setState split: option.splits)

lemma last_with_map_same:
  assumes "\<And>e. same_event (f e) e"
  shows "last_with i (map f es) = map_option f (last_with i es)"
proof -
  have "state_id (f e) = state_id e" for e using same_event_id [OF assms] .
  then show ?thesis by (induction es) (auto split: option.split)
qed

definition room_ok :: "joined_room \<Rightarrow> bool" where
  "room_ok r \<longleftrightarrow>
     dict2_ok (jr_currentState r) \<and>
     (\<forall>t k e. get2 (jr_currentState r) t k = Some e \<longrightarrow> state_id e = Some (t, k)) \<and>
     (\<forall>t k e. last_with (t, k) (map fst (jr_timeline r)) = Some e \<longrightarrow>
        (\<exists>f. get2 (jr_currentState r) t k = Some f \<and> same_event e f)) \<and>
     dict_ok (jr_receipts r) \<and> dict_ok (jr_accountData r) \<and>
     (\<forall>(t, e) \<in> set (jr_accountData r). jget e ''type'' = JStr t) \<and>
     (\<forall>e \<in> fst ` set (jr_timeline r). dict_ok (entries e))"

definition opt_list :: "'a list option \<Rightarrow> 'a list" where
  "opt_list o1 = (case o1 of Some xs \<Rightarrow> xs | None \<Rightarrow> [])"

definition new_events :: "join_data \<Rightarrow> json list" where
  "new_events data = (case jd_timeline data of Some td \<Rightarrow> opt_list (td_events td) | None \<Rightarrow> [])"

definition new_token :: "join_data \<Rightarrow> string option" where
  "new_token data = (case jd_timeline data of Some td \<Rightarrow> td_prev_batch td | None \<Rightarrow> None)"

text \<open>
  The state of a response is the one at the start of its timeline. So when the timeline continues the one
  held, the state has no event for a key that an event of that timeline sets. Events are objects with distinct keys.
\<close>

definition data_fits :: "join_data \<Rightarrow> joined_room \<Rightarrow> bool" where
  "data_fits data r \<longleftrightarrow>
     (\<forall>e \<in> set (new_events data). dict_ok (entries e)) \<and>
     ((case jd_timeline data of Some td \<Rightarrow> td_limited td | None \<Rightarrow> False) \<or>
     (\<forall>es i. jd_state data = Some es \<longrightarrow> last_with i es \<noteq> None \<longrightarrow> last_with i (map fst (jr_timeline r)) = None))"

lemma room_okD:
  assumes "room_ok r"
  shows "dict2_ok (jr_currentState r)" "dict_ok (jr_receipts r)" "dict_ok (jr_accountData r)"
    and "get2 (jr_currentState r) t k = Some e \<Longrightarrow> state_id e = Some (t, k)"
    and "last_with (t, k) (map fst (jr_timeline r)) = Some e \<Longrightarrow>
      \<exists>f. get2 (jr_currentState r) t k = Some f \<and> same_event e f"
    and "(t, e) \<in> set (jr_accountData r) \<Longrightarrow> jget e ''type'' = JStr t"
    and "m \<in> set (jr_timeline r) \<Longrightarrow> dict_ok (entries (fst m))"
  using assms unfolding room_ok_def by (simp, simp, simp, simp, simp, fast, simp)

lemma room_ok_new: "room_ok new_joined_room"
  by (simp add: room_ok_def new_joined_room_def dict2_ok_def dict_ok_def get2_def)

lemma dict2_ok_fold_setState: "dict2_ok m \<Longrightarrow> dict2_ok (fold setState es m)"
  by (induction es arbitrary: m) (auto simp: setState_def dict2_ok_put2 split: option.split)

lemma setState_keys:
  "(\<And>t k e. get2 m t k = Some e \<Longrightarrow> state_id e = Some (t, k)) \<Longrightarrow>
   get2 (fold setState es m) t k = Some e \<Longrightarrow> state_id e = Some (t, k)"
  using last_with_id by (auto simp: get2_fold_setState split: option.splits)

definition fold_ok :: "(string, json) dict \<Rightarrow> bool" where
  "fold_ok d \<longleftrightarrow> dict_ok d \<and> (\<forall>(t, e) \<in> set d. jget e ''type'' = JStr t)"

lemma as_str_JStr: "as_str j = Some x \<longleftrightarrow> j = JStr x"
  by (cases j) auto

lemma clobber_ok: "fold_ok d \<Longrightarrow> fold_ok (clobber_by_type es d)"
proof (induction es arbitrary: d)
  case (Cons e es)
  have "fold_ok (case as_str (jget e ''type'') of Some t \<Rightarrow> dset t e d | None \<Rightarrow> d)"
    using Cons.prems set_dset [of _ e d]
    by (fastforce simp: fold_ok_def dict_laws as_str_JStr split: option.split)
  with Cons.IH show ?case by (simp add: clobber_by_type_def)
qed (simp add: clobber_by_type_def)

lemma receipts_ok: "dict_ok rs \<Longrightarrow> dict_ok (accumulate_ephemeral es rs)"
proof (induction es arbitrary: rs)
  case (Cons e es)
  then show ?case
    using jsdict.invar_fold_put [of rs] by (simp add: accumulate_ephemeral_def)
qed (simp add: accumulate_ephemeral_def)

lemma prune_suffix: "\<exists>old. tml = old @ prune_timeline mx tml"
proof -
  have "\<exists>old. xs = old @ dropWhile P (drop n xs)" for P n and xs :: "(json \<times> string option) list"
    by (metis append.assoc append_take_drop_id takeWhile_dropWhile_id)
  then show ?thesis by (auto simp: prune_timeline_def Let_def)
qed

lemma prune_subset: "set (prune_timeline mx tml) \<subseteq> set tml"
  by (auto simp: prune_timeline_def Let_def dest!: set_dropWhileD in_set_dropD)

lemma last_with_suffix: "last_with i (map f (prune_timeline mx tml)) = Some e \<Longrightarrow> last_with i (map f tml) = Some e"
  using prune_suffix [of tml mx] by (metis last_with_append map_append option.simps(5))

lemma with_tokens_fst: "map fst (with_tokens pb es) = es"
  by (simp add: with_tokens_def map_fst_zip_take)

text \<open>The result field by field.\<close>

definition kept_timeline :: "join_data \<Rightarrow> joined_room \<Rightarrow> (json \<times> string option) list" where
  "kept_timeline data r =
     (if (case jd_timeline data of Some td \<Rightarrow> td_limited td | None \<Rightarrow> False) then [] else jr_timeline r)"

lemma if_present_simps:
  "if_present (Some x) f r = f x r" "if_present None f r = r"
  by (simp_all add: if_present_def)

lemma if_present_other:
  "(\<And>x r. jr_currentState (f x r) = jr_currentState r) \<Longrightarrow> jr_currentState (if_present part f r) = jr_currentState r"
  "(\<And>x r. jr_timeline (f x r) = jr_timeline r) \<Longrightarrow> jr_timeline (if_present part f r) = jr_timeline r"
  "(\<And>x r. jr_accountData (f x r) = jr_accountData r) \<Longrightarrow> jr_accountData (if_present part f r) = jr_accountData r"
  "(\<And>x r. jr_receipts (f x r) = jr_receipts r) \<Longrightarrow> jr_receipts (if_present part f r) = jr_receipts r"
  "(\<And>x r. jr_unread (f x r) = jr_unread r) \<Longrightarrow> jr_unread (if_present part f r) = jr_unread r"
  "(\<And>x r. jr_summary (f x r) = jr_summary r) \<Longrightarrow> jr_summary (if_present part f r) = jr_summary r"
  by (simp_all add: if_present_def split: option.split)

lemma clobber_nil: "clobber_by_type [] d = d" "accumulate_ephemeral [] rs = rs" "with_tokens tok [] = []"
  by (simp_all add: clobber_by_type_def accumulate_ephemeral_def with_tokens_def)

lemma accumulateJoin_fields:
  fixes mx now db data r
  defines "r' \<equiv> accumulateJoinState mx now db data r"
  shows "jr_currentState r' = fold setState (new_events data) (fold setState (opt_list (jd_state data)) (jr_currentState r))"
    and "jr_timeline r' = prune_timeline mx
      (kept_timeline data r @ with_tokens (new_token data) (map (stamp_event db now) (new_events data)))"
    and "jr_accountData r' = clobber_by_type (opt_list (jd_account_data data)) (jr_accountData r)"
    and "jr_receipts r' = accumulate_ephemeral (opt_list (jd_ephemeral data)) (jr_receipts r)"
    and "jr_unread r' = (case jd_unread data of Some u \<Rightarrow> u | None \<Rightarrow> jr_unread r)"
    and "jr_summary r' = (case jd_summary data of Some sm \<Rightarrow> merge_summary sm (jr_summary r) | None \<Rightarrow> jr_summary r)"
proof -
  note rules = r'_def accumulateJoinState_def Let_def if_present_other if_present_simps add_timeline_def opt_list_def
    new_events_def new_token_def kept_timeline_def clobber_nil
  show "jr_currentState r' = fold setState (new_events data) (fold setState (opt_list (jd_state data)) (jr_currentState r))"
    by (cases "jd_state data"; cases "jd_timeline data") (simp_all add: rules split: option.split)
  show "jr_timeline r' = prune_timeline mx
      (kept_timeline data r @ with_tokens (new_token data) (map (stamp_event db now) (new_events data)))"
    by (cases "jd_timeline data") (simp_all add: rules split: option.split)
  show "jr_accountData r' = clobber_by_type (opt_list (jd_account_data data)) (jr_accountData r)"
    by (cases "jd_account_data data") (simp_all add: rules)
  show "jr_receipts r' = accumulate_ephemeral (opt_list (jd_ephemeral data)) (jr_receipts r)"
    by (cases "jd_ephemeral data") (simp_all add: rules)
  show "jr_unread r' = (case jd_unread data of Some u \<Rightarrow> u | None \<Rightarrow> jr_unread r)"
    by (cases "jd_unread data") (simp_all add: rules)
  show "jr_summary r' = (case jd_summary data of Some sm \<Rightarrow> merge_summary sm (jr_summary r) | None \<Rightarrow> jr_summary r)"
    by (cases "jd_summary data") (simp_all add: rules)
qed

lemma dict_ok_set_prop: "dict_ok (entries e) \<Longrightarrow> dict_ok (entries (set_prop k v e))"
  by (cases e) (simp_all add: dict_laws)

lemma dict_ok_del_prop: "dict_ok (entries e) \<Longrightarrow> dict_ok (entries (del_prop k e))"
  by (cases e) (simp_all add: dict_laws)

lemma dict_ok_copy: "dict_ok (entries e) \<Longrightarrow> dict_ok (entries (copy_event e))"
  by (simp add: copy_event_def object_copy_def dict_laws)

lemma dict_ok_stamp: "dict_ok (entries e) \<Longrightarrow> dict_ok (entries (stamp_event db now e))"
  by (simp add: stamp_event_def Let_def dict_ok_set_prop dict_ok_copy split: option.split)

lemma dict_ok_fresh: "dict_ok (entries e) \<Longrightarrow> dict_ok (entries (fresh_age db now e))"
  unfolding fresh_age_def Let_def by (simp add: dict_ok_set_prop dict_ok_del_prop dict_ok_copy)

lemma kept_fits:
  assumes "data_fits data r" and "last_with i (opt_list (jd_state data)) \<noteq> None"
  shows "last_with i (map fst (kept_timeline data r)) = None"
proof (cases "case jd_timeline data of Some td \<Rightarrow> td_limited td | None \<Rightarrow> False")
  case True
  then show ?thesis by (simp add: kept_timeline_def)
next
  case False
  obtain es where es: "jd_state data = Some es" "last_with i es \<noteq> None"
    using assms(2) by (cases "jd_state data") (simp_all add: opt_list_def)
  have "last_with i (map fst (jr_timeline r)) = None"
    using assms(1) False es unfolding data_fits_def by blast
  with False show ?thesis by (simp add: kept_timeline_def)
qed

lemma room_ok_accumulate:
  assumes "room_ok r" and "data_fits data r"
  shows "room_ok (accumulateJoinState mx now db data r)"
proof -
  let ?st = "opt_list (jd_state data)" and ?es = "new_events data"
  let ?cur = "fold setState ?es (fold setState ?st (jr_currentState r))"
  let ?tml = "kept_timeline data r @ with_tokens (new_token data) (map (stamp_event db now) ?es)"
  have fit: "last_with i (map fst (kept_timeline data r)) = None" if "last_with i ?st \<noteq> None" for i
    by (rule kept_fits [OF assms(2) that])
  have kept: "\<exists>f. get2 (jr_currentState r) t k = Some f \<and> same_event e f"
    if "last_with (t, k) (map fst (kept_timeline data r)) = Some e" for t k e
    using assms(1) that by (auto simp: room_ok_def kept_timeline_def split: if_splits)
  have last: "\<exists>f. get2 ?cur t k = Some f \<and> same_event e f"
    if l: "last_with (t, k) (map fst (prune_timeline mx ?tml)) = Some e" for t k e
  proof -
    have all: "last_with (t, k) (map fst (kept_timeline data r) @ map (stamp_event db now) ?es) = Some e"
      using last_with_suffix [OF l] by (simp add: with_tokens_fst)
    show ?thesis
    proof (cases "last_with (t, k) ?es")
      case (Some f)
      then have "e = stamp_event db now f"
        using all by (simp add: last_with_append last_with_map_same [OF same_stamp])
      then have "same_event e f" by (simp only: same_stamp)
      with Some show ?thesis by (simp add: get2_fold_setState)
    next
      case None
      then have e: "last_with (t, k) (map fst (kept_timeline data r)) = Some e"
        using all by (simp add: last_with_append last_with_map_same [OF same_stamp])
      have "last_with (t, k) ?st = None"
      proof (rule ccontr)
        assume "last_with (t, k) ?st \<noteq> None"
        from fit [OF this] e show False by simp
      qed
      with None kept [OF e] show ?thesis by (simp add: get2_fold_setState)
    qed
  qed
  have ids0: "state_id e = Some (t, k)" if "get2 (jr_currentState r) t k = Some e" for t k e
    using assms(1) that by (simp add: room_ok_def)
  have ids1: "state_id e = Some (t, k)" if "get2 (fold setState ?st (jr_currentState r)) t k = Some e" for t k e
    by (rule setState_keys [OF ids0 that])
  have ids: "state_id e = Some (t, k)" if "get2 ?cur t k = Some e" for t k e
    by (rule setState_keys [OF ids1 that])
  have acc: "fold_ok (jr_accountData r)" using assms(1) by (simp add: room_ok_def fold_ok_def)
  have "set (map fst ?tml) \<subseteq> set (map fst (jr_timeline r)) \<union> stamp_event db now ` set ?es"
    unfolding map_append with_tokens_fst kept_timeline_def by auto
  moreover have "dict_ok (entries e)" if "e \<in> set (map fst (jr_timeline r))" for e
    using that assms(1) unfolding room_ok_def set_map by blast
  moreover have "dict_ok (entries e)" if "e \<in> stamp_event db now ` set ?es" for e
    using that assms(2) dict_ok_stamp unfolding data_fits_def by blast
  moreover have "set (map fst (prune_timeline mx ?tml)) \<subseteq> set (map fst ?tml)"
    using prune_subset [of mx ?tml] by (simp only: set_map image_mono)
  ultimately have "\<forall>e \<in> set (map fst (prune_timeline mx ?tml)). dict_ok (entries e)" by blast
  moreover have "fold_ok (clobber_by_type (opt_list (jd_account_data data)) (jr_accountData r))"
    by (rule clobber_ok [OF acc])
  moreover have "dict2_ok ?cur" using assms(1) by (intro dict2_ok_fold_setState) (simp add: room_ok_def)
  moreover have "dict_ok (accumulate_ephemeral (opt_list (jd_ephemeral data)) (jr_receipts r))"
    using assms(1) by (intro receipts_ok) (simp add: room_ok_def)
  ultimately show ?thesis
    using last ids unfolding room_ok_def accumulateJoin_fields fold_ok_def set_map by (intro conjI allI impI) fast+
qed

section \<open>Restoring a room from its JSON\<close>

lemma json_timeline_events:
  "fst (json_timeline db now ms pb) =
     map (\<lambda>m. fresh_age db now (fst m)) (if truthy_str pb then ms else dropWhile (\<lambda>m. \<not> truthy_str (snd m)) ms)"
proof (induction db now ms pb rule: json_timeline.induct)
  case (2 db now e tok ms pb)
  then show ?case
    by (cases "truthy_str pb"; cases "truthy_str tok") (auto split: prod.splits simp: split_beta)
qed simp

lemma jget_json_clean:
  assumes "jget e k = v" and "v \<noteq> JUndef"
  shows "jget (json_clean e) k = json_clean v"
proof (cases e)
  case (JObj d)
  have "dget d k = Some v \<Longrightarrow> v \<noteq> JUndef \<Longrightarrow>
    dget (map (\<lambda>e. (fst e, json_clean (snd e))) (filter (\<lambda>e. snd e \<noteq> JUndef) d)) k = Some (json_clean v)"
    by (induction d) (auto split: if_splits)
  with assms JObj show ?thesis by (auto split: option.splits)
qed (use assms in auto)

lemma state_id_fields:
  "state_id e = Some (t, k) \<longleftrightarrow> jget e ''type'' = JStr t \<and> jget e ''state_key'' = JStr k \<and> t \<noteq> []"
  by (auto simp: state_id_def as_str_JStr split: option.splits if_splits)

lemma jget_set_other: "j \<noteq> k \<Longrightarrow> jget (set_prop k v e) j = jget e j"
  by (cases e) (simp_all add: dict_simps)

lemma jget_previous:
  "k \<noteq> ''content'' \<Longrightarrow> k \<noteq> ''sender'' \<Longrightarrow> jget (previous_event e) k = jget (json_clean e) k"
  by (simp add: previous_event_def Let_def jget_set_other)

lemma previous_event_id: "state_id e = Some i \<Longrightarrow> state_id (previous_event e) = Some i"
  using jget_json_clean [of e "''type''"] jget_json_clean [of e "''state_key''"]
  by (cases i) (simp add: state_id_fields jget_previous)

lemma roll_back_key:
  "get2 (roll_back es) t k = Some p \<Longrightarrow> state_id p = Some (t, k) \<and> (\<exists>e \<in> set es. p = previous_event e)"
proof (induction es)
  case Nil
  then show ?case by (simp add: roll_back_def get2_def)
next
  case (Cons e es)
  have "roll_back (e # es) = (if js_nullish (jget e ''state_key'') then roll_back es else setState (previous_event e) (roll_back es))"
    by (simp add: roll_back_def)
  with Cons show ?case by (auto simp: get2_setState split: if_splits)
qed

lemma jget_clean_distinct:
  assumes "dict_ok (entries e)" and "jget (json_clean e) k = JStr x"
  shows "jget e k = JStr x"
proof (cases e)
  case (JObj d)
  have "\<exists>v. dget d k = Some v \<and> w = json_clean v"
    if "distinct (map fst d)" "dget (map (\<lambda>e. (fst e, json_clean (snd e))) (filter (\<lambda>e. snd e \<noteq> JUndef) d)) k = Some w"
    for w
    using that
  proof (induction d)
    case (Cons a d)
    show ?case
    proof (cases "fst a = k \<and> snd a = JUndef")
      case True
      then have "k \<notin> fst ` set d" using Cons.prems(1) by auto
      then have "k \<notin> fst ` set (map (\<lambda>e. (fst e, json_clean (snd e))) (filter (\<lambda>e. snd e \<noteq> JUndef) d))" by force
      then have "dget (map (\<lambda>e. (fst e, json_clean (snd e))) (filter (\<lambda>e. snd e \<noteq> JUndef) d)) k = None"
        by (simp add: map_of_eq_None_iff)
      with True Cons.prems(2) show ?thesis by simp
    next
      case False
      with Cons show ?thesis by (auto split: if_splits)
    qed
  qed simp
  then obtain v where "dget d k = Some v" "JStr x = json_clean v"
    using assms JObj by (fastforce simp: dict_ok_def split: option.splits)
  then show ?thesis using JObj by (cases v) auto
qed (use assms in auto)

lemma previous_event_id_iff: "dict_ok (entries e) \<Longrightarrow> state_id (previous_event e) = Some i \<longleftrightarrow> state_id e = Some i"
proof
  assume e: "dict_ok (entries e)" and p: "state_id (previous_event e) = Some i"
  obtain t k where i: "i = (t, k)" by fastforce
  from p have "jget (json_clean e) ''type'' = JStr t" "jget (json_clean e) ''state_key'' = JStr k" "t \<noteq> []"
    by (simp_all add: i state_id_fields jget_previous)
  with jget_clean_distinct [OF e] show "state_id e = Some i" by (simp add: i state_id_fields)
qed (rule previous_event_id)

text \<open>The events of the JSON: the state at the start of its timeline, and its timeline.\<close>

definition json_events :: "bool \<Rightarrow> rat \<Rightarrow> joined_room \<Rightarrow> json list" where
  "json_events db now r = fst (json_timeline db now (jr_timeline r) None)"

definition json_state :: "bool \<Rightarrow> rat \<Rightarrow> joined_room \<Rightarrow> json list" where
  "json_state db now r =
     map (\<lambda>(t, k, ev). case get2 (roll_back (json_events db now r)) t k of Some p \<Rightarrow> p | None \<Rightarrow> ev)
       (items2 (jr_currentState r))"

lemma room_json_fields:
  "jd_state (snd (room_json db now (i, r))) = Some (json_state db now r)"
  "new_events (snd (room_json db now (i, r))) = json_events db now r"
  "jd_account_data (snd (room_json db now (i, r))) = Some (dvals (jr_accountData r))"
  "jd_ephemeral (snd (room_json db now (i, r))) = Some (receipt_event i (jr_receipts r))"
  "jd_unread (snd (room_json db now (i, r))) = Some (jr_unread r)"
  by (simp_all add: room_json_def json_state_def json_events_def new_events_def opt_list_def split_beta Let_def)

lemma last_with_unique:
  assumes "\<And>e. e \<in> set es \<Longrightarrow> state_id e = Some i \<Longrightarrow> e = f" and "f \<in> set es" "state_id f = Some i"
  shows "last_with i es = Some f"
proof (cases "last_with i es")
  case None
  then show ?thesis using assms(2,3) by (simp add: last_with_None)
next
  case (Some e)
  with last_with_id [OF this] assms(1) show ?thesis by simp
qed

lemma json_event_origin:
  assumes "room_ok r" and "last_with (t, k) (json_events db now r) = Some e"
  shows "\<exists>f. get2 (jr_currentState r) t k = Some f \<and> same_event e f"
proof -
  let ?kept = "dropWhile (\<lambda>m. \<not> truthy_str (snd m)) (jr_timeline r)"
  have "json_events db now r = map (fresh_age db now) (map fst ?kept)"
    by (simp add: json_events_def json_timeline_events truthy_str_def comp_def)
  then have "map_option (fresh_age db now) (last_with (t, k) (map fst ?kept)) = Some e"
    using assms(2) by (simp only: last_with_map_same [OF same_fresh])
  then obtain e0 where e0: "last_with (t, k) (map fst ?kept) = Some e0" "e = fresh_age db now e0"
    by (auto simp del: map_map)
  have "last_with (t, k) (a @ map fst ?kept) = Some e0" for a
    unfolding last_with_append e0(1) option.case ..
  moreover have "map fst (jr_timeline r) = map fst (takeWhile (\<lambda>m. \<not> truthy_str (snd m)) (jr_timeline r)) @ map fst ?kept"
    by (simp only: map_append [symmetric] takeWhile_dropWhile_id)
  ultimately have "last_with (t, k) (map fst (jr_timeline r)) = Some e0" by metis
  then obtain f where "get2 (jr_currentState r) t k = Some f" "same_event e0 f"
    using room_okD(5) [OF assms(1)] by blast
  moreover have "same_event e e0" unfolding e0(2) by (rule same_fresh)
  ultimately show ?thesis using same_event_trans [of e e0 f] by blast
qed

lemma json_events_distinct:
  assumes "room_ok r" and "e \<in> set (json_events db now r)"
  shows "dict_ok (entries e)"
proof -
  obtain m where m: "m \<in> set (jr_timeline r)" "e = fresh_age db now (fst m)"
    using assms(2) by (auto simp: json_events_def json_timeline_events truthy_str_def dest: set_dropWhileD)
  then have "dict_ok (entries (fst m))" using room_okD(7) [OF assms(1)] by simp
  then show ?thesis unfolding m(2) by (rule dict_ok_fresh)
qed

lemma json_state_lookup:
  assumes ok: "room_ok r" and none: "last_with (t, k) (json_events db now r) = None"
  shows "last_with (t, k) (json_state db now r) = get2 (jr_currentState r) t k"
proof -
  let ?rb = "roll_back (json_events db now r)"
  let ?pick = "\<lambda>(t, k, ev). case get2 ?rb t k of Some p \<Rightarrow> p | None \<Rightarrow> ev"
  note d = room_okD(1) [OF ok]
  have rb: "get2 ?rb t k = None"
  proof (rule ccontr)
    assume "get2 ?rb t k \<noteq> None"
    then obtain p where p: "get2 ?rb t k = Some p" by blast
    from roll_back_key [OF p] obtain e where e: "e \<in> set (json_events db now r)" "state_id (previous_event e) = Some (t, k)" by blast
    then have "state_id e = Some (t, k)" using previous_event_id_iff [OF json_events_distinct [OF ok e(1)]] by simp
    with e(1) none show False by (simp add: last_with_None)
  qed
  have pid: "state_id (?pick (t', k', ev)) = Some (t', k')" if "get2 (jr_currentState r) t' k' = Some ev" for t' k' ev
  proof -
    have "state_id ev = Some (t', k')" by (rule room_okD(4) [OF ok that])
    then show ?thesis using roll_back_key [of "json_events db now r" t' k'] by (auto split: option.split)
  qed
  have mem: "e \<in> set (json_state db now r) \<longleftrightarrow> (\<exists>t' k' ev. get2 (jr_currentState r) t' k' = Some ev \<and> e = ?pick (t', k', ev))" for e
  proof -
    have "e \<in> set (json_state db now r) \<longleftrightarrow> (\<exists>x \<in> set (items2 (jr_currentState r)). e = ?pick x)"
      unfolding json_state_def by (simp only: set_map image_iff)
    also have "\<dots> \<longleftrightarrow> (\<exists>t' k' ev. (t', k', ev) \<in> set (items2 (jr_currentState r)) \<and> e = ?pick (t', k', ev))"
      by (metis prod_cases3)
    finally show ?thesis by (simp only: items2_get2 [OF d])
  qed
  have own: "e = ev" if cur: "get2 (jr_currentState r) t k = Some ev" and e: "e \<in> set (json_state db now r)"
      and i: "state_id e = Some (t, k)" for e ev
  proof -
    obtain t' k' ev' where o: "get2 (jr_currentState r) t' k' = Some ev'" "e = ?pick (t', k', ev')"
      using e mem by blast
    have "state_id e = Some (t', k')" unfolding o(2) by (rule pid [OF o(1)])
    with i have tk: "t' = t" "k' = k" by simp_all
    with o(1) cur have "ev' = ev" by simp
    then show ?thesis unfolding o(2) tk by (simp add: rb)
  qed
  show ?thesis
  proof (cases "get2 (jr_currentState r) t k")
    case None
    have "state_id e \<noteq> Some (t, k)" if e: "e \<in> set (json_state db now r)" for e
    proof -
      obtain t' k' ev' where o: "get2 (jr_currentState r) t' k' = Some ev'" "e = ?pick (t', k', ev')"
        using e mem by blast
      have "state_id e = Some (t', k')" unfolding o(2) by (rule pid [OF o(1)])
      with o(1) None show ?thesis by auto
    qed
    with None show ?thesis by (simp add: last_with_None)
  next
    case (Some ev)
    have "ev = ?pick (t, k, ev)" by (simp add: rb)
    with Some have "ev \<in> set (json_state db now r)" unfolding mem by blast
    moreover have "state_id ev = Some (t, k)" by (rule room_okD(4) [OF ok Some])
    ultimately have "last_with (t, k) (json_state db now r) = Some ev"
      by (intro last_with_unique own [OF Some]) assumption+
    with Some show ?thesis by simp
  qed
qed

text \<open>Replaying state and timeline of the JSON gives the current state back.\<close>

lemma replay_state:
  assumes "room_ok r"
  shows "rel_option same_event (get2 (fold setState (json_events db now r) (fold setState (json_state db now r) [])) t k)
    (get2 (jr_currentState r) t k)"
proof (cases "last_with (t, k) (json_events db now r)")
  case None
  then show ?thesis
    using json_state_lookup [OF assms None]
    by (cases "get2 (jr_currentState r) t k") (simp_all add: get2_fold_setState get2_Nil same_event_refl)
next
  case (Some e)
  from json_event_origin [OF assms Some] Some show ?thesis by (auto simp: get2_fold_setState)
qed

text \<open>Receipts: regrouped by event in the JSON, back to one per user when read.\<close>

definition wrap_receipts :: "(string, string, json) dict2 \<Rightarrow> json" where
  "wrap_receipts g = JObj (map (\<lambda>(ev, us). (ev, JObj [(''m.read'', JObj us)])) g)"

lemma dset_wrap: "dset ev (JObj [(''m.read'', JObj us)]) (map (\<lambda>(ev, us). (ev, JObj [(''m.read'', JObj us)])) g) =
    map (\<lambda>(ev, us). (ev, JObj [(''m.read'', JObj us)])) (dset ev us g)"
  by (induction g) auto

lemma dget_wrap: "dget (map (\<lambda>(ev, us). (ev, JObj [(''m.read'', JObj us)])) g) ev =
    map_option (\<lambda>us. JObj [(''m.read'', JObj us)]) (dget g ev)"
  by (induction g) auto

lemma set_prop_twice: "set_prop k v (set_prop k w e) = set_prop k v e"
  by (cases e) (simp_all add: dset_twice)

lemma wrap_put2:
  "wrap_receipts (put2 ev u d g) =
     set_prop ev (JObj [(''m.read'', JObj (dset u d (case dget g ev of Some us \<Rightarrow> us | None \<Rightarrow> [])))]) (wrap_receipts g)"
  by (simp add: wrap_receipts_def put2_def dset_wrap)

lemma jget_wrap:
  "jget (wrap_receipts g) ev = (case dget g ev of Some us \<Rightarrow> JObj [(''m.read'', JObj us)] | None \<Rightarrow> JUndef)"
  by (simp add: wrap_receipts_def dget_wrap split: option.split)

lemma set_prop_wrap: "\<exists>d. wrap_receipts g = JObj d"
  by (simp add: wrap_receipts_def)

lemma add_receipt_wrap: "add_receipt (wrap_receipts g) (u, d, ev) = wrap_receipts (put2 ev u d g)"
proof (cases "dget g ev")
  case None
  obtain w where w: "wrap_receipts g = JObj w" using set_prop_wrap by blast
  have "jget (set_prop ev v (wrap_receipts g)) ev = v" for v unfolding w by (simp add: dict_simps)
  with None show ?thesis
    by (simp add: add_receipt_def Let_def jget_wrap wrap_put2 set_prop_twice)
next
  case (Some us)
  then show ?thesis by (simp add: add_receipt_def Let_def jget_wrap wrap_put2)
qed

lemma fold_receipts_wrap:
  "foldl add_receipt (wrap_receipts g) rs = wrap_receipts (fold (\<lambda>(u, d, ev). put2 ev u d) rs g)"
  by (induction rs arbitrary: g) (auto simp: add_receipt_wrap)

lemma receipt_items_wrap: "(u, d, ev) \<in> set (receipt_items (wrap_receipts g)) \<longleftrightarrow> (ev, u, d) \<in> set (items2 g)"
proof -
  have "receipt_items (wrap_receipts g) = map (\<lambda>(ev, u, d). (u, d, ev)) (items2 g)"
    unfolding receipt_items_def wrap_receipts_def items2_def
    by (induction g) (simp_all add: comp_def case_prod_unfold)
  then show ?thesis by force
qed

lemma group_receipts:
  "distinct (map fst rs) \<Longrightarrow>
   get2 (fold (\<lambda>(u, d, ev). put2 ev u d) rs g) ev u = (case dget rs u of
      Some (d, ev') \<Rightarrow> if ev' = ev then Some d else get2 g ev u | None \<Rightarrow> get2 g ev u)"
proof (induction rs arbitrary: g)
  case (Cons a rs)
  obtain u' d' e' where a: "a = (u', d', e')" by (metis prod_cases3)
  have "dget rs u' = None" using Cons.prems a by (simp add: map_of_eq_None_iff)
  with Cons a show ?case by (auto simp: dict_simps split: option.split)
qed simp

lemma dict2_ok_group: "dict2_ok g \<Longrightarrow> dict2_ok (fold (\<lambda>(u, d, ev). put2 ev u d) rs g)"
  by (induction rs arbitrary: g) (auto simp: dict2_ok_put2)

lemma restore_receipts:
  assumes "dict_ok rs"
  shows "dget (accumulate_ephemeral (receipt_event i rs) []) u = dget rs u"
proof -
  let ?g = "fold (\<lambda>(u, d, ev). put2 ev u d) rs []"
  have c: "foldl add_receipt empty_obj rs = wrap_receipts ?g"
    using fold_receipts_wrap [of "[]" rs] by (simp add: wrap_receipts_def empty_obj_def)
  have g: "dict2_ok ?g" by (rule dict2_ok_group) (simp add: dict2_ok_def dict_ok_def)
  have "((u, d, ev) \<in> set (receipt_items (wrap_receipts ?g))) \<longleftrightarrow> dget rs u = Some (d, ev)" for u d ev
    unfolding receipt_items_wrap items2_get2 [OF g] group_receipts [OF assms [unfolded dict_ok_def]] get2_Nil
    by (cases "dget rs u") (simp_all split: prod.split)
  then have m: "map_of (rev (receipt_items (wrap_receipts ?g))) = map_of rs"
    by (intro map_of_functional) auto
  show ?thesis
  proof (cases "entries (wrap_receipts ?g) = []")
    case True
    then have "receipt_items (wrap_receipts ?g) = []" by (simp add: receipt_items_def)
    with m have "map_of rs = (\<lambda>_. None)" by (simp add: empty_def)
    with True show ?thesis by (simp add: receipt_event_def c accumulate_ephemeral_def empty_obj_def)
  next
    case False
    then have "accumulate_ephemeral (receipt_event i rs) [] = fold (\<lambda>(u, v). dset u v) (receipt_items (wrap_receipts ?g)) []"
      by (simp add: receipt_event_def c accumulate_ephemeral_def Let_def) (simp add: wrap_receipts_def)
    then show ?thesis using m by (simp add: jsdict.get_fold_put split: option.split)
  qed
qed

lemma restore_account:
  assumes "fold_ok d"
  shows "dget (clobber_by_type (dvals d) []) t = dget d t"
proof -
  have "clobber_by_type (dvals d) e0 = fold (\<lambda>(k, v). dset k v) d e0" for e0
    using assms by (induction d arbitrary: e0) (auto simp: fold_ok_def dict_ok_def clobber_by_type_def)
  moreover have "map_of (rev d) = map_of d"
    using assms by (intro map_of_functional) (auto simp: fold_ok_def dict_ok_def)
  ultimately show ?thesis by (simp add: jsdict.get_fold_put split: option.split)
qed

section \<open>Reachable accumulators\<close>

definition room_of :: "accumulator \<Rightarrow> string \<Rightarrow> joined_room" where
  "room_of a i = (case dget (sa_joinRooms a) i of Some r \<Rightarrow> r | None \<Rightarrow> new_joined_room)"

definition response_fits :: "(nat \<Rightarrow> join_data \<Rightarrow> bool) \<Rightarrow> sync_response \<Rightarrow> accumulator \<Rightarrow> bool" where
  "response_fits P r a \<longleftrightarrow>
     (\<forall>rooms. sy_rooms r = Some rooms \<longrightarrow> dict_ok (sr_join rooms) \<and>
        (\<forall>(i, data) \<in> set (sr_join rooms). data_fits data (room_of a i) \<and> P (sa_max a) data))"

text \<open>Accumulators that responses lead to; \<open>P\<close> is a further condition on the data of each room.\<close>

inductive sa_reach :: "(nat \<Rightarrow> join_data \<Rightarrow> bool) \<Rightarrow> accumulator \<Rightarrow> bool" for P where
  start: "sa_reach P (new_accumulator n)"
| step: "sa_reach P a \<Longrightarrow> response_fits P r a \<Longrightarrow> sa_reach P (accumulate now r db a)"

text \<open>A property of rooms that one step of a room keeps holds of all rooms of a reachable accumulator.\<close>

locale room_invariant =
  fixes P :: "nat \<Rightarrow> join_data \<Rightarrow> bool" and Q :: "nat \<Rightarrow> joined_room \<Rightarrow> bool"
  assumes fresh: "Q mx new_joined_room"
    and kept: "Q mx r \<Longrightarrow> data_fits data r \<Longrightarrow> P mx data \<Longrightarrow> 0 < mx \<Longrightarrow> Q mx (accumulateJoinState mx now db data r)"
begin

definition all_rooms :: "accumulator \<Rightarrow> bool" where
  "all_rooms a \<longleftrightarrow> 0 < sa_max a \<and> (\<forall>i. Q (sa_max a) (room_of a i))"

lemma joins_kept:
  "all_rooms a \<Longrightarrow> distinct (map fst js) \<Longrightarrow>
   (\<And>i data. (i, data) \<in> set js \<Longrightarrow> data_fits data (room_of a i) \<and> P (sa_max a) data) \<Longrightarrow>
   all_rooms (fold (accumulate_join now db) js a)"
proof (induction js arbitrary: a)
  case (Cons j js)
  obtain i data where j: "j = (i, data)" by fastforce
  let ?a = "accumulate_join now db (i, data) a"
  have new: "sa_max ?a = sa_max a"
    "room_of ?a k = (if k = i then accumulateJoinState (sa_max a) now db data (room_of a i) else room_of a k)" for k
    by (simp_all add: accumulate_join_def room_of_def dict_simps Let_def)
  have "Q (sa_max a) (accumulateJoinState (sa_max a) now db data (room_of a i))"
    using Cons.prems(1,3) j by (intro kept) (auto simp: all_rooms_def)
  then have "all_rooms ?a" using Cons.prems(1) by (simp add: all_rooms_def new)
  moreover have "data_fits d (room_of ?a k) \<and> P (sa_max ?a) d" if "(k, d) \<in> set js" for k d
  proof -
    have "k \<noteq> i" using Cons.prems(2) j that by force
    then show ?thesis using Cons.prems(3) [of k d] that by (simp add: new)
  qed
  ultimately show ?case using Cons.IH [of ?a] Cons.prems(2) j by simp
qed simp

lemma invites_kept: "all_rooms a \<Longrightarrow> all_rooms (fold accumulate_invite is a) \<and>
    (\<forall>k. room_of (fold accumulate_invite is a) k = room_of a k) \<and> sa_max (fold accumulate_invite is a) = sa_max a"
proof (induction "is" arbitrary: a)
  case (Cons i "is")
  have "sa_joinRooms (accumulate_invite i a) = sa_joinRooms a" "sa_max (accumulate_invite i a) = sa_max a"
    by (cases i; simp add: accumulate_invite_def accumulateInviteState_def Let_def split: option.split)+
  then show ?case using Cons by (simp add: all_rooms_def room_of_def)
qed simp

lemma leaves_kept: "all_rooms a \<Longrightarrow> all_rooms (fold accumulate_leave is a)"
proof (induction "is" arbitrary: a)
  case (Cons i "is")
  have "all_rooms (accumulate_leave i a)"
    using Cons.prems fresh by (auto simp: all_rooms_def room_of_def accumulate_leave_def dict_simps)
  with Cons.IH show ?case by simp
qed simp

lemma groups_kept: "all_rooms a \<Longrightarrow> all_rooms (fold (accumulateGroup c) gs a)"
proof (induction gs arbitrary: a)
  case (Cons g gs)
  have "all_rooms (accumulateGroup c g a)"
    using Cons.prems by (cases g) (simp add: all_rooms_def room_of_def accumulateGroup_def Let_def)
  with Cons.IH show ?case by simp
qed simp

lemma accumulate_kept:
  assumes a: "all_rooms a" and fits: "response_fits P r a"
  shows "all_rooms (accumulate now r db a)"
proof -
  have "all_rooms (accumulateRooms now db r a)"
  proof (cases "sy_rooms r")
    case (Some rooms)
    let ?i = "fold accumulate_invite (sr_invite rooms) a"
    have i: "all_rooms ?i" "\<forall>k. room_of ?i k = room_of a k" "sa_max ?i = sa_max a"
      using invites_kept [OF a, of "sr_invite rooms"] by blast+
    have "all_rooms (fold (accumulate_join now db) (sr_join rooms) ?i)"
      using fits Some i by (intro joins_kept) (auto simp: response_fits_def dict_ok_def)
    with Some show ?thesis by (simp add: accumulateRooms_def leaves_kept)
  qed (simp add: accumulateRooms_def a)
  then have "all_rooms (accumulateGroups r (accumulateRooms now db r a))"
    by (simp add: accumulateGroups_def groups_kept split: option.split)
  then show ?thesis
    by (simp add: accumulate_def accumulateAccountData_def all_rooms_def room_of_def split: option.split)
qed

lemma reachable: "sa_reach P a \<Longrightarrow> all_rooms a"
proof (induction rule: sa_reach.induct)
  case (start n)
  then show ?case using fresh by (simp add: all_rooms_def room_of_def new_accumulator_def split: option.split)
next
  case (step a r now db)
  from accumulate_kept [OF step.IH step.hyps(2)] show ?case .
qed

end

interpretation room_states: room_invariant P "\<lambda>_. room_ok" for P
  by unfold_locales (simp_all add: room_ok_new room_ok_accumulate)

text \<open>A response within the limit: not more events than the limit, and a token when there are any.\<close>

definition within_limit :: "nat \<Rightarrow> join_data \<Rightarrow> bool" where
  "within_limit mx data \<longleftrightarrow>
     length (new_events data) \<le> mx \<and> (new_events data = [] \<or> truthy_str (new_token data))"

lemma with_tokens_Cons: "with_tokens tok (e # es) = (e, tok) # map (\<lambda>e. (e, None)) es"
proof -
  have "zip es (replicate (length es) None) = map (\<lambda>e. (e, None)) es" by (induction es) auto
  then show ?thesis by (simp add: with_tokens_def replicate_append_same [symmetric] del: replicate_append_same)
      (induction es, auto)
qed

lemma pruned_length:
  assumes "length old \<le> mx" and "length es \<le> mx" and "es = [] \<or> truthy_str tok"
  shows "length (prune_timeline mx (old @ with_tokens tok es)) \<le> mx"
proof (cases "mx < length (old @ with_tokens tok es)")
  case True
  obtain e rest where es: "es = e # rest" using True assms(1) by (cases es) (auto simp: with_tokens_def)
  let ?tml = "old @ with_tokens tok es" and ?n = "length (old @ with_tokens tok es) - mx"
  have len: "length (with_tokens tok es) = length es" by (simp add: with_tokens_def)
  have "(e, tok) \<in> set (drop ?n ?tml)"
    using assms(2) len by (simp add: es with_tokens_Cons)
  then have "dropWhile (\<lambda>(e, tok). \<not> truthy_str tok) (drop ?n ?tml) \<noteq> []"
    using assms(3) es by (auto simp: dropWhile_eq_Nil_conv)
  moreover have "length (dropWhile (\<lambda>(e, tok). \<not> truthy_str tok) (drop ?n ?tml)) \<le> length (drop ?n ?tml)"
    by (rule length_dropWhile_le)
  moreover have "length (drop ?n ?tml) \<le> mx" using True by simp
  ultimately show ?thesis using True by (simp add: prune_timeline_def Let_def)
qed (simp add: prune_timeline_def)

interpretation room_bound: room_invariant within_limit "\<lambda>mx r. length (jr_timeline r) \<le> mx"
proof
  fix mx now db data and r :: joined_room
  assume "length (jr_timeline r) \<le> mx" "within_limit mx data"
  then show "length (jr_timeline (accumulateJoinState mx now db data r)) \<le> mx"
    unfolding accumulateJoin_fields
    by (intro pruned_length) (auto simp: kept_timeline_def within_limit_def)
qed (simp add: new_joined_room_def)

lemma dget_room_json:
  "dget (map (room_json db now) rooms) i = map_option (\<lambda>r. snd (room_json db now (i, r))) (dget rooms i)"
  by (induction rooms) (auto simp: room_json_def split_beta Let_def)

text \<open>One response: a joined room with one state event in its timeline.\<close>

definition sample_state_event :: "rat \<Rightarrow> json" where
  "sample_state_event n = JObj [(''type'', JStr ''t''), (''state_key'', JStr ''k''), (''content'', JNum n)]"

definition sample_join_data :: join_data where
  "sample_join_data =
     \<lparr>jd_account_data = None, jd_unread = None, jd_summary = None, jd_ephemeral = None, jd_state = None,
      jd_timeline = Some \<lparr>td_events = Some [sample_state_event 1], td_limited = False, td_prev_batch = Some ''p''\<rparr>\<rparr>"

definition sample_response :: sync_response where
  "sample_response =
     \<lparr>sy_next_batch = Some ''b'', sy_rooms = Some \<lparr>sr_invite = [], sr_join = [(''r'', sample_join_data)], sr_leave = []\<rparr>,
      sy_account_data = None, sy_groups = None\<rparr>"

definition sample_accumulator :: accumulator where
  "sample_accumulator = accumulate 10 sample_response True (new_accumulator None)"

lemma sample_events: "new_events sample_join_data = [sample_state_event 1]" "new_token sample_join_data = Some ''p''"
  "jd_state sample_join_data = None"
  by (simp_all add: sample_join_data_def new_events_def new_token_def opt_list_def)

lemma sample_accumulator_reach: "sa_reach within_limit sample_accumulator"
  unfolding sample_accumulator_def
proof (rule sa_reach.step [OF sa_reach.start])
  have "data_fits sample_join_data (room_of (new_accumulator None) ''r'')"
    by (simp add: data_fits_def sample_events) (simp add: sample_state_event_def dict_ok_def)
  moreover have "within_limit 50 sample_join_data"
    by (simp add: within_limit_def sample_events truthy_str_def)
  ultimately show "response_fits within_limit sample_response (new_accumulator None)"
    by (simp add: response_fits_def sample_response_def dict_ok_def new_accumulator_def)
qed

definition sample_room :: joined_room where
  "sample_room = accumulateJoinState 50 10 True sample_join_data new_joined_room"

lemma sample_accumulator_room: "dget (sa_joinRooms sample_accumulator) ''r'' = Some sample_room"
  by (simp add: sample_accumulator_def accumulate_def accumulateAccountData_def accumulateGroups_def accumulateRooms_def
      sample_response_def accumulate_join_def new_accumulator_def sample_room_def)

lemma sample_accumulator_max: "sa_max sample_accumulator = 50"
  by (simp add: sample_accumulator_def accumulate_def accumulateAccountData_def accumulateGroups_def accumulateRooms_def
      sample_response_def accumulate_join_def new_accumulator_def Let_def)

lemma sample_room_state: "get2 (jr_currentState sample_room) ''t'' ''k'' = Some (sample_state_event 1)"
  by (simp add: sample_room_def accumulateJoin_fields sample_events opt_list_def get2_setState)
    (simp add: sample_state_event_def state_id_def)





text \<open>
  Outside those conditions. A count that drops to zero is not recorded, because zero is falsy; a state event that
  arrives beside a timeline continuing the stored one loses against an older timeline event of its key
  when the JSON is read back; and a single response may exceed the limit.
\<close>

lemma summary_zero_ignored:
  "jget (merge_summary (JObj [(''m.invited_member_count'', JNum 0)]) (JObj [(''m.invited_member_count'', JNum 1)]))
     ''m.invited_member_count'' = JNum 1"
  by (simp add: merge_summary_def summary_keys_def js_or_def)

lemma sample_room_timeline: "jr_timeline sample_room = [(sample_state_event 1, Some ''p'')]"
proof -
  have "kept_timeline sample_join_data new_joined_room = []"
    by (simp add: kept_timeline_def new_joined_room_def)
  then show ?thesis
    by (simp add: sample_room_def accumulateJoin_fields sample_events with_tokens_def stamp_event_def prune_timeline_def)
qed

lemma state_delta_lost:
  assumes "data = sample_join_data\<lparr>jd_state := Some [sample_state_event 2], jd_timeline := None\<rparr>"
    and "r = accumulateJoinState 50 0 True data sample_room"
    and "r' = accumulateJoinState 50 0 True (snd (room_json True 0 (''r'', r))) new_joined_room"
  shows "get2 (jr_currentState r) ''t'' ''k'' = Some (sample_state_event 2)"
    and "get2 (jr_currentState r') ''t'' ''k'' = Some (sample_state_event 1)"
proof -
  have id: "state_id (sample_state_event n) = Some (''t'', ''k'')" for n
    by (simp add: sample_state_event_def state_id_def)
  have ev: "new_events data = []" "jd_state data = Some [sample_state_event 2]"
    by (simp_all add: assms(1) new_events_def)
  have "kept_timeline data sample_room = [(sample_state_event 1, Some ''p'')]"
    by (simp add: assms(1) kept_timeline_def sample_room_timeline)
  then have tml: "jr_timeline r = [(sample_state_event 1, Some ''p'')]"
    by (simp add: assms(2) accumulateJoin_fields ev clobber_nil prune_timeline_def)
  show "get2 (jr_currentState r) ''t'' ''k'' = Some (sample_state_event 2)"
    by (simp add: assms(2) accumulateJoin_fields opt_list_def ev get2_setState id)
  have "json_events True 0 r = [sample_state_event 1]"
    by (simp add: json_events_def json_timeline_events tml truthy_str_def fresh_age_def)
  then show "get2 (jr_currentState r') ''t'' ''k'' = Some (sample_state_event 1)"
    by (simp add: assms(3) accumulateJoin_fields room_json_fields get2_setState id)
qed

lemma limit_exceeded:
  "length (jr_timeline (accumulateJoinState 1 0 True
     (sample_join_data\<lparr>jd_timeline := Some \<lparr>td_events = Some [sample_state_event 1, sample_state_event 2],
        td_limited = False, td_prev_batch = Some ''p''\<rparr>\<rparr>) new_joined_room)) = 2"
proof -
  have "length (prune_timeline 1 [(e, Some ''p''), (f, None)]) = 2" for e f
    by (simp add: prune_timeline_def truthy_str_def)
  then show ?thesis
    by (simp add: accumulateJoin_fields kept_timeline_def new_events_def new_token_def opt_list_def with_tokens_def
      new_joined_room_def)
qed

end
