(* ===== verification/Receipts.thy ===== *)
theory Receipts
  imports TimelineWindow Dict2
begin

text \<open>
  The read receipts of a room: \<open>addReceipt\<close> to \<open>addLocalEchoReceipt\<close> of
  \<^verbatim>\<open>src/models/room.ts\<close>. \<open>receipts\<close> holds the latest receipt of each type and user, \<open>realReceipts\<close>
  those that came from the server, and the cache lists the receipts of each event. Which of two receipts is later is
  asked of the unfiltered timeline set; \<open>None\<close> is a comparison that runs on for ever. A receipt
  content has the declared three levels of objects.
\<close>

section \<open>Operations\<close>

type_synonym receipt_map = "(string, string, string \<times> json) dict2"

record receipts =
  rc_receipts :: receipt_map
  rc_realReceipts :: receipt_map
  rc_cache :: "(string, (string \<times> string \<times> json) list) dict"
  rc_emitted :: "json list"

definition new_receipts :: receipts where
  "new_receipts = \<lparr>rc_receipts = [], rc_realReceipts = [], rc_cache = [], rc_emitted = []\<rparr>"

text \<open>The receipts of an event in the order of the loops: event id, type, user, data.\<close>

definition receipt_entries :: "json \<Rightarrow> (string \<times> string \<times> string \<times> json) list" where
  "receipt_entries content =
     concat (map (\<lambda>(eventId, types).
       concat (map (\<lambda>(receiptType, users).
         map (\<lambda>(userId, receipt). (eventId, receiptType, userId, receipt)) (entries users)) (entries types)))
       (entries content))"

definition add_one_receipt ::
  "nat \<Rightarrow> timeline_set \<Rightarrow> string \<times> string \<times> string \<times> json \<Rightarrow> receipt_map \<Rightarrow> receipt_map option" where
  "add_one_receipt fuel s = (\<lambda>(eventId, receiptType, userId, receipt) rs.
     let stored = put2 receiptType userId (eventId, receipt) rs
     in case get2 rs receiptType userId of
          None \<Rightarrow> Some stored
        | Some (existing, _) \<Rightarrow>
            (case compareEventOrdering fuel (Some existing) (Some eventId) s of
               OrderDiverges \<Rightarrow> None
             | OrderBy n \<Rightarrow> Some (if 0 \<le> n then rs else stored)
             | _ \<Rightarrow> Some stored))"

fun add_receipts :: "nat \<Rightarrow> timeline_set \<Rightarrow> (string \<times> string \<times> string \<times> json) list \<Rightarrow> receipt_map \<Rightarrow> receipt_map option" where
  "add_receipts fuel s [] rs = Some rs"
| "add_receipts fuel s (x # xs) rs =
     (case add_one_receipt fuel s x rs of None \<Rightarrow> None | Some rs' \<Rightarrow> add_receipts fuel s xs rs')"

definition addReceiptsToStructure :: "nat \<Rightarrow> timeline_set \<Rightarrow> json \<Rightarrow> receipt_map \<Rightarrow> receipt_map option" where
  "addReceiptsToStructure fuel s content rs = add_receipts fuel s (receipt_entries content) rs"

definition cache_one ::
  "string \<times> string \<times> string \<times> json \<Rightarrow> (string, (string \<times> string \<times> json) list) dict \<Rightarrow>
   (string, (string \<times> string \<times> json) list) dict" where
  "cache_one = (\<lambda>(receiptType, userId, eventId, d) cache.
     dset eventId ((case dget cache eventId of Some rs \<Rightarrow> rs | None \<Rightarrow> []) @ [(userId, receiptType, d)]) cache)"

definition buildReceiptCache :: "receipt_map \<Rightarrow> (string, (string \<times> string \<times> json) list) dict" where
  "buildReceiptCache rs = fold cache_one (items2 rs) []"

definition addReceipt :: "nat \<Rightarrow> timeline_set \<Rightarrow> json \<Rightarrow> bool \<Rightarrow> receipts \<Rightarrow> receipts option" where
  "addReceipt fuel s ev fake r =
     (let content = jget ev ''content'' in
      case (if fake then Some (rc_realReceipts r) else addReceiptsToStructure fuel s content (rc_realReceipts r)) of
        None \<Rightarrow> None
      | Some reals \<Rightarrow>
          (case addReceiptsToStructure fuel s content (rc_receipts r) of
             None \<Rightarrow> None
           | Some rs \<Rightarrow>
               Some (r\<lparr>rc_realReceipts := reals, rc_receipts := rs, rc_cache := buildReceiptCache rs,
                       rc_emitted := rc_emitted r @ [ev]\<rparr>)))"

definition synthesizeReceipt :: "string \<Rightarrow> mx_event \<Rightarrow> string \<Rightarrow> json" where
  "synthesizeReceipt userId ev receiptType =
     (let ts = (case getTs ev of Some n \<Rightarrow> JNum n | None \<Rightarrow> JUndef);
          eventId = (case getId ev of Some i \<Rightarrow> i | None \<Rightarrow> ''undefined'')
      in JObj [(''content'', JObj [(eventId, JObj [(receiptType, JObj [(userId, JObj [(''ts'', ts)])])])]),
               (''type'', JStr ''m.receipt''), (''room_id'', of_str (getRoomId ev))])"

definition addLocalEchoReceipt ::
  "nat \<Rightarrow> timeline_set \<Rightarrow> string \<Rightarrow> mx_event \<Rightarrow> string \<Rightarrow> receipts \<Rightarrow> receipts option" where
  "addLocalEchoReceipt fuel s userId ev receiptType r =
     addReceipt fuel s (synthesizeReceipt userId ev receiptType) True r"

definition getReceiptsForEvent :: "string option \<Rightarrow> receipts \<Rightarrow> (string \<times> string \<times> json) list" where
  "getReceiptsForEvent eventId r =
     (case eventId of Some i \<Rightarrow> (case dget (rc_cache r) i of Some rs \<Rightarrow> rs | None \<Rightarrow> []) | None \<Rightarrow> [])"

definition getUsersReadUpTo :: "string option \<Rightarrow> receipts \<Rightarrow> string list" where
  "getUsersReadUpTo eventId r =
     map fst (filter (\<lambda>(userId, receiptType, d). receiptType = ''m.read'') (getReceiptsForEvent eventId r))"

definition getEventReadUpTo :: "string \<Rightarrow> bool \<Rightarrow> receipts \<Rightarrow> string option" where
  "getEventReadUpTo userId ignoreSynthesized r =
     map_option fst (get2 (if ignoreSynthesized then rc_realReceipts r else rc_receipts r) ''m.read'' userId)"

text \<open>Walking up from the latest event: whichever of the two ids comes first decides.\<close>

fun read_walk :: "string \<Rightarrow> string option \<Rightarrow> mx_event list \<Rightarrow> bool" where
  "read_walk eventId readUpToId [] = False"
| "read_walk eventId readUpToId (ev # evs) =
     (if getId ev = Some eventId then False
      else if getId ev = readUpToId then True
      else read_walk eventId readUpToId evs)"

definition hasUserReadEvent :: "string \<Rightarrow> string \<Rightarrow> mx_event list \<Rightarrow> receipts \<Rightarrow> bool" where
  "hasUserReadEvent userId eventId events r =
     (let readUpToId = getEventReadUpTo userId False r in
      if readUpToId = Some eventId then True
      else if events \<noteq> [] \<and> getSender (last events) = Some userId \<and> userId \<noteq> [] then True
      else read_walk eventId readUpToId (rev events))"

section \<open>The cache is the inverse of the receipts\<close>

lemma cache_one_get:
  "(case dget (cache_one (ty, u, ev, d) cache) i of Some rs \<Rightarrow> rs | None \<Rightarrow> []) =
   (case dget cache i of Some rs \<Rightarrow> rs | None \<Rightarrow> []) @ (if i = ev then [(u, ty, d)] else [])"
  by (simp add: cache_one_def dict_simps)

lemma cache_fold:
  "(case dget (fold cache_one xs cache) i of Some rs \<Rightarrow> rs | None \<Rightarrow> []) =
   (case dget cache i of Some rs \<Rightarrow> rs | None \<Rightarrow> []) @
     map (\<lambda>(ty, u, ev, d). (u, ty, d)) (filter (\<lambda>(ty, u, ev, d). ev = i) xs)"
proof (induction xs arbitrary: cache)
  case (Cons x xs)
  obtain ty u ev d where x: "x = (ty, u, ev, d)" by (metis prod_cases4)
  show ?case unfolding x fold_Cons comp_apply Cons.IH cache_one_get by simp
qed simp

lemma items2_keys:
  "distinct (map fst m) \<Longrightarrow> \<forall>(j, d) \<in> set m. distinct (map fst d) \<Longrightarrow>
   distinct (map (\<lambda>(j, k, v). (j, k)) (items2 m)) \<and>
   (\<forall>p \<in> set (map (\<lambda>(j, k, v). (j, k)) (items2 m)). fst p \<in> fst ` set m)"
proof (induction m)
  case (Cons a m)
  obtain j d where a: "a = (j, d)" by fastforce
  let ?here = "map (\<lambda>k. (j, k)) (map fst d)" and ?there = "map (\<lambda>(j, k, v). (j, k)) (items2 m)"
  have it: "map (\<lambda>(j, k, v). (j, k)) (items2 (a # m)) = ?here @ ?there"
    by (simp add: items2_def a comp_def split_beta)
  have here: "distinct ?here" "\<forall>p \<in> set ?here. fst p = j"
    using Cons.prems(2) a by (auto simp: distinct_map inj_on_def)
  have there: "distinct ?there" "\<forall>p \<in> set ?there. fst p \<in> fst ` set m"
    using Cons.IH Cons.prems by simp_all
  have "j \<notin> fst ` set m" using Cons.prems(1) a by simp
  then have "set ?here \<inter> set ?there = {}" using here(2) there(2) by (metis disjoint_iff)
  then show ?case
    using here there unfolding it distinct_append set_append by (auto simp: a)
qed (simp add: items2_def)

lemma distinct_items2: "dict2_ok m \<Longrightarrow> distinct (map (\<lambda>(j, k, v). (j, k)) (items2 m))"
  using items2_keys [of m] by (auto simp: dict2_ok_def dict_ok_def)

text \<open>Receipts that any sequence of receipt events leads to, whatever the timeline set at the time.\<close>

inductive rc_reach :: "receipts \<Rightarrow> bool" where
  start: "rc_reach new_receipts"
| step: "rc_reach r \<Longrightarrow> addReceipt fuel s ev fake r = Some r' \<Longrightarrow> rc_reach r'"

lemma add_one_ok: "add_one_receipt fuel s x rs = Some rs' \<Longrightarrow> dict2_ok rs \<Longrightarrow> dict2_ok rs'"
  by (cases x) (auto simp: add_one_receipt_def Let_def dict2_ok_put2 split: option.splits ordering_result.splits if_splits)

lemma add_receipts_ok: "add_receipts fuel s xs rs = Some rs' \<Longrightarrow> dict2_ok rs \<Longrightarrow> dict2_ok rs'"
  by (induction xs arbitrary: rs) (auto split: option.splits dest: add_one_ok)

lemma addReceipt_result:
  assumes "addReceipt fuel s ev fake r = Some r'"
  shows "addReceiptsToStructure fuel s (jget ev ''content'') (rc_receipts r) = Some (rc_receipts r')"
    and "rc_cache r' = buildReceiptCache (rc_receipts r')"
  using assms by (auto simp: addReceipt_def Let_def split: option.splits)

lemma rc_reach_ok: "rc_reach r \<Longrightarrow> dict2_ok (rc_receipts r) \<and> rc_cache r = buildReceiptCache (rc_receipts r)"
proof (induction rule: rc_reach.induct)
  case start
  then show ?case by (simp add: new_receipts_def dict2_ok_def dict_ok_def buildReceiptCache_def items2_def)
next
  case (step r fuel s ev fake r')
  then show ?case
    using addReceipt_result [OF step.hyps(2)] add_receipts_ok by (auto simp: addReceiptsToStructure_def)
qed

text \<open>A synthesized receipt of a user for the only event of a timeline.\<close>

definition sample_receipt :: json where
  "sample_receipt =
     JObj [(''content'', JObj [(''$2'', JObj [(''m.read'', JObj [(''@u'', JObj [])])])]), (''type'', JStr ''m.receipt'')]"

definition sample_receipts :: receipts where
  "sample_receipts = (case addReceipt 9 sample_set sample_receipt True new_receipts of Some r \<Rightarrow> r | None \<Rightarrow> new_receipts)"

lemma sample_receipts_add: "addReceipt 9 sample_set sample_receipt True new_receipts = Some sample_receipts"
  by (simp add: sample_receipts_def addReceipt_def addReceiptsToStructure_def sample_receipt_def receipt_entries_def
      new_receipts_def add_one_receipt_def get2_def Let_def)

lemma sample_receipts_get: "get2 (rc_receipts sample_receipts) ''m.read'' ''@u'' = Some (''$2'', JObj [])"
  using addReceipt_result(1) [OF sample_receipts_add]
  by (simp add: addReceiptsToStructure_def sample_receipt_def receipt_entries_def add_one_receipt_def new_receipts_def
      get2_def Let_def put2_def) (drule sym, simp)

lemma sample_receipts_reach: "rc_reach sample_receipts"
  by (rule rc_reach.step [OF rc_reach.start sample_receipts_add])

text \<open>
  C36. The receipts listed for an event are exact: after any sequence of receipts a user's receipt of a type is listed for an event if and
  only if it is the current receipt of that user and type and points to that event, and no receipt is listed
  twice. So every user appears under one event only for each type.
\<close>

theorem receipt_cache_exact:
  assumes "rc_reach r"
  shows "((userId, receiptType, d) \<in> set (getReceiptsForEvent (Some i) r) \<longleftrightarrow>
      get2 (rc_receipts r) receiptType userId = Some (i, d)) \<and>
    distinct (map (\<lambda>(u, ty, d). (ty, u)) (getReceiptsForEvent (Some i) r))"
proof -
  let ?rs = "rc_receipts r" and ?at = "\<lambda>(ty, u, ev, d :: json). ev = i"
  have ok: "dict2_ok ?rs" and cache: "rc_cache r = buildReceiptCache ?rs" using rc_reach_ok [OF assms] by simp_all
  have list: "getReceiptsForEvent (Some i) r = map (\<lambda>(ty, u, ev, d). (u, ty, d)) (filter ?at (items2 ?rs))"
    using cache_fold [of "items2 ?rs" "[]" i] by (simp add: getReceiptsForEvent_def cache buildReceiptCache_def)
  have "(userId, receiptType, d) \<in> set (getReceiptsForEvent (Some i) r) \<longleftrightarrow> (receiptType, userId, i, d) \<in> set (items2 ?rs)"
    unfolding list by force
  moreover have "distinct (map (\<lambda>(u, ty, d). (ty, u)) (getReceiptsForEvent (Some i) r))"
  proof -
    have "map (\<lambda>(u, ty, d). (ty, u)) (getReceiptsForEvent (Some i) r) = map (\<lambda>(ty, u, v). (ty, u)) (filter ?at (items2 ?rs))"
      unfolding list by (simp add: comp_def split_beta)
    then show ?thesis using distinct_map_filter [OF distinct_items2 [OF ok]] by simp
  qed
  ultimately show ?thesis by (simp add: items2_get2 [OF ok])
qed

theorem receipt_cache_exact_witness:
  "getReceiptsForEvent (Some ''$2'') sample_receipts \<noteq> [] \<and>
   distinct (map (\<lambda>(u, ty, d). (ty, u)) (getReceiptsForEvent (Some ''$2'') sample_receipts))"
proof -
  have "(''@u'', ''m.read'', JObj []) \<in> set (getReceiptsForEvent (Some ''$2'') sample_receipts)"
    using receipt_cache_exact [OF sample_receipts_reach, of "''@u''" "''m.read''" "JObj []" "''$2''"] sample_receipts_get
    by blast
  then show ?thesis
    using receipt_cache_exact [OF sample_receipts_reach, of "''@u''" "''m.read''" "JObj []" "''$2''"] by auto
qed

section \<open>Receipts only move forward\<close>

lemma compare_positions:
  assumes ok: "set_ok s" and t: "dget (ts_index s) (Some a) = Some t" "dget (ts_index s) (Some b) = Some t"
  obtains p q where "p < length (ids_at s t)" "q < length (ids_at s t)" "ids_at s t ! p = Some a" "ids_at s t ! q = Some b"
    "compareEventOrdering fuel (Some a) (Some b) s = OrderBy (int p - int q)"
proof -
  let ?evs = "tl_events (timeline_at s t)"
  have mem: "Some a \<in> set (ids_at s t)" "Some b \<in> set (ids_at s t)" and dist: "distinct (map getId ?evs)"
    using ok t unfolding set_ok_def index_ok_def by (auto simp: ids_at_def)
  obtain p q where p: "p < length ?evs" "getId (?evs ! p) = Some a" and q: "q < length ?evs" "getId (?evs ! q) = Some b"
    using id_position [OF mem(1)] id_position [OF mem(2)] by blast
  have "compareEventOrdering fuel (Some a) (Some b) s = OrderBy (int p - int q)"
  proof (cases "a = b")
    case True
    then have "map getId ?evs ! p = map getId ?evs ! q" using p q by simp
    then have "p = q" using nth_eq_iff_index_eq [OF dist] p(1) q(1) by simp
    with True show ?thesis by (simp add: compareEventOrdering_def)
  next
    case False
    then have "p \<noteq> q" using p q by auto
    then have "find_both (Some a) (Some b) ?evs 0 None None = (Some p, Some q)"
      using find_both_spec [OF dist p(1) q(1), of 0] p(2) q(2) by simp
    then show ?thesis using False t by (simp add: compareEventOrdering_def)
  qed
  with p q show ?thesis by (intro that [of p q]) (simp_all add: ids_at_def)
qed

text \<open>The receipt of a user points into the timeline, at the position \<open>p\<close> or later.\<close>

definition receipt_from :: "timeline_set \<Rightarrow> nat \<Rightarrow> nat \<Rightarrow> string \<Rightarrow> string \<Rightarrow> receipt_map \<Rightarrow> bool" where
  "receipt_from s t p ty u rs \<longleftrightarrow>
     (\<exists>i d q. get2 rs ty u = Some (i, d) \<and> p \<le> q \<and> q < length (ids_at s t) \<and> ids_at s t ! q = Some i)"

lemma add_one_forward:
  assumes ok: "set_ok s" and t: "dget (ts_index s) (Some i) = Some t" and here: "receipt_from s t p ty u rs"
    and add: "add_one_receipt fuel s (i, ty', u', d) rs = Some rs'"
  shows "receipt_from s t p ty u rs'"
proof (cases "ty' = ty \<and> u' = u")
  case False
  then have "get2 (put2 ty' u' v rs) ty u = get2 rs ty u" for v by (auto simp: dict_simps)
  then have "get2 rs' ty u = get2 rs ty u"
    using add by (auto simp: add_one_receipt_def Let_def split: option.splits ordering_result.splits if_splits)
  with here show ?thesis by (simp add: receipt_from_def)
next
  case True
  obtain i0 d0 q0 where e: "get2 rs ty u = Some (i0, d0)" "p \<le> q0" "q0 < length (ids_at s t)" "ids_at s t ! q0 = Some i0"
    using here by (auto simp: receipt_from_def)
  have t0: "dget (ts_index s) (Some i0) = Some t"
    using ok t e(3,4) unfolding set_ok_def index_ok_def by (metis nth_mem)
  have dist: "distinct (ids_at s t)" using ok t unfolding set_ok_def index_ok_def by blast
  obtain a b where ab: "a < length (ids_at s t)" "b < length (ids_at s t)" "ids_at s t ! a = Some i0" "ids_at s t ! b = Some i"
    "compareEventOrdering fuel (Some i0) (Some i) s = OrderBy (int a - int b)"
    using compare_positions [OF ok t0 t] .
  have "a = q0" using dist ab(1,3) e(3,4) by (metis nth_eq_iff_index_eq)
  then have res: "rs' = (if b \<le> q0 then rs else put2 ty u (i, d) rs)"
    using add True e(1) ab(5) by (auto simp: add_one_receipt_def Let_def)
  show ?thesis
  proof (cases "b \<le> q0")
    case True
    with res here show ?thesis by simp
  next
    case False
    then have "p \<le> b" using e(2) by simp
    with False res ab(2,4) show ?thesis by (auto simp: receipt_from_def dict_simps)
  qed
qed

lemma add_receipts_forward:
  assumes "set_ok s"
  shows "add_receipts fuel s xs rs = Some rs' \<Longrightarrow> \<forall>(i, x) \<in> set xs. dget (ts_index s) (Some i) = Some t \<Longrightarrow>
    receipt_from s t p ty u rs \<Longrightarrow> receipt_from s t p ty u rs'"
proof (induction xs arbitrary: rs)
  case (Cons x xs)
  obtain i ty' u' d where x: "x = (i, ty', u', d)" by (metis prod_cases4)
  obtain rs1 where rs1: "add_one_receipt fuel s x rs = Some rs1" "add_receipts fuel s xs rs1 = Some rs'"
    using Cons.prems(1) by (auto split: option.splits)
  have "receipt_from s t p ty u rs1"
    using add_one_forward [OF assms _ Cons.prems(3) rs1(1) [unfolded x]] Cons.prems(2) x by simp
  with Cons.IH [OF rs1(2)] Cons.prems(2) show ?case by simp
qed simp

lemma add_receipts_total:
  assumes "set_ok s" "chain_order s f" "length (ts_store s) + 1 < fuel"
  shows "add_receipts fuel s xs rs \<noteq> None"
proof (induction xs arbitrary: rs)
  case (Cons x xs)
  have "add_one_receipt fuel s x rs \<noteq> None"
    using compare_answers [OF assms] by (auto simp: add_one_receipt_def Let_def split: prod.split option.split ordering_result.split)
  then show ?case using Cons.IH by (auto split: option.split)
qed simp


lemma sample_set_id: "getId sample_redaction = Some ''$2''"
  by (simp add: sample_redaction_def getId_def new_event_def)

lemma sample_set_index: "dget (ts_index sample_set) (Some ''$2'') = Some 0" "ids_at sample_set 0 = [Some ''$2'']"
proof -
  show ids: "ids_at sample_set 0 = [Some ''$2'']"
    using sample_set_events by (simp add: ids_at_def sample_set_id)
  have "index_ok sample_set" using set_ok_reachable [OF sample_set_reachable] by (simp add: set_ok_def)
  then show "dget (ts_index sample_set) (Some ''$2'') = Some 0"
    using ids sample_set_events unfolding index_ok_def by simp
qed


text \<open>
  \<open>hasUserReadEvent\<close> for a user who did not send the latest event: of the last occurrences of the two ids in
  the timeline, that of the receipt is the later one.
\<close>

lemma read_walk_spec:
  "read_walk i j evs \<longleftrightarrow>
     (\<exists>xs e ys. evs = xs @ e # ys \<and> getId e = j \<and> j \<noteq> Some i \<and> (\<forall>x \<in> set (xs @ [e]). getId x \<noteq> Some i))"
proof (induction evs)
  case (Cons a evs)
  show ?case
  proof (cases "getId a = Some i")
    case True
    have "\<not> (\<exists>xs e ys. a # evs = xs @ e # ys \<and> (\<forall>x \<in> set (xs @ [e]). getId x \<noteq> Some i))"
    proof
      assume "\<exists>xs e ys. a # evs = xs @ e # ys \<and> (\<forall>x \<in> set (xs @ [e]). getId x \<noteq> Some i)"
      then obtain xs e ys where "a # evs = xs @ e # ys" "\<forall>x \<in> set (xs @ [e]). getId x \<noteq> Some i" by blast
      with True show False by (cases xs) auto
    qed
    with True show ?thesis by auto
  next
    case ne: False
    show ?thesis
    proof (cases "getId a = j")
      case True
      then have "a # evs = [] @ a # evs \<and> getId a = j \<and> j \<noteq> Some i \<and> (\<forall>x \<in> set ([] @ [a]). getId x \<noteq> Some i)"
        using ne by simp
      with True ne show ?thesis by (simp only: read_walk.simps if_True if_False) blast
    next
      case False
      have "(\<exists>xs e ys. a # evs = xs @ e # ys \<and> getId e = j \<and> j \<noteq> Some i \<and> (\<forall>x \<in> set (xs @ [e]). getId x \<noteq> Some i)) \<longleftrightarrow>
        (\<exists>xs e ys. evs = xs @ e # ys \<and> getId e = j \<and> j \<noteq> Some i \<and> (\<forall>x \<in> set (xs @ [e]). getId x \<noteq> Some i))" (is "?l \<longleftrightarrow> ?r")
      proof
        assume ?l
        then obtain xs e ys where l: "a # evs = xs @ e # ys" "getId e = j" "j \<noteq> Some i" "\<forall>x \<in> set (xs @ [e]). getId x \<noteq> Some i"
          by blast
        with False obtain xs' where "xs = a # xs'" by (cases xs) auto
        with l show ?r by auto
      next
        assume ?r
        then obtain xs e ys where r: "evs = xs @ e # ys" "getId e = j" "j \<noteq> Some i" "\<forall>x \<in> set (xs @ [e]). getId x \<noteq> Some i"
          by blast
        then have "a # evs = (a # xs) @ e # ys" "\<forall>x \<in> set ((a # xs) @ [e]). getId x \<noteq> Some i" using ne by auto
        with r(2,3) show ?l by blast
      qed
      with Cons.IH ne False show ?thesis by simp
    qed
  qed
qed simp

end
