(* ===== verification/PendingEvents.thy ===== *)
theory PendingEvents
  imports TimelineSet
begin

text \<open>
  The outgoing events of a room: the pending event list, the transaction ids and the transitions of the
  sending status of \<^verbatim>\<open>src/models/room.ts\<close>. Event objects are shared between the list, the
  transaction map and the timelines of several sets, so they live in a heap and the list and the map hold
  addresses; a change of an object is a change of the heap and of the copies in the timelines.
  An operation that throws returns the message (without the values that the code appends to it) and the state at that point. \<open>enc\<close> is what the client answers to
  \<open>isRoomEncrypted\<close>; \<open>threads\<close> to \<open>supportsExperimentalThreads\<close>.
\<close>

section \<open>State\<close>

datatype room_emission =
    LocalEchoUpdated nat "string option" "event_status option"
  | Redaction nat
  | RedactionCancelled nat

record pending_room =
  pr_roomId :: string
  pr_heap :: "nat \<Rightarrow> mx_event"
  pr_pending :: "nat list option"
  pr_txnToEvent :: "(string, nat) dict"
  pr_sets :: "timeline_set list"
  pr_saved :: "json list option"
  pr_emitted :: "room_emission list"

definition pr_emit :: "room_emission \<Rightarrow> pending_room \<Rightarrow> pending_room" where
  "pr_emit em r = r\<lparr>pr_emitted := pr_emitted r @ [em]\<rparr>"

text \<open>Assigning to the object at an address: every timeline that holds it sees the change.\<close>

definition share_event :: "nat \<Rightarrow> mx_event \<Rightarrow> timeline_set \<Rightarrow> timeline_set" where
  "share_event a ev s =
     s\<lparr>ts_store := map (\<lambda>t. t\<lparr>tl_events := map (\<lambda>e. if ev_ref e = a then ev else e) (tl_events t)\<rparr>) (ts_store s)\<rparr>"

definition mutate :: "nat \<Rightarrow> (mx_event \<Rightarrow> mx_event) \<Rightarrow> pending_room \<Rightarrow> pending_room" where
  "mutate a f r =
     (let ev = f (pr_heap r a)
      in r\<lparr>pr_heap := (pr_heap r)(a := ev), pr_sets := map (share_event a ev) (pr_sets r)\<rparr>)"

definition unfiltered_set :: "pending_room \<Rightarrow> timeline_set" where
  "unfiltered_set r = hd (pr_sets r)"

text \<open>A loop over the timeline sets; an exception leaves the remaining sets as they are.\<close>

fun each_set :: "(timeline_set \<Rightarrow> string option \<times> timeline_set) \<Rightarrow> timeline_set list \<Rightarrow> string option \<times> timeline_set list" where
  "each_set f [] = (None, [])"
| "each_set f (s # ss) =
     (case f s of
        (Some err, s') \<Rightarrow> (Some err, s' # ss)
      | (None, s') \<Rightarrow> let (err, ss') = each_set f ss in (err, s' # ss'))"

definition for_sets :: "(timeline_set \<Rightarrow> string option \<times> timeline_set) \<Rightarrow> pending_room \<Rightarrow> string option \<times> pending_room" where
  "for_sets f r = (let (err, ss) = each_set f (pr_sets r) in (err, r\<lparr>pr_sets := ss\<rparr>))"

text \<open>\<open>if (filter) \{ if (filter.filterRoomTimeline([event]).length) ... \} else ...\<close>\<close>

definition if_filtered :: "mx_event \<Rightarrow> (timeline_set \<Rightarrow> timeline_set) \<Rightarrow> timeline_set \<Rightarrow> string option \<times> timeline_set" where
  "if_filtered ev f s =
     (case apply_filter s [ev] of
        None \<Rightarrow> (Some ''TypeError'', s)
      | Some [] \<Rightarrow> (None, s)
      | Some _ \<Rightarrow> (None, f s))"

section \<open>The list\<close>

definition rm_getPendingEvents :: "pending_room \<Rightarrow> string + nat list" where
  "rm_getPendingEvents r =
     (case pr_pending r of
        None \<Rightarrow> Inl ''Cannot call getPendingEvents''
      | Some l \<Rightarrow> Inr l)"

definition hasPendingEvent :: "string option \<Rightarrow> pending_room \<Rightarrow> bool" where
  "hasPendingEvent eventId r =
     (case pr_pending r of None \<Rightarrow> False | Some l \<Rightarrow> list_ex (\<lambda>a. getId (pr_heap r a) = eventId) l)"

definition getPendingEvent :: "string option \<Rightarrow> pending_room \<Rightarrow> nat option" where
  "getPendingEvent eventId r =
     (case pr_pending r of None \<Rightarrow> None | Some l \<Rightarrow> List.find (\<lambda>a. getId (pr_heap r a) = eventId) l)"

text \<open>What is written to storage: in an encrypted room the encrypted events only.\<close>

definition serialize_pending :: "mx_event \<Rightarrow> json" where
  "serialize_pending ev = json_clean (set_prop ''txn_id'' (of_str (txnId ev)) (event ev))"

definition savePendingEvents :: "bool \<Rightarrow> pending_room \<Rightarrow> pending_room" where
  "savePendingEvents enc r =
     (case pr_pending r of
        None \<Rightarrow> r
      | Some l \<Rightarrow>
          r\<lparr>pr_saved :=
             (if l = [] then None
              else Some (filter (\<lambda>j. jget j ''type'' = JStr ''m.room.encrypted'' \<or> \<not> enc)
                     (map (serialize_pending \<circ> pr_heap r) l)))\<rparr>)"

fun drop_first :: "(nat \<Rightarrow> bool) \<Rightarrow> nat list \<Rightarrow> nat list" where
  "drop_first p [] = []"
| "drop_first p (a # l) = (if p a then l else a # drop_first p l)"

definition removePendingEvent :: "bool \<Rightarrow> string option \<Rightarrow> pending_room \<Rightarrow> (string + bool) \<times> pending_room" where
  "removePendingEvent enc eventId r =
     (case pr_pending r of
        None \<Rightarrow> (Inl ''Cannot call removePendingEvent'', r)
      | Some l \<Rightarrow>
          (Inr (list_ex (\<lambda>a. getId (pr_heap r a) = eventId) l), savePendingEvents enc
             (r\<lparr>pr_pending := Some (drop_first (\<lambda>a. getId (pr_heap r a) = eventId) l)\<rparr>)))"

definition aggregateNonLiveRelation :: "nat \<Rightarrow> pending_room \<Rightarrow> string option \<times> pending_room" where
  "aggregateNonLiveRelation a r =
     (let ev = pr_heap r a in for_sets (if_filtered ev (aggregateRelations ev)) r)"

section \<open>Adding a pending event\<close>

text \<open>The object that a redaction points to: a pending event, or one of the unfiltered set.\<close>

definition redacted_object :: "nat \<Rightarrow> pending_room \<Rightarrow> nat option" where
  "redacted_object a r =
     (let redactId = as_str (jget (event (pr_heap r a)) ''redacts'') in
      case (case pr_pending r of None \<Rightarrow> None | Some l \<Rightarrow> List.find (\<lambda>b. getId (pr_heap r b) = redactId) l) of
        Some b \<Rightarrow> Some b
      | None \<Rightarrow> map_option ev_ref (findEventById redactId (unfiltered_set r)))"

definition set_metadata :: "(string \<Rightarrow> string) \<Rightarrow> nat \<Rightarrow> nat \<Rightarrow> pending_room \<Rightarrow> pending_room" where
  "set_metadata unh now a r =
     (let s = unfiltered_set r;
          (ev, st) = setEventMetadata unh now (getState Forward (timeline_at s (ts_live s))) False (pr_heap r a);
          s' = put_timeline (ts_live s) (set_state Forward st (timeline_at s (ts_live s))) s
      in mutate a (\<lambda>_. ev) (r\<lparr>pr_sets := s' # tl (pr_sets r)\<rparr>))"

text \<open>The event joins the pending list, as not sent when another one is; its relation and its redaction show at once.\<close>

definition redact_locally :: "nat \<Rightarrow> pending_room \<Rightarrow> pending_room" where
  "redact_locally a r =
     (if isRedaction (pr_heap r a)
      then (case redacted_object a r of
              Some b \<Rightarrow> pr_emit (Redaction a) (mutate b (markLocallyRedacted (pr_heap r a)) r)
            | None \<Rightarrow> r)
      else r)"

definition push_pending :: "bool \<Rightarrow> nat \<Rightarrow> nat list \<Rightarrow> pending_room \<Rightarrow> pending_room" where
  "push_pending enc a l r =
     (let r1 = (if list_ex (\<lambda>b. status (pr_heap r b) = Some NOT_SENT) l
                then mutate a (setStatus (Some NOT_SENT)) r else r)
      in savePendingEvents enc (r1\<lparr>pr_pending := Some (l @ [a])\<rparr>))"

definition add_detached :: "bool \<Rightarrow> nat \<Rightarrow> nat list \<Rightarrow> pending_room \<Rightarrow> string option \<times> pending_room" where
  "add_detached enc a l r =
     (let r1 = push_pending enc a l r;
          (err, r2) = (if isRelation None (pr_heap r1 a) then aggregateNonLiveRelation a r1 else (None, r1))
      in if err \<noteq> None then (err, r2) else (None, redact_locally a r2))"

definition add_chronological :: "(string \<Rightarrow> string) \<Rightarrow> nat \<Rightarrow> nat \<Rightarrow> pending_room \<Rightarrow> string option \<times> pending_room" where
  "add_chronological unh now a r =
     for_sets (\<lambda>s. if_filtered (pr_heap r a)
       (\<lambda>s. snd (addEventToTimeline unh now (pr_heap r a) (ts_live s) False False None s)) s) r"

definition addPendingEvent ::
  "(string \<Rightarrow> string) \<Rightarrow> nat \<Rightarrow> bool \<Rightarrow> bool \<Rightarrow> nat \<Rightarrow> string \<Rightarrow> pending_room \<Rightarrow> string option \<times> pending_room" where
  "addPendingEvent unh now enc threads a txn r =
     (let ev = pr_heap r a in
      if threads \<and> truthy (threadRootId ev) then (None, r)
      else if status ev \<noteq> Some SENDING \<and> status ev \<noteq> Some NOT_SENT
        then (Some ''addPendingEvent called on an event with status'', r)
      else if dget (pr_txnToEvent r) txn \<noteq> None
        then (Some ''addPendingEvent called on an event with known txnId'', r)
      else
        let r1 = set_metadata unh now a r;
            r2 = r1\<lparr>pr_txnToEvent := dset txn a (pr_txnToEvent r1)\<rparr>;
            (err, r3) = (case pr_pending r2 of
                           Some l \<Rightarrow> add_detached enc a l r2
                         | None \<Rightarrow> add_chronological unh now a r2)
        in if err \<noteq> None then (err, r3) else (None, pr_emit (LocalEchoUpdated a None None) r3))"

section \<open>Progress of a pending event\<close>

definition ALLOWED_TRANSITIONS :: "event_status \<Rightarrow> event_status list" where
  "ALLOWED_TRANSITIONS st =
     (case st of
        ENCRYPTING \<Rightarrow> [SENDING, NOT_SENT]
      | SENDING \<Rightarrow> [ENCRYPTING, QUEUED, NOT_SENT, SENT]
      | QUEUED \<Rightarrow> [SENDING, CANCELLED]
      | SENT \<Rightarrow> []
      | NOT_SENT \<Rightarrow> [SENDING, QUEUED, CANCELLED]
      | CANCELLED \<Rightarrow> [])"

definition revertRedactionLocalEcho :: "mx_event \<Rightarrow> pending_room \<Rightarrow> string option \<times> pending_room" where
  "revertRedactionLocalEcho redactionEvent r =
     (let redactId = jget (event redactionEvent) ''redacts'' in
      if \<not> truthy redactId then (None, r)
      else case findEventById (as_str redactId) (unfiltered_set r) of
             None \<Rightarrow> (None, r)
           | Some redactedEvent \<Rightarrow>
               let b = ev_ref redactedEvent;
                   r1 = pr_emit (RedactionCancelled (ev_ref redactionEvent)) (mutate b (\<lambda>e. snd (unmarkLocallyRedacted e)) r)
               in if isRelation None (pr_heap r1 b) then aggregateNonLiveRelation b r1 else (None, r1))"

text \<open>\<open>removeEvent\<close>, set by set: what a set removed may be a redaction to revert.\<close>

fun remove_from_sets :: "string option \<Rightarrow> nat \<Rightarrow> nat \<Rightarrow> pending_room \<Rightarrow> string option \<times> bool \<times> pending_room" where
  "remove_from_sets eventId i 0 r = (None, False, r)"
| "remove_from_sets eventId i (Suc n) r =
     (let (removed, s') = set_removeEvent eventId (pr_sets r ! i);
          r1 = r\<lparr>pr_sets := (pr_sets r)[i := s']\<rparr>
      in case removed of
           None \<Rightarrow> remove_from_sets eventId (i + 1) n r1
         | Some ev \<Rightarrow>
             let (err, r2) = (if isRedaction ev then revertRedactionLocalEcho ev r1 else (None, r1))
             in if err \<noteq> None then (err, True, r2)
                else let (err', _, r3) = remove_from_sets eventId (i + 1) n r2 in (err', True, r3))"

definition removeEvent :: "string option \<Rightarrow> pending_room \<Rightarrow> string option \<times> bool \<times> pending_room" where
  "removeEvent eventId r = remove_from_sets eventId 0 (length (pr_sets r)) r"

definition take_pending :: "string option \<Rightarrow> pending_room \<Rightarrow> string option \<times> pending_room" where
  "take_pending eventId r =
     (case pr_pending r of
        None \<Rightarrow> (None, r)
      | Some l \<Rightarrow>
          (case List.find (\<lambda>a. getId (pr_heap r a) = eventId) l of
             None \<Rightarrow> (None, r)
           | Some b \<Rightarrow>
               let r1 = r\<lparr>pr_pending := Some (drop_first (\<lambda>a. getId (pr_heap r a) = eventId) l)\<rparr>
               in if isRedaction (pr_heap r b) then revertRedactionLocalEcho (pr_heap r b) r1 else (None, r1)))"

definition updatePendingEvent ::
  "bool \<Rightarrow> nat \<Rightarrow> event_status \<Rightarrow> string option \<Rightarrow> pending_room \<Rightarrow> string option \<times> pending_room" where
  "updatePendingEvent enc a newStatus newEventId r =
     (let ev = pr_heap r a; noId = (newEventId = None \<or> newEventId = Some []) in
      if newStatus = SENT \<and> noId then (Some ''updatePendingEvent called with status=SENT, but no new event id'', r)
      else if newStatus = SENT \<and> dget (ts_index (unfiltered_set r)) newEventId \<noteq> None then (None, r)
      else case status ev of
        None \<Rightarrow> (Some ''updatePendingEventStatus called on an event which is not a local echo.'', r)
      | Some oldStatus \<Rightarrow>
          if newStatus \<notin> set (ALLOWED_TRANSITIONS oldStatus) then (Some ''Invalid EventStatus transition'', r)
          else
            let oldEventId = getId ev;
                r1 = mutate a (setStatus (Some newStatus)) r;
                (err, r2) =
                  (if newStatus = SENT then
                     let m = mutate a (replaceLocalEventId (case newEventId of Some i \<Rightarrow> i | None \<Rightarrow> [])) r1
                     in (None, m\<lparr>pr_sets := map (replaceEventId oldEventId newEventId) (pr_sets m)\<rparr>)
                   else if newStatus = CANCELLED then
                     let (err1, m) = take_pending oldEventId r1
                     in if err1 \<noteq> None then (err1, m)
                        else let (err2, _, m2) = removeEvent oldEventId m in (err2, m2)
                   else (None, r1))
            in if err \<noteq> None then (err, r2)
               else (None, pr_emit (LocalEchoUpdated a oldEventId (Some oldStatus)) (savePendingEvents enc r2)))"

definition rm_handleRemoteEcho ::
  "(string \<Rightarrow> string) \<Rightarrow> nat \<Rightarrow> bool \<Rightarrow> mx_event \<Rightarrow> nat \<Rightarrow> pending_room \<Rightarrow> string option \<times> pending_room" where
  "rm_handleRemoteEcho unh now enc remoteEvent a r =
     (let oldEventId = getId (pr_heap r a); newEventId = getId remoteEvent; oldStatus = status (pr_heap r a);
          r1 = (case as_str (jget (getUnsigned remoteEvent) ''transaction_id'') of
                  Some txn \<Rightarrow> r\<lparr>pr_txnToEvent := ddel txn (pr_txnToEvent r)\<rparr> | None \<Rightarrow> r);
          r2 = (if pr_pending r1 \<noteq> None then snd (removePendingEvent enc oldEventId r1) else r1);
          r3 = mutate a (handleRemoteEcho (event remoteEvent)) r2;
          (err, r4) = for_sets (set_handleRemoteEcho unh now (pr_heap r3 a) oldEventId newEventId) r3
      in if err \<noteq> None then (err, r4) else (None, pr_emit (LocalEchoUpdated a oldEventId oldStatus) r4))"

section \<open>What the operations leave alone\<close>

text \<open>Rooms with the same pending list and the same ids and statuses of all objects.\<close>

definition same_pending :: "pending_room \<Rightarrow> pending_room \<Rightarrow> bool" where
  "same_pending r r' \<longleftrightarrow> pr_pending r' = pr_pending r \<and>
     (\<forall>a. getId (pr_heap r' a) = getId (pr_heap r a) \<and> status (pr_heap r' a) = status (pr_heap r a))"

named_theorems frame \<open>operations that keep the pending list, ids and statuses\<close>

lemma same_pending_refl [frame]: "same_pending r r"
  by (simp add: same_pending_def)

lemma same_pending_trans: "same_pending r r' \<Longrightarrow> same_pending r' r'' \<Longrightarrow> same_pending r r''"
  by (simp add: same_pending_def)

lemma same_emit [frame]: "same_pending r (pr_emit em r)"
  by (simp add: same_pending_def pr_emit_def)

lemma same_save [frame]: "same_pending r (savePendingEvents enc r)"
  by (simp add: same_pending_def savePendingEvents_def split: option.split)

lemma same_sets [frame]: "same_pending r (r\<lparr>pr_sets := ss\<rparr>)"
  by (simp add: same_pending_def)

lemma same_for_sets [frame]: "same_pending r (snd (for_sets f r))"
  by (simp add: for_sets_def same_pending_def split_beta)

lemma same_aggregate [frame]: "same_pending r (snd (aggregateNonLiveRelation a r))"
  by (simp add: aggregateNonLiveRelation_def Let_def same_for_sets)

lemma same_mutate:
  "(\<And>e. getId (f e) = getId e) \<Longrightarrow> (\<And>e. status (f e) = status e) \<Longrightarrow> same_pending r (mutate a f r)"
  by (simp add: same_pending_def mutate_def Let_def)

lemma set_raw_id: "k \<noteq> ''event_id'' \<Longrightarrow> getId (set_raw k v e) = getId e" "status (set_raw k v e) = status e"
proof -
  show "k \<noteq> ''event_id'' \<Longrightarrow> getId (set_raw k v e) = getId e"
    by (cases "event e") (simp_all add: getId_def set_raw_def dict_simps)
qed (simp add: set_raw_def)

lemma mark_keeps:
  "getId (markLocallyRedacted x e) = getId e" "status (markLocallyRedacted x e) = status e"
  "getId (snd (unmarkLocallyRedacted e)) = getId e" "status (snd (unmarkLocallyRedacted e)) = status e"
proof -
  have f: "getId (fire em e) = getId e" "getId (e\<lparr>localRedactionEvent := l\<rparr>) = getId e" for em e l
    by (simp_all add: fire_def getId_def)
  show "getId (markLocallyRedacted x e) = getId e" "getId (snd (unmarkLocallyRedacted e)) = getId e"
    by (simp_all add: markLocallyRedacted_def unmarkLocallyRedacted_def set_redacted_because_def Let_def set_raw_id f)
  show "status (markLocallyRedacted x e) = status e" "status (snd (unmarkLocallyRedacted e)) = status e"
    by (simp_all add: markLocallyRedacted_def unmarkLocallyRedacted_def set_redacted_because_def Let_def set_raw_id fire_def)
qed

lemma same_mark [frame]:
  "same_pending r (mutate b (markLocallyRedacted x) r)" "same_pending r (mutate b (\<lambda>e. snd (unmarkLocallyRedacted e)) r)"
  by (rule same_mutate; simp add: mark_keeps)+

lemma same_revert [frame]: "same_pending r (snd (revertRedactionLocalEcho ev r))"
proof -
  have "same_pending r (pr_emit em (mutate b (\<lambda>e. snd (unmarkLocallyRedacted e)) r))" for em b
    by (rule same_pending_trans [OF same_mark(2) same_emit])
  then show ?thesis
    unfolding revertRedactionLocalEcho_def Let_def
    by (auto intro: same_pending_trans [OF _ same_aggregate] same_pending_refl split: option.split)
qed

lemma same_remove_from_sets [frame]: "same_pending r (snd (snd (remove_from_sets eventId i n r)))"
proof (induction n arbitrary: i r)
  case (Suc n)
  obtain removed s' where rm: "set_removeEvent eventId (pr_sets r ! i) = (removed, s')" by fastforce
  let ?r1 = "r\<lparr>pr_sets := (pr_sets r)[i := s']\<rparr>"
  show ?case
  proof (cases removed)
    case None
    with rm same_pending_trans [OF same_sets Suc.IH [where i = "i + 1" and r = ?r1]] show ?thesis by simp
  next
    case (Some ev)
    obtain err r2 where r2: "(if isRedaction ev then revertRedactionLocalEcho ev ?r1 else (None, ?r1)) = (err, r2)" by fastforce
    have s2: "same_pending r r2"
      using same_pending_trans [OF same_sets same_revert] same_sets r2 by (metis snd_conv)
    show ?thesis
    proof (cases "err = None")
      case True
      with rm Some r2 same_pending_trans [OF s2 Suc.IH [where i = "i + 1" and r = r2]] show ?thesis
        by (simp add: Let_def split_beta)
    qed (use rm Some r2 s2 in \<open>simp add: Let_def split_beta\<close>)
  qed
qed (simp add: same_pending_refl)

lemma same_removeEvent [frame]: "same_pending r (snd (snd (removeEvent eventId r)))"
  by (simp add: removeEvent_def same_remove_from_sets)

section \<open>The pending list\<close>

definition pending_ok :: "pending_room \<Rightarrow> bool" where
  "pending_ok r \<longleftrightarrow>
     (case pr_pending r of
        None \<Rightarrow> True
      | Some l \<Rightarrow> distinct (map (\<lambda>a. getId (pr_heap r a)) l) \<and>
          (\<forall>a \<in> set l. status (pr_heap r a) \<noteq> None \<and> status (pr_heap r a) \<noteq> Some CANCELLED))"

lemma pending_ok_same: "same_pending r r' \<Longrightarrow> pending_ok r' = pending_ok r"
  by (simp add: same_pending_def pending_ok_def split: option.split)

lemma drop_first_sub: "set (drop_first p l) \<subseteq> set l" "distinct (map f l) \<Longrightarrow> distinct (map f (drop_first p l))"
proof -
  show sub: "set (drop_first p l) \<subseteq> set l" for l by (induction l) auto
  show "distinct (map f l) \<Longrightarrow> distinct (map f (drop_first p l))"
  proof (induction l)
    case (Cons a l)
    then show ?case using sub [of l] by (auto simp: image_iff)
  qed simp
qed

lemma drop_first_id:
  "distinct (map f l) \<Longrightarrow> drop_first (\<lambda>a. f a = x) l = filter (\<lambda>a. f a \<noteq> x) l"
proof (induction l)
  case (Cons a l)
  show ?case
  proof (cases "f a = x")
    case True
    then have "\<forall>b \<in> set l. f b \<noteq> x" using Cons.prems by (metis distinct.simps(2) image_eqI list.simps(9) set_map)
    then have "filter (\<lambda>b. f b \<noteq> x) l = l" by (simp add: filter_id_conv)
    with True show ?thesis by simp
  qed (use Cons in simp)
qed simp

lemma find_None_filter: "List.find P l = None \<Longrightarrow> filter (\<lambda>a. \<not> P a) l = l"
  by (auto simp: find_None_iff filter_id_conv)

text \<open>\<open>take_pending\<close> drops the event of that id, as far as list, ids and statuses go.\<close>

lemma take_pending_same:
  assumes "\<And>l. pr_pending r = Some l \<Longrightarrow> distinct (map (\<lambda>a. getId (pr_heap r a)) l)"
  shows "same_pending (r\<lparr>pr_pending := map_option (filter (\<lambda>a. getId (pr_heap r a) \<noteq> i)) (pr_pending r)\<rparr>)
    (snd (take_pending i r))"
proof (cases "pr_pending r")
  case None
  then show ?thesis by (simp add: take_pending_def same_pending_def)
next
  case (Some l)
  have d: "distinct (map (\<lambda>a. getId (pr_heap r a)) l)" using assms Some by simp
  show ?thesis
  proof (cases "List.find (\<lambda>a. getId (pr_heap r a) = i) l")
    case None
    with Some find_None_filter [OF None] show ?thesis by (simp add: take_pending_def same_pending_def)
  next
    case (Some b)
    with \<open>pr_pending r = Some l\<close> show ?thesis
      by (simp add: take_pending_def Let_def drop_first_id [OF d] same_revert same_pending_refl)
  qed
qed

text \<open>An update of one object: afterwards its status and id are the new ones, all others are as before.\<close>

lemma update_effect:
  assumes ok: "pending_ok r" and upd: "updatePendingEvent enc a st i r = (err, r')"
    and go: "\<not> (st = SENT \<and> (i = None \<or> i = Some []))" "\<not> (st = SENT \<and> dget (ts_index (unfiltered_set r)) i \<noteq> None)"
      "status (pr_heap r a) = Some old" "st \<in> set (ALLOWED_TRANSITIONS old)"
  shows "pr_pending r' = (if st = CANCELLED then map_option (filter (\<lambda>b. getId (pr_heap r b) \<noteq> getId (pr_heap r a))) (pr_pending r)
      else pr_pending r)"
    and "status (pr_heap r' b) = (if b = a then Some st else status (pr_heap r b))"
    and "getId (pr_heap r' b) = (if b = a \<and> st = SENT \<and> is_object (event (pr_heap r a)) then i else getId (pr_heap r b))"
proof -
  let ?r1 = "mutate a (setStatus (Some st)) r" and ?id = "getId (pr_heap r a)"
  have h1: "pr_pending ?r1 = pr_pending r" "pr_heap ?r1 = (pr_heap r)(a := setStatus (Some st) (pr_heap r a))"
    by (simp_all add: mutate_def Let_def)
  have ss: "getId (setStatus x e) = getId e" "status (setStatus x e) = x" "event (setStatus x e) = event e" for x e
    by (simp_all add: setStatus_def fire_def getId_def)
  consider (sent) "st = SENT" | (gone) "st = CANCELLED" | (other) "st \<noteq> SENT" "st \<noteq> CANCELLED" by blast
  then have "pr_pending r' = (if st = CANCELLED then map_option (filter (\<lambda>b. getId (pr_heap r b) \<noteq> ?id)) (pr_pending r) else pr_pending r) \<and>
    (\<forall>b. status (pr_heap r' b) = (if b = a then Some st else status (pr_heap r b))) \<and>
    (\<forall>b. getId (pr_heap r' b) = (if b = a \<and> st = SENT \<and> is_object (event (pr_heap r a)) then i else getId (pr_heap r b)))"
  proof cases
    case sent
    then obtain x where i: "i = Some x" using go(1) by auto
    let ?m = "mutate a (replaceLocalEventId x) ?r1"
    let ?m' = "?m\<lparr>pr_sets := map (replaceEventId ?id i) (pr_sets ?m)\<rparr>"
    have r': "r' = pr_emit (LocalEchoUpdated a ?id (Some old)) (savePendingEvents enc ?m')"
      using upd go sent i by (simp add: updatePendingEvent_def Let_def)
    have "getId (replaceLocalEventId x e) = (if is_object (event e) then Some x else getId e)"
      "status (replaceLocalEventId x e) = status e" for e
      by (cases "event e"; simp add: replaceLocalEventId_def fire_def set_raw_def getId_def dict_simps)+
    moreover have "pr_heap r' = (pr_heap ?r1)(a := replaceLocalEventId x (pr_heap ?r1 a))" "pr_pending r' = pr_pending r"
      by (simp_all add: r' pr_emit_def savePendingEvents_def mutate_def Let_def split: option.split)
    ultimately show ?thesis using i h1(2) unfolding sent by (simp add: ss)
  next
    case gone
    let ?f = "?r1\<lparr>pr_pending := map_option (filter (\<lambda>b. getId (pr_heap ?r1 b) \<noteq> ?id)) (pr_pending ?r1)\<rparr>"
    have ids: "getId (pr_heap ?r1 b) = getId (pr_heap r b)" for b by (simp add: h1(2) ss)
    have "distinct (map (\<lambda>b. getId (pr_heap ?r1 b)) l)" if "pr_pending ?r1 = Some l" for l
      using ok that by (simp add: pending_ok_def h1(1) ids)
    from take_pending_same [of ?r1, OF this] have t: "same_pending ?f (snd (take_pending ?id ?r1))" .
    obtain err1 m where m: "take_pending ?id ?r1 = (err1, m)" by fastforce
    obtain err2 x m2 where m2: "removeEvent ?id m = (err2, x, m2)" by (metis prod_cases3)
    have fm: "same_pending ?f m" using t m by simp
    have fm2: "same_pending ?f m2" using same_pending_trans [OF fm same_removeEvent [where eventId = ?id]] m2 by simp
    have "r' = m \<or> r' = m2 \<or> r' = pr_emit (LocalEchoUpdated a ?id (Some old)) (savePendingEvents enc m2)"
      using upd go gone m m2 by (auto simp: updatePendingEvent_def Let_def split: if_splits)
    then have "same_pending ?f r'"
      using fm fm2 same_pending_trans [OF fm2 same_pending_trans [OF same_save same_emit]] by blast
    then show ?thesis using h1 ids unfolding gone by (simp add: same_pending_def ss)
  next
    case other
    then have "r' = pr_emit (LocalEchoUpdated a ?id (Some old)) (savePendingEvents enc ?r1)"
      using upd go by (simp add: updatePendingEvent_def Let_def)
    then have "same_pending ?r1 r'" using same_pending_trans [OF same_save same_emit] by simp
    then show ?thesis using other by (simp add: same_pending_def h1 ss)
  qed
  then show "pr_pending r' = (if st = CANCELLED then map_option (filter (\<lambda>b. getId (pr_heap r b) \<noteq> ?id)) (pr_pending r)
      else pr_pending r)"
    and "status (pr_heap r' b) = (if b = a then Some st else status (pr_heap r b))"
    and "getId (pr_heap r' b) = (if b = a \<and> st = SENT \<and> is_object (event (pr_heap r a)) then i else getId (pr_heap r b))"
    by blast+
qed

lemma same_set_metadata [frame]: "same_pending r (set_metadata unh now a r)"
proof -
  let ?s = "unfiltered_set r"
  let ?st = "getState Forward (timeline_at ?s (ts_live ?s))"
  obtain ev st where m: "setEventMetadata unh now ?st False (pr_heap r a) = (ev, st)" by fastforce
  have "getId ev = getId (pr_heap r a)" "status ev = status (pr_heap r a)"
    using m by (auto simp: setEventMetadata_def Let_def getId_def split: prod.splits if_splits)
  then show ?thesis
    using m by (simp add: set_metadata_def Let_def same_pending_def mutate_def)
qed

lemma pending_ok_append:
  assumes "pending_ok r" "pr_pending r = Some l" "same_pending r m" "hasPendingEvent (getId (pr_heap r a)) r = False"
    and "pr_heap m' = (pr_heap m)(a := e)" "getId e = getId (pr_heap m a)" "status e \<in> {Some SENDING, Some NOT_SENT}"
    and "pr_pending m' = Some (l @ [a])"
  shows "pending_ok m'"
proof -
  have "a \<notin> set l" using assms(2,4) by (auto simp: hasPendingEvent_def list_ex_iff)
  then have "\<forall>b \<in> set l. pr_heap m' b = pr_heap m b" using assms(5) by auto
  then have "map (\<lambda>b. getId (pr_heap m' b)) l = map (\<lambda>b. getId (pr_heap r b)) l"
      "\<forall>b \<in> set l. status (pr_heap m' b) = status (pr_heap r b)"
    using assms(3) by (simp_all add: same_pending_def)
  moreover have "getId (pr_heap m' a) = getId (pr_heap r a)" using assms(3,5,6) by (simp add: same_pending_def)
  moreover have "getId (pr_heap r a) \<notin> (\<lambda>b. getId (pr_heap r b)) ` set l"
    using assms(2,4) by (auto simp: hasPendingEvent_def list_ex_iff)
  ultimately show ?thesis
    using assms(1,2,5,7,8) by (auto simp: pending_ok_def simp del: map_eq_conv)
qed

lemma same_redact_locally [frame]: "same_pending r (redact_locally a r)"
proof -
  have "same_pending r (pr_emit x (mutate b (markLocallyRedacted y) r))" for x y b
    by (rule same_pending_trans [OF same_mark(1) same_emit])
  then show ?thesis by (simp add: redact_locally_def same_pending_refl split: option.split)
qed

lemma same_add_detached: "same_pending (push_pending enc a l r) (snd (add_detached enc a l r))"
proof -
  let ?r1 = "push_pending enc a l r"
  let ?x = "if isRelation None (pr_heap ?r1 a) then aggregateNonLiveRelation a ?r1 else (None, ?r1)"
  have s: "same_pending ?r1 (snd ?x)" by (simp add: frame)
  have "snd (add_detached enc a l r) = snd ?x \<or> snd (add_detached enc a l r) = redact_locally a (snd ?x)"
    by (simp add: add_detached_def Let_def split_beta)
  with s same_pending_trans [OF s same_redact_locally] show ?thesis by metis
qed

lemma push_pending_ok:
  assumes ok: "pending_ok r" and l: "pr_pending r = Some l" and s: "same_pending r m"
    and fresh: "hasPendingEvent (getId (pr_heap r a)) r = False"
    and st: "status (pr_heap m a) \<in> {Some SENDING, Some NOT_SENT}"
  shows "pending_ok (push_pending enc a l m)"
proof -
  define m1 where "m1 = (if list_ex (\<lambda>b. status (pr_heap m b) = Some NOT_SENT) l
     then mutate a (setStatus (Some NOT_SENT)) m else m)"
  have "\<exists>e. pr_heap m1 = (pr_heap m)(a := e) \<and> getId e = getId (pr_heap m a) \<and> status e \<in> {Some SENDING, Some NOT_SENT}"
  proof (cases "list_ex (\<lambda>b. status (pr_heap m b) = Some NOT_SENT) l")
    case True
    then show ?thesis
      by (intro exI [of _ "setStatus (Some NOT_SENT) (pr_heap m a)"])
        (simp add: m1_def mutate_def Let_def setStatus_def fire_def getId_def)
  qed (use st in \<open>auto simp: m1_def intro: exI [of _ "pr_heap m a"]\<close>)
  then obtain e where e: "pr_heap m1 = (pr_heap m)(a := e)" "getId e = getId (pr_heap m a)"
    "status e \<in> {Some SENDING, Some NOT_SENT}" by blast
  have "pending_ok (m1\<lparr>pr_pending := Some (l @ [a])\<rparr>)"
    by (rule pending_ok_append [OF ok l s fresh _ e(2,3)]) (simp_all add: e(1))
  then show ?thesis
    unfolding push_pending_def Let_def m1_def [symmetric] using pending_ok_same [OF same_save] by blast
qed

definition with_txn :: "(string \<Rightarrow> string) \<Rightarrow> nat \<Rightarrow> nat \<Rightarrow> string \<Rightarrow> pending_room \<Rightarrow> pending_room" where
  "with_txn unh now a txn r =
     (set_metadata unh now a r)\<lparr>pr_txnToEvent := dset txn a (pr_txnToEvent (set_metadata unh now a r))\<rparr>"

definition attach :: "(string \<Rightarrow> string) \<Rightarrow> nat \<Rightarrow> bool \<Rightarrow> nat \<Rightarrow> pending_room \<Rightarrow> string option \<times> pending_room" where
  "attach unh now enc a r =
     (case pr_pending r of Some l \<Rightarrow> add_detached enc a l r | None \<Rightarrow> add_chronological unh now a r)"

lemma add_result:
  obtains "snd (addPendingEvent unh now enc threads a txn r) = r"
  | x where "status (pr_heap r a) \<in> {Some SENDING, Some NOT_SENT}"
      "x = snd (attach unh now enc a (with_txn unh now a txn r))"
      "snd (addPendingEvent unh now enc threads a txn r) = x \<or>
       snd (addPendingEvent unh now enc threads a txn r) = pr_emit (LocalEchoUpdated a None None) x"
proof -
  have eq: "addPendingEvent unh now enc threads a txn r =
    (if threads \<and> truthy (threadRootId (pr_heap r a)) then (None, r)
     else if status (pr_heap r a) \<noteq> Some SENDING \<and> status (pr_heap r a) \<noteq> Some NOT_SENT
       then (Some ''addPendingEvent called on an event with status'', r)
     else if dget (pr_txnToEvent r) txn \<noteq> None then (Some ''addPendingEvent called on an event with known txnId'', r)
     else case attach unh now enc a (with_txn unh now a txn r) of
       (err, r3) \<Rightarrow> if err \<noteq> None then (err, r3) else (None, pr_emit (LocalEchoUpdated a None None) r3))"
    unfolding addPendingEvent_def Let_def attach_def with_txn_def ..
  show ?thesis
    by (cases "attach unh now enc a (with_txn unh now a txn r)")
      (use that eq in \<open>auto split: if_splits\<close>)
qed

lemma same_with_txn: "same_pending r (with_txn unh now a txn r)"
  using same_set_metadata [of r unh now a] by (simp add: same_pending_def with_txn_def)

lemma add_keeps:
  assumes ok: "pending_ok r" and fresh: "hasPendingEvent (getId (pr_heap r a)) r = False"
  shows "pending_ok (snd (addPendingEvent unh now enc threads a txn r))"
proof (cases rule: add_result [of unh now enc threads a txn r])
  case 1
  with ok show ?thesis by simp
next
  case (2 x)
  let ?r2 = "with_txn unh now a txn r"
  note s2 = same_with_txn [of r unh now a txn]
  have "pending_ok x"
  proof (cases "pr_pending r")
    case None
    then have "pr_pending ?r2 = None" using s2 by (simp add: same_pending_def)
    then have "same_pending r x"
      using same_pending_trans [OF s2 same_for_sets] 2(2) by (simp add: attach_def add_chronological_def)
    then show ?thesis using ok pending_ok_same by blast
  next
    case (Some l)
    then have l: "pr_pending ?r2 = Some l" using s2 by (simp add: same_pending_def)
    have "status (pr_heap ?r2 a) \<in> {Some SENDING, Some NOT_SENT}" using 2(1) s2 by (simp add: same_pending_def)
    from push_pending_ok [OF ok Some s2 fresh this] show ?thesis
      using pending_ok_same [OF same_add_detached] 2(2) l by (simp add: attach_def)
  qed
  with 2(3) pending_ok_same [OF same_emit] show ?thesis by metis
qed

lemma echo_keeps:
  assumes "pending_ok r"
  shows "pending_ok (snd (rm_handleRemoteEcho unh now enc remote a r))"
proof -
  define r1 where "r1 = (case as_str (jget (getUnsigned remote) ''transaction_id'') of
     Some txn \<Rightarrow> r\<lparr>pr_txnToEvent := ddel txn (pr_txnToEvent r)\<rparr> | None \<Rightarrow> r)"
  define r2 where "r2 = (if pr_pending r1 \<noteq> None then snd (removePendingEvent enc (getId (pr_heap r a)) r1) else r1)"
  define r3 where "r3 = mutate a (handleRemoteEcho (event remote)) r2"
  define out where "out = for_sets (set_handleRemoteEcho unh now (pr_heap r3 a) (getId (pr_heap r a)) (getId remote)) r3"
  have r1: "pr_pending r1 = pr_pending r" "pr_heap r1 = pr_heap r" by (simp_all add: r1_def split: option.split)
  have r2: "pr_heap r2 = pr_heap r"
    "pr_pending r2 = map_option (drop_first (\<lambda>b. getId (pr_heap r b) = getId (pr_heap r a))) (pr_pending r)"
    by (auto simp: r2_def removePendingEvent_def savePendingEvents_def r1 split: option.split)
  have "pending_ok r3"
  proof (cases "pr_pending r")
    case None
    then show ?thesis by (simp add: pending_ok_def r3_def mutate_def Let_def r2)
  next
    case (Some l)
    have d: "distinct (map (\<lambda>b. getId (pr_heap r b)) l)" using assms Some by (simp add: pending_ok_def)
    let ?l = "filter (\<lambda>b. getId (pr_heap r b) \<noteq> getId (pr_heap r a)) l"
    have l3: "pr_pending r3 = Some ?l" "\<forall>b \<in> set ?l. pr_heap r3 b = pr_heap r b"
      using Some drop_first_id [OF d] by (auto simp: r3_def mutate_def Let_def r2)
    then have m: "map (\<lambda>b. getId (pr_heap r3 b)) ?l = map (\<lambda>b. getId (pr_heap r b)) ?l" by (intro map_cong) auto
    have "distinct (map (\<lambda>b. getId (pr_heap r3 b)) ?l)" unfolding m by (rule distinct_map_filter [OF d])
    then show ?thesis using l3 assms Some by (simp add: pending_ok_def)
  qed
  then have "pending_ok (snd out)" unfolding out_def using pending_ok_same [OF same_for_sets] by blast
  moreover have "snd (rm_handleRemoteEcho unh now enc remote a r) = snd out \<or>
    snd (rm_handleRemoteEcho unh now enc remote a r) = pr_emit (LocalEchoUpdated a (getId (pr_heap r a)) (status (pr_heap r a))) (snd out)"
  proof -
    have "rm_handleRemoteEcho unh now enc remote a r = (case out of (err, r4) \<Rightarrow>
        if err \<noteq> None then (err, r4) else (None, pr_emit (LocalEchoUpdated a (getId (pr_heap r a)) (status (pr_heap r a))) r4))"
      unfolding rm_handleRemoteEcho_def Let_def r1_def [symmetric] r2_def [symmetric] r3_def [symmetric] out_def [symmetric] ..
    then show ?thesis by (cases out) simp
  qed
  ultimately show ?thesis using pending_ok_same [OF same_emit] by metis
qed

lemma remove_keeps: "pending_ok r \<Longrightarrow> pending_ok (snd (removePendingEvent enc i r))"
proof (cases "pr_pending r")
  case (Some l)
  assume ok: "pending_ok r"
  have "pending_ok (r\<lparr>pr_pending := Some (drop_first (\<lambda>a. getId (pr_heap r a) = i) l)\<rparr>)"
    using ok Some drop_first_sub(1) [of "\<lambda>a. getId (pr_heap r a) = i" l]
    by (auto simp: pending_ok_def intro: drop_first_sub(2))
  then show ?thesis
    using pending_ok_same [OF same_save] Some by (simp add: removePendingEvent_def)
qed (simp add: removePendingEvent_def)

text \<open>The outcomes of the guards of \<open>updatePendingEvent\<close>.\<close>

lemma update_guards:
  "i = None \<or> i = Some [] \<Longrightarrow>
     updatePendingEvent enc a SENT i r = (Some ''updatePendingEvent called with status=SENT, but no new event id'', r)"
  "\<lbrakk>i \<noteq> None; i \<noteq> Some []; dget (ts_index (unfiltered_set r)) i \<noteq> None\<rbrakk> \<Longrightarrow> updatePendingEvent enc a SENT i r = (None, r)"
  "\<lbrakk>\<not> (st = SENT \<and> (i = None \<or> i = Some [])); \<not> (st = SENT \<and> dget (ts_index (unfiltered_set r)) i \<noteq> None);
     status (pr_heap r a) = None\<rbrakk> \<Longrightarrow>
     updatePendingEvent enc a st i r = (Some ''updatePendingEventStatus called on an event which is not a local echo.'', r)"
  "\<lbrakk>\<not> (st = SENT \<and> (i = None \<or> i = Some [])); \<not> (st = SENT \<and> dget (ts_index (unfiltered_set r)) i \<noteq> None);
     status (pr_heap r a) = Some old; st \<notin> set (ALLOWED_TRANSITIONS old)\<rbrakk> \<Longrightarrow>
     updatePendingEvent enc a st i r = (Some ''Invalid EventStatus transition'', r)"
  unfolding updatePendingEvent_def Let_def by (simp, simp, simp, simp)

lemma update_keeps:
  assumes ok: "pending_ok r"
    and fresh: "st = SENT \<Longrightarrow> hasPendingEvent i r = False"
  shows "pending_ok (snd (updatePendingEvent enc a st i r))"
proof (cases "snd (updatePendingEvent enc a st i r) = r")
  case False
  obtain err r' where u: "updatePendingEvent enc a st i r = (err, r')" by fastforce
  have go: "\<not> (st = SENT \<and> (i = None \<or> i = Some []))" "\<not> (st = SENT \<and> dget (ts_index (unfiltered_set r)) i \<noteq> None)"
    using False update_guards(1) [of i enc a r] update_guards(2) [of i r enc a] by (metis snd_conv)+
  obtain old where old: "status (pr_heap r a) = Some old"
    using False update_guards(3) [OF go] by (metis not_None_eq snd_conv)
  have tr: "st \<in> set (ALLOWED_TRANSITIONS old)"
    using False update_guards(4) [OF go old] by (metis snd_conv)
  note eff = update_effect [OF ok u go old tr]
  show ?thesis
  proof (cases "pr_pending r")
    case None
    then show ?thesis using eff(1) u by (simp add: pending_ok_def)
  next
    case (Some l)
    let ?id = "getId (pr_heap r a)"
    have d: "distinct (map (\<lambda>b. getId (pr_heap r b)) l)" and st: "\<forall>b \<in> set l. status (pr_heap r b) \<noteq> None \<and> status (pr_heap r b) \<noteq> Some CANCELLED"
      using ok Some by (simp_all add: pending_ok_def)
    show ?thesis
    proof (cases "st = CANCELLED")
      case True
      let ?l = "filter (\<lambda>b. getId (pr_heap r b) \<noteq> ?id) l"
      have l': "pr_pending r' = Some ?l" using eff(1) True Some by simp
      have "map (\<lambda>b. getId (pr_heap r' b)) ?l = map (\<lambda>b. getId (pr_heap r b)) ?l" using eff(3) True by simp
      then have "distinct (map (\<lambda>b. getId (pr_heap r' b)) ?l)" by (simp only: distinct_map_filter [OF d])
      moreover have "\<forall>b \<in> set ?l. status (pr_heap r' b) \<noteq> None \<and> status (pr_heap r' b) \<noteq> Some CANCELLED"
        using eff(2) st by auto
      ultimately show ?thesis using l' u by (simp add: pending_ok_def)
    next
      case False
      have l': "pr_pending r' = Some l" using eff(1) False Some by simp
      have "distinct (map (\<lambda>b. getId (pr_heap r' b)) l)"
      proof (cases "st = SENT")
        case True
        have "i \<notin> getId ` pr_heap r ` set l" using fresh [OF True] Some by (auto simp: hasPendingEvent_def list_ex_iff)
        then have "inj_on (\<lambda>b. getId (pr_heap r' b)) (set l)"
          using d eff(3) by (fastforce simp: distinct_map inj_on_def)
        then show ?thesis using d by (simp add: distinct_map)
      next
        case False
        then show ?thesis using d eff(3) by simp
      qed
      moreover have "\<forall>b \<in> set l. status (pr_heap r' b) \<noteq> None \<and> status (pr_heap r' b) \<noteq> Some CANCELLED"
        using eff(2) st False by auto
      ultimately show ?thesis using l' u by (simp add: pending_ok_def)
    qed
  qed
qed (use ok in simp)

section \<open>What reaches storage\<close>

definition saved_ok :: "pending_room \<Rightarrow> bool" where
  "saved_ok r \<longleftrightarrow> (\<forall>js. pr_saved r = Some js \<longrightarrow> (\<forall>j \<in> set js. jget j ''type'' = JStr ''m.room.encrypted''))"

lemma saved_cong: "pr_saved r' = pr_saved r \<Longrightarrow> saved_ok r' = saved_ok r"
  by (simp add: saved_ok_def)

lemma saved_save: "saved_ok r \<Longrightarrow> saved_ok (savePendingEvents True r)"
  by (auto simp: saved_ok_def savePendingEvents_def split: option.splits if_splits)

lemma saved_same:
  "pr_saved (pr_emit em r) = pr_saved r" "pr_saved (mutate b f r) = pr_saved r"
  "pr_saved (snd (for_sets g r)) = pr_saved r" "pr_saved (snd (aggregateNonLiveRelation a r)) = pr_saved r"
  "pr_saved (set_metadata unh now a r) = pr_saved r" "pr_saved (redact_locally a r) = pr_saved r"
  by (simp_all add: pr_emit_def mutate_def Let_def for_sets_def aggregateNonLiveRelation_def set_metadata_def
      redact_locally_def split_beta split: option.split)

lemma saved_revert: "pr_saved (snd (revertRedactionLocalEcho ev r)) = pr_saved r"
  by (simp add: revertRedactionLocalEcho_def Let_def saved_same split: option.split)

lemma saved_remove: "pr_saved (snd (snd (remove_from_sets eventId i n r))) = pr_saved r"
proof (induction n arbitrary: i r)
  case (Suc n)
  obtain removed s' where rm: "set_removeEvent eventId (pr_sets r ! i) = (removed, s')" by fastforce
  show ?case
  proof (cases removed)
    case None
    then show ?thesis using rm Suc.IH by simp
  next
    case (Some ev)
    then show ?thesis
      using rm saved_revert [of ev "r\<lparr>pr_sets := (pr_sets r)[i := s']\<rparr>"] by (simp add: Let_def split_beta Suc.IH)
  qed
qed simp

lemma saved_take: "pr_saved (snd (take_pending i r)) = pr_saved r"
  by (simp add: take_pending_def Let_def saved_revert split: option.split)

lemma saved_each [simp]: "pr_saved (r\<lparr>pr_pending := p\<rparr>) = pr_saved r" "pr_saved (r\<lparr>pr_txnToEvent := t\<rparr>) = pr_saved r"
  "pr_saved (r\<lparr>pr_sets := ss\<rparr>) = pr_saved r"
  by simp_all

lemma saved_push:
  assumes "saved_ok r"
  shows "saved_ok (push_pending True a l r)"
proof -
  have "saved_ok ((if b then mutate a f r else r)\<lparr>pr_pending := p\<rparr>)" for b f p
    using assms by (simp add: saved_ok_def saved_same)
  then show ?thesis unfolding push_pending_def Let_def by (rule saved_save)
qed

lemma saved_add:
  assumes "saved_ok r"
  shows "saved_ok (snd (addPendingEvent unh now True threads a txn r))"
proof (cases rule: add_result [of unh now True threads a txn r])
  case (2 x)
  have ok: "saved_ok (with_txn unh now a txn r)"
    using assms by (simp add: with_txn_def Let_def saved_ok_def saved_same)
  have "saved_ok x"
  proof (cases "pr_pending (with_txn unh now a txn r)")
    case None
    with ok 2(2) show ?thesis by (simp add: attach_def add_chronological_def saved_ok_def saved_same)
  next
    case (Some l)
    have "pr_saved (snd (add_detached True a l r')) = pr_saved (push_pending True a l r')" for r'
      by (simp add: add_detached_def Let_def split_beta saved_same)
    with Some ok 2(2) saved_push [OF ok, of a l] show ?thesis by (simp add: attach_def saved_ok_def)
  qed
  with 2(3) show ?thesis by (auto simp: saved_ok_def saved_same)
qed (use assms in simp)

lemma saved_remove_pending: "saved_ok r \<Longrightarrow> saved_ok (snd (removePendingEvent True i r))"
proof -
  assume "saved_ok r"
  then have "saved_ok (r\<lparr>pr_pending := p\<rparr>)" for p by (simp add: saved_ok_def)
  with \<open>saved_ok r\<close> show ?thesis by (simp add: removePendingEvent_def saved_save split: option.split)
qed

lemma saved_echo:
  assumes "saved_ok r"
  shows "saved_ok (snd (rm_handleRemoteEcho unh now True remote a r))"
proof -
  have ok: "saved_ok (case t of Some x \<Rightarrow> r\<lparr>pr_txnToEvent := d x\<rparr> | None \<Rightarrow> r)" for t :: "string option" and d
    using assms by (simp add: saved_ok_def split: option.split)
  have "saved_ok (if b then snd (removePendingEvent True i r') else r')" if "saved_ok r'" for b i r'
    using that by (simp add: saved_remove_pending)
  note this [OF ok]
  then show ?thesis unfolding rm_handleRemoteEcho_def Let_def
    by (simp add: saved_ok_def saved_same split_beta)
qed

lemma saved_update:
  assumes "saved_ok r"
  shows "saved_ok (snd (updatePendingEvent True a st i r))"
proof -
  have c: "saved_ok r'" if "pr_saved r' = pr_saved r" for r' using that assms by (simp add: saved_ok_def)
  have e: "saved_ok (pr_emit em (savePendingEvents True r'))" if "pr_saved r' = pr_saved r" for r' em
    using saved_save [OF c [OF that]] by (simp add: saved_ok_def saved_same)
  show ?thesis
    unfolding updatePendingEvent_def Let_def
    by (auto split: option.split simp: split_beta saved_same saved_take saved_remove removeEvent_def intro!: c e assms)
qed

section \<open>Reachable rooms\<close>

definition new_pending_room :: "string \<Rightarrow> bool \<Rightarrow> timeline_set \<Rightarrow> (nat \<Rightarrow> mx_event) \<Rightarrow> pending_room" where
  "new_pending_room rid detached s h =
     \<lparr>pr_roomId = rid, pr_heap = h, pr_pending = (if detached then Some [] else None), pr_txnToEvent = [],
      pr_sets = [s], pr_saved = None, pr_emitted = []\<rparr>"

text \<open>
  The client gives every outgoing event an id of its own, and the server every event that it accepts: the id
  that an addition or a \<open>SENT\<close> brings is not that of another pending event. \<open>other\<close> is everything else that
  happens to the objects and the timelines between two of these operations.
\<close>

inductive pr_reachable :: "(string \<Rightarrow> string) \<Rightarrow> bool \<Rightarrow> pending_room \<Rightarrow> bool" for unh enc where
  created: "pr_reachable unh enc (new_pending_room rid detached s h)"
| add: "pr_reachable unh enc r \<Longrightarrow> \<not> hasPendingEvent (getId (pr_heap r a)) r \<Longrightarrow>
    pr_reachable unh enc (snd (addPendingEvent unh now enc threads a txn r))"
| update: "pr_reachable unh enc r \<Longrightarrow> \<not> (st = SENT \<and> hasPendingEvent i r) \<Longrightarrow>
    pr_reachable unh enc (snd (updatePendingEvent enc a st i r))"
| echo: "pr_reachable unh enc r \<Longrightarrow> pr_reachable unh enc (snd (rm_handleRemoteEcho unh now enc remote a r))"
| remove: "pr_reachable unh enc r \<Longrightarrow> pr_reachable unh enc (snd (removePendingEvent enc i r))"
| other: "pr_reachable unh enc r \<Longrightarrow> pr_pending r' = pr_pending r \<Longrightarrow> pr_saved r' = pr_saved r \<Longrightarrow>
    (\<And>l b. pr_pending r = Some l \<Longrightarrow> b \<in> set l \<Longrightarrow>
       getId (pr_heap r' b) = getId (pr_heap r b) \<and> status (pr_heap r' b) = status (pr_heap r b)) \<Longrightarrow>
    pr_reachable unh enc r'"

lemma pending_ok_other:
  assumes "pending_ok r" and "pr_pending r' = pr_pending r"
    and "\<And>l b. pr_pending r = Some l \<Longrightarrow> b \<in> set l \<Longrightarrow>
      getId (pr_heap r' b) = getId (pr_heap r b) \<and> status (pr_heap r' b) = status (pr_heap r b)"
  shows "pending_ok r'"
proof (cases "pr_pending r")
  case (Some l)
  then have "map (\<lambda>b. getId (pr_heap r' b)) l = map (\<lambda>b. getId (pr_heap r b)) l" using assms(3) by simp
  moreover have "\<forall>b \<in> set l. status (pr_heap r' b) = status (pr_heap r b)" using assms(3) Some by simp
  ultimately show ?thesis using assms(1,2) Some unfolding pending_ok_def
    by (simp only: option.case) simp
qed (use assms(2) in \<open>simp add: pending_ok_def\<close>)

lemma reachable_pending_ok: "pr_reachable unh enc r \<Longrightarrow> pending_ok r"
proof (induction rule: pr_reachable.induct)
  case (created rid detached s h)
  show ?case by (simp add: pending_ok_def new_pending_room_def)
next
  case (add r a now threads txn)
  then show ?case using add_keeps by blast
next
  case (update r st i a)
  then show ?case using update_keeps by blast
next
  case (echo r now remote a)
  then show ?case using echo_keeps by blast
next
  case (remove r i)
  then show ?case using remove_keeps by blast
next
  case (other r r')
  then show ?case using pending_ok_other by blast
qed

lemma reachable_saved_ok: "pr_reachable unh enc r \<Longrightarrow> enc \<Longrightarrow> saved_ok r"
proof (induction rule: pr_reachable.induct)
  case (created rid detached s h)
  show ?case by (simp add: saved_ok_def new_pending_room_def)
next
  case (other r r')
  then show ?case by (simp add: saved_ok_def)
qed (simp_all add: saved_add saved_update saved_echo saved_remove_pending)


text \<open>A room without a filter that sends one message.\<close>

definition sample_echo :: mx_event where
  "sample_echo = (new_event 0 (JObj [(''event_id'', JStr ''~a''), (''type'', JStr ''m.room.message'')]))\<lparr>status := Some SENDING\<rparr>"

definition sample_room :: pending_room where
  "sample_room = snd (addPendingEvent (\<lambda>x. x) 0 False False 0 ''txn''
     (new_pending_room ''!r'' True (new_timeline_set 0 None True True False None (\<lambda>_. OobNotStarted)) (\<lambda>_. sample_echo)))"

lemma sample_room_reachable: "pr_reachable (\<lambda>x. x) False sample_room"
  unfolding sample_room_def
  by (rule pr_reachable.add [OF pr_reachable.created]) (simp add: hasPendingEvent_def new_pending_room_def)


text \<open>
  C7. The outcome of \<open>updatePendingEvent\<close> on every guard: \<open>SENT\<close> without an id, an event that is no local echo and
  a transition that the table does not allow throw and change nothing; a \<open>SENT\<close> whose event has already arrived
  changes nothing and does not throw; otherwise, whether or not a later step throws, the object has the new status, and on \<open>SENT\<close> the new id.
\<close>

theorem updatePendingEvent_outcomes:
  assumes "pr_reachable unh enc r"
  shows "let (err, r') = updatePendingEvent enc a st i r; noId = (i = None \<or> i = Some []);
             arrived = (dget (ts_index (unfiltered_set r)) i \<noteq> None) in
    if st = SENT \<and> noId then err = Some ''updatePendingEvent called with status=SENT, but no new event id'' \<and> r' = r
    else if st = SENT \<and> arrived then err = None \<and> r' = r
    else case status (pr_heap r a) of
      None \<Rightarrow> err = Some ''updatePendingEventStatus called on an event which is not a local echo.'' \<and> r' = r
    | Some old \<Rightarrow>
        if st \<notin> set (ALLOWED_TRANSITIONS old) then err = Some ''Invalid EventStatus transition'' \<and> r' = r
        else status (pr_heap r' a) = Some st \<and>
          getId (pr_heap r' a) = (if st = SENT \<and> is_object (event (pr_heap r a)) then i else getId (pr_heap r a)) \<and>
          (\<forall>b. b \<noteq> a \<longrightarrow> status (pr_heap r' b) = status (pr_heap r b) \<and> getId (pr_heap r' b) = getId (pr_heap r b))"
proof -
  obtain err r' where u: "updatePendingEvent enc a st i r = (err, r')" by fastforce
  show ?thesis
  proof (cases "st = SENT \<and> (i = None \<or> i = Some [])")
    case True
    then show ?thesis using update_guards(1) [of i enc a r] by simp
  next
    case go1: False
    show ?thesis
    proof (cases "st = SENT \<and> dget (ts_index (unfiltered_set r)) i \<noteq> None")
      case True
      then show ?thesis using go1 update_guards(2) [of i r enc a] by simp
    next
      case go2: False
      show ?thesis
      proof (cases "status (pr_heap r a)")
        case None
        then show ?thesis using update_guards(3) [OF go1 go2 None, of enc] go1 go2 by (simp only: prod.case Let_def if_False option.case)
      next
        case (Some old)
        show ?thesis
        proof (cases "st \<in> set (ALLOWED_TRANSITIONS old)")
          case True
          note eff = update_effect [OF reachable_pending_ok [OF assms] u go1 go2 Some True]
          show ?thesis unfolding u Let_def prod.case if_not_P [OF go1] if_not_P [OF go2] Some option.case
            using True eff(2,3) by simp
        next
          case False
          show ?thesis unfolding update_guards(4) [OF go1 go2 Some False] Let_def prod.case if_not_P [OF go1] if_not_P [OF go2] Some option.case
            using False by simp
        qed
      qed
    qed
  qed
qed

theorem updatePendingEvent_outcomes_witness:
  "fst (updatePendingEvent False 0 SENT (Some []) sample_room) =
     Some ''updatePendingEvent called with status=SENT, but no new event id''"
  using updatePendingEvent_outcomes [OF sample_room_reachable, of 0 SENT "Some []"]
  by (simp add: Let_def split_beta)

end
