(* ===== verification/Globs.thy ===== *)
theory Globs
  imports Json
begin

text \<open>
  The glob helpers of \<^verbatim>\<open>src/utils.ts\<close> and the regular expressions that are built from them:
  \<open>escapeRegExp\<close> and \<open>globToRegexp\<close> as the string rewriting they are, and the meaning that JavaScript
  gives to the patterns they can produce (literals, escapes, \<open>.\<close>, \<open>.*\<close> and character classes, without regard to case).
\<close>

section \<open>From a glob to a pattern\<close>

definition meta_chars :: string where
  "meta_chars = ''.*+?^${}()|[]'' @ [CHR 0x5C]"

definition backslash :: char where
  "backslash = CHR 0x5C"

definition escapeRegExp :: "string \<Rightarrow> string" where
  "escapeRegExp s = concat (map (\<lambda>c. if c \<in> set meta_chars then [backslash, c] else [c]) s)"

definition line_terminator :: "char \<Rightarrow> bool" where
  "line_terminator c \<longleftrightarrow> c = CHR 0x0A \<or> c = CHR 0x0D"

text \<open>The replacement of every escaped star by \<open>.*\<close>.\<close>

fun replace_stars :: "string \<Rightarrow> string" where
  "replace_stars (c # d # s) =
     (if c = backslash \<and> d = CHR ''*'' then CHR ''.'' # CHR ''*'' # replace_stars s else c # replace_stars (d # s))"
| "replace_stars s = s"

text \<open>A greedy \<open>(.*)\<close> before an escaped bracket: the split at the last one of the line.\<close>

fun last_bracket :: "string \<Rightarrow> (string \<times> string) option" where
  "last_bracket [] = None"
| "last_bracket (c # s) =
     (if line_terminator c then None
      else case last_bracket s of
             Some (p, q) \<Rightarrow> Some (c # p, q)
           | None \<Rightarrow> (if c = backslash \<and> take 1 s = '']'' then Some ([], drop 1 s) else None))"

text \<open>The first \<open>\-\<close> of a class loses its backslash.\<close>

fun unescape_dash :: "string \<Rightarrow> string" where
  "unescape_dash (c # d # s) = (if c = backslash \<and> d = CHR ''-'' then d # s else c # unescape_dash (d # s))"
| "unescape_dash s = s"

fun replace_class :: "string \<Rightarrow> string" where
  "replace_class (c # d # s) =
     (if c = backslash \<and> d = CHR ''[''
      then let negated = (take 1 s = ''!'') in
           case last_bracket (if negated then drop 1 s else s) of
             Some (p2, rest) \<Rightarrow> ''['' @ (if negated then ''^'' else '''') @ unescape_dash p2 @ '']'' @ rest
           | None \<Rightarrow> c # replace_class (d # s)
      else c # replace_class (d # s))"
| "replace_class s = s"

definition globToRegexp :: "string \<Rightarrow> bool \<Rightarrow> string" where
  "globToRegexp glob extended =
     (let pat = map (\<lambda>c. if c = CHR ''?'' then CHR ''.'' else c) (replace_stars (escapeRegExp glob))
      in if extended then replace_class pat else pat)"

section \<open>The patterns as JavaScript reads them\<close>

datatype atom =
    Lit char
  | AnyChar
  | CharClass bool "(char \<times> char) list"

type_synonym pattern = "(atom \<times> bool) list"

text \<open>The members of a class up to its bracket; ranges out of order are a syntax error.\<close>

definition escaped_head :: "string \<Rightarrow> (char \<times> string) option" where
  "escaped_head s =
     (case s of
        [] \<Rightarrow> None
      | c # s' \<Rightarrow> if c = backslash then (case s' of [] \<Rightarrow> None | d # s'' \<Rightarrow> Some (d, s'')) else Some (c, s'))"

lemma escaped_head_shorter: "escaped_head s = Some (c, s') \<Longrightarrow> length s' < length s"
  by (auto simp: escaped_head_def split: list.splits if_splits)

function parse_class :: "string \<Rightarrow> ((char \<times> char) list \<times> string) option" where
  "parse_class s =
     (if take 1 s = '']'' then Some ([], drop 1 s)
      else case escaped_head s of
        None \<Rightarrow> None
      | Some (lo, s1) \<Rightarrow>
          (if take 1 s1 = ''-'' \<and> take 1 (drop 1 s1) \<noteq> '']''
           then (case escaped_head (drop 1 s1) of
                   None \<Rightarrow> None
                 | Some (hi, s2) \<Rightarrow>
                     if hi < lo then None else map_option (\<lambda>(is, r). ((lo, hi) # is, r)) (parse_class s2))
           else map_option (\<lambda>(is, r). ((lo, lo) # is, r)) (parse_class s1)))"
  by auto
termination
  by (relation "measure length") (auto dest!: escaped_head_shorter)

declare parse_class.simps [simp del]

lemma parse_class_shorter: "parse_class s = Some (is, r) \<Longrightarrow> length r < length s"
proof (induction s arbitrary: "is" r rule: parse_class.induct)
  case (1 s)
  show ?case
  proof (cases "take 1 s = '']''")
    case True
    then have "r = drop 1 s" using 1(3) by (simp add: parse_class.simps [of s])
    then show ?thesis using True by (cases s) simp_all
  next
    case False
    then obtain lo s1 where h: "escaped_head s = Some (lo, s1)"
      using 1(3) by (auto simp: parse_class.simps [of s] split: option.splits)
    show ?thesis
    proof (cases "take 1 s1 = ''-'' \<and> take 1 (drop 1 s1) \<noteq> '']''")
      case True
      then obtain hi s2 where h2: "escaped_head (drop 1 s1) = Some (hi, s2)"
        using 1(3) False h by (auto simp: parse_class.simps [of s] split: option.splits)
      with 1(3) False h True obtain is' where "parse_class s2 = Some (is', r)"
        by (auto simp: parse_class.simps [of s] split: if_splits)
      with 1(1) [OF False h refl True h2 refl] 1(3) False h True h2 escaped_head_shorter [OF h] escaped_head_shorter [OF h2]
      show ?thesis by (auto simp: parse_class.simps [of s] split: if_splits)
    next
      case no: False
      with 1(3) False h obtain is' where "parse_class s1 = Some (is', r)"
        by (auto simp: parse_class.simps [of s])
      with 1(2) [OF False h refl no] escaped_head_shorter [OF h] show ?thesis by fastforce
    qed
  qed
qed

function parse_pattern :: "string \<Rightarrow> pattern option" where
  "parse_pattern [] = Some []"
| "parse_pattern (c # s) =
     (if c = CHR ''.''
      then (if take 1 s = ''*'' then map_option ((#) (AnyChar, True)) (parse_pattern (drop 1 s))
            else map_option ((#) (AnyChar, False)) (parse_pattern s))
      else if c = CHR ''[''
      then (let negated = (take 1 s = ''^'') in
            case parse_class (if negated then drop 1 s else s) of
              None \<Rightarrow> None
            | Some (ranges, rest) \<Rightarrow> map_option ((#) (CharClass negated ranges, False)) (parse_pattern rest))
      else if c = backslash
      then (case s of [] \<Rightarrow> None | d # s' \<Rightarrow> map_option ((#) (Lit d, False)) (parse_pattern s'))
      else map_option ((#) (Lit c, False)) (parse_pattern s))"
  by pat_completeness auto
termination
  by (relation "measure length") (auto dest!: parse_class_shorter split: if_splits)

text \<open>Upper case of the code units below 256 (\<open>Canonicalize\<close> of the language, with flag \<open>i\<close>).\<close>

definition canonicalize :: "char \<Rightarrow> char" where
  "canonicalize c =
     (let n = of_char c :: nat in
      if (97 \<le> n \<and> n \<le> 122) \<or> (224 \<le> n \<and> n \<le> 254 \<and> n \<noteq> 247) then char_of (n - 32) else c)"

definition atom_matches :: "atom \<Rightarrow> char \<Rightarrow> bool" where
  "atom_matches a c =
     (case a of
        Lit d \<Rightarrow> canonicalize d = canonicalize c
      | AnyChar \<Rightarrow> \<not> line_terminator c
      | CharClass negated ranges \<Rightarrow>
          negated \<noteq> list_ex (\<lambda>(lo, hi). list_ex (\<lambda>n. canonicalize (char_of n) = canonicalize c)
                             [of_char lo..<Suc (of_char hi)]) ranges)"

text \<open>What may remain of a string when a pattern has matched a prefix of it.\<close>

fun rests :: "pattern \<Rightarrow> string \<Rightarrow> string list" where
  "rests [] s = [s]"
| "rests ((a, False) # p) [] = []"
| "rests ((a, False) # p) (c # s) = (if atom_matches a c then rests p s else [])"
| "rests ((a, True) # p) [] = rests p []"
| "rests ((a, True) # p) (c # s) = rests p (c # s) @ (if atom_matches a c then rests ((a, True) # p) s else [])"

definition word_char :: "char \<Rightarrow> bool" where
  "word_char c \<longleftrightarrow>
     (let n = of_char c :: nat in (48 \<le> n \<and> n \<le> 57) \<or> (65 \<le> n \<and> n \<le> 90) \<or> n = 95 \<or> (97 \<le> n \<and> n \<le> 122))"

text \<open>\<open>(^|\W)p(\W|$)\<close> somewhere in a string, and \<open>^p$\<close>.\<close>

fun after_nonword :: "string \<Rightarrow> string list" where
  "after_nonword [] = []"
| "after_nonword (c # s) = (if word_char c then after_nonword s else s # after_nonword s)"

definition search_bounded :: "pattern \<Rightarrow> string \<Rightarrow> bool" where
  "search_bounded p s =
     list_ex (\<lambda>s'. list_ex (\<lambda>r. r = [] \<or> \<not> word_char (hd r)) (rests p s')) (s # after_nonword s)"

definition match_anchored :: "pattern \<Rightarrow> string \<Rightarrow> bool" where
  "match_anchored p s = list_ex (\<lambda>r. r = []) (rests p s)"

section \<open>Globs as their users mean them\<close>

text \<open>A star stands for any characters of the line, every other character for itself, without regard to case.\<close>

fun glob_match :: "string \<Rightarrow> string \<Rightarrow> bool" where
  "glob_match [] s = (s = [])"
| "glob_match (g # gs) [] = (g = CHR ''*'' \<and> glob_match gs [])"
| "glob_match (g # gs) (c # s) =
     (if g = CHR ''*'' then glob_match gs (c # s) \<or> (\<not> line_terminator c \<and> glob_match (g # gs) s)
      else canonicalize g = canonicalize c \<and> glob_match gs s)"

definition glob_atom :: "char \<Rightarrow> atom \<times> bool" where
  "glob_atom c = (if c = CHR ''*'' then (AnyChar, True) else (Lit c, False))"

lemma rests_glob: "list_ex (\<lambda>r. r = []) (rests (map glob_atom g) s) = glob_match g s"
  by (induction g s rule: glob_match.induct) (auto simp: glob_atom_def atom_matches_def)

lemma escape_Cons: "escapeRegExp (c # s) = (if c \<in> set meta_chars then [backslash, c] else [c]) @ escapeRegExp s"
  by (simp add: escapeRegExp_def)

lemma escape_no_star: "escapeRegExp s \<noteq> CHR ''*'' # t"
  by (cases s) (auto simp: escape_Cons meta_chars_def backslash_def, simp add: escapeRegExp_def)

lemma stars_plain: "c \<noteq> backslash \<Longrightarrow> replace_stars (c # s) = c # replace_stars s"
  by (cases s) simp_all

lemma stars_escape:
  "replace_stars (escapeRegExp (c # s)) =
     (if c = CHR ''*'' then ''.*'' else if c \<in> set meta_chars then [backslash, c] else [c]) @ replace_stars (escapeRegExp s)"
proof -
  have b: "replace_stars (backslash # escapeRegExp s) = backslash # replace_stars (escapeRegExp s)"
    using escape_no_star [of s] by (cases "escapeRegExp s") auto
  have m: "CHR ''*'' \<in> set meta_chars" "backslash \<in> set meta_chars" by (simp_all add: meta_chars_def backslash_def)
  consider "c = CHR ''*''" | "c = backslash" | "c \<noteq> CHR ''*''" "c \<noteq> backslash" by blast
  then show ?thesis
  proof cases
    case 1
    then show ?thesis by (simp add: escape_Cons m)
  next
    case 2
    then have "c \<noteq> CHR ''*''" by (simp add: backslash_def)
    with 2 show ?thesis using b by (simp add: escape_Cons m)
  next
    case 3
    then show ?thesis by (simp add: escape_Cons stars_plain)
  qed
qed

lemma class_free: "CHR ''['' \<notin> set s \<Longrightarrow> replace_class s = s"
  by (induction s rule: replace_class.induct) auto

lemma glob_pattern:
  assumes "CHR ''?'' \<notin> set g" and "CHR ''['' \<notin> set g"
  shows "parse_pattern (globToRegexp g True) = Some (map glob_atom g)"
proof -
  let ?q = "\<lambda>s. map (\<lambda>c. if c = CHR ''?'' then CHR ''.'' else c) (replace_stars (escapeRegExp s))"
  have e: "?q [] = []" by (simp add: escapeRegExp_def)
  have c: "?q (c # s) = (if c = CHR ''*'' then ''.*'' else if c \<in> set meta_chars then [backslash, c] else [c]) @ ?q s"
    if "c \<noteq> CHR ''?''" for c s
    using that by (simp add: stars_escape) (simp add: backslash_def)
  have "CHR ''['' \<notin> set (?q g)"
    using assms
  proof (induction g)
    case (Cons x g)
    then have IH: "CHR ''['' \<notin> set (?q g)" and x: "x \<noteq> CHR ''?''" "x \<noteq> CHR ''[''" by auto
    have "backslash \<noteq> CHR ''[''" by (simp add: backslash_def)
    then show ?case using IH x unfolding c [OF x(1)] by simp
  qed (simp add: e)
  then have "globToRegexp g True = ?q g" by (simp add: globToRegexp_def Let_def class_free)
  moreover have "parse_pattern (?q g) = Some (map glob_atom g)"
    using assms
  proof (induction g)
    case (Cons x g)
    then have IH: "parse_pattern (?q g) = Some (map glob_atom g)" and x: "x \<noteq> CHR ''?''" "x \<noteq> CHR ''[''" by auto
    have b: "backslash \<noteq> CHR ''.''" "backslash \<noteq> CHR ''[''" "CHR ''.'' \<in> set meta_chars" "backslash \<in> set meta_chars"
      by (simp_all add: backslash_def meta_chars_def)
    show ?case using IH b x unfolding c [OF x(1)] by (auto simp: glob_atom_def)
  qed (simp add: e)
  ultimately show ?thesis by simp
qed

end
