(* ===== verification/PushRules.thy ===== *)
theory PushRules
  imports RoomState Globs
begin

text \<open>
  The push processor of \<^verbatim>\<open>src/pushprocessor.ts\<close>. Rules are JSON, as the server sends them.
  The client is represented by what the code asks it: the rooms it knows (their current state) and the user's id.
  The regular expressions that the code caches for all processors are a dictionary that every
  evaluation takes and returns, and an exception is the message on the left of a sum. The default value that
  \<open>actionListToActionsObject\<close> writes into an action is part of its result only.
\<close>

section \<open>Conditions\<close>

definition RULEKINDS_IN_ORDER :: "string list" where
  "RULEKINDS_IN_ORDER = [''override'', ''content'', ''room'', ''sender'', ''underride'']"

record push_client =
  pc_getRoom :: "string option \<Rightarrow> room_state option"
  pc_userId :: string

text \<open>A cached expression: whether it is \<open>(^|\W)...(\W|$)\<close> rather than \<open>^...$\<close>, and its pattern.\<close>

type_synonym regex_cache = "(string, bool \<times> pattern) dict"

type_synonym 'a evaluation = "regex_cache \<Rightarrow> (string + 'a) \<times> regex_cache"

definition regex_matches :: "bool \<times> pattern \<Rightarrow> string \<Rightarrow> bool" where
  "regex_matches = (\<lambda>(bounded, p) s. if bounded then search_bounded p s else match_anchored p s)"

definition createCachedRegex :: "bool \<Rightarrow> string \<Rightarrow> (bool \<times> pattern) evaluation" where
  "createCachedRegex bounded glob cache =
     (case dget cache glob of
        Some re \<Rightarrow> (Inr re, cache)
      | None \<Rightarrow>
          (case parse_pattern (globToRegexp glob True) of
             None \<Rightarrow> (Inl ''SyntaxError'', cache)
           | Some p \<Rightarrow> (Inr (bounded, p), dset glob (bounded, p) cache)))"

text \<open>\<open>key.split('.')\<close> and \<open>val[part]\<close> of a value that is not \<open>undefined\<close> or \<open>null\<close>.\<close>

fun split_dots :: "string \<Rightarrow> string list" where
  "split_dots [] = [[]]"
| "split_dots (c # s) =
     (if c = CHR ''.'' then [] # split_dots s
      else case split_dots s of [] \<Rightarrow> [[c]] | p # ps \<Rightarrow> (c # p) # ps)"

definition digit_val :: "char \<Rightarrow> nat" where
  "digit_val c = of_char c - 48"

definition all_digits :: "string \<Rightarrow> bool" where
  "all_digits s = list_all (\<lambda>c. (48::nat) \<le> of_char c \<and> (of_char c :: nat) \<le> 57) s"

definition parse_nat :: "string \<Rightarrow> nat" where
  "parse_nat s = foldl (\<lambda>n c. 10 * n + digit_val c) 0 s"

definition array_index :: "string \<Rightarrow> nat option" where
  "array_index k = (if k \<noteq> [] \<and> all_digits k \<and> (hd k \<noteq> CHR ''0'' \<or> k = ''0'') then Some (parse_nat k) else None)"

fun js_index :: "json \<Rightarrow> string \<Rightarrow> json" where
  "js_index (JObj d) k = jget (JObj d) k"
| "js_index (JArr xs) k = (case array_index k of Some i \<Rightarrow> if i < length xs then xs ! i else JUndef | None \<Rightarrow> JUndef)"
| "js_index (JStr s) k = (case array_index k of Some i \<Rightarrow> if i < length s then JStr [s ! i] else JUndef | None \<Rightarrow> JUndef)"
| "js_index _ k = JUndef"

fun follow_path :: "string list \<Rightarrow> json \<Rightarrow> string + json" where
  "follow_path [] val = Inr val"
| "follow_path (part # parts) val =
     (if js_nullish val then Inl ''TypeError''
      else if js_nullish (js_index val part) then Inr JNull
      else follow_path parts (js_index val part))"

definition valueForDottedKey :: "string \<Rightarrow> mx_event \<Rightarrow> string + json" where
  "valueForDottedKey key ev =
     (let parts = split_dots key in
      if hd parts = ''content'' then follow_path (tl parts) (getContent ev)
      else if hd parts = ''type'' then follow_path (tl parts) (of_str (getType ev))
      else follow_path parts (event ev))"

definition eventFulfillsEventMatchCondition :: "json \<Rightarrow> mx_event \<Rightarrow> bool evaluation" where
  "eventFulfillsEventMatchCondition cond ev cache =
     (case as_str (jget cond ''key'') of
        None \<Rightarrow> (Inr False, cache)
      | Some key \<Rightarrow>
          if key = [] then (Inr False, cache)
          else case valueForDottedKey key ev of
                 Inl err \<Rightarrow> (Inl err, cache)
               | Inr val \<Rightarrow>
                   (case as_str val of
                      None \<Rightarrow> (Inr False, cache)
                    | Some s \<Rightarrow>
                        if truthy (jget cond ''value'') then (Inr (jget cond ''value'' = JStr s), cache)
                        else case as_str (jget cond ''pattern'') of
                               None \<Rightarrow> (Inr False, cache)
                             | Some glob \<Rightarrow>
                                 (case createCachedRegex (key = ''content.body'') glob cache of
                                    (Inl err, cache') \<Rightarrow> (Inl err, cache')
                                  | (Inr re, cache') \<Rightarrow> (Inr (regex_matches re s), cache'))))"

definition eventFulfillsDisplayNameCondition :: "push_client \<Rightarrow> mx_event \<Rightarrow> string + bool" where
  "eventFulfillsDisplayNameCondition client ev =
     (let content = (if isEncrypted ev \<and> truthy (getClearContent ev) then getClearContent ev else getContent ev) in
      case as_str (jget content ''body'') of
        None \<Rightarrow> Inr False
      | Some body \<Rightarrow>
          if body = [] then Inr False
          else case pc_getRoom client (getRoomId ev) of
                 None \<Rightarrow> Inr False
               | Some room \<Rightarrow>
                   (case getMember (pc_userId client) room of
                      None \<Rightarrow> Inr False
                    | Some member \<Rightarrow>
                        (case parse_pattern (escapeRegExp (rm_name member)) of
                           None \<Rightarrow> Inl ''SyntaxError''
                         | Some p \<Rightarrow> Inr (search_bounded p body))))"

text \<open>\<open>/^([=<>]*)([0-9]*)$/\<close>: the operator and the number of a condition on the member count.\<close>

definition parse_count_condition :: "string \<Rightarrow> (string \<times> nat) option" where
  "parse_count_condition s =
     (let isop = (\<lambda>c. c \<in> set ''=<>''); ineq = takeWhile isop s; digits = dropWhile isop s
      in if all_digits digits \<and> digits \<noteq> [] then Some (ineq, parse_nat digits) else None)"

definition eventFulfillsRoomMemberCountCondition :: "push_client \<Rightarrow> json \<Rightarrow> mx_event \<Rightarrow> bool" where
  "eventFulfillsRoomMemberCountCondition client cond ev =
     (case as_str (jget cond ''is'') of
        None \<Rightarrow> False
      | Some is_ \<Rightarrow>
          (case pc_getRoom client (getRoomId ev) of
             None \<Rightarrow> False
           | Some room \<Rightarrow>
               (let memberCount = fst (getJoinedMemberCount room) in
                case parse_count_condition is_ of
                  None \<Rightarrow> False
                | Some (ineq, rhs) \<Rightarrow>
                    if ineq = '''' \<or> ineq = ''=='' then memberCount = rhs
                    else if ineq = ''<'' then memberCount < rhs
                    else if ineq = ''>'' then memberCount > rhs
                    else if ineq = ''<='' then memberCount \<le> rhs
                    else if ineq = ''>='' then memberCount \<ge> rhs
                    else False)))"

definition eventFulfillsSenderNotifPermCondition :: "push_client \<Rightarrow> json \<Rightarrow> mx_event \<Rightarrow> bool" where
  "eventFulfillsSenderNotifPermCondition client cond ev =
     (case as_str (jget cond ''key'') of
        None \<Rightarrow> False
      | Some notifLevelKey \<Rightarrow>
          notifLevelKey \<noteq> [] \<and>
          (case pc_getRoom client (getRoomId ev) of
             None \<Rightarrow> False
           | Some room \<Rightarrow>
               (case getSender ev of
                  None \<Rightarrow> False
                | Some userId \<Rightarrow> mayTriggerNotifOfType notifLevelKey userId room)))"

definition eventFulfillsCondition :: "push_client \<Rightarrow> json \<Rightarrow> mx_event \<Rightarrow> bool evaluation" where
  "eventFulfillsCondition client cond ev cache =
     (let kind = jget cond ''kind'' in
      if js_nullish cond then (Inl ''TypeError'', cache)
      else if kind = JStr ''event_match'' then eventFulfillsEventMatchCondition cond ev cache
      else if kind = JStr ''contains_display_name'' then (eventFulfillsDisplayNameCondition client ev, cache)
      else if kind = JStr ''room_member_count'' then (Inr (eventFulfillsRoomMemberCountCondition client cond ev), cache)
      else if kind = JStr ''sender_notification_permission''
        then (Inr (eventFulfillsSenderNotifPermCondition client cond ev), cache)
      else (Inr False, cache))"

section \<open>Rules\<close>

text \<open>Every condition is evaluated, also after one that does not hold.\<close>

fun conditions_hold :: "push_client \<Rightarrow> json list \<Rightarrow> mx_event \<Rightarrow> bool \<Rightarrow> bool evaluation" where
  "conditions_hold client [] ev ret cache = (Inr ret, cache)"
| "conditions_hold client (cond # conds) ev ret cache =
     (case eventFulfillsCondition client cond ev cache of
        (Inl err, cache') \<Rightarrow> (Inl err, cache')
      | (Inr b, cache') \<Rightarrow> conditions_hold client conds ev (ret \<and> b) cache')"

definition ruleMatchesEvent :: "push_client \<Rightarrow> json \<Rightarrow> mx_event \<Rightarrow> bool evaluation" where
  "ruleMatchesEvent client rule ev cache =
     (case jget rule ''conditions'' of
        JArr conds \<Rightarrow> conditions_hold client conds ev True cache
      | c \<Rightarrow> if js_nullish c then (Inl ''TypeError'', cache) else (Inr True, cache))"

definition templateRuleToRaw :: "string \<Rightarrow> json \<Rightarrow> json option" where
  "templateRuleToRaw kind tprule =
     (let rawrule = (\<lambda>conds. JObj [(''rule_id'', jget tprule ''rule_id''), (''actions'', jget tprule ''actions''),
                                  (''conditions'', conds)]);
          on = (\<lambda>k prop v. JArr [JObj [(''kind'', JStr ''event_match''), (''key'', JStr k), (prop, v)]])
      in if kind = ''underride'' \<or> kind = ''override'' then Some (rawrule (jget tprule ''conditions''))
         else if kind = ''room''
         then (if truthy (jget tprule ''rule_id'')
               then Some (rawrule (on ''room_id'' ''value'' (jget tprule ''rule_id''))) else None)
         else if kind = ''sender''
         then (if truthy (jget tprule ''rule_id'')
               then Some (rawrule (on ''user_id'' ''value'' (jget tprule ''rule_id''))) else None)
         else if kind = ''content''
         then (if truthy (jget tprule ''pattern'')
               then Some (rawrule (on ''content.body'' ''pattern'' (jget tprule ''pattern''))) else None)
         else Some (rawrule (JArr [])))"

text \<open>The rules of one kind, in their order; a rule that matches is returned with its kind.\<close>

fun matching_in_ruleset :: "push_client \<Rightarrow> string \<Rightarrow> json list \<Rightarrow> mx_event \<Rightarrow> json option evaluation" where
  "matching_in_ruleset client kind [] ev cache = (Inr None, cache)"
| "matching_in_ruleset client kind (rule # rules) ev cache =
     (if js_nullish rule then (Inl ''TypeError'', cache)
      else if \<not> truthy (jget rule ''enabled'') then matching_in_ruleset client kind rules ev cache
      else case templateRuleToRaw kind rule of
             None \<Rightarrow> matching_in_ruleset client kind rules ev cache
           | Some rawrule \<Rightarrow>
               (case ruleMatchesEvent client rawrule ev cache of
                  (Inl err, cache') \<Rightarrow> (Inl err, cache')
                | (Inr True, cache') \<Rightarrow> (Inr (Some (set_prop ''kind'' (JStr kind) rule)), cache')
                | (Inr False, cache') \<Rightarrow> matching_in_ruleset client kind rules ev cache'))"

fun matching_in_kinds :: "push_client \<Rightarrow> string list \<Rightarrow> json \<Rightarrow> mx_event \<Rightarrow> json option evaluation" where
  "matching_in_kinds client [] kindset ev cache = (Inr None, cache)"
| "matching_in_kinds client (kind # kinds) kindset ev cache =
     (case jget kindset kind of
        JArr ruleset \<Rightarrow>
          (case matching_in_ruleset client kind ruleset ev cache of
             (Inl err, cache') \<Rightarrow> (Inl err, cache')
           | (Inr (Some rule), cache') \<Rightarrow> (Inr (Some rule), cache')
           | (Inr None, cache') \<Rightarrow> matching_in_kinds client kinds kindset ev cache')
      | _ \<Rightarrow> matching_in_kinds client kinds kindset ev cache)"

definition matchingRuleFromKindSet :: "push_client \<Rightarrow> mx_event \<Rightarrow> json \<Rightarrow> json option evaluation" where
  "matchingRuleFromKindSet client ev kindset cache =
     (if js_nullish kindset then (Inl ''TypeError'', cache)
      else matching_in_kinds client RULEKINDS_IN_ORDER kindset ev cache)"

definition matchingRuleForEventWithRulesets :: "push_client \<Rightarrow> mx_event \<Rightarrow> json \<Rightarrow> json option evaluation" where
  "matchingRuleForEventWithRulesets client ev rulesets cache =
     (if \<not> truthy rulesets then (Inr None, cache)
      else if getSender ev = Some (pc_userId client) then (Inr None, cache)
      else matchingRuleFromKindSet client ev (jget rulesets ''global'') cache)"

section \<open>Actions\<close>

record actions_object =
  ao_notify :: bool
  ao_tweaks :: "(string, json) dict"

definition add_action :: "json \<Rightarrow> actions_object \<Rightarrow> actions_object" where
  "add_action action obj =
     (if action = JStr ''notify'' then obj\<lparr>ao_notify := True\<rparr>
      else if typeof action = ''object''
      then (let val = (if jget action ''value'' = JUndef then JBool True else jget action ''value'') in
            case as_str (jget action ''set_tweak'') of
              Some t \<Rightarrow> obj\<lparr>ao_tweaks := dset t val (ao_tweaks obj)\<rparr>
            | None \<Rightarrow> obj\<lparr>ao_tweaks := dset ''undefined'' val (ao_tweaks obj)\<rparr>)
      else obj)"

definition actionListToActionsObject :: "json list \<Rightarrow> string + actions_object" where
  "actionListToActionsObject actionList =
     (if JNull \<in> set actionList then Inl ''TypeError''
      else Inr (fold add_action actionList \<lparr>ao_notify = False, ao_tweaks = []\<rparr>))"

text \<open>\<open>None\<close> is the empty object that the code returns when no rule matches.\<close>

definition pushActionsForEventAndRulesets :: "push_client \<Rightarrow> mx_event \<Rightarrow> json \<Rightarrow> actions_object option evaluation" where
  "pushActionsForEventAndRulesets client ev rulesets cache =
     (case matchingRuleForEventWithRulesets client ev rulesets cache of
        (Inl err, cache') \<Rightarrow> (Inl err, cache')
      | (Inr None, cache') \<Rightarrow> (Inr None, cache')
      | (Inr (Some rule), cache') \<Rightarrow>
          (case jget rule ''actions'' of
             JArr actions \<Rightarrow>
               (case actionListToActionsObject actions of
                  Inl err \<Rightarrow> (Inl err, cache')
                | Inr actionObj \<Rightarrow>
                    (Inr (Some
                       (if dget (ao_tweaks actionObj) ''highlight'' = None \<or> dget (ao_tweaks actionObj) ''highlight'' = Some JUndef
                        then actionObj\<lparr>ao_tweaks := dset ''highlight'' (JBool (jget rule ''kind'' = JStr ''content'')) (ao_tweaks actionObj)\<rparr>
                        else actionObj)), cache'))
           | _ \<Rightarrow> (Inl ''TypeError'', cache')))"

definition actionsForEvent :: "push_client \<Rightarrow> json \<Rightarrow> mx_event \<Rightarrow> actions_object option evaluation" where
  "actionsForEvent client pushRules ev = pushActionsForEventAndRulesets client ev pushRules"

definition getPushRuleById :: "string \<Rightarrow> json \<Rightarrow> json option" where
  "getPushRuleById ruleId pushRules =
     List.find (\<lambda>rule. jget rule ''rule_id'' = JStr ruleId)
       (concat (map (\<lambda>kind. case jget (jget pushRules ''global'') kind of JArr rules \<Rightarrow> rules | _ \<Rightarrow> []) RULEKINDS_IN_ORDER))"

section \<open>Default rules\<close>

definition DEFAULT_OVERRIDE_RULES :: "json list" where
  "DEFAULT_OVERRIDE_RULES =
     [JObj [(''rule_id'', JStr ''.m.rule.tombstone''), (''default'', JBool True), (''enabled'', JBool True),
        (''conditions'', JArr
           [JObj [(''kind'', JStr ''event_match''), (''key'', JStr ''type''), (''pattern'', JStr ''m.room.tombstone'')],
            JObj [(''kind'', JStr ''event_match''), (''key'', JStr ''state_key''), (''pattern'', JStr [])]]),
        (''actions'', JArr
           [JStr ''notify'', JObj [(''set_tweak'', JStr ''highlight''), (''value'', JBool True)]])],
      JObj [(''rule_id'', JStr ''.m.rule.reaction''), (''default'', JBool True), (''enabled'', JBool True),
        (''conditions'', JArr
           [JObj [(''kind'', JStr ''event_match''), (''key'', JStr ''type''), (''pattern'', JStr ''m.reaction'')]]),
        (''actions'', JArr [JStr ''dont_notify''])]]"

fun update_first :: "('a \<Rightarrow> bool) \<Rightarrow> ('a \<Rightarrow> 'a) \<Rightarrow> 'a list \<Rightarrow> 'a list" where
  "update_first P f [] = []"
| "update_first P f (x # xs) = (if P x then f x # xs else x # update_first P f xs)"

definition merge_override :: "json \<Rightarrow> json list \<Rightarrow> json list" where
  "merge_override ov rules =
     (let same = (\<lambda>r. jget r ''rule_id'' = jget ov ''rule_id'') in
      if list_ex same rules
      then update_first same
             (\<lambda>r. set_prop ''actions'' (jget ov ''actions'')
                   (set_prop ''conditions'' (jget ov ''conditions'') (set_prop ''default'' (jget ov ''default'') r))) rules
      else rules @ [ov])"

definition rewriteDefaultRules :: "json \<Rightarrow> string + json" where
  "rewriteDefaultRules incomingRules =
     (if incomingRules = JUndef then Inl ''SyntaxError''
      else
        let newRules = (if truthy (json_clean incomingRules) then json_clean incomingRules else empty_obj);
            global = (if truthy (jget newRules ''global'') then jget newRules ''global'' else empty_obj);
            globalOverrides = (case jget global ''override'' of JArr rules \<Rightarrow> rules | _ \<Rightarrow> [])
        in Inr (set_prop ''global''
                  (set_prop ''override'' (JArr (fold merge_override DEFAULT_OVERRIDE_RULES globalOverrides)) global) newRules))"

section \<open>The first rule that matches\<close>

text \<open>
  A cache is consistent with a use \<open>K\<close> of the patterns, which says for every pattern whether it is matched
  inside a body or against a whole value, when each entry was made for that use.
\<close>

definition cache_ok :: "(string \<Rightarrow> bool) \<Rightarrow> regex_cache \<Rightarrow> bool" where
  "cache_ok K cache \<longleftrightarrow>
     (\<forall>g re. dget cache g = Some re \<longrightarrow> map_option (Pair (K g)) (parse_pattern (globToRegexp g True)) = Some re)"

definition pattern_use :: "(string \<Rightarrow> bool) \<Rightarrow> json \<Rightarrow> bool" where
  "pattern_use K cond =
     (case as_str (jget cond ''pattern'') of
        None \<Rightarrow> True
      | Some g \<Rightarrow> jget cond ''kind'' = JStr ''event_match'' \<longrightarrow> K g = (jget cond ''key'' = JStr ''content.body''))"

text \<open>A condition on its own, with nothing cached.\<close>

definition condition_alone :: "push_client \<Rightarrow> mx_event \<Rightarrow> json \<Rightarrow> string + bool" where
  "condition_alone client ev cond = fst (eventFulfillsCondition client cond ev [])"

definition raw_conditions :: "json \<Rightarrow> json list" where
  "raw_conditions raw = (case jget raw ''conditions'' of JArr cs \<Rightarrow> cs | _ \<Rightarrow> [])"

text \<open>The enabled rules in the order of their kinds, with what their kind makes of them.\<close>

definition applicable :: "json \<Rightarrow> (string \<times> json \<times> json) list" where
  "applicable kindset =
     concat (map (\<lambda>kind. case jget kindset kind of
         JArr rules \<Rightarrow>
           concat (map (\<lambda>rule.
             if truthy (jget rule ''enabled'')
             then (case templateRuleToRaw kind rule of Some raw \<Rightarrow> [(kind, rule, raw)] | None \<Rightarrow> [])
             else []) rules)
       | _ \<Rightarrow> []) RULEKINDS_IN_ORDER)"

definition rules_ok :: "(string \<Rightarrow> bool) \<Rightarrow> push_client \<Rightarrow> mx_event \<Rightarrow> json \<Rightarrow> bool" where
  "rules_ok K client ev kindset \<longleftrightarrow>
     list_all (\<lambda>kind. case jget kindset kind of JArr rules \<Rightarrow> list_all (\<lambda>r. \<not> js_nullish r) rules | _ \<Rightarrow> True) RULEKINDS_IN_ORDER \<and>
     list_all (\<lambda>(kind, rule, raw). \<not> js_nullish (jget raw ''conditions'') \<and>
        list_all (\<lambda>c. pattern_use K c \<and> \<not> isl (condition_alone client ev c)) (raw_conditions raw)) (applicable kindset)"

lemma regex_cached:
  assumes "cache_ok K cache" and "K g = b"
  shows "fst (createCachedRegex b g cache) = fst (createCachedRegex b g [])"
    and "cache_ok K (snd (createCachedRegex b g cache))"
proof -
  show "fst (createCachedRegex b g cache) = fst (createCachedRegex b g [])"
    using assms by (auto simp: createCachedRegex_def cache_ok_def split: option.splits)
  show "cache_ok K (snd (createCachedRegex b g cache))"
    using assms by (auto simp: createCachedRegex_def cache_ok_def dget_dset split: option.splits if_splits)
qed

lemma condition_cached:
  assumes ok: "cache_ok K cache" and use: "pattern_use K cond"
  shows "fst (eventFulfillsCondition client cond ev cache) = condition_alone client ev cond"
    and "cache_ok K (snd (eventFulfillsCondition client cond ev cache))"
proof -
  have match: "fst (eventFulfillsEventMatchCondition cond ev cache) = fst (eventFulfillsEventMatchCondition cond ev []) \<and>
      cache_ok K (snd (eventFulfillsEventMatchCondition cond ev cache))"
    if kind: "jget cond ''kind'' = JStr ''event_match''"
  proof (cases "as_str (jget cond ''key'')")
    case (Some key)
    then have key: "jget cond ''key'' = JStr key" by (cases "jget cond ''key''") auto
    have re: "fst (createCachedRegex (key = ''content.body'') g cache) = fst (createCachedRegex (key = ''content.body'') g [])"
      "cache_ok K (snd (createCachedRegex (key = ''content.body'') g cache))"
      if "as_str (jget cond ''pattern'') = Some g" for g
      using regex_cached [OF ok, of g "key = ''content.body''"] use that kind key by (simp_all add: pattern_use_def)
    show ?thesis
      using Some ok re unfolding eventFulfillsEventMatchCondition_def
      by (auto split: option.split sum.split prod.split)
  qed (simp add: eventFulfillsEventMatchCondition_def ok)
  show "fst (eventFulfillsCondition client cond ev cache) = condition_alone client ev cond"
    "cache_ok K (snd (eventFulfillsCondition client cond ev cache))"
    using match ok by (simp_all add: condition_alone_def eventFulfillsCondition_def Let_def)
qed

lemma conditions_cached:
  assumes "cache_ok K cache" and "list_all (\<lambda>c. pattern_use K c \<and> \<not> isl (condition_alone client ev c)) conds"
  shows "\<exists>cache'. conditions_hold client conds ev ret cache =
      (Inr (ret \<and> list_all (\<lambda>c. condition_alone client ev c = Inr True) conds), cache') \<and> cache_ok K cache'"
  using assms
proof (induction conds arbitrary: ret cache)
  case (Cons c conds)
  obtain b where b: "condition_alone client ev c = Inr b" using Cons.prems(2) by (cases "condition_alone client ev c") auto
  obtain cache' where c: "eventFulfillsCondition client c ev cache = (Inr b, cache')" "cache_ok K cache'"
    using condition_cached [OF Cons.prems(1), of c client ev] Cons.prems(2) b
    by (cases "eventFulfillsCondition client c ev cache") auto
  show ?case using Cons.IH [OF c(2), of "ret \<and> b"] Cons.prems(2) c b by auto
qed auto

lemma rule_cached:
  assumes "cache_ok K cache" and "\<not> js_nullish (jget raw ''conditions'')"
    and "list_all (\<lambda>c. pattern_use K c \<and> \<not> isl (condition_alone client ev c)) (raw_conditions raw)"
  shows "\<exists>cache'. ruleMatchesEvent client raw ev cache =
      (Inr (list_all (\<lambda>c. condition_alone client ev c = Inr True) (raw_conditions raw)), cache') \<and> cache_ok K cache'"
  using conditions_cached [OF assms(1), of client ev "raw_conditions raw" True] assms
  by (cases "jget raw ''conditions''") (auto simp: ruleMatchesEvent_def raw_conditions_def js_nullish_def)

lemma ruleset_cached:
  assumes "cache_ok K cache" and "list_all (\<lambda>r. \<not> js_nullish r) rules"
    and "apps = concat (map (\<lambda>rule. if truthy (jget rule ''enabled'')
             then (case templateRuleToRaw kind rule of Some raw \<Rightarrow> [(kind, rule, raw)] | None \<Rightarrow> []) else []) rules)"
    and "list_all (\<lambda>(kind, rule, raw). \<not> js_nullish (jget raw ''conditions'') \<and>
        list_all (\<lambda>c. pattern_use K c \<and> \<not> isl (condition_alone client ev c)) (raw_conditions raw)) apps"
  shows "\<exists>cache'. matching_in_ruleset client kind rules ev cache =
      (Inr (map_option (\<lambda>(kind, rule, raw). set_prop ''kind'' (JStr kind) rule)
         (List.find (\<lambda>(kind, rule, raw). list_all (\<lambda>c. condition_alone client ev c = Inr True) (raw_conditions raw)) apps)), cache') \<and>
      cache_ok K cache'"
  using assms
proof (induction rules arbitrary: cache apps)
  case (Cons rule rules)
  let ?more = "concat (map (\<lambda>rule. if truthy (jget rule ''enabled'')
             then (case templateRuleToRaw kind rule of Some raw \<Rightarrow> [(kind, rule, raw)] | None \<Rightarrow> []) else []) rules)"
  have nn: "\<not> js_nullish rule" "list_all (\<lambda>r. \<not> js_nullish r) rules" using Cons.prems(2) by simp_all
  show ?case
  proof (cases "truthy (jget rule ''enabled'') \<and> templateRuleToRaw kind rule \<noteq> None")
    case False
    then have "apps = ?more" using Cons.prems(3) by (auto split: option.splits)
    with Cons.IH [OF Cons.prems(1) nn(2) refl] Cons.prems(4) False nn(1) show ?thesis by (auto split: option.splits)
  next
    case True
    then obtain raw where raw: "templateRuleToRaw kind rule = Some raw" by auto
    have apps: "apps = (kind, rule, raw) # ?more" using Cons.prems(3) True raw by simp
    obtain cache' where m: "ruleMatchesEvent client raw ev cache =
        (Inr (list_all (\<lambda>c. condition_alone client ev c = Inr True) (raw_conditions raw)), cache')" and ok: "cache_ok K cache'"
      using rule_cached [OF Cons.prems(1), of raw client ev] Cons.prems(4) apps by auto
    show ?thesis
    proof (cases "list_all (\<lambda>c. condition_alone client ev c = Inr True) (raw_conditions raw)")
      case True
      then show ?thesis using \<open>truthy _ \<and> _\<close> nn(1) raw m ok apps by simp
    next
      case False
      have "list_all (\<lambda>(kind, rule, raw). \<not> js_nullish (jget raw ''conditions'') \<and>
        list_all (\<lambda>c. pattern_use K c \<and> \<not> isl (condition_alone client ev c)) (raw_conditions raw)) ?more"
        using Cons.prems(4) apps by simp
      from Cons.IH [OF ok nn(2) refl this] show ?thesis using \<open>truthy _ \<and> _\<close> nn(1) raw m apps False by auto
    qed
  qed
qed simp

text \<open>
  C29. The rule that decides about an event is the first one, in the order override, content, room, sender,
  underride and within a kind in the order of the list, that is enabled and all of whose conditions hold. That
  holds whatever expressions are already cached, as long as no pattern is used both inside bodies and for whole values
  (the cache does not tell these apart), no rule is malformed and no condition throws.
\<close>

theorem first_matching_rule:
  assumes "cache_ok K cache" and "rules_ok K client ev kindset" and "\<not> js_nullish kindset"
  shows "fst (matchingRuleFromKindSet client ev kindset cache) =
    Inr (map_option (\<lambda>(kind, rule, raw). set_prop ''kind'' (JStr kind) rule)
      (List.find (\<lambda>(kind, rule, raw). list_all (\<lambda>c. condition_alone client ev c = Inr True) (raw_conditions raw)) (applicable kindset)))"
proof -
  let ?hit = "\<lambda>(kind :: string, rule :: json, raw). list_all (\<lambda>c. condition_alone client ev c = Inr True) (raw_conditions raw)"
  let ?of = "\<lambda>kind. case jget kindset kind of
         JArr rules \<Rightarrow> concat (map (\<lambda>rule. if truthy (jget rule ''enabled'')
             then (case templateRuleToRaw kind rule of Some raw \<Rightarrow> [(kind, rule, raw)] | None \<Rightarrow> []) else []) rules)
       | _ \<Rightarrow> []"
  have "\<exists>cache'. matching_in_kinds client kinds kindset ev c =
      (Inr (map_option (\<lambda>(kind, rule, raw). set_prop ''kind'' (JStr kind) rule) (List.find ?hit (concat (map ?of kinds)))), cache') \<and>
      cache_ok K cache'"
    if "cache_ok K c"
      and "list_all (\<lambda>kind. case jget kindset kind of JArr rules \<Rightarrow> list_all (\<lambda>r. \<not> js_nullish r) rules | _ \<Rightarrow> True) kinds"
      and "list_all (\<lambda>(kind, rule, raw). \<not> js_nullish (jget raw ''conditions'') \<and>
        list_all (\<lambda>c. pattern_use K c \<and> \<not> isl (condition_alone client ev c)) (raw_conditions raw)) (concat (map ?of kinds))"
    for c kinds
    using that
  proof (induction kinds arbitrary: c)
    case (Cons kind kinds)
    show ?case
    proof (cases "\<exists>rules. jget kindset kind = JArr rules")
      case False
      then show ?thesis using Cons.IH [OF Cons.prems(1)] Cons.prems by (cases "jget kindset kind") auto
    next
      case True
      then obtain rules where r: "jget kindset kind = JArr rules" by auto
      obtain c' where m: "matching_in_ruleset client kind rules ev c =
          (Inr (map_option (\<lambda>(kind, rule, raw). set_prop ''kind'' (JStr kind) rule) (List.find ?hit (?of kind))), c')"
        and ok: "cache_ok K c'"
        using ruleset_cached [OF Cons.prems(1), of rules "?of kind" kind client ev] Cons.prems(2,3) r by auto
      show ?thesis
      proof (cases "List.find ?hit (?of kind)")
        case None
        then show ?thesis using Cons.IH [OF ok] Cons.prems(2,3) m r by (simp add: find_append)
      next
        case (Some x)
        then show ?thesis using m ok r by (simp add: find_append)
      qed
    qed
  qed simp
  from this [OF assms(1)] assms(2,3) show ?thesis
    unfolding matchingRuleFromKindSet_def rules_ok_def applicable_def by fastforce
qed

definition push_sample_event :: mx_event where
  "push_sample_event = new_event 0 (JObj [(''event_id'', JStr ''e''), (''sender'', JStr ''@a:x''), (''type'', JStr ''m.room.message''),
     (''content'', JObj [(''body'', JStr ''Lunch?'')])])"

definition push_sample_rules :: json where
  "push_sample_rules = JObj
     [(''underride'', JArr [JObj [(''rule_id'', JStr ''u''), (''enabled'', JBool True), (''conditions'', JArr [])]]),
      (''content'', JArr [JObj [(''rule_id'', JStr ''c''), (''enabled'', JBool True), (''pattern'', JStr ''lun*'')]])]"

definition nobody :: push_client where
  "nobody = \<lparr>pc_getRoom = (\<lambda>_. None), pc_userId = ''@me:x''\<rparr>"

lemma push_sample_ok: "rules_ok (\<lambda>_. True) nobody push_sample_event push_sample_rules" "\<not> js_nullish push_sample_rules"
  by code_simp+

theorem first_matching_rule_witness:
  "fst (matchingRuleFromKindSet nobody push_sample_event push_sample_rules []) =
     Inr (Some (JObj [(''rule_id'', JStr ''c''), (''enabled'', JBool True), (''pattern'', JStr ''lun*''), (''kind'', JStr ''content'')]))"
proof -
  have c: "cache_ok (\<lambda>_. True) []" by (simp add: cache_ok_def)
  have r: "map_option (\<lambda>(kind, rule, raw). set_prop ''kind'' (JStr kind) rule)
      (List.find (\<lambda>(kind, rule, raw). list_all (\<lambda>c. condition_alone nobody push_sample_event c = Inr True) (raw_conditions raw))
        (applicable push_sample_rules)) =
      Some (JObj [(''rule_id'', JStr ''c''), (''enabled'', JBool True), (''pattern'', JStr ''lun*''), (''kind'', JStr ''content'')])"
    by code_simp
  show ?thesis unfolding first_matching_rule [OF c push_sample_ok] r ..
qed

text \<open>
  C40. A pattern without \<open>?\<close> and \<open>[\<close> on any key but the body means what globs mean: with nothing cached, the condition holds
  exactly when the value of the key, as a whole and without regard to case, is the pattern with every star standing for some
  characters of one line.
\<close>

theorem event_match_is_glob:
  assumes "jget cond ''key'' = JStr key" and "key \<noteq> []" and "key \<noteq> ''content.body''"
    and "\<not> truthy (jget cond ''value'')" and "jget cond ''pattern'' = JStr g"
    and "CHR ''?'' \<notin> set g" and "CHR ''['' \<notin> set g"
    and "valueForDottedKey key ev = Inr (JStr s)"
  shows "fst (eventFulfillsEventMatchCondition cond ev []) = Inr (glob_match g s)"
  using assms glob_pattern [OF assms(6,7)]
  by (simp add: eventFulfillsEventMatchCondition_def createCachedRegex_def regex_matches_def match_anchored_def rests_glob)

theorem event_match_is_glob_witness:
  "fst (eventFulfillsEventMatchCondition (JObj [(''key'', JStr ''type''), (''pattern'', JStr ''M.*.message'')]) push_sample_event []) =
     Inr (glob_match ''M.*.message'' ''m.room.message'') \<and> glob_match ''M.*.message'' ''m.room.message''"
proof -
  have v: "valueForDottedKey ''type'' push_sample_event = Inr (JStr ''m.room.message'')" by code_simp
  have g: "glob_match ''M.*.message'' ''m.room.message''" by code_simp
  show ?thesis
    using event_match_is_glob [where cond = "JObj [(''key'', JStr ''type''), (''pattern'', JStr ''M.*.message'')]", OF _ _ _ _ _ _ _ v]
      g by simp
qed

text \<open>A question mark, by contrast, stands for a dot only, since its escape survives the replacement.\<close>

lemma question_mark_is_a_dot:
  "map_option (\<lambda>p. (match_anchored p ''cat'', match_anchored p ''c.t'')) (parse_pattern (globToRegexp ''c?t'' True)) = Some (False, True)"
  by code_simp

text \<open>The cache does not tell apart the two uses of a pattern: an earlier use inside a body changes a later one.\<close>

lemma cached_use_leaks:
  "let cond = (\<lambda>key. JObj [(''key'', JStr key), (''pattern'', JStr ''lunch'')]);
       ev = new_event 0 (JObj [(''content'', JObj [(''body'', JStr ''x''), (''topic'', JStr ''our lunch'')])]);
       cache = snd (eventFulfillsEventMatchCondition (cond ''content.body'') ev [])
   in fst (eventFulfillsEventMatchCondition (cond ''content.topic'') ev []) = Inr False \<and>
      fst (eventFulfillsEventMatchCondition (cond ''content.topic'') ev cache) = Inr True"
  by code_simp

text \<open>A sender rule looks at \<open>user_id\<close>, which events of the protocol do not have, so it never matches them.\<close>

lemma sender_rules_never_match:
  assumes "jget (event ev) ''user_id'' = JUndef" and "templateRuleToRaw ''sender'' rule = Some raw" and "is_object (event ev)"
  shows "fst (ruleMatchesEvent client raw ev cache) = Inr False"
proof -
  have k: "split_dots ''user_id'' = [''user_id'']" by code_simp
  obtain d where d: "event ev = JObj d" using assms(3) by (cases "event ev") auto
  have "valueForDottedKey ''user_id'' ev = Inr JNull"
    using assms(1) d by (simp add: valueForDottedKey_def k js_nullish_def)
  moreover have "jget raw ''conditions'' = JArr [JObj [(''kind'', JStr ''event_match''), (''key'', JStr ''user_id''), (''value'', jget rule ''rule_id'')]]"
    using assms(2) by (auto simp: templateRuleToRaw_def Let_def split: if_splits)
  ultimately show ?thesis
    by (simp add: ruleMatchesEvent_def eventFulfillsCondition_def eventFulfillsEventMatchCondition_def js_nullish_def Let_def)
qed

section \<open>Merging the default rules\<close>

definition overrides :: "json \<Rightarrow> json list" where
  "overrides rules = (case jget (jget rules ''global'') ''override'' of JArr rs \<Rightarrow> rs | _ \<Rightarrow> [])"

definition settle_rule :: "json \<Rightarrow> json \<Rightarrow> json" where
  "settle_rule ov r = set_prop ''actions'' (jget ov ''actions'')
     (set_prop ''conditions'' (jget ov ''conditions'') (set_prop ''default'' (jget ov ''default'') r))"

lemma dset_same: "dget d k = Some v \<Longrightarrow> dset k v d = d"
  by (induction d) auto

lemma settle_fields:
  "k \<notin> {''actions'', ''conditions'', ''default''} \<Longrightarrow> jget (settle_rule ov r) k = jget r k"
  "settle_rule ov (settle_rule ov r) = settle_rule ov r"
proof -
  show "k \<notin> {''actions'', ''conditions'', ''default''} \<Longrightarrow> jget (settle_rule ov r) k = jget r k"
    by (cases r) (simp_all add: settle_rule_def dict_simps)
  show "settle_rule ov (settle_rule ov r) = settle_rule ov r"
    by (cases r) (simp_all add: settle_rule_def dict_simps dset_same)
qed

lemma merge_eq:
  "merge_override ov rules =
     (if list_ex (\<lambda>r. jget r ''rule_id'' = jget ov ''rule_id'') rules
      then update_first (\<lambda>r. jget r ''rule_id'' = jget ov ''rule_id'') (settle_rule ov) rules else rules @ [ov])"
  by (simp add: merge_override_def settle_rule_def [abs_def])

text \<open>The first rule with the id of a default carries what the default says.\<close>

definition settled :: "json \<Rightarrow> json list \<Rightarrow> bool" where
  "settled ov rules \<longleftrightarrow> (\<exists>r. List.find (\<lambda>r. jget r ''rule_id'' = jget ov ''rule_id'') rules = Some r \<and> settle_rule ov r = r)"

lemma update_first_same: "List.find P xs = Some x \<Longrightarrow> f x = x \<Longrightarrow> update_first P f xs = xs"
  by (induction xs) (auto split: if_splits)

lemma find_list_ex: "list_ex P xs = (List.find P xs \<noteq> None)"
  by (auto simp: find_None_iff list_ex_iff)

lemma merge_settled: "settled ov rules \<Longrightarrow> merge_override ov rules = rules"
  by (auto simp: settled_def merge_eq find_list_ex update_first_same)

lemma find_update_first:
  "(\<And>x. P x \<Longrightarrow> Q (f x) = Q x) \<Longrightarrow>
   List.find Q (update_first P f xs) = (case List.find Q xs of Some x \<Rightarrow> Some (if List.find P xs = Some x then f x else x) | None \<Rightarrow> None)"
proof (induction xs)
  case (Cons x xs)
  have hit: "R y" if "List.find R xs = Some y" for R y
    using that by (induction xs) (auto split: if_splits)
  show ?case
  proof (cases "P x")
    case True
    moreover have "x \<noteq> y" if "\<not> Q x" "List.find Q xs = Some y" for y using hit [OF that(2)] that(1) by blast
    ultimately show ?thesis using Cons.prems by (cases "Q x") (simp_all split: option.split)
  next
    case False
    then have "List.find P xs \<noteq> Some x" using hit [of P] by blast
    then show ?thesis using False Cons by (cases "Q x") (simp_all split: option.split)
  qed
qed simp

lemma merge_settles:
  assumes "settle_rule ov ov = ov"
  shows "settled ov (merge_override ov rules)"
proof (cases "List.find (\<lambda>r. jget r ''rule_id'' = jget ov ''rule_id'') rules")
  case None
  then show ?thesis using assms by (simp add: settled_def merge_eq find_list_ex find_append)
next
  case (Some r)
  then show ?thesis
    by (simp add: settled_def merge_eq find_list_ex find_update_first settle_fields)
qed

lemma settled_other:
  assumes "settled ov rules" and "jget ov ''rule_id'' \<noteq> jget ov' ''rule_id''"
  shows "settled ov (merge_override ov' rules)"
proof -
  obtain r where r: "List.find (\<lambda>r. jget r ''rule_id'' = jget ov ''rule_id'') rules = Some r" "settle_rule ov r = r"
    using assms(1) by (auto simp: settled_def)
  then have id: "jget r ''rule_id'' = jget ov ''rule_id''" by (auto simp: find_Some_iff)
  have "List.find (\<lambda>r. jget r ''rule_id'' = jget ov' ''rule_id'') rules \<noteq> Some r"
    using id assms(2) by (auto simp: find_Some_iff)
  then show ?thesis
    using r by (simp add: settled_def merge_eq find_update_first settle_fields find_append)
qed

lemma merge_prefix:
  "\<exists>more. map (\<lambda>r. (jget r ''rule_id'', jget r ''enabled'')) (merge_override ov rules) =
     map (\<lambda>r. (jget r ''rule_id'', jget r ''enabled'')) rules @ more"
proof -
  have "map (\<lambda>r. (jget r ''rule_id'', jget r ''enabled'')) (update_first P (settle_rule ov) rules) =
      map (\<lambda>r. (jget r ''rule_id'', jget r ''enabled'')) rules" for P
    by (induction rules) (simp_all add: settle_fields)
  then show ?thesis by (auto simp: merge_eq)
qed

text \<open>JSON that survives a round trip through its text.\<close>

lemma clean_obj: "json_clean (JObj d) = JObj d \<longleftrightarrow> (\<forall>(k, v) \<in> set d. v \<noteq> JUndef \<and> json_clean v = v)"
proof
  assume a: "json_clean (JObj d) = JObj d"
  then have eq: "map (\<lambda>e. (fst e, json_clean (snd e))) (filter (\<lambda>e. snd e \<noteq> JUndef) d) = d" by simp
  have len: "length (filter (\<lambda>e. snd e \<noteq> JUndef) d) = length d" using arg_cong [OF eq, of length] by simp
  have all: "\<forall>e \<in> set d. snd e \<noteq> JUndef"
  proof (rule ccontr)
    assume "\<not> ?thesis"
    then obtain e where "e \<in> set d" "\<not> snd e \<noteq> JUndef" by blast
    from length_filter_less [of e d "\<lambda>e. snd e \<noteq> JUndef", OF this] len show False by simp
  qed
  then have "filter (\<lambda>e. snd e \<noteq> JUndef) d = d" by (simp add: filter_id_conv)
  with eq have "map (\<lambda>e. (fst e, json_clean (snd e))) d = map id d" by simp
  then have "\<forall>e \<in> set d. (fst e, json_clean (snd e)) = e" unfolding map_eq_conv by simp
  with all show "\<forall>(k, v) \<in> set d. v \<noteq> JUndef \<and> json_clean v = v" by fastforce
next
  assume a: "\<forall>(k, v) \<in> set d. v \<noteq> JUndef \<and> json_clean v = v"
  then have "filter (\<lambda>e. snd e \<noteq> JUndef) d = d" by (auto simp: filter_id_conv)
  moreover have "map (\<lambda>e. (fst e, json_clean (snd e))) d = d" using a by (intro map_idI) auto
  ultimately show "json_clean (JObj d) = JObj d" by simp
qed

lemma clean_twice: "json_clean (json_clean j) = json_clean j" "json_clean j \<noteq> JUndef"
proof -
  show nu: "json_clean j \<noteq> JUndef" for j by (cases j) simp_all
  show "json_clean (json_clean j) = json_clean j"
  proof (induction j rule: json_clean.induct)
    case (3 d)
    have "json_clean (JObj (map (\<lambda>e. (fst e, json_clean (snd e))) (filter (\<lambda>e. snd e \<noteq> JUndef) d))) =
      JObj (map (\<lambda>e. (fst e, json_clean (snd e))) (filter (\<lambda>e. snd e \<noteq> JUndef) d))"
      unfolding clean_obj using 3 nu by auto
    then show ?case by simp
  qed simp_all
qed

definition clean :: "json \<Rightarrow> bool" where
  "clean j \<longleftrightarrow> json_clean j = j"

lemma clean_set_prop: "clean j \<Longrightarrow> clean v \<Longrightarrow> v \<noteq> JUndef \<Longrightarrow> clean (set_prop k v j)"
proof (cases j)
  case (JObj d)
  assume a: "clean j" "clean v" "v \<noteq> JUndef"
  have "\<forall>(k', v') \<in> set (dset k v d). v' \<noteq> JUndef \<and> json_clean v' = v'"
    if "\<forall>(k', v') \<in> set d. v' \<noteq> JUndef \<and> json_clean v' = v'"
    using that a by (induction d) (auto simp: clean_def)
  then show ?thesis using a(1) JObj clean_obj unfolding clean_def by simp
qed simp_all

lemma clean_jget: "clean j \<Longrightarrow> jget j k \<noteq> JUndef \<Longrightarrow> clean (jget j k)"
proof (cases j)
  case (JObj d)
  assume a: "clean j" "jget j k \<noteq> JUndef"
  then obtain v where v: "dget d k = Some v" using JObj by (cases "dget d k") auto
  with clean_obj [of d] a(1) JObj map_of_SomeD [OF v] show ?thesis by (auto simp: clean_def)
qed simp_all

lemma clean_arr: "clean (JArr xs) \<longleftrightarrow> list_all clean xs"
proof -
  have "(map json_clean xs = map id xs) = (\<forall>x \<in> set xs. json_clean x = id x)" by (rule map_eq_conv)
  then show ?thesis by (simp add: clean_def list_all_iff)
qed

lemma clean_settle:
  "clean ov \<Longrightarrow> jget ov ''actions'' \<noteq> JUndef \<Longrightarrow> jget ov ''conditions'' \<noteq> JUndef \<Longrightarrow> jget ov ''default'' \<noteq> JUndef \<Longrightarrow>
   clean r \<Longrightarrow> clean (settle_rule ov r)"
  by (simp add: settle_rule_def clean_set_prop clean_jget)

lemma clean_merge:
  assumes "clean ov" and "jget ov ''actions'' \<noteq> JUndef" and "jget ov ''conditions'' \<noteq> JUndef" and "jget ov ''default'' \<noteq> JUndef"
    and "list_all clean rules"
  shows "list_all clean (merge_override ov rules)"
proof -
  have "list_all clean (update_first P (settle_rule ov) rules)" for P
    using assms(5) by (induction rules) (simp_all add: clean_settle [OF assms(1-4)])
  then show ?thesis using assms(1,5) by (simp add: merge_eq)
qed

lemma defaults_ok:
  "list_all (\<lambda>ov. clean ov \<and> jget ov ''actions'' \<noteq> JUndef \<and> jget ov ''conditions'' \<noteq> JUndef \<and> jget ov ''default'' \<noteq> JUndef \<and>
     settle_rule ov ov = ov) DEFAULT_OVERRIDE_RULES"
  "distinct (map (\<lambda>ov. jget ov ''rule_id'') DEFAULT_OVERRIDE_RULES)"
  unfolding clean_def by code_simp+

lemma fold_merge:
  assumes "list_all (\<lambda>ov. clean ov \<and> jget ov ''actions'' \<noteq> JUndef \<and> jget ov ''conditions'' \<noteq> JUndef \<and> jget ov ''default'' \<noteq> JUndef \<and>
      settle_rule ov ov = ov) ovs"
    and "distinct (map (\<lambda>ov. jget ov ''rule_id'') ovs)"
  shows "list_all (\<lambda>ov. settled ov (fold merge_override ovs rules)) ovs"
    and "list_all clean rules \<Longrightarrow> list_all clean (fold merge_override ovs rules)"
    and "\<exists>more. map (\<lambda>r. (jget r ''rule_id'', jget r ''enabled'')) (fold merge_override ovs rules) =
      map (\<lambda>r. (jget r ''rule_id'', jget r ''enabled'')) rules @ more"
proof -
  have keep: "settled ov (fold merge_override ovs rs)"
    if "settled ov rs" "jget ov ''rule_id'' \<notin> set (map (\<lambda>ov. jget ov ''rule_id'') ovs)" for ov rs ovs
    using that by (induction ovs arbitrary: rs) (auto intro: settled_other)
  show "list_all (\<lambda>ov. settled ov (fold merge_override ovs rules)) ovs"
    using assms by (induction ovs arbitrary: rules) (auto intro!: keep merge_settles)
  show "list_all clean rules \<Longrightarrow> list_all clean (fold merge_override ovs rules)"
    using assms(1) by (induction ovs arbitrary: rules) (auto simp: clean_merge)
  show "\<exists>more. map (\<lambda>r. (jget r ''rule_id'', jget r ''enabled'')) (fold merge_override ovs rules) =
      map (\<lambda>r. (jget r ''rule_id'', jget r ''enabled'')) rules @ more"
  proof (induction ovs arbitrary: rules)
    case (Cons ov ovs)
    obtain m1 where m1: "map (\<lambda>r. (jget r ''rule_id'', jget r ''enabled'')) (merge_override ov rules) =
      map (\<lambda>r. (jget r ''rule_id'', jget r ''enabled'')) rules @ m1" using merge_prefix by blast
    obtain m2 where "map (\<lambda>r. (jget r ''rule_id'', jget r ''enabled'')) (fold merge_override ovs (merge_override ov rules)) =
      map (\<lambda>r. (jget r ''rule_id'', jget r ''enabled'')) (merge_override ov rules) @ m2" using Cons by blast
    then show ?case using m1 by (intro exI [of _ "m1 @ m2"]) (simp only: fold_simps append_assoc)
  qed simp
qed

lemma fold_settled: "list_all (\<lambda>ov. settled ov rules) ovs \<Longrightarrow> fold merge_override ovs rules = rules"
  by (induction ovs) (simp_all add: merge_settled)

text \<open>
  Rewriting the default rules keeps every rule of the user in its place with its \<open>enabled\<close> flag, leaves for every default
  a rule that carries the default's conditions and actions, and is idempotent: the result is its own rewriting.
\<close>

theorem rewriteDefaultRules_stable:
  assumes "is_object rules"
    and "is_object (jget (json_clean rules) ''global'') \<or> \<not> truthy (jget (json_clean rules) ''global'')"
    and "rewriteDefaultRules rules = Inr rules'"
  shows "rewriteDefaultRules rules' = Inr rules' \<and>
    list_all (\<lambda>ov. settled ov (overrides rules')) DEFAULT_OVERRIDE_RULES \<and>
    (\<exists>more. map (\<lambda>r. (jget r ''rule_id'', jget r ''enabled'')) (overrides rules') =
       map (\<lambda>r. (jget r ''rule_id'', jget r ''enabled'')) (overrides (json_clean rules)) @ more)"
proof -
  obtain d0 where "rules = JObj d0" using assms(1) by (cases rules) auto
  then obtain d where d: "json_clean rules = JObj d" by simp
  let ?g = "if truthy (jget (JObj d) ''global'') then jget (JObj d) ''global'' else empty_obj"
  let ?old = "case jget ?g ''override'' of JArr rs \<Rightarrow> rs | _ \<Rightarrow> []"
  let ?new = "fold merge_override DEFAULT_OVERRIDE_RULES ?old"
  have r': "rules' = set_prop ''global'' (set_prop ''override'' (JArr ?new) ?g) (JObj d)"
  proof -
    have "rules \<noteq> JUndef" using assms(1) by auto
    then have "rewriteDefaultRules rules = Inr (set_prop ''global'' (set_prop ''override'' (JArr ?new) ?g) (JObj d))"
      unfolding rewriteDefaultRules_def Let_def d by (simp only: truthy.simps if_True if_False)
    then show ?thesis using assms(3) by (metis sum.inject(2))
  qed
  have old: "?old = overrides (json_clean rules)"
    using d by (cases "jget (JObj d) ''global''") (auto simp: overrides_def empty_obj_def)
  have cd: "clean (JObj d)" using d clean_twice(1) [of rules] by (simp add: clean_def)
  have cg: "clean ?g"
  proof (cases "truthy (jget (JObj d) ''global'')")
    case True
    then have "jget (JObj d) ''global'' \<noteq> JUndef" by auto
    from clean_jget [OF cd this] True show ?thesis by presburger
  next
    case False
    then have "?g = empty_obj" by presburger
    then show ?thesis by (simp add: empty_obj_def clean_def)
  qed
  obtain g where g: "?g = JObj g" using assms(2) d by (cases "jget (JObj d) ''global''") (auto simp: empty_obj_def)
  have "list_all clean ?old"
    using clean_jget [OF cg, of "''override''"] by (auto simp: clean_arr split: json.split)
  then have cn: "clean (JArr ?new)" using fold_merge(2) [OF defaults_ok] by (simp add: clean_arr)
  have c1: "clean (set_prop ''override'' (JArr ?new) ?g)" by (rule clean_set_prop [OF cg cn]) simp
  have n1: "set_prop ''override'' (JArr ?new) ?g \<noteq> JUndef" unfolding g by simp
  have cr: "clean rules'" unfolding r' by (rule clean_set_prop [OF cd c1 n1])
  have new: "overrides rules' = ?new" "jget rules' ''global'' = JObj (dset ''override'' (JArr ?new) g)"
    unfolding r' g by (simp_all add: overrides_def dict_simps)
  have stay: "fold merge_override DEFAULT_OVERRIDE_RULES ?new = ?new"
    by (rule fold_settled) (rule fold_merge(1) [OF defaults_ok])
  obtain e where e: "rules' = JObj e" unfolding r' g by simp
  have "rewriteDefaultRules rules' = Inr rules'"
  proof -
    have same: "set_prop k v j = j" if "jget j k = v" "v \<noteq> JUndef" for j k v
      using that by (cases j) (auto simp: dset_same split: option.splits)
    have facts: "json_clean rules' = rules'" "rules' \<noteq> JUndef" "truthy rules'" "truthy (jget rules' ''global'')"
      using cr new(2) by (auto simp: clean_def e)
    have ov: "(case jget (jget rules' ''global'') ''override'' of JArr rs \<Rightarrow> rs | _ \<Rightarrow> []) = ?new"
      using new(1) unfolding overrides_def .
    have "rewriteDefaultRules rules' = Inr (set_prop ''global'' (set_prop ''override'' (JArr ?new) (jget rules' ''global'')) rules')"
      unfolding rewriteDefaultRules_def Let_def facts(1) ov by (simp only: facts if_True if_False ov stay)
    moreover have "set_prop ''override'' (JArr ?new) (jget rules' ''global'') = jget rules' ''global''"
      by (rule same) (simp_all only: new(2) jget.simps dict_simps if_True option.case json.distinct not_False_eq_True simp_thms)
    moreover have "set_prop ''global'' (jget rules' ''global'') rules' = rules'"
      by (rule same) (simp_all add: new(2))
    ultimately show ?thesis by (simp only:)
  qed
  then show ?thesis
    using fold_merge(1,3) [OF defaults_ok, of ?old] unfolding new(1) old by blast
qed

theorem rewriteDefaultRules_stable_witness:
  "rewriteDefaultRules (JObj [(''global'', JObj [(''override'', JArr DEFAULT_OVERRIDE_RULES)])]) =
     Inr (JObj [(''global'', JObj [(''override'', JArr DEFAULT_OVERRIDE_RULES)])])"
proof -
  have "rewriteDefaultRules (JObj []) = Inr (JObj [(''global'', JObj [(''override'', JArr DEFAULT_OVERRIDE_RULES)])])" by code_simp
  from rewriteDefaultRules_stable [OF _ _ this] show ?thesis by simp
qed

end
