(* ===== verification/KeyRequests.thy ===== *)
theory KeyRequests
  imports Json Dict2
begin

text \<open>
  The outgoing room key requests of \<^verbatim>\<open>src/crypto/OutgoingRoomKeyRequestManager.ts\<close> over the requests of
  \<^verbatim>\<open>src/crypto/store/memory-crypto-store.ts\<close>. The store hands out its own request objects, so
  requests live in a heap and the store's list, and every continuation, holds addresses. What a promise of the code waits
  for (a store access that has answered, a call to the server, the timer) is a task; the environment runs the
  tasks in any order and says whether a call succeeds. Transaction ids are the counter that makes them unique.
\<close>

section \<open>State\<close>

datatype request_state = Unsent | Sent | CancellationPending | CancellationPendingAndWillResend

record key_request =
  kr_requestId :: nat
  kr_requestTxnId :: "nat option"
  kr_cancellationTxnId :: "nat option"
  kr_recipients :: "(string \<times> string) list"
  kr_body :: json
  kr_state :: request_state

datatype key_message =
    RequestKeys nat json
  | CancelRequest nat

text \<open>Who waits for a cancellation to be sent: the loop of the timer or a call of the client.\<close>

datatype waiter = Loop | QueueCall | CancelCall

datatype key_task =
    QueueGot json "(string \<times> string) list" bool "nat option"
  | QueueUpdated json "(string \<times> string) list" bool "nat option"
  | CancelGot "nat option"
  | CancelUpdated "nat option"
  | TimerFires
  | LoopGot bool "nat option"
  | Requesting nat
  | Cancelling nat bool waiter

record key_manager =
  km_heap :: "nat \<Rightarrow> key_request"
  km_used :: nat
  km_requests :: "nat list"
  km_txn :: nat
  km_timer :: bool
  km_sending :: bool
  km_clientRunning :: bool
  km_tasks :: "key_task list"
  km_calls :: "(key_message \<times> (string, string, unit) dict2 \<times> nat option) list"
  km_delivered :: "key_message list"
  km_error :: bool

definition new_key_manager :: key_manager where
  "new_key_manager =
     \<lparr>km_heap = (\<lambda>_. \<lparr>kr_requestId = 0, kr_requestTxnId = None, kr_cancellationTxnId = None, kr_recipients = [],
        kr_body = JUndef, kr_state = Unsent\<rparr>),
      km_used = 0, km_requests = [], km_txn = 0, km_timer = False, km_sending = False, km_clientRunning = False,
      km_tasks = [], km_calls = [], km_delivered = [], km_error = False\<rparr>"

definition push_ktask :: "key_task \<Rightarrow> key_manager \<Rightarrow> key_manager" where
  "push_ktask t m = m\<lparr>km_tasks := km_tasks m @ [t]\<rparr>"

section \<open>The store\<close>

definition store_getOutgoingRoomKeyRequest :: "json \<Rightarrow> key_manager \<Rightarrow> nat option" where
  "store_getOutgoingRoomKeyRequest body m = List.find (\<lambda>a. deepCompare (kr_body (km_heap m a)) body) (km_requests m)"

definition getOrAddOutgoingRoomKeyRequest :: "key_request \<Rightarrow> key_manager \<Rightarrow> nat \<times> key_manager" where
  "getOrAddOutgoingRoomKeyRequest r m =
     (case store_getOutgoingRoomKeyRequest (kr_body r) m of
        Some a \<Rightarrow> (a, m)
      | None \<Rightarrow> (km_used m, m\<lparr>km_heap := (km_heap m)(km_used m := r), km_used := km_used m + 1,
                            km_requests := km_requests m @ [km_used m]\<rparr>))"

definition getOutgoingRoomKeyRequestByState :: "request_state list \<Rightarrow> key_manager \<Rightarrow> nat option" where
  "getOutgoingRoomKeyRequestByState wantedStates m =
     List.find (\<lambda>a. kr_state (km_heap m a) \<in> set wantedStates) (km_requests m)"

definition getAllOutgoingRoomKeyRequestsByState :: "request_state \<Rightarrow> key_manager \<Rightarrow> nat list" where
  "getAllOutgoingRoomKeyRequestsByState wantedState m =
     filter (\<lambda>a. kr_state (km_heap m a) = wantedState) (km_requests m)"

text \<open>
  \<open>recipients.includes({ userId, deviceId })\<close> compares a new object by identity with those of the list, so it
  is false.
\<close>

definition includes_new_object :: "(string \<times> string) list \<Rightarrow> string \<times> string \<Rightarrow> bool" where
  "includes_new_object recipients target = False"

definition getOutgoingRoomKeyRequestsByTarget :: "string \<Rightarrow> string \<Rightarrow> request_state list \<Rightarrow> key_manager \<Rightarrow> nat list" where
  "getOutgoingRoomKeyRequestsByTarget userId deviceId wantedStates m =
     concat (map (\<lambda>a. concat (map (\<lambda>st.
       if kr_state (km_heap m a) = st \<and> includes_new_object (kr_recipients (km_heap m a)) (userId, deviceId) then [a] else [])
       wantedStates)) (km_requests m))"

definition updateOutgoingRoomKeyRequest ::
  "nat \<Rightarrow> request_state \<Rightarrow> (key_request \<Rightarrow> key_request) \<Rightarrow> key_manager \<Rightarrow> nat option \<times> key_manager" where
  "updateOutgoingRoomKeyRequest requestId expectedState updates m =
     (case List.find (\<lambda>a. kr_requestId (km_heap m a) = requestId) (km_requests m) of
        None \<Rightarrow> (None, m)
      | Some a \<Rightarrow>
          if kr_state (km_heap m a) \<noteq> expectedState then (None, m)
          else (Some a, m\<lparr>km_heap := (km_heap m)(a := updates (km_heap m a))\<rparr>))"

fun splice_first :: "(nat \<Rightarrow> bool) \<Rightarrow> nat list \<Rightarrow> nat list" where
  "splice_first P [] = []"
| "splice_first P (a # as) = (if P a then as else a # splice_first P as)"

definition deleteOutgoingRoomKeyRequest :: "nat \<Rightarrow> request_state \<Rightarrow> key_manager \<Rightarrow> key_manager" where
  "deleteOutgoingRoomKeyRequest requestId expectedState m =
     (case List.find (\<lambda>a. kr_requestId (km_heap m a) = requestId) (km_requests m) of
        None \<Rightarrow> m
      | Some a \<Rightarrow>
          if kr_state (km_heap m a) \<noteq> expectedState then m
          else m\<lparr>km_requests := splice_first (\<lambda>a. kr_requestId (km_heap m a) = requestId) (km_requests m)\<rparr>)"

section \<open>Sending\<close>

definition sendMessageToDevices :: "key_message \<Rightarrow> (string \<times> string) list \<Rightarrow> nat option \<Rightarrow> key_manager \<Rightarrow> key_manager" where
  "sendMessageToDevices msg recipients txnId m =
     (let contentMap = fold (\<lambda>(userId, deviceId). put2 userId deviceId ()) recipients []
      in m\<lparr>km_calls := km_calls m @ [(msg, contentMap, txnId)]\<rparr>)"

definition sendOutgoingRoomKeyRequest :: "nat \<Rightarrow> key_manager \<Rightarrow> key_manager" where
  "sendOutgoingRoomKeyRequest a m =
     (let r = km_heap m a;
          txn = (case kr_requestTxnId r of Some t \<Rightarrow> t | None \<Rightarrow> kr_requestId r)
      in push_ktask (Requesting a)
           (sendMessageToDevices (RequestKeys (kr_requestId r) (kr_body r)) (kr_recipients r) (Some txn) m))"

definition sendOutgoingRoomKeyRequestCancellation :: "nat \<Rightarrow> bool \<Rightarrow> waiter \<Rightarrow> key_manager \<Rightarrow> key_manager" where
  "sendOutgoingRoomKeyRequestCancellation a andResend w m =
     (let r = km_heap m a
      in push_ktask (Cancelling a andResend w)
           (sendMessageToDevices (CancelRequest (kr_requestId r)) (kr_recipients r) (kr_cancellationTxnId r) m))"

definition startTimer :: "key_manager \<Rightarrow> key_manager" where
  "startTimer m = (if km_timer m then m else push_ktask TimerFires (m\<lparr>km_timer := True\<rparr>))"

text \<open>
  The loop. When a round ends without an error and without more to do, the timer handle is cleared, and the flag once the
  promise has settled, which is before any other timer.
\<close>

definition sendOutgoingRoomKeyRequests :: "bool \<Rightarrow> key_manager \<Rightarrow> key_manager" where
  "sendOutgoingRoomKeyRequests first m =
     (if \<not> km_clientRunning m then m\<lparr>km_timer := False, km_sending := False\<rparr>
      else push_ktask (LoopGot first
             (getOutgoingRoomKeyRequestByState [CancellationPending, CancellationPendingAndWillResend, Unsent] m)) m)"

text \<open>
  A request that has become \<open>Sent\<close> since the store answered leaves no promise to wait for: in the first round
  nobody catches the error and the handle of the timer stays; in a later one the round before clears it.
\<close>

definition loop_got :: "bool \<Rightarrow> nat option \<Rightarrow> key_manager \<Rightarrow> key_manager" where
  "loop_got first r m =
     (case r of
        None \<Rightarrow> m\<lparr>km_timer := False, km_sending := False\<rparr>
      | Some a \<Rightarrow>
          (case kr_state (km_heap m a) of
             Unsent \<Rightarrow> sendOutgoingRoomKeyRequest a m
           | CancellationPending \<Rightarrow> sendOutgoingRoomKeyRequestCancellation a False Loop m
           | CancellationPendingAndWillResend \<Rightarrow> sendOutgoingRoomKeyRequestCancellation a True Loop m
           | Sent \<Rightarrow> (if first then m\<lparr>km_sending := False\<rparr> else m\<lparr>km_timer := False, km_sending := False\<rparr>)))"

section \<open>The operations\<close>

definition queueRoomKeyRequest :: "json \<Rightarrow> (string \<times> string) list \<Rightarrow> bool \<Rightarrow> key_manager \<Rightarrow> key_manager" where
  "queueRoomKeyRequest body recipients resend m =
     push_ktask (QueueGot body recipients resend (store_getOutgoingRoomKeyRequest body m)) m"

definition next_txn :: "key_manager \<Rightarrow> nat \<times> key_manager" where
  "next_txn m = (km_txn m, m\<lparr>km_txn := km_txn m + 1\<rparr>)"

definition queue_got :: "json \<Rightarrow> (string \<times> string) list \<Rightarrow> bool \<Rightarrow> nat option \<Rightarrow> key_manager \<Rightarrow> key_manager" where
  "queue_got body recipients resend req m =
     (case req of
        None \<Rightarrow>
          (let (t, m1) = next_txn m
           in snd (getOrAddOutgoingRoomKeyRequest
                \<lparr>kr_requestId = t, kr_requestTxnId = None, kr_cancellationTxnId = None, kr_recipients = recipients,
                 kr_body = body, kr_state = Unsent\<rparr> m1))
      | Some a \<Rightarrow>
          (case kr_state (km_heap m a) of
             CancellationPendingAndWillResend \<Rightarrow> m
           | Unsent \<Rightarrow> m
           | CancellationPending \<Rightarrow>
               (let st = (if resend then CancellationPendingAndWillResend else Sent); (t, m1) = next_txn m
                in snd (updateOutgoingRoomKeyRequest (kr_requestId (km_heap m a)) CancellationPending
                     (\<lambda>r. r\<lparr>kr_state := st, kr_cancellationTxnId := Some t\<rparr>) m1))
           | Sent \<Rightarrow>
               if resend
               then (let (t1, m1) = next_txn m; (t2, m2) = next_txn m1;
                         (updated, m3) = updateOutgoingRoomKeyRequest (kr_requestId (km_heap m a)) Sent
                           (\<lambda>r. r\<lparr>kr_state := CancellationPendingAndWillResend, kr_cancellationTxnId := Some t1,
                                  kr_requestTxnId := Some t2\<rparr>) m2
                     in push_ktask (QueueUpdated body recipients resend updated) m3)
               else m))"

definition queue_updated :: "json \<Rightarrow> (string \<times> string) list \<Rightarrow> bool \<Rightarrow> nat option \<Rightarrow> key_manager \<Rightarrow> key_manager" where
  "queue_updated body recipients resend updated m =
     (case updated of
        None \<Rightarrow> queueRoomKeyRequest body recipients resend m
      | Some a \<Rightarrow> sendOutgoingRoomKeyRequestCancellation a True QueueCall m)"

definition cancelRoomKeyRequest :: "json \<Rightarrow> key_manager \<Rightarrow> key_manager" where
  "cancelRoomKeyRequest body m = push_ktask (CancelGot (store_getOutgoingRoomKeyRequest body m)) m"

definition cancel_got :: "nat option \<Rightarrow> key_manager \<Rightarrow> key_manager" where
  "cancel_got req m =
     (case req of
        None \<Rightarrow> m
      | Some a \<Rightarrow>
          (case kr_state (km_heap m a) of
             CancellationPending \<Rightarrow> m
           | CancellationPendingAndWillResend \<Rightarrow> m
           | Unsent \<Rightarrow> deleteOutgoingRoomKeyRequest (kr_requestId (km_heap m a)) Unsent m
           | Sent \<Rightarrow>
               (let (t, m1) = next_txn m;
                    (updated, m2) = updateOutgoingRoomKeyRequest (kr_requestId (km_heap m a)) Sent
                      (\<lambda>r. r\<lparr>kr_state := CancellationPending, kr_cancellationTxnId := Some t\<rparr>) m1
                in push_ktask (CancelUpdated updated) m2)))"

definition cancel_updated :: "nat option \<Rightarrow> key_manager \<Rightarrow> key_manager" where
  "cancel_updated updated m =
     (case updated of None \<Rightarrow> m | Some a \<Rightarrow> sendOutgoingRoomKeyRequestCancellation a False CancelCall m)"

definition cancelAndResendAllOutgoingRequests :: "key_manager \<Rightarrow> key_manager" where
  "cancelAndResendAllOutgoingRequests m =
     fold (\<lambda>a. queueRoomKeyRequest (kr_body (km_heap m a)) (kr_recipients (km_heap m a)) True)
       (getAllOutgoingRoomKeyRequestsByState Sent m) m"

definition getOutgoingSentRoomKeyRequest :: "string \<Rightarrow> string \<Rightarrow> key_manager \<Rightarrow> nat list" where
  "getOutgoingSentRoomKeyRequest userId deviceId m = getOutgoingRoomKeyRequestsByTarget userId deviceId [Sent] m"

section \<open>The event loop\<close>

definition loop_continues :: "bool \<Rightarrow> key_manager \<Rightarrow> key_manager" where
  "loop_continues ok m =
     (if ok then sendOutgoingRoomKeyRequests False m else m\<lparr>km_timer := False, km_sending := False\<rparr>)"

definition requested :: "nat \<Rightarrow> key_manager \<Rightarrow> key_manager" where
  "requested a m =
     (let r = km_heap m a in
      snd (updateOutgoingRoomKeyRequest (kr_requestId r) Unsent (\<lambda>r. r\<lparr>kr_state := Sent\<rparr>)
        (m\<lparr>km_delivered := km_delivered m @ [RequestKeys (kr_requestId r) (kr_body r)]\<rparr>)))"

definition requesting_done :: "nat \<Rightarrow> bool \<Rightarrow> key_manager \<Rightarrow> key_manager" where
  "requesting_done a ok m = loop_continues ok (if ok then requested a m else m)"

definition cancelled :: "nat \<Rightarrow> bool \<Rightarrow> key_manager \<Rightarrow> key_manager" where
  "cancelled a andResend m =
     (let i = kr_requestId (km_heap m a); md = m\<lparr>km_delivered := km_delivered m @ [CancelRequest i]\<rparr> in
      if andResend
      then snd (updateOutgoingRoomKeyRequest i CancellationPendingAndWillResend (\<lambda>r. r\<lparr>kr_state := Unsent\<rparr>) md)
      else deleteOutgoingRoomKeyRequest i CancellationPending md)"

definition cancelling_done :: "nat \<Rightarrow> bool \<Rightarrow> waiter \<Rightarrow> bool \<Rightarrow> key_manager \<Rightarrow> key_manager" where
  "cancelling_done a andResend w ok m =
     (let m1 = (if ok then cancelled a andResend m else m)
      in case w of
           Loop \<Rightarrow> loop_continues ok m1
         | QueueCall \<Rightarrow> m1
         | CancelCall \<Rightarrow> if ok then m1 else startTimer m1)"

definition run_ktask :: "nat \<Rightarrow> bool \<Rightarrow> key_manager \<Rightarrow> key_manager" where
  "run_ktask i ok m0 =
     (let m = m0\<lparr>km_tasks := take i (km_tasks m0) @ drop (Suc i) (km_tasks m0)\<rparr> in
      case km_tasks m0 ! i of
        QueueGot body recipients resend req \<Rightarrow> queue_got body recipients resend req m
      | QueueUpdated body recipients resend updated \<Rightarrow> queue_updated body recipients resend updated m
      | CancelGot req \<Rightarrow> cancel_got req m
      | CancelUpdated updated \<Rightarrow> cancel_updated updated m
      | TimerFires \<Rightarrow>
          (if km_sending m then m\<lparr>km_error := True\<rparr>
           else sendOutgoingRoomKeyRequests True (m\<lparr>km_sending := True\<rparr>))
      | LoopGot first req \<Rightarrow> loop_got first req m
      | Requesting a \<Rightarrow> requesting_done a ok m
      | Cancelling a andResend w \<Rightarrow> cancelling_done a andResend w ok m)"

inductive km_reach :: "key_manager \<Rightarrow> bool" where
  new: "km_reach new_key_manager"
| start: "km_reach m \<Longrightarrow> km_reach (m\<lparr>km_clientRunning := True\<rparr>)"
| stop: "km_reach m \<Longrightarrow> km_reach (m\<lparr>km_clientRunning := False\<rparr>)"
| send: "km_reach m \<Longrightarrow> km_reach (startTimer m)"
| queue: "km_reach m \<Longrightarrow> km_reach (queueRoomKeyRequest body recipients resend m)"
| cancel: "km_reach m \<Longrightarrow> km_reach (cancelRoomKeyRequest body m)"
| again: "km_reach m \<Longrightarrow> km_reach (cancelAndResendAllOutgoingRequests m)"
| run: "km_reach m \<Longrightarrow> i < length (km_tasks m) \<Longrightarrow> km_reach (run_ktask i ok m)"

section \<open>One loop at a time\<close>

fun loop_task :: "key_task \<Rightarrow> bool" where
  "loop_task TimerFires = True"
| "loop_task (LoopGot _ _) = True"
| "loop_task (Requesting _) = True"
| "loop_task (Cancelling _ _ Loop) = True"
| "loop_task _ = False"

definition loop_ok :: "key_manager \<Rightarrow> bool" where
  "loop_ok m \<longleftrightarrow> \<not> km_error m \<and>
     (let l = filter loop_task (km_tasks m) in
      (l = [] \<and> \<not> km_sending m) \<or>
      (l = [TimerFires] \<and> km_timer m \<and> \<not> km_sending m) \<or>
      (length l = 1 \<and> l \<noteq> [TimerFires] \<and> km_timer m \<and> km_sending m))"

text \<open>The part of the state that the loop concerns.\<close>

definition same_loop :: "key_manager \<Rightarrow> key_manager \<Rightarrow> bool" where
  "same_loop m m' \<longleftrightarrow> km_error m' = km_error m \<and> km_timer m' = km_timer m \<and> km_sending m' = km_sending m \<and>
     filter loop_task (km_tasks m') = filter loop_task (km_tasks m)"

lemma same_loop_simps:
  "same_loop m m"
  "same_loop m m' \<Longrightarrow> same_loop m' m'' \<Longrightarrow> same_loop m m''"
  "\<not> loop_task t \<Longrightarrow> same_loop m (push_ktask t m)"
  "same_loop m (snd (updateOutgoingRoomKeyRequest i st f m))"
  "same_loop m (deleteOutgoingRoomKeyRequest i st m)"
  "same_loop m (snd (getOrAddOutgoingRoomKeyRequest r m))"
  "same_loop m (sendMessageToDevices msg rs txn m)"
  "same_loop m (snd (next_txn m))"
  "same_loop m (m\<lparr>km_delivered := d\<rparr>)"
  by (auto simp: same_loop_def push_ktask_def updateOutgoingRoomKeyRequest_def deleteOutgoingRoomKeyRequest_def
      getOrAddOutgoingRoomKeyRequest_def sendMessageToDevices_def next_txn_def Let_def split: option.split)

lemma loop_ok_same: "loop_ok m \<Longrightarrow> same_loop m m' \<Longrightarrow> loop_ok m'"
  by (simp add: loop_ok_def same_loop_def)

lemma same_loop_queue: "same_loop m (queueRoomKeyRequest body rs resend m)"
  by (simp add: queueRoomKeyRequest_def same_loop_simps)

lemma same_loop_cancelling:
  "\<not> loop_task (Cancelling a r w) \<Longrightarrow> same_loop m (sendOutgoingRoomKeyRequestCancellation a r w m)"
  unfolding sendOutgoingRoomKeyRequestCancellation_def Let_def
  by (rule same_loop_simps(2) [OF same_loop_simps(7) same_loop_simps(3)])

lemmas store_defs = updateOutgoingRoomKeyRequest_def deleteOutgoingRoomKeyRequest_def getOrAddOutgoingRoomKeyRequest_def
  next_txn_def push_ktask_def sendMessageToDevices_def

lemma same_loop_got:
  "same_loop m (queue_got body rs resend req m)" "same_loop m (queue_updated body rs resend upd m)"
  "same_loop m (cancel_got req m)" "same_loop m (cancel_updated upd m)"
proof -
  show "same_loop m (queue_got body rs resend req m)"
    by (auto simp: same_loop_def queue_got_def store_defs Let_def split: option.split request_state.split)
  show "same_loop m (queue_updated body rs resend upd m)"
    by (simp add: queue_updated_def same_loop_queue same_loop_cancelling split: option.split)
  show "same_loop m (cancel_updated upd m)"
    by (simp add: cancel_updated_def same_loop_cancelling same_loop_simps split: option.split)
  show "same_loop m (cancel_got req m)"
    by (auto simp: same_loop_def cancel_got_def store_defs Let_def split: option.split request_state.split)
qed

lemma loop_ok_startTimer: "loop_ok m \<Longrightarrow> loop_ok (startTimer m)"
  by (auto simp: startTimer_def loop_ok_def push_ktask_def Let_def)

text \<open>In the middle of a turn of the loop: its task is taken, its flags are set.\<close>

definition in_loop :: "key_manager \<Rightarrow> bool" where
  "in_loop m \<longleftrightarrow> \<not> km_error m \<and> filter loop_task (km_tasks m) = [] \<and> km_timer m \<and> km_sending m"

lemma in_loop_same: "in_loop m \<Longrightarrow> same_loop m m' \<Longrightarrow> in_loop m'"
  by (simp add: in_loop_def same_loop_def)

lemma loop_ok_next: "in_loop m \<Longrightarrow> loop_ok (sendOutgoingRoomKeyRequests first m)"
  by (simp add: in_loop_def loop_ok_def sendOutgoingRoomKeyRequests_def push_ktask_def Let_def)

lemma loop_ok_continues: "in_loop m \<Longrightarrow> loop_ok (loop_continues ok m)"
  by (simp add: loop_continues_def loop_ok_next) (simp add: in_loop_def loop_ok_def Let_def)

lemma loop_ok_got: "in_loop m \<Longrightarrow> loop_ok (loop_got first r m)"
  by (auto simp: loop_got_def in_loop_def loop_ok_def sendOutgoingRoomKeyRequest_def
      sendOutgoingRoomKeyRequestCancellation_def push_ktask_def sendMessageToDevices_def Let_def
      split: option.split request_state.split)

lemma same_loop_delivered: "same_loop m (requested a m)" "same_loop m (cancelled a andResend m)"
  by (auto simp: same_loop_def requested_def cancelled_def store_defs Let_def split: option.split)

lemma loop_ok_requesting: "in_loop m \<Longrightarrow> loop_ok (requesting_done a ok m)"
  by (simp add: requesting_done_def loop_ok_continues in_loop_same [OF _ same_loop_delivered(1)])

lemma loop_ok_cancelling:
  "in_loop m \<Longrightarrow> loop_ok (cancelling_done a andResend Loop ok m)"
  "loop_ok m \<Longrightarrow> w \<noteq> Loop \<Longrightarrow> loop_ok (cancelling_done a andResend w ok m)"
  using in_loop_same [OF _ same_loop_delivered(2)] loop_ok_same [OF _ same_loop_delivered(2)]
  by (cases w; simp add: cancelling_done_def Let_def loop_ok_continues loop_ok_startTimer)+

lemma filter_taken:
  "i < length ts \<Longrightarrow> filter P ts = filter P (take i ts) @ (if P (ts ! i) then [ts ! i] else []) @ filter P (drop (Suc i) ts)"
proof -
  assume i: "i < length ts"
  have "filter P ts = filter P (take i ts @ ts ! i # drop (Suc i) ts)"
    by (rule arg_cong [OF id_take_nth_drop [OF i]])
  then show ?thesis by simp
qed

lemma loop_ok_run:
  assumes "loop_ok m" and i: "i < length (km_tasks m)"
  shows "loop_ok (run_ktask i ok m)"
proof -
  let ?t = "km_tasks m ! i"
  let ?m = "m\<lparr>km_tasks := take i (km_tasks m) @ drop (Suc i) (km_tasks m)\<rparr>"
  note f = filter_taken [OF i, of loop_task]
  show ?thesis
  proof (cases "loop_task ?t")
    case False
    then have ok: "loop_ok ?m" using assms(1) f by (simp add: loop_ok_def)
    show ?thesis
    proof (cases ?t)
      case (Cancelling a r w)
      with False have "w \<noteq> Loop" by (cases w) auto
      with Cancelling loop_ok_cancelling(2) [OF ok] show ?thesis by (simp add: run_ktask_def)
    qed (use False ok loop_ok_same [OF ok same_loop_got(1)] loop_ok_same [OF ok same_loop_got(2)]
        loop_ok_same [OF ok same_loop_got(3)] loop_ok_same [OF ok same_loop_got(4)] in \<open>simp_all add: run_ktask_def\<close>)
  next
    case True
    then have one: "filter loop_task (km_tasks m) = [?t]" "filter loop_task (km_tasks ?m) = []"
      using assms(1) f by (auto simp: loop_ok_def Let_def append_eq_Cons_conv)
    then have fl: "km_timer ?m" "\<not> km_error ?m" "km_sending ?m = (?t \<noteq> TimerFires)"
      using assms(1) by (auto simp: loop_ok_def)
    show ?thesis
    proof (cases "?t = TimerFires")
      case True
      have "in_loop (?m\<lparr>km_sending := True\<rparr>)" using one fl by (simp add: in_loop_def)
      from loop_ok_next [OF this, of True] True fl show ?thesis by (simp add: run_ktask_def)
    next
      case other: False
      then have l: "in_loop ?m" using one fl by (simp add: in_loop_def)
      show ?thesis
      proof (cases ?t)
        case (Cancelling a r w)
        with True have "w = Loop" by (cases w) auto
        with Cancelling loop_ok_cancelling(1) [OF l] show ?thesis by (simp add: run_ktask_def)
      qed (use True other l loop_ok_got [OF l] loop_ok_requesting [OF l] in \<open>simp_all add: run_ktask_def\<close>)
    qed
  qed
qed

lemma loop_ok_reach: "km_reach m \<Longrightarrow> loop_ok m"
proof (induction rule: km_reach.induct)
  case new
  show ?case by (simp add: loop_ok_def new_key_manager_def)
next
  case (again m)
  have "loop_ok (fold (\<lambda>a. queueRoomKeyRequest (f a) (g a) True) as m')" if "loop_ok m'" for f g as m'
    using that by (induction as arbitrary: m') (auto intro: loop_ok_same same_loop_queue)
  with again show ?case by (simp add: cancelAndResendAllOutgoingRequests_def)
next
  case (queue m body rs resend)
  then show ?case using loop_ok_same same_loop_queue by blast
next
  case (cancel m body)
  then show ?case using loop_ok_same [OF _ same_loop_simps(3)] by (simp add: cancelRoomKeyRequest_def)
qed (simp_all add: loop_ok_startTimer loop_ok_run, simp_all add: loop_ok_def)

section \<open>The life of a request\<close>

fun allowed_transition :: "request_state \<Rightarrow> request_state \<Rightarrow> bool" where
  "allowed_transition Unsent st = (st \<in> {Unsent, Sent})"
| "allowed_transition Sent st = (st \<in> {Sent, CancellationPending, CancellationPendingAndWillResend})"
| "allowed_transition CancellationPending st = (st \<in> {CancellationPending, CancellationPendingAndWillResend, Sent})"
| "allowed_transition CancellationPendingAndWillResend st = (st \<in> {CancellationPendingAndWillResend, Unsent})"

definition req_id :: "key_manager \<Rightarrow> nat \<Rightarrow> nat" where
  "req_id m a = kr_requestId (km_heap m a)"

definition request_of :: "key_manager \<Rightarrow> nat \<Rightarrow> key_message" where
  "request_of m a = RequestKeys (kr_requestId (km_heap m a)) (kr_body (km_heap m a))"

definition store_ok :: "key_manager \<Rightarrow> bool" where
  "store_ok m \<longleftrightarrow> distinct (km_requests m) \<and> (\<forall>a \<in> set (km_requests m). a < km_used m) \<and>
     (\<forall>a < km_used m. req_id m a < km_txn m) \<and> inj_on (req_id m) {..<km_used m} \<and>
     sorted_wrt (\<lambda>a b. \<not> deepCompare (kr_body (km_heap m a)) (kr_body (km_heap m b))) (km_requests m) \<and>
     (\<forall>a \<in> set (km_requests m). kr_state (km_heap m a) \<noteq> Unsent \<longrightarrow> request_of m a \<in> set (km_delivered m))"

definition evolves :: "key_manager \<Rightarrow> key_manager \<Rightarrow> bool" where
  "evolves m m' \<longleftrightarrow> km_used m \<le> km_used m' \<and> set (km_delivered m) \<subseteq> set (km_delivered m') \<and>
     (\<forall>a < km_used m. request_of m' a = request_of m a) \<and>
     (\<forall>a \<in> set (km_requests m).
        (a \<in> set (km_requests m') \<longrightarrow> allowed_transition (kr_state (km_heap m a)) (kr_state (km_heap m' a))) \<and>
        (a \<notin> set (km_requests m') \<longrightarrow> kr_state (km_heap m a) = Unsent \<or>
           kr_state (km_heap m a) = CancellationPending \<and> CancelRequest (req_id m a) \<in> set (km_delivered m')))"

text \<open>What the two depend on.\<close>

definition km_core :: "key_manager \<Rightarrow> (nat \<Rightarrow> key_request) \<times> nat \<times> nat list \<times> key_message list" where
  "km_core m = (km_heap m, km_used m, km_requests m, km_delivered m)"

lemma core_simps:
  "km_core (push_ktask t m) = km_core m" "km_core (sendMessageToDevices msg rs txn m) = km_core m"
  "km_core (startTimer m) = km_core m" "km_core (sendOutgoingRoomKeyRequest a m) = km_core m"
  "km_core (sendOutgoingRoomKeyRequestCancellation a r w m) = km_core m"
  "km_core (sendOutgoingRoomKeyRequests first m) = km_core m" "km_core (loop_got first req m) = km_core m"
  "km_core (queueRoomKeyRequest body rs resend m) = km_core m" "km_core (queue_updated body rs resend upd m) = km_core m"
  "km_core (cancelRoomKeyRequest body m) = km_core m" "km_core (cancel_updated upd m) = km_core m"
  "km_core (loop_continues ok m) = km_core m"
  by (simp_all add: km_core_def push_ktask_def sendMessageToDevices_def startTimer_def sendOutgoingRoomKeyRequest_def
      sendOutgoingRoomKeyRequestCancellation_def sendOutgoingRoomKeyRequests_def loop_got_def queueRoomKeyRequest_def
      queue_updated_def cancelRoomKeyRequest_def cancel_updated_def loop_continues_def Let_def
      split: option.split request_state.split)

lemma txn_simps:
  "km_txn (push_ktask t m) = km_txn m" "km_txn (sendMessageToDevices msg rs txn m) = km_txn m"
  "km_txn (startTimer m) = km_txn m" "km_txn (sendOutgoingRoomKeyRequest a m) = km_txn m"
  "km_txn (sendOutgoingRoomKeyRequestCancellation a r w m) = km_txn m"
  "km_txn (sendOutgoingRoomKeyRequests first m) = km_txn m" "km_txn (loop_got first req m) = km_txn m"
  "km_txn (queueRoomKeyRequest body rs resend m) = km_txn m" "km_txn (queue_updated body rs resend upd m) = km_txn m"
  "km_txn (cancelRoomKeyRequest body m) = km_txn m" "km_txn (cancel_updated upd m) = km_txn m"
  "km_txn (loop_continues ok m) = km_txn m"
  by (simp_all add: push_ktask_def sendMessageToDevices_def startTimer_def sendOutgoingRoomKeyRequest_def
      sendOutgoingRoomKeyRequestCancellation_def sendOutgoingRoomKeyRequests_def loop_got_def queueRoomKeyRequest_def
      queue_updated_def cancelRoomKeyRequest_def cancel_updated_def loop_continues_def Let_def
      split: option.split request_state.split)

lemma store_ok_core: "store_ok m \<Longrightarrow> km_core m' = km_core m \<Longrightarrow> km_txn m \<le> km_txn m' \<Longrightarrow> store_ok m'"
  unfolding store_ok_def km_core_def req_id_def request_of_def by (fastforce simp: inj_on_def)

lemma evolves_core: "km_core m1 = km_core m \<Longrightarrow> km_core m' = km_core m1' \<Longrightarrow> evolves m1 m1' \<Longrightarrow> evolves m m'"
  unfolding evolves_def km_core_def req_id_def request_of_def by simp

lemma allowed_refl: "allowed_transition s s"
  by (cases s) auto

lemma evolves_same: "km_core m' = km_core m \<Longrightarrow> evolves m m'"
  unfolding evolves_def km_core_def req_id_def request_of_def by (simp add: allowed_refl)

text \<open>With unique ids, the accesses by id are accesses by address.\<close>

lemma find_id:
  assumes "store_ok m" and "a < km_used m"
  shows "List.find (\<lambda>b. kr_requestId (km_heap m b) = kr_requestId (km_heap m a)) (km_requests m) =
    (if a \<in> set (km_requests m) then Some a else None)"
proof -
  have "(kr_requestId (km_heap m b) = kr_requestId (km_heap m a)) = (b = a)" if "b \<in> set (km_requests m)" for b
    using assms that unfolding store_ok_def inj_on_def req_id_def by blast
  then have "List.find (\<lambda>b. kr_requestId (km_heap m b) = kr_requestId (km_heap m a)) (km_requests m) =
      List.find (\<lambda>b. b = a) (km_requests m)"
    by (intro find_cong) auto
  moreover have "List.find (\<lambda>b. b = a) xs = (if a \<in> set xs then Some a else None)" for xs
    by (induction xs) auto
  ultimately show ?thesis by simp
qed

lemma update_at:
  assumes "store_ok m" and "a < km_used m"
  shows "updateOutgoingRoomKeyRequest (kr_requestId (km_heap m a)) st f m =
    (if a \<in> set (km_requests m) \<and> kr_state (km_heap m a) = st
     then (Some a, m\<lparr>km_heap := (km_heap m)(a := f (km_heap m a))\<rparr>) else (None, m))"
  using find_id [OF assms] by (simp add: updateOutgoingRoomKeyRequest_def)

lemma delete_at:
  assumes "store_ok m" and "a < km_used m"
  shows "deleteOutgoingRoomKeyRequest (kr_requestId (km_heap m a)) st m =
    (if a \<in> set (km_requests m) \<and> kr_state (km_heap m a) = st
     then m\<lparr>km_requests := remove1 a (km_requests m)\<rparr> else m)"
proof -
  have "splice_first (\<lambda>b. kr_requestId (km_heap m b) = kr_requestId (km_heap m a)) xs = remove1 a xs"
    if "set xs \<subseteq> set (km_requests m)" for xs
    using that assms by (induction xs) (auto simp: store_ok_def inj_on_def req_id_def)
  then show ?thesis using find_id [OF assms] by (simp add: deleteOutgoingRoomKeyRequest_def)
qed

lemma step_update:
  assumes ok: "store_ok m" and a: "a < km_used m"
    and f: "\<And>r. kr_requestId (f r) = kr_requestId r" "\<And>r. kr_body (f r) = kr_body r"
    and edge: "allowed_transition st (kr_state (f (km_heap m a)))"
    and sent: "st = Unsent \<Longrightarrow> request_of m a \<in> set (km_delivered m)"
  shows "store_ok (snd (updateOutgoingRoomKeyRequest (kr_requestId (km_heap m a)) st f m)) \<and>
    evolves m (snd (updateOutgoingRoomKeyRequest (kr_requestId (km_heap m a)) st f m))"
proof (cases "a \<in> set (km_requests m) \<and> kr_state (km_heap m a) = st")
  case False
  then show ?thesis using ok evolves_same [of m m] by (simp only: update_at [OF ok a] if_False snd_conv)
next
  case True
  let ?m = "m\<lparr>km_heap := (km_heap m)(a := f (km_heap m a))\<rparr>"
  have same: "req_id ?m b = req_id m b" "request_of ?m b = request_of m b" "kr_body (km_heap ?m b) = kr_body (km_heap m b)" for b
    using f by (auto simp: req_id_def request_of_def)
  have del: "request_of m a \<in> set (km_delivered m)"
    using ok True sent unfolding store_ok_def by blast
  have "store_ok ?m"
    using ok del unfolding store_ok_def same by (auto simp: inj_on_def same)
  moreover have "evolves m ?m"
    using True edge allowed_refl unfolding evolves_def same by auto
  ultimately show ?thesis using True by (simp add: update_at [OF ok a])
qed

lemma step_delete:
  assumes ok: "store_ok m" and a: "a < km_used m"
    and why: "st = Unsent \<or> st = CancellationPending \<and> CancelRequest (req_id m a) \<in> set (km_delivered m)"
  shows "store_ok (deleteOutgoingRoomKeyRequest (kr_requestId (km_heap m a)) st m) \<and>
    evolves m (deleteOutgoingRoomKeyRequest (kr_requestId (km_heap m a)) st m)"
proof (cases "a \<in> set (km_requests m) \<and> kr_state (km_heap m a) = st")
  case False
  then show ?thesis using ok evolves_same [of m m] by (simp only: delete_at [OF ok a] if_False)
next
  case True
  let ?m = "m\<lparr>km_requests := remove1 a (km_requests m)\<rparr>"
  have same: "req_id ?m b = req_id m b" "request_of ?m b = request_of m b" for b
    by (auto simp: req_id_def request_of_def)
  have d: "distinct (km_requests m)" using ok by (simp add: store_ok_def)
  then have set: "set (remove1 a (km_requests m)) = set (km_requests m) - {a}" by simp
  have "remove1 a (km_requests m) = filter (\<lambda>b. b \<noteq> a) (km_requests m)"
    using d by (simp add: distinct_remove1_removeAll removeAll_filter_not_eq eq_commute)
  then have "sorted_wrt P (remove1 a (km_requests m))" if "sorted_wrt P (km_requests m)" for P
    using that by (simp add: sorted_wrt_filter)
  then have "store_ok ?m"
    using ok unfolding store_ok_def same by (auto simp: inj_on_def same)
  moreover have "evolves m ?m"
    using True why d allowed_refl unfolding evolves_def same by auto
  ultimately show ?thesis using True by (simp add: delete_at [OF ok a])
qed

fun task_addrs :: "key_task \<Rightarrow> nat list" where
  "task_addrs (QueueGot _ _ _ r) = (case r of Some a \<Rightarrow> [a] | None \<Rightarrow> [])"
| "task_addrs (QueueUpdated _ _ _ r) = (case r of Some a \<Rightarrow> [a] | None \<Rightarrow> [])"
| "task_addrs (CancelGot r) = (case r of Some a \<Rightarrow> [a] | None \<Rightarrow> [])"
| "task_addrs (CancelUpdated r) = (case r of Some a \<Rightarrow> [a] | None \<Rightarrow> [])"
| "task_addrs TimerFires = []"
| "task_addrs (LoopGot _ r) = (case r of Some a \<Rightarrow> [a] | None \<Rightarrow> [])"
| "task_addrs (Requesting a) = [a]"
| "task_addrs (Cancelling a _ _) = [a]"

definition tasks_ok :: "key_manager \<Rightarrow> bool" where
  "tasks_ok m \<longleftrightarrow> (\<forall>t \<in> set (km_tasks m). \<forall>a \<in> set (task_addrs t). a < km_used m)"

definition store_inv :: "key_manager \<Rightarrow> bool" where
  "store_inv m \<longleftrightarrow> store_ok m \<and> tasks_ok m"

lemma find_in: "List.find P xs = Some a \<Longrightarrow> a \<in> set xs"
  by (auto simp: find_Some_iff)

lemma found_used: "store_ok m \<Longrightarrow> List.find P (km_requests m) = Some a \<Longrightarrow> a < km_used m"
  using find_in [of P "km_requests m" a] by (simp add: store_ok_def)

lemma tasks_push: "tasks_ok m \<Longrightarrow> (\<And>a. a \<in> set (task_addrs t) \<Longrightarrow> a < km_used m) \<Longrightarrow> tasks_ok (push_ktask t m)"
  by (auto simp: tasks_ok_def push_ktask_def)

lemma tasks_call: "tasks_ok m \<Longrightarrow> tasks_ok (sendMessageToDevices msg rs txn m)"
  by (simp add: tasks_ok_def sendMessageToDevices_def)

lemma tasks_sending:
  "tasks_ok m \<Longrightarrow> a < km_used m \<Longrightarrow> tasks_ok (sendOutgoingRoomKeyRequest a m)"
  "tasks_ok m \<Longrightarrow> a < km_used m \<Longrightarrow> tasks_ok (sendOutgoingRoomKeyRequestCancellation a r w m)"
  "tasks_ok m \<Longrightarrow> tasks_ok (startTimer m)"
proof -
  have u: "km_used (sendMessageToDevices msg rs txn m) = km_used m" for msg rs txn by (simp add: sendMessageToDevices_def)
  show "tasks_ok m \<Longrightarrow> a < km_used m \<Longrightarrow> tasks_ok (sendOutgoingRoomKeyRequest a m)"
    "tasks_ok m \<Longrightarrow> a < km_used m \<Longrightarrow> tasks_ok (sendOutgoingRoomKeyRequestCancellation a r w m)"
    unfolding sendOutgoingRoomKeyRequest_def sendOutgoingRoomKeyRequestCancellation_def Let_def
    by (rule tasks_push; simp add: tasks_call u)+
  show "tasks_ok m \<Longrightarrow> tasks_ok (startTimer m)" by (auto simp: startTimer_def tasks_ok_def push_ktask_def)
qed

lemma tasks_queue: "store_inv m \<Longrightarrow> tasks_ok (queueRoomKeyRequest body rs resend m)"
  unfolding store_inv_def queueRoomKeyRequest_def store_getOutgoingRoomKeyRequest_def
  by (rule tasks_push) (auto split: option.splits dest: found_used found_used [OF _ sym])

lemma tasks_loop: "store_inv m \<Longrightarrow> tasks_ok (sendOutgoingRoomKeyRequests first m)"
proof -
  assume m: "store_inv m"
  have "tasks_ok (push_ktask (LoopGot first (getOutgoingRoomKeyRequestByState sts m)) m)" for sts
    using m unfolding store_inv_def getOutgoingRoomKeyRequestByState_def
    by (intro tasks_push) (auto split: option.splits dest: found_used found_used [OF _ sym])
  then show ?thesis using m by (simp add: sendOutgoingRoomKeyRequests_def store_inv_def tasks_ok_def)
qed

lemma tasks_continues: "store_inv m \<Longrightarrow> tasks_ok (loop_continues ok m)"
  by (simp add: loop_continues_def tasks_loop) (simp add: store_inv_def tasks_ok_def)

lemma store_inv_core:
  assumes "store_inv m" and "km_core m' = km_core m" and "km_txn m \<le> km_txn m'" and "tasks_ok m'"
  shows "store_inv m' \<and> evolves m m'"
  using assms store_ok_core evolves_same by (auto simp: store_inv_def)

text \<open>A step of the store followed by what leaves the store alone.\<close>

lemma evolves_then: "evolves m m1 \<Longrightarrow> km_core m' = km_core m1 \<Longrightarrow> evolves m m'"
  using evolves_core [of m m m' m1] by simp

lemma evolves_delivered:
  assumes "evolves (m\<lparr>km_delivered := km_delivered m @ ds\<rparr>) m'"
  shows "evolves m m'"
  using assms unfolding evolves_def req_id_def request_of_def by auto

lemma store_ok_delivered: "store_ok m \<Longrightarrow> store_ok (m\<lparr>km_delivered := km_delivered m @ ds\<rparr>)"
  unfolding store_ok_def req_id_def request_of_def by (auto simp: inj_on_def)

lemma requested_step:
  assumes "store_ok m" and "a < km_used m"
  shows "store_ok (requested a m) \<and> evolves m (requested a m)"
proof -
  let ?m = "m\<lparr>km_delivered := km_delivered m @ [RequestKeys (kr_requestId (km_heap m a)) (kr_body (km_heap m a))]\<rparr>"
  have "store_ok (requested a m) \<and> evolves ?m (requested a m)"
    using step_update [OF store_ok_delivered [OF assms(1), of "[RequestKeys (kr_requestId (km_heap m a)) (kr_body (km_heap m a))]"],
        of a "\<lambda>r. r\<lparr>kr_state := Sent\<rparr>" Unsent] assms(2)
    by (simp add: requested_def Let_def request_of_def)
  then show ?thesis using evolves_delivered by blast
qed

lemma cancelled_step:
  assumes "store_ok m" and "a < km_used m"
  shows "store_ok (cancelled a r m) \<and> evolves m (cancelled a r m)"
proof -
  let ?m = "m\<lparr>km_delivered := km_delivered m @ [CancelRequest (kr_requestId (km_heap m a))]\<rparr>"
  note ok = store_ok_delivered [OF assms(1), of "[CancelRequest (kr_requestId (km_heap m a))]"]
  have "store_ok (cancelled a r m) \<and> evolves ?m (cancelled a r m)"
    using step_update [OF ok, of a "\<lambda>r. r\<lparr>kr_state := Unsent\<rparr>" CancellationPendingAndWillResend]
      step_delete [OF ok, of a CancellationPending] assms(2)
    by (simp add: cancelled_def Let_def req_id_def)
  then show ?thesis using evolves_delivered by blast
qed

lemma store_frame:
  "km_tasks (snd (updateOutgoingRoomKeyRequest i st f m)) = km_tasks m" "km_used (snd (updateOutgoingRoomKeyRequest i st f m)) = km_used m"
  "km_tasks (deleteOutgoingRoomKeyRequest i st m) = km_tasks m" "km_used (deleteOutgoingRoomKeyRequest i st m) = km_used m"
  "km_tasks (requested a m) = km_tasks m" "km_used (requested a m) = km_used m"
  "km_tasks (cancelled a r m) = km_tasks m" "km_used (cancelled a r m) = km_used m"
proof -
  show u: "km_tasks (snd (updateOutgoingRoomKeyRequest i st f m)) = km_tasks m" "km_used (snd (updateOutgoingRoomKeyRequest i st f m)) = km_used m"
    for i st f m by (simp_all add: updateOutgoingRoomKeyRequest_def split: option.split)
  show d: "km_tasks (deleteOutgoingRoomKeyRequest i st m) = km_tasks m" "km_used (deleteOutgoingRoomKeyRequest i st m) = km_used m"
    for i st m by (simp_all add: deleteOutgoingRoomKeyRequest_def split: option.split)
  show "km_tasks (requested a m) = km_tasks m" "km_used (requested a m) = km_used m"
    "km_tasks (cancelled a r m) = km_tasks m" "km_used (cancelled a r m) = km_used m"
    by (simp_all add: requested_def cancelled_def Let_def u d)
qed

text \<open>One turn of the event loop: the store stays sound and every request moves along an allowed transition.\<close>

lemma step_tail:
  assumes "store_ok m1 \<and> evolves m m1" and "tasks_ok m1" and "km_core m' = km_core m1" and "km_txn m1 \<le> km_txn m'"
    and "store_inv m1 \<Longrightarrow> tasks_ok m'"
  shows "store_inv m' \<and> evolves m m'"
  using assms store_ok_core [of m1 m'] evolves_then [of m m1 m'] by (auto simp: store_inv_def)

lemma tasks_ok_frame: "km_tasks m' = km_tasks m \<Longrightarrow> km_used m' = km_used m \<Longrightarrow> tasks_ok m \<Longrightarrow> tasks_ok m'"
  by (simp add: tasks_ok_def)

lemma loop_got_step:
  assumes "store_inv m" and "\<And>a. r = Some a \<Longrightarrow> a < km_used m"
  shows "store_inv (loop_got first r m) \<and> evolves m (loop_got first r m)"
proof (rule store_inv_core [OF assms(1) core_simps(7)])
  show "tasks_ok (loop_got first r m)"
    using assms tasks_sending [of m] unfolding loop_got_def store_inv_def
    by (auto split: option.split request_state.split) (auto simp: tasks_ok_def)
qed (simp add: txn_simps)

lemma queue_got_step:
  assumes inv: "store_inv m" and r: "\<And>a. r = Some a \<Longrightarrow> a < km_used m"
  shows "store_inv (queue_got body rs resend r m) \<and> evolves m (queue_got body rs resend r m)"
proof (cases r)
  case None
  let ?m1 = "m\<lparr>km_txn := km_txn m + 1\<rparr>"
  let ?r = "\<lparr>kr_requestId = km_txn m, kr_requestTxnId = None, kr_cancellationTxnId = None, kr_recipients = rs,
                 kr_body = body, kr_state = Unsent\<rparr>"
  have g: "queue_got body rs resend r m = snd (getOrAddOutgoingRoomKeyRequest ?r ?m1)"
    using None by (simp add: queue_got_def next_txn_def)
  show ?thesis
  proof (cases "store_getOutgoingRoomKeyRequest body ?m1")
    case (Some a)
    then have "queue_got body rs resend r m = ?m1" using g by (simp add: getOrAddOutgoingRoomKeyRequest_def)
    then show ?thesis
      using store_inv_core [OF inv, of ?m1] inv by (simp add: km_core_def store_inv_def tasks_ok_def)
  next
    case no: None
    let ?m2 = "?m1\<lparr>km_heap := (km_heap m)(km_used m := ?r), km_used := km_used m + 1, km_requests := km_requests m @ [km_used m]\<rparr>"
    have eq: "queue_got body rs resend r m = ?m2" using g no by (simp add: getOrAddOutgoingRoomKeyRequest_def)
    have fresh: "\<not> deepCompare (kr_body (km_heap m b)) body" if "b \<in> set (km_requests m)" for b
      using no that by (auto simp: store_getOutgoingRoomKeyRequest_def find_None_iff)
    have lt: "b < km_used m" if "b \<in> set (km_requests m)" for b using inv that by (simp add: store_inv_def store_ok_def)
    have same: "request_of ?m2 b = request_of m b" "req_id ?m2 b = req_id m b" if "b < km_used m" for b
      using that by (simp_all add: request_of_def req_id_def)
    have new: "req_id ?m2 (km_used m) = km_txn m" by (simp add: req_id_def)
    have inj: "inj_on (req_id ?m2) {..<km_used m + 1}"
    proof -
      have "req_id m b < km_txn m" if "b < km_used m" for b using inv that by (simp add: store_inv_def store_ok_def)
      then have "req_id m b \<noteq> km_txn m" if "b < km_used m" for b using that by fastforce
      then have "inj_on (req_id ?m2) (insert (km_used m) {..<km_used m})"
        using inv same(2) new by (auto simp: store_inv_def store_ok_def inj_on_def)
      moreover have "{..<km_used m + 1} = insert (km_used m) {..<km_used m}" by auto
      ultimately show ?thesis by simp
    qed
    have sorted: "sorted_wrt (\<lambda>a b. \<not> deepCompare (kr_body (km_heap ?m2 a)) (kr_body (km_heap ?m2 b))) (km_requests ?m2)"
    proof -
      have "sorted_wrt (\<lambda>a b. \<not> deepCompare (kr_body (km_heap ?m2 a)) (kr_body (km_heap ?m2 b))) (km_requests m)"
        by (rule sorted_wrt_mono_rel [where P = "\<lambda>a b. \<not> deepCompare (kr_body (km_heap m a)) (kr_body (km_heap m b))"])
          (use inv lt in \<open>auto simp: store_inv_def store_ok_def\<close>)
      then show ?thesis using fresh lt by (auto simp: sorted_wrt_append)
    qed
    have "store_ok ?m2"
    proof -
      have "req_id ?m2 b < km_txn ?m2" if "b < km_used ?m2" for b
      proof (cases "b = km_used m")
        case False
        then have "b < km_used m" using that by simp
        then show ?thesis using inv same(2) by (simp add: store_inv_def store_ok_def less_SucI)
      qed (use new in simp)
      then show ?thesis
        using inv inj sorted lt same(1) unfolding store_inv_def store_ok_def by fastforce
    qed
    moreover have "tasks_ok ?m2" using inv by (fastforce simp: store_inv_def tasks_ok_def)
    moreover have "evolves m ?m2"
      using lt same by (auto simp: evolves_def allowed_refl)
    ultimately show ?thesis by (simp add: eq store_inv_def)
  qed
next
  case (Some a)
  note a = r [OF Some]
  have ok: "store_ok m" "tasks_ok m" using inv by (simp_all add: store_inv_def)
  let ?m1 = "m\<lparr>km_txn := km_txn m + 1\<rparr>" and ?m2 = "m\<lparr>km_txn := km_txn m + 1 + 1\<rparr>"
  have ok1: "store_ok ?m1" "store_ok ?m2" using store_ok_core [OF ok(1)] by (simp_all add: km_core_def)
  show ?thesis
  proof (cases "kr_state (km_heap m a)")
    case CancellationPending
    let ?f = "\<lambda>r. r\<lparr>kr_state := (if resend then CancellationPendingAndWillResend else Sent), kr_cancellationTxnId := Some (km_txn m)\<rparr>"
    have eq: "queue_got body rs resend r m =
        snd (updateOutgoingRoomKeyRequest (kr_requestId (km_heap ?m1 a)) CancellationPending ?f ?m1)"
      using Some CancellationPending by (simp add: queue_got_def next_txn_def Let_def)
    have s: "store_ok (queue_got body rs resend r m) \<and> evolves ?m1 (queue_got body rs resend r m)"
      unfolding eq by (rule step_update) (use ok1 a in auto)
    then have "evolves m (queue_got body rs resend r m)" by (rule conjunct2 [THEN evolves_core [rotated 2]]) (simp_all add: km_core_def)
    moreover have "tasks_ok (queue_got body rs resend r m)"
      unfolding eq using ok(2) by (rule tasks_ok_frame [rotated 2]) (simp_all add: store_frame)
    ultimately show ?thesis using s by (simp add: store_inv_def)
  next
    case Sent
    show ?thesis
    proof (cases resend)
      case True
      let ?f = "\<lambda>r. r\<lparr>kr_state := CancellationPendingAndWillResend, kr_cancellationTxnId := Some (km_txn m),
                     kr_requestTxnId := Some (km_txn m + 1)\<rparr>"
      let ?u = "updateOutgoingRoomKeyRequest (kr_requestId (km_heap ?m2 a)) Sent ?f ?m2"
      have eq: "queue_got body rs resend r m = push_ktask (QueueUpdated body rs resend (fst ?u)) (snd ?u)"
        using Some Sent True by (simp add: queue_got_def next_txn_def Let_def split_beta)
      have s: "store_ok (snd ?u) \<and> evolves ?m2 (snd ?u)" by (rule step_update) (use ok1 a in auto)
      have e: "evolves m (snd ?u)" by (rule evolves_core [OF _ refl conjunct2 [OF s]]) (simp add: km_core_def)
      have t: "tasks_ok (snd ?u)" using ok(2) by (rule tasks_ok_frame [rotated 2]) (simp_all add: store_frame)
      have f: "fst ?u = Some b \<Longrightarrow> b < km_used (snd ?u)" for b
        using update_at [OF ok1(2), of a Sent ?f] a by (simp add: store_frame split: if_splits)
      show ?thesis
        unfolding eq by (rule step_tail [of "snd ?u"])
          (use s e t f in \<open>auto simp: core_simps txn_simps intro!: tasks_push split: option.splits\<close>)
    qed (use Some Sent inv evolves_same [of m m] in \<open>simp add: queue_got_def\<close>)
  qed (use Some inv evolves_same [of m m] in \<open>simp_all add: queue_got_def\<close>)
qed

lemma queue_updated_step:
  assumes inv: "store_inv m" and r: "\<And>a. r = Some a \<Longrightarrow> a < km_used m"
  shows "store_inv (queue_updated body rs resend r m) \<and> evolves m (queue_updated body rs resend r m)"
proof (rule store_inv_core [OF inv core_simps(9)])
  show "tasks_ok (queue_updated body rs resend r m)"
    using tasks_queue [OF inv] tasks_sending(2) [of m] inv r by (auto simp: queue_updated_def store_inv_def split: option.split)
qed (simp add: txn_simps)

lemma cancel_updated_step:
  assumes inv: "store_inv m" and r: "\<And>a. r = Some a \<Longrightarrow> a < km_used m"
  shows "store_inv (cancel_updated r m) \<and> evolves m (cancel_updated r m)"
proof (rule store_inv_core [OF inv core_simps(11)])
  show "tasks_ok (cancel_updated r m)"
    using tasks_sending(2) [of m] inv r by (auto simp: cancel_updated_def store_inv_def split: option.split)
qed (simp add: txn_simps)

lemma cancel_got_step:
  assumes inv: "store_inv m" and r: "\<And>a. r = Some a \<Longrightarrow> a < km_used m"
  shows "store_inv (cancel_got r m) \<and> evolves m (cancel_got r m)"
proof (cases r)
  case (Some a)
  note a = r [OF Some]
  have ok: "store_ok m" "tasks_ok m" using inv by (simp_all add: store_inv_def)
  let ?m1 = "m\<lparr>km_txn := km_txn m + 1\<rparr>"
  have ok1: "store_ok ?m1" using store_ok_core [OF ok(1)] by (simp add: km_core_def)
  show ?thesis
  proof (cases "kr_state (km_heap m a)")
    case Unsent
    have eq: "cancel_got r m = deleteOutgoingRoomKeyRequest (kr_requestId (km_heap m a)) Unsent m"
      using Some Unsent by (simp add: cancel_got_def)
    have "tasks_ok (cancel_got r m)"
      unfolding eq using ok(2) by (rule tasks_ok_frame [rotated 2]) (simp_all add: store_frame)
    then show ?thesis using step_delete [OF ok(1) a, of Unsent] unfolding eq store_inv_def by simp
  next
    case Sent
    let ?f = "\<lambda>r. r\<lparr>kr_state := CancellationPending, kr_cancellationTxnId := Some (km_txn m)\<rparr>"
    let ?u = "updateOutgoingRoomKeyRequest (kr_requestId (km_heap ?m1 a)) Sent ?f ?m1"
    have eq: "cancel_got r m = push_ktask (CancelUpdated (fst ?u)) (snd ?u)"
      using Some Sent by (simp add: cancel_got_def next_txn_def Let_def split_beta)
    have s: "store_ok (snd ?u) \<and> evolves ?m1 (snd ?u)" by (rule step_update) (use ok1 a in auto)
    have e: "evolves m (snd ?u)" by (rule evolves_core [OF _ refl conjunct2 [OF s]]) (simp add: km_core_def)
    have t: "tasks_ok (snd ?u)" using ok(2) by (rule tasks_ok_frame [rotated 2]) (simp_all add: store_frame)
    have f: "fst ?u = Some b \<Longrightarrow> b < km_used (snd ?u)" for b
      using update_at [OF ok1, of a Sent ?f] a by (simp add: store_frame split: if_splits)
    show ?thesis
      unfolding eq by (rule step_tail [of "snd ?u"])
        (use s e t f in \<open>auto simp: core_simps txn_simps intro!: tasks_push split: option.splits\<close>)
  qed (use Some inv evolves_same [of m m] in \<open>simp_all add: cancel_got_def\<close>)
qed (use inv evolves_same [of m m] in \<open>simp add: cancel_got_def\<close>)

lemma requesting_step:
  assumes inv: "store_inv m" and a: "a < km_used m"
  shows "store_inv (requesting_done a ok m) \<and> evolves m (requesting_done a ok m)"
proof -
  let ?m = "if ok then requested a m else m"
  have s: "store_ok ?m \<and> evolves m ?m" using requested_step [OF _ a] inv evolves_same [of m m] by (simp add: store_inv_def)
  have t: "tasks_ok ?m" using inv by (auto simp: store_inv_def intro: tasks_ok_frame [OF store_frame(5,6)])
  show ?thesis
    unfolding requesting_done_def by (rule step_tail [OF s t core_simps(12)]) (simp_all add: txn_simps tasks_continues)
qed

lemma cancelling_step:
  assumes inv: "store_inv m" and a: "a < km_used m"
  shows "store_inv (cancelling_done a r w ok m) \<and> evolves m (cancelling_done a r w ok m)"
proof -
  let ?m = "if ok then cancelled a r m else m"
  have s: "store_ok ?m \<and> evolves m ?m" using cancelled_step [OF _ a] inv evolves_same [of m m] by (simp add: store_inv_def)
  have t: "tasks_ok ?m" using inv by (auto simp: store_inv_def intro: tasks_ok_frame [OF store_frame(7,8)])
  have "km_core (cancelling_done a r w ok m) = km_core ?m" "km_txn (cancelling_done a r w ok m) = km_txn ?m"
    by (cases w; simp add: cancelling_done_def Let_def core_simps txn_simps)+
  moreover have "tasks_ok (cancelling_done a r w ok m)" if "store_inv ?m"
    using that tasks_sending(3) [of m] inv
    by (cases w; cases ok) (simp_all add: cancelling_done_def Let_def tasks_continues store_inv_def)
  ultimately show ?thesis using step_tail [OF s t] by simp
qed

lemma run_step:
  assumes inv: "store_inv m0" and i: "i < length (km_tasks m0)"
  shows "store_inv (run_ktask i ok m0) \<and> evolves m0 (run_ktask i ok m0)"
proof -
  let ?m = "m0\<lparr>km_tasks := take i (km_tasks m0) @ drop (Suc i) (km_tasks m0)\<rparr>"
  have addrs: "a < km_used m0" if "a \<in> set (task_addrs (km_tasks m0 ! i))" for a
    using inv that i by (auto simp: store_inv_def tasks_ok_def)
  have "set (km_tasks ?m) \<subseteq> set (km_tasks m0)" using set_take_subset set_drop_subset by fastforce
  then have t: "tasks_ok ?m" using inv by (auto simp: store_inv_def tasks_ok_def)
  have m: "store_inv ?m" using store_ok_core [of m0 ?m] inv t by (simp add: store_inv_def km_core_def)
  have e: "evolves m0 m'" if "evolves ?m m'" for m' using evolves_core [of ?m m0 m' m'] that by (simp add: km_core_def)
  have eq: "run_ktask i ok m0 =
      (case km_tasks m0 ! i of
        QueueGot body recipients resend req \<Rightarrow> queue_got body recipients resend req ?m
      | QueueUpdated body recipients resend updated \<Rightarrow> queue_updated body recipients resend updated ?m
      | CancelGot req \<Rightarrow> cancel_got req ?m
      | CancelUpdated updated \<Rightarrow> cancel_updated updated ?m
      | TimerFires \<Rightarrow>
          (if km_sending ?m then ?m\<lparr>km_error := True\<rparr>
           else sendOutgoingRoomKeyRequests True (?m\<lparr>km_sending := True\<rparr>))
      | LoopGot first req \<Rightarrow> loop_got first req ?m
      | Requesting a \<Rightarrow> requesting_done a ok ?m
      | Cancelling a andResend w \<Rightarrow> cancelling_done a andResend w ok ?m)"
    by (simp only: run_ktask_def Let_def)
  have "store_inv (run_ktask i ok m0) \<and> evolves ?m (run_ktask i ok m0)"
  proof (cases "km_tasks m0 ! i")
    case TimerFires
    have s: "store_inv (?m\<lparr>km_sending := True\<rparr>)" "store_inv (?m\<lparr>km_error := True\<rparr>)"
      using m store_ok_core [of ?m "?m\<lparr>km_sending := True\<rparr>"] store_ok_core [of ?m "?m\<lparr>km_error := True\<rparr>"]
      by (simp_all add: store_inv_def km_core_def tasks_ok_def)
    have "store_inv (sendOutgoingRoomKeyRequests True (?m\<lparr>km_sending := True\<rparr>)) \<and>
        evolves (?m\<lparr>km_sending := True\<rparr>) (sendOutgoingRoomKeyRequests True (?m\<lparr>km_sending := True\<rparr>))"
      by (rule store_inv_core [OF s(1) core_simps(6)]) (simp_all add: txn_simps tasks_loop [OF s(1)])
    then have "store_inv (sendOutgoingRoomKeyRequests True (?m\<lparr>km_sending := True\<rparr>)) \<and>
        evolves ?m (sendOutgoingRoomKeyRequests True (?m\<lparr>km_sending := True\<rparr>))"
      using evolves_core [of "?m\<lparr>km_sending := True\<rparr>" ?m] by (simp add: km_core_def)
    moreover have "evolves ?m (?m\<lparr>km_error := True\<rparr>)" by (rule evolves_same) (simp add: km_core_def)
    ultimately show ?thesis unfolding eq TimerFires using s(2) by simp
  next
    case (QueueGot body rs resend r)
    then show ?thesis unfolding eq using queue_got_step [OF m, of r] addrs by simp
  next
    case (QueueUpdated body rs resend r)
    then show ?thesis unfolding eq using queue_updated_step [OF m, of r] addrs by simp
  next
    case (CancelGot r)
    then show ?thesis unfolding eq using cancel_got_step [OF m, of r] addrs by simp
  next
    case (CancelUpdated r)
    then show ?thesis unfolding eq using cancel_updated_step [OF m, of r] addrs by simp
  next
    case (LoopGot first r)
    then show ?thesis unfolding eq using loop_got_step [OF m, of r] addrs by simp
  next
    case (Requesting a)
    then show ?thesis unfolding eq using requesting_step [OF m, of a] addrs by simp
  next
    case (Cancelling a r w)
    then show ?thesis unfolding eq using cancelling_step [OF m, of a] addrs by simp
  qed
  then show ?thesis using e by blast
qed

lemma store_inv_reach: "km_reach m \<Longrightarrow> store_inv m"
proof (induction rule: km_reach.induct)
  case new
  show ?case by (simp add: store_inv_def store_ok_def tasks_ok_def new_key_manager_def)
next
  case (again m)
  have q: "store_inv (queueRoomKeyRequest b r x m')" if "store_inv m'" for b r x m'
    using store_inv_core [OF that core_simps(8) _ tasks_queue [OF that]] by (simp add: txn_simps)
  have "store_inv (fold (\<lambda>a. queueRoomKeyRequest (f a) (g a) True) as m')" if "store_inv m'" for f g as m'
    using that by (induction as arbitrary: m') (auto intro: q)
  with again show ?case by (simp add: cancelAndResendAllOutgoingRequests_def)
next
  case (queue m body rs resend)
  then show ?case using store_inv_core [OF _ core_simps(8) _ tasks_queue] by (simp add: txn_simps)
next
  case (cancel m body)
  have "tasks_ok (cancelRoomKeyRequest body m)"
    using cancel(2) unfolding store_inv_def cancelRoomKeyRequest_def store_getOutgoingRoomKeyRequest_def
    by (intro tasks_push) (auto split: option.splits dest: found_used found_used [OF _ sym])
  then show ?case using store_inv_core [OF cancel(2) core_simps(10)] by (simp add: txn_simps)
next
  case (run m i ok)
  then show ?case using run_step by blast
next
  case (send m)
  have "tasks_ok (startTimer m)" using send(2) tasks_sending(3) by (simp add: store_inv_def)
  then show ?case using store_inv_core [OF send(2) core_simps(3)] by (simp add: txn_simps)
next
  case (start m)
  then show ?case using store_ok_core [of m] by (simp add: store_inv_def tasks_ok_def km_core_def)
next
  case (stop m)
  then show ?case using store_ok_core [of m] by (simp add: store_inv_def tasks_ok_def km_core_def)
qed

section \<open>Properties\<close>

text \<open>
  C5. In every state that calls and turns of the event loop lead to: the loop that sends requests never runs twice at the same
  time, so that its sanity check never throws; the store holds at most one request for a body (no later one equals an earlier one);
  and every request that is not waiting to be sent has been delivered to the server.
\<close>

theorem key_requests_sound:
  assumes "km_reach m"
  shows "\<not> km_error m \<and> length (filter loop_task (km_tasks m)) \<le> 1 \<and>
    sorted_wrt (\<lambda>a b. \<not> deepCompare (kr_body (km_heap m a)) (kr_body (km_heap m b))) (km_requests m) \<and>
    list_all (\<lambda>a. kr_state (km_heap m a) = Unsent \<or> request_of m a \<in> set (km_delivered m)) (km_requests m)"
  using loop_ok_reach [OF assms] store_inv_reach [OF assms]
  by (auto simp: loop_ok_def store_inv_def store_ok_def list_all_iff Let_def)

definition one_queued :: key_manager where
  "one_queued = run_ktask 0 True (queueRoomKeyRequest (JStr ''body'') [(''@a:x'', ''D'')] False new_key_manager)"

lemma one_queued_reach: "km_reach one_queued" "km_requests one_queued = [0]" "kr_state (km_heap one_queued 0) = Unsent"
proof -
  show "km_reach one_queued" unfolding one_queued_def
    by (rule km_reach.run [OF km_reach.queue [OF km_reach.new]]) (simp add: queueRoomKeyRequest_def push_ktask_def)
qed (simp_all add: one_queued_def queueRoomKeyRequest_def push_ktask_def run_ktask_def new_key_manager_def queue_got_def
    store_getOutgoingRoomKeyRequest_def getOrAddOutgoingRoomKeyRequest_def next_txn_def)

theorem key_requests_sound_witness: "\<not> km_error one_queued"
  using key_requests_sound [OF one_queued_reach(1)] by simp



section \<open>The loop drains\<close>

fun drain :: "nat \<Rightarrow> key_manager \<Rightarrow> key_manager" where
  "drain 0 m = m"
| "drain (Suc n) m = (if km_tasks m = [] then m else drain n (run_ktask 0 True m))"

fun turns_of :: "request_state \<Rightarrow> nat" where
  "turns_of Sent = 0"
| "turns_of Unsent = 2"
| "turns_of CancellationPending = 2"
| "turns_of CancellationPendingAndWillResend = 4"

definition turns_left :: "key_manager \<Rightarrow> nat" where
  "turns_left m = (\<Sum>a \<in> set (km_requests m). turns_of (kr_state (km_heap m a)))"

definition at_loop :: "key_manager \<Rightarrow> bool" where
  "at_loop m \<longleftrightarrow> store_inv m \<and> km_clientRunning m \<and>
     (\<exists>first. km_tasks m = [LoopGot first
        (getOutgoingRoomKeyRequestByState [CancellationPending, CancellationPendingAndWillResend, Unsent] m)])"

lemma turns_left_update:
  assumes "a \<in> set (km_requests m)" and "turns_of (kr_state r) + 2 = turns_of (kr_state (km_heap m a))"
    and "km_requests m' = km_requests m" and "km_heap m' = (km_heap m)(a := r)"
  shows "turns_left m' + 2 = turns_left m"
proof -
  let ?S = "set (km_requests m)" and ?c = "\<lambda>m a. turns_of (kr_state (km_heap m a))"
  have "(\<Sum>b \<in> ?S - {a}. ?c m' b) = (\<Sum>b \<in> ?S - {a}. ?c m b)" by (rule sum.cong) (use assms in auto)
  then show ?thesis
    using sum.remove [of ?S a "?c m"] sum.remove [of ?S a "?c m'"] assms unfolding turns_left_def by simp
qed

lemma turns_left_delete:
  assumes "a \<in> set (km_requests m)" and "distinct (km_requests m)" and "turns_of (kr_state (km_heap m a)) = 2"
    and "km_requests m' = remove1 a (km_requests m)" and "km_heap m' = km_heap m"
  shows "turns_left m' + 2 = turns_left m"
  using sum.remove [of "set (km_requests m)" a "\<lambda>a. turns_of (kr_state (km_heap m a))"] assms
  unfolding turns_left_def by simp

lemma loop_state:
  "getOutgoingRoomKeyRequestByState sts (push_ktask t m) = getOutgoingRoomKeyRequestByState sts m"
  "km_tasks (push_ktask t m) = km_tasks m @ [t]" "km_clientRunning (push_ktask t m) = km_clientRunning m"
  "km_heap (push_ktask t m) = km_heap m" "km_requests (push_ktask t m) = km_requests m" "km_used (push_ktask t m) = km_used m"
  by (simp_all add: push_ktask_def getOutgoingRoomKeyRequestByState_def)

lemma next_round:
  assumes "km_clientRunning m" and "km_tasks m = []"
  shows "km_tasks (sendOutgoingRoomKeyRequests False m) = [LoopGot False
      (getOutgoingRoomKeyRequestByState [CancellationPending, CancellationPendingAndWillResend, Unsent] (sendOutgoingRoomKeyRequests False m))]"
    and "km_heap (sendOutgoingRoomKeyRequests False m) = km_heap m"
    and "km_requests (sendOutgoingRoomKeyRequests False m) = km_requests m"
    and "km_clientRunning (sendOutgoingRoomKeyRequests False m)"
  using assms by (simp_all add: sendOutgoingRoomKeyRequests_def loop_state)

lemma requested_effect:
  assumes "store_ok m" and "a < km_used m" and "a \<in> set (km_requests m)" and "kr_state (km_heap m a) = Unsent"
  shows "km_heap (requested a m) = (km_heap m)(a := (km_heap m a)\<lparr>kr_state := Sent\<rparr>)" "km_requests (requested a m) = km_requests m"
    "km_clientRunning (requested a m) = km_clientRunning m"
  using update_at [OF store_ok_delivered [OF assms(1), of "[RequestKeys (kr_requestId (km_heap m a)) (kr_body (km_heap m a))]"], of a] assms
  by (simp_all add: requested_def Let_def)

lemma cancelled_effect:
  assumes "store_ok m" and "a < km_used m" and "a \<in> set (km_requests m)"
  shows "kr_state (km_heap m a) = CancellationPendingAndWillResend \<Longrightarrow>
      km_heap (cancelled a True m) = (km_heap m)(a := (km_heap m a)\<lparr>kr_state := Unsent\<rparr>) \<and> km_requests (cancelled a True m) = km_requests m"
    and "kr_state (km_heap m a) = CancellationPending \<Longrightarrow>
      km_heap (cancelled a False m) = km_heap m \<and> km_requests (cancelled a False m) = remove1 a (km_requests m)"
    and "km_clientRunning (cancelled a r m) = km_clientRunning m"
  using update_at [OF store_ok_delivered [OF assms(1), of "[CancelRequest (kr_requestId (km_heap m a))]"], of a]
    delete_at [OF store_ok_delivered [OF assms(1), of "[CancelRequest (kr_requestId (km_heap m a))]"], of a] assms
  by (simp_all add: cancelled_def Let_def)

lemma loop_turn:
  assumes m: "at_loop m"
    and r: "getOutgoingRoomKeyRequestByState [CancellationPending, CancellationPendingAndWillResend, Unsent] m = Some a"
  shows "km_tasks (run_ktask 0 True m) \<noteq> []" and "at_loop (run_ktask 0 True (run_ktask 0 True m))"
    and "turns_left (run_ktask 0 True (run_ktask 0 True m)) + 2 = turns_left m"
proof -
  obtain first where t: "km_tasks m = [LoopGot first (Some a)]" using m r by (auto simp: at_loop_def)
  have inv: "store_inv m" and run: "km_clientRunning m" using m by (simp_all add: at_loop_def)
  have a: "a \<in> set (km_requests m)" "kr_state (km_heap m a) \<noteq> Sent" "a < km_used m"
    using r inv by (auto simp: getOutgoingRoomKeyRequestByState_def find_Some_iff store_inv_def store_ok_def)
  define m1 where "m1 = run_ktask 0 True m"
  define m2 where "m2 = run_ktask 0 True m1"
  have i1: "store_inv m1" using run_step [OF inv, of 0 True] t by (simp add: m1_def)
  let ?call = "\<lambda>msg txn. sendMessageToDevices msg (kr_recipients (km_heap m a)) txn (m\<lparr>km_tasks := []\<rparr>)"
  have call: "km_heap (?call msg txn) = km_heap m" "km_requests (?call msg txn) = km_requests m" "km_tasks (?call msg txn) = []"
    "km_clientRunning (?call msg txn) = km_clientRunning m" "km_used (?call msg txn) = km_used m" for msg txn
    by (simp_all add: sendMessageToDevices_def)
  have goal: "km_tasks m1 \<noteq> [] \<and> at_loop m2 \<and> turns_left m2 + 2 = turns_left m"
  proof (cases "kr_state (km_heap m a)")
    case Unsent
    obtain msg txn where m1: "m1 = push_ktask (Requesting a) (?call msg txn)"
      using t Unsent by (simp add: m1_def run_ktask_def loop_got_def sendOutgoingRoomKeyRequest_def Let_def)
    let ?m = "m1\<lparr>km_tasks := []\<rparr>"
    have ok: "store_ok ?m" using i1 store_ok_core [of m1 ?m] by (simp add: store_inv_def km_core_def)
    have m2: "m2 = sendOutgoingRoomKeyRequests False (requested a ?m)"
      by (simp add: m2_def m1 run_ktask_def loop_state call requesting_done_def loop_continues_def)
    have e: "km_heap (requested a ?m) = (km_heap m)(a := (km_heap m a)\<lparr>kr_state := Sent\<rparr>)" "km_requests (requested a ?m) = km_requests m"
      "km_clientRunning (requested a ?m)" "km_tasks (requested a ?m) = []"
      using requested_effect [OF ok] a Unsent run by (simp_all add: m1 loop_state call store_frame)
    have "store_inv m2" using run_step [OF i1, of 0 True] by (simp add: m2_def m1 loop_state)
    then have "at_loop m2" using next_round [OF e(3,4)] unfolding m2 at_loop_def by blast
    moreover have "turns_left m2 + 2 = turns_left m"
      by (rule turns_left_update [OF a(1)]) (use next_round [OF e(3,4)] e Unsent in \<open>simp_all add: m2\<close>)
    ultimately show ?thesis by (simp add: m1 loop_state)
  next
    case CancellationPending
    obtain msg txn where m1: "m1 = push_ktask (Cancelling a False Loop) (?call msg txn)"
      using t CancellationPending by (simp add: m1_def run_ktask_def loop_got_def sendOutgoingRoomKeyRequestCancellation_def Let_def)
    let ?m = "m1\<lparr>km_tasks := []\<rparr>"
    have ok: "store_ok ?m" using i1 store_ok_core [of m1 ?m] by (simp add: store_inv_def km_core_def)
    have m2: "m2 = sendOutgoingRoomKeyRequests False (cancelled a False ?m)"
      by (simp add: m2_def m1 run_ktask_def loop_state call cancelling_done_def loop_continues_def Let_def)
    have e: "km_heap (cancelled a False ?m) = km_heap m" "km_requests (cancelled a False ?m) = remove1 a (km_requests m)"
      "km_clientRunning (cancelled a False ?m)" "km_tasks (cancelled a False ?m) = []"
      using cancelled_effect [OF ok, of a] a CancellationPending run by (simp_all add: m1 loop_state call store_frame)
    have "store_inv m2" using run_step [OF i1, of 0 True] by (simp add: m2_def m1 loop_state)
    then have "at_loop m2" using next_round [OF e(3,4)] unfolding m2 at_loop_def by blast
    moreover have "turns_left m2 + 2 = turns_left m"
      by (rule turns_left_delete [OF a(1)])
        (use inv next_round [OF e(3,4)] e CancellationPending in \<open>simp_all add: m2 store_inv_def store_ok_def\<close>)
    ultimately show ?thesis by (simp add: m1 loop_state)
  next
    case CancellationPendingAndWillResend
    obtain msg txn where m1: "m1 = push_ktask (Cancelling a True Loop) (?call msg txn)"
      using t CancellationPendingAndWillResend by (simp add: m1_def run_ktask_def loop_got_def sendOutgoingRoomKeyRequestCancellation_def Let_def)
    let ?m = "m1\<lparr>km_tasks := []\<rparr>"
    have ok: "store_ok ?m" using i1 store_ok_core [of m1 ?m] by (simp add: store_inv_def km_core_def)
    have m2: "m2 = sendOutgoingRoomKeyRequests False (cancelled a True ?m)"
      by (simp add: m2_def m1 run_ktask_def loop_state call cancelling_done_def loop_continues_def Let_def)
    have e: "km_heap (cancelled a True ?m) = (km_heap m)(a := (km_heap m a)\<lparr>kr_state := Unsent\<rparr>)" "km_requests (cancelled a True ?m) = km_requests m"
      "km_clientRunning (cancelled a True ?m)" "km_tasks (cancelled a True ?m) = []"
      using cancelled_effect [OF ok, of a] a CancellationPendingAndWillResend run by (simp_all add: m1 loop_state call store_frame)
    have "store_inv m2" using run_step [OF i1, of 0 True] by (simp add: m2_def m1 loop_state)
    then have "at_loop m2" using next_round [OF e(3,4)] unfolding m2 at_loop_def by blast
    moreover have "turns_left m2 + 2 = turns_left m"
      by (rule turns_left_update [OF a(1)]) (use next_round [OF e(3,4)] e CancellationPendingAndWillResend in \<open>simp_all add: m2\<close>)
    ultimately show ?thesis by (simp add: m1 loop_state)
  qed (use a in simp)
  then show "km_tasks (run_ktask 0 True m) \<noteq> []" "at_loop (run_ktask 0 True (run_ktask 0 True m))"
    "turns_left (run_ktask 0 True (run_ktask 0 True m)) + 2 = turns_left m"
    unfolding m1_def m2_def by blast+
qed

lemma drain_loop:
  "at_loop m \<Longrightarrow> turns_left m + 1 \<le> n \<Longrightarrow>
   km_tasks (drain n m) = [] \<and> \<not> km_timer (drain n m) \<and> \<not> km_sending (drain n m) \<and> store_inv (drain n m) \<and>
   (\<forall>a \<in> set (km_requests (drain n m)). kr_state (km_heap (drain n m) a) = Sent)"
proof (induction "turns_left m" arbitrary: m n rule: less_induct)
  case less
  then obtain k where n: "n = Suc k" by (cases n) auto
  obtain first where t: "km_tasks m = [LoopGot first
      (getOutgoingRoomKeyRequestByState [CancellationPending, CancellationPendingAndWillResend, Unsent] m)]"
    and inv: "store_inv m" using less.prems(1) by (auto simp: at_loop_def)
  show ?case
  proof (cases "getOutgoingRoomKeyRequestByState [CancellationPending, CancellationPendingAndWillResend, Unsent] m")
    case None
    have "run_ktask 0 True m = m\<lparr>km_tasks := [], km_timer := False, km_sending := False\<rparr>"
      using t None by (simp add: run_ktask_def loop_got_def)
    moreover from this have "store_inv (m\<lparr>km_tasks := [], km_timer := False, km_sending := False\<rparr>)"
      using run_step [OF inv, of 0 True] t by simp
    moreover have "drain k m' = m'" if "km_tasks m' = []" for m' using that by (cases k) simp_all
    moreover have "kr_state (km_heap m a) = Sent" if "a \<in> set (km_requests m)" for a
      using None that by (cases "kr_state (km_heap m a)") (auto simp: getOutgoingRoomKeyRequestByState_def find_None_iff)
    ultimately show ?thesis using t n by simp
  next
    case (Some a)
    note turn = loop_turn [OF less.prems(1) Some]
    then obtain k' where k: "k = Suc k'" using less.prems(2) n by (cases k) auto
    have "drain n m = drain k' (run_ktask 0 True (run_ktask 0 True m))" using n k t turn(1) by simp
    then show ?thesis using less.hyps [OF _ turn(2), of k'] turn(3) less.prems(2) n k by simp
  qed
qed

text \<open>
  C11. When the timer fires on a running client, no other task is under way and every call to the server succeeds, then after at most four
  turns for every request and two more the loop has come to rest: the timer is cleared, so that it can be started again, every
  request that is left in the store has been sent, and it has been delivered.
\<close>

theorem key_requests_drain:
  assumes "km_reach m" and "km_clientRunning m" and "km_tasks m = [TimerFires]" and "4 * length (km_requests m) + 2 \<le> n"
  shows "km_tasks (drain n m) = [] \<and> \<not> km_timer (drain n m) \<and>
    list_all (\<lambda>a. kr_state (km_heap (drain n m) a) = Sent \<and> request_of (drain n m) a \<in> set (km_delivered (drain n m)))
      (km_requests (drain n m))"
proof -
  have inv: "store_inv m" by (rule store_inv_reach [OF assms(1)])
  have idle: "\<not> km_sending m" using loop_ok_reach [OF assms(1)] assms(3) by (auto simp: loop_ok_def Let_def)
  define m1 where "m1 = run_ktask 0 True m"
  have m1: "m1 = sendOutgoingRoomKeyRequests True (m\<lparr>km_tasks := [], km_sending := True\<rparr>)"
    using assms(3) idle by (simp add: m1_def run_ktask_def)
  have f: "km_requests m1 = km_requests m" "km_heap m1 = km_heap m" "km_clientRunning m1"
    "km_tasks m1 = [LoopGot True (getOutgoingRoomKeyRequestByState [CancellationPending, CancellationPendingAndWillResend, Unsent] m1)]"
    using assms(2) by (simp_all add: m1 sendOutgoingRoomKeyRequests_def loop_state)
  have "store_inv m1" using run_step [OF inv, of 0 True] assms(3) by (simp add: m1_def)
  then have l: "at_loop m1" using f unfolding at_loop_def by blast
  have "distinct (km_requests m)" using inv by (simp add: store_inv_def store_ok_def)
  then have "turns_left m1 \<le> 4 * length (km_requests m)"
  proof -
    have "turns_of s \<le> 4" for s by (cases s) auto
    then have "turns_left m1 \<le> (\<Sum>a \<in> set (km_requests m). 4)" unfolding turns_left_def f by (intro sum_mono)
    then show ?thesis using \<open>distinct _\<close> by (simp add: distinct_card)
  qed
  moreover obtain k where n: "n = Suc k" using assms(4) by (cases n) auto
  ultimately have "turns_left m1 + 1 \<le> k" using assms(4) by simp
  from drain_loop [OF l this] have d: "km_tasks (drain k m1) = []" "\<not> km_timer (drain k m1)" "store_inv (drain k m1)"
    "\<forall>a \<in> set (km_requests (drain k m1)). kr_state (km_heap (drain k m1) a) = Sent" by blast+
  moreover have "drain n m = drain k m1" using n assms(3) by (simp add: m1_def)
  ultimately show ?thesis by (auto simp: list_all_iff store_inv_def store_ok_def)
qed

theorem key_requests_drain_witness:
  "\<not> km_timer (drain 6 (startTimer (one_queued\<lparr>km_clientRunning := True\<rparr>)))"
proof -
  have "km_tasks (startTimer (one_queued\<lparr>km_clientRunning := True\<rparr>)) = [TimerFires]"
    "km_requests (startTimer (one_queued\<lparr>km_clientRunning := True\<rparr>)) = [0]"
    "km_clientRunning (startTimer (one_queued\<lparr>km_clientRunning := True\<rparr>))"
    by (simp_all add: startTimer_def push_ktask_def one_queued_def queueRoomKeyRequest_def run_ktask_def new_key_manager_def queue_got_def
    store_getOutgoingRoomKeyRequest_def getOrAddOutgoingRoomKeyRequest_def next_txn_def)
  then show ?thesis
    using key_requests_drain [OF km_reach.send [OF km_reach.start [OF one_queued_reach(1)]], of 6] by simp
qed

section \<open>Divergences\<close>

text \<open>Nobody is found by target: the recipients are compared by identity with a new object.\<close>

lemma nothing_by_target: "getOutgoingSentRoomKeyRequest userId deviceId m = []"
  by (simp add: getOutgoingSentRoomKeyRequest_def getOutgoingRoomKeyRequestsByTarget_def includes_new_object_def)

text \<open>
  A request whose cancellation is turned into a resend keeps the transaction id of its first sending (the other way to resend
  gives it a new one), so that the second sending repeats it.
\<close>

lemma resend_repeats_txn:
  assumes "kr_state (km_heap m a) = CancellationPending"
  shows "kr_requestTxnId (km_heap (queue_got body rs True (Some a) m) a) = kr_requestTxnId (km_heap m a)"
  using assms
  by (auto simp: queue_got_def next_txn_def updateOutgoingRoomKeyRequest_def Let_def split: option.split)

end
