(* ===== verification/RoomInfo.thy ===== *)
theory RoomInfo
  imports RoomState "HOL-Library.Multiset"
begin

text \<open>
  What \<^verbatim>\<open>src/models/room.ts\<close> computes from the current state of a room: its name, version, aliases, direct
  message partner, permissions, tags and account data. The order of the collator (\<open>utils.compare\<close>) is a parameter, as
  are the answers of the client.
\<close>

section \<open>Text\<close>

fun dec :: "nat \<Rightarrow> string" where
  "dec n = (if n < 10 then [char_of (48 + n)] else dec (n div 10) @ [char_of (48 + n mod 10)])"

declare dec.simps [simp del]

definition lower :: "char \<Rightarrow> char" where
  "lower c = (let n = of_char c :: nat in
     if (65 \<le> n \<and> n \<le> 90) \<or> (192 \<le> n \<and> n \<le> 222 \<and> n \<noteq> 215) then char_of (n + 32) else c)"

definition punctuation :: "char \<Rightarrow> bool" where
  "punctuation c = (let n = of_char c :: nat in
     (33 \<le> n \<and> n \<le> 47) \<or> (58 \<le> n \<and> n \<le> 64) \<or> (91 \<le> n \<and> n \<le> 96) \<or> (123 \<le> n \<and> n \<le> 126))"

definition normalize :: "(string \<Rightarrow> string) \<Rightarrow> string \<Rightarrow> string" where
  "normalize unh s = map lower (filter (\<lambda>c. \<not> punctuation c) (removeHiddenChars unh (JStr (map lower s))))"

definition memberNamesToRoomName :: "string list \<Rightarrow> int option \<Rightarrow> string" where
  "memberNamesToRoomName names cnt =
     (let countWithoutMe = (case cnt of Some c \<Rightarrow> c | None \<Rightarrow> int (length names) + 1) - 1 in
      if names = [] then ''Empty room''
      else if length names = 1 \<and> countWithoutMe \<le> 1 then names ! 0
      else if length names = 2 \<and> countWithoutMe \<le> 2 then names ! 0 @ '' and '' @ names ! 1
      else if countWithoutMe > 1 then names ! 0 @ '' and '' @ dec (nat countWithoutMe) @ '' others''
      else names ! 0 @ '' and 1 other'')"

section \<open>State\<close>

datatype ri_emission = RiName | RiTags nat | RiAccountData nat "nat option" | RiMyMembership "string option" "string option"

record room_info =
  ri_roomId :: string
  ri_myUserId :: string
  ri_state :: room_state
  ri_selfMembership :: "string option"
  ri_heroes :: "string list option"
  ri_name :: string
  ri_normalizedName :: string
  ri_tags :: json
  ri_accountData :: "(string option, mx_event) dict"
  ri_counts :: "(string, rat) dict"
  ri_blacklist :: "bool option"
  ri_emitted :: "ri_emission list"

definition ri_emit :: "ri_emission \<Rightarrow> room_info \<Rightarrow> room_info" where
  "ri_emit em r = r\<lparr>ri_emitted := ri_emitted r @ [em]\<rparr>"

definition state_of :: "string \<Rightarrow> room_info \<Rightarrow> mx_event option" where
  "state_of ty r = getStateEvent (Some ty) (Some []) (ri_state r)"

definition content_of :: "mx_event option \<Rightarrow> json" where
  "content_of e = (case e of Some ev \<Rightarrow> getContent ev | None \<Rightarrow> JUndef)"

section \<open>Versions\<close>

definition KNOWN_SAFE_ROOM_VERSION :: string where
  "KNOWN_SAFE_ROOM_VERSION = ''6''"

definition SAFE_ROOM_VERSIONS :: "string list" where
  "SAFE_ROOM_VERSIONS = [''1'', ''2'', ''3'', ''4'', ''5'', ''6'']"

definition getVersion :: "room_info \<Rightarrow> json" where
  "getVersion r =
     (case state_of ''m.room.create'' r of
        None \<Rightarrow> JStr ''1''
      | Some createEvent \<Rightarrow>
          let ver = jget (getContent createEvent) ''room_version'' in if ver = JUndef then JStr ''1'' else ver)"

definition shouldUpgradeToVersion :: "room_info \<Rightarrow> string option" where
  "shouldUpgradeToVersion r =
     (if getVersion r \<notin> JStr ` set SAFE_ROOM_VERSIONS then Some KNOWN_SAFE_ROOM_VERSION else None)"

record version_advice =
  va_version :: json
  va_needsUpgrade :: bool
  va_urgent :: bool

text \<open>\<open>/^[0-9]+[0-9.]*$/\<close>.\<close>

definition digit :: "char \<Rightarrow> bool" where
  "digit c \<longleftrightarrow> (48::nat) \<le> of_char c \<and> (of_char c :: nat) \<le> 57"

definition spec_version :: "string \<Rightarrow> bool" where
  "spec_version s \<longleftrightarrow> s \<noteq> [] \<and> digit (hd s) \<and> list_all (\<lambda>c. digit c \<or> c = CHR ''.'') s"

definition checkVersionAgainstCapability :: "json \<Rightarrow> room_info \<Rightarrow> version_advice" where
  "checkVersionAgainstCapability versionCap r =
     (let currentVersion = getVersion r;
          result = \<lparr>va_version = currentVersion, va_needsUpgrade = False, va_urgent = False\<rparr>
      in if currentVersion = jget versionCap ''default'' then result
         else
           let stableVersions = map fst (filter (\<lambda>(v, st). st = JStr ''stable'') (entries (jget versionCap ''available''))) in
           if currentVersion \<notin> JStr ` set stableVersions
           then result\<lparr>va_version := jget versionCap ''default'', va_needsUpgrade := True,
                       va_urgent := (case as_str currentVersion of Some v \<Rightarrow> spec_version v | None \<Rightarrow> False)\<rparr>
           else result)"

definition default_capability :: json where
  "default_capability = JObj [(''default'', JStr KNOWN_SAFE_ROOM_VERSION),
     (''available'', JObj (map (\<lambda>v. (v, JStr ''stable'')) SAFE_ROOM_VERSIONS))]"

text \<open>\<open>caps1\<close> and \<open>caps2\<close> are what the client answers first and after a refresh.\<close>

definition getRecommendedVersion :: "json \<Rightarrow> json \<Rightarrow> room_info \<Rightarrow> version_advice" where
  "getRecommendedVersion caps1 caps2 r =
     (let versionCap = (if truthy (jget caps1 ''m.room_versions'') then jget caps1 ''m.room_versions'' else default_capability);
          result = checkVersionAgainstCapability versionCap r
      in if va_urgent result \<and> va_needsUpgrade result
         then (if truthy (jget caps2 ''m.room_versions'')
               then checkVersionAgainstCapability (jget caps2 ''m.room_versions'') r else result)
         else result)"

definition userMayUpgradeRoom :: "string \<Rightarrow> room_info \<Rightarrow> bool" where
  "userMayUpgradeRoom userId r = maySendStateEvent ''m.room.tombstone'' userId (ri_state r)"

section \<open>Members\<close>

definition ri_getMember :: "string \<Rightarrow> room_info \<Rightarrow> room_member option" where
  "ri_getMember userId r = getMember userId (ri_state r)"

definition getMembersWithMembership :: "string \<Rightarrow> room_info \<Rightarrow> room_member list" where
  "getMembersWithMembership ms r = filter (\<lambda>m. rm_membership m = Some ms) (getMembers (ri_state r))"

definition getJoinedMembers :: "room_info \<Rightarrow> room_member list" where
  "getJoinedMembers r = getMembersWithMembership ''join'' r"

definition getInvitedAndJoinedMemberCount :: "room_info \<Rightarrow> nat \<times> room_info" where
  "getInvitedAndJoinedMemberCount r =
     (let (i, s1) = getInvitedMemberCount (ri_state r); (j, s2) = getJoinedMemberCount s1 in (i + j, r\<lparr>ri_state := s2\<rparr>))"

definition hasMembershipState :: "string \<Rightarrow> string \<Rightarrow> room_info \<Rightarrow> bool" where
  "hasMembershipState userId ms r = (case ri_getMember userId r of None \<Rightarrow> False | Some m \<Rightarrow> rm_membership m = Some ms)"

definition shouldEncryptForInvitedMembers :: "room_info \<Rightarrow> bool" where
  "shouldEncryptForInvitedMembers r \<longleftrightarrow>
     jget (content_of (state_of ''m.room.history_visibility'' r)) ''history_visibility'' \<noteq> JStr ''joined''"

text \<open>\<open>getEncryptionTargetMembers\<close>, once the members are loaded.\<close>

definition getEncryptionTargetMembers :: "room_info \<Rightarrow> room_member list" where
  "getEncryptionTargetMembers r =
     getMembersWithMembership ''join'' r @
     (if shouldEncryptForInvitedMembers r then getMembersWithMembership ''invite'' r else [])"

definition another_member :: "room_info \<Rightarrow> room_member option" where
  "another_member r = List.find (\<lambda>m. rm_userId m \<noteq> ri_myUserId r) (getMembers (ri_state r))"

text \<open>\<open>None\<close> of the outer option is the \<open>TypeError\<close> of a summary without heroes.\<close>

definition room_getDMInviter :: "room_info \<Rightarrow> json option \<times> room_info" where
  "room_getDMInviter r =
     (case (if ri_myUserId r = [] then None else ri_getMember (ri_myUserId r) r) of
        Some me \<Rightarrow> (Some (getDMInviter me), r)
      | None \<Rightarrow>
          if ri_selfMembership r = Some ''invite''
          then (let (memberCount, r1) = getInvitedAndJoinedMemberCount r in
                if memberCount = 2
                then (case ri_heroes r of
                        None \<Rightarrow> (None, r1)
                      | Some heroes \<Rightarrow> (Some (case heroes of [] \<Rightarrow> JUndef | h # _ \<Rightarrow> JStr h), r1))
                else (Some JUndef, r1))
          else (Some JUndef, r))"

definition getDMAnotherMember :: "room_info \<Rightarrow> string option" where
  "getDMAnotherMember r = map_option rm_userId (another_member r)"

definition guessDMUserId :: "room_info \<Rightarrow> json" where
  "guessDMUserId r =
     (let inviterId = (case ri_getMember (ri_myUserId r) r of Some me \<Rightarrow> getDMInviter me | None \<Rightarrow> JUndef) in
      if truthy inviterId then inviterId
      else case ri_heroes r of
             Some (h # _) \<Rightarrow> JStr h
           | _ \<Rightarrow> (case another_member r of Some m \<Rightarrow> JStr (rm_userId m) | None \<Rightarrow> JStr (ri_myUserId r)))"

definition updateMyMembership :: "string option \<Rightarrow> room_info \<Rightarrow> room_info" where
  "updateMyMembership ms r =
     (let prev = ri_selfMembership r; r1 = r\<lparr>ri_selfMembership := ms\<rparr>
      in if prev \<noteq> ms then ri_emit (RiMyMembership ms prev) r1 else r1)"

section \<open>Summary, counts, aliases\<close>

definition as_count :: "json \<Rightarrow> nat option" where
  "as_count j = (case j of JNum q \<Rightarrow> if q \<in> \<int> \<and> q \<ge> 0 then Some (nat \<lfloor>q\<rfloor>) else None | _ \<Rightarrow> None)"

definition setSummary :: "json \<Rightarrow> room_info \<Rightarrow> room_info" where
  "setSummary summary r =
     (let s1 = (case as_count (jget summary ''m.joined_member_count'') of
                  Some n \<Rightarrow> setJoinedMemberCount n (ri_state r) | None \<Rightarrow> ri_state r);
          s2 = (case as_count (jget summary ''m.invited_member_count'') of
                  Some n \<Rightarrow> setInvitedMemberCount n s1 | None \<Rightarrow> s1);
          r1 = r\<lparr>ri_state := s2\<rparr>
      in case jget summary ''m.heroes'' of
           JArr heroes \<Rightarrow> r1\<lparr>ri_heroes := Some (filter (\<lambda>u. u \<noteq> ri_myUserId r) (List.map_filter as_str heroes))\<rparr>
         | _ \<Rightarrow> r1)"

definition getUnreadNotificationCount :: "string \<Rightarrow> room_info \<Rightarrow> rat option" where
  "getUnreadNotificationCount ty r = dget (ri_counts r) ty"

definition setUnreadNotificationCount :: "string \<Rightarrow> rat \<Rightarrow> room_info \<Rightarrow> room_info" where
  "setUnreadNotificationCount ty n r = r\<lparr>ri_counts := dset ty n (ri_counts r)\<rparr>"

definition ends_with :: "string \<Rightarrow> string \<Rightarrow> bool" where
  "ends_with s t \<longleftrightarrow> length t \<le> length s \<and> drop (length s - length t) s = t"

definition getAliases :: "room_info \<Rightarrow> string list" where
  "getAliases r =
     concat (map (\<lambda>aliasEvent.
       case jget (getContent aliasEvent) ''aliases'' of
         JArr xs \<Rightarrow>
           filter (\<lambda>a. a \<noteq> [] \<and> hd a = CHR ''#'' \<and>
               ends_with a ('':'' @ (case getStateKey aliasEvent of Some k \<Rightarrow> k | None \<Rightarrow> ''undefined'')))
             (List.map_filter as_str xs)
       | _ \<Rightarrow> []) (getStateEvents (Some ''m.room.aliases'') (ri_state r)))"

definition getCanonicalAlias :: "room_info \<Rightarrow> json" where
  "getCanonicalAlias r =
     (case state_of ''m.room.canonical_alias'' r of
        Some ev \<Rightarrow> js_or (jget (getContent ev) ''alias'') JNull
      | None \<Rightarrow> JNull)"

definition getAltAliases :: "room_info \<Rightarrow> json" where
  "getAltAliases r =
     (case state_of ''m.room.canonical_alias'' r of
        Some ev \<Rightarrow> js_or (jget (getContent ev) ''alt_aliases'') (JArr [])
      | None \<Rightarrow> JArr [])"

definition ri_getMxcAvatarUrl :: "room_info \<Rightarrow> json" where
  "ri_getMxcAvatarUrl r = js_or (jget (content_of (state_of ''m.room.avatar'' r)) ''url'') JNull"

section \<open>Tags and account data\<close>

definition addTags :: "mx_event \<Rightarrow> room_info \<Rightarrow> room_info" where
  "addTags ev r = ri_emit (RiTags (ev_ref ev)) (r\<lparr>ri_tags := js_or (jget (getContent ev) ''tags'') empty_obj\<rparr>)"

definition add_account_event :: "mx_event \<Rightarrow> room_info \<Rightarrow> room_info" where
  "add_account_event ev r =
     (let r1 = (if getType ev = Some ''m.tag'' then addTags ev r else r);
          lastEvent = dget (ri_accountData r1) (getType ev)
      in ri_emit (RiAccountData (ev_ref ev) (map_option ev_ref lastEvent))
           (r1\<lparr>ri_accountData := dset (getType ev) ev (ri_accountData r1)\<rparr>))"

definition addAccountData :: "mx_event list \<Rightarrow> room_info \<Rightarrow> room_info" where
  "addAccountData events r = fold add_account_event events r"

definition getAccountData :: "string \<Rightarrow> room_info \<Rightarrow> mx_event option" where
  "getAccountData ty r = dget (ri_accountData r) (Some ty)"

section \<open>Permissions and kind\<close>

definition room_maySendMessage :: "room_info \<Rightarrow> bool" where
  "room_maySendMessage r \<longleftrightarrow> ri_selfMembership r = Some ''join'' \<and> maySendEvent ''m.room.message'' (ri_myUserId r) (ri_state r)"

definition isDmRoom :: "room_info \<Rightarrow> bool" where
  "isDmRoom r \<longleftrightarrow> jget (content_of (state_of ''m.room.create'' r)) ''preset'' = JStr ''trusted_private_chat''"

definition canInvite :: "string \<Rightarrow> room_info \<Rightarrow> bool" where
  "canInvite userId r =
     (let can = (ri_selfMembership r = Some ''join'');
          powerLevels = content_of (state_of ''m.room.power_levels'' r);
          can1 = (case ri_getMember userId r of
                    Some me \<Rightarrow>
                      (case jget powerLevels ''invite'' of
                         JNum invite \<Rightarrow> if invite > rm_powerLevel me then False else can
                       | _ \<Rightarrow> can)
                  | None \<Rightarrow> can)
      in if jget (content_of (state_of ''m.room.create'' r)) ''preset'' = JStr ''trusted_private_chat'' then False else can1)"

definition ri_getType :: "room_info \<Rightarrow> json" where
  "ri_getType r = jget (content_of (state_of ''m.room.create'' r)) ''type''"

definition isSpaceRoom :: "room_info \<Rightarrow> bool" where
  "isSpaceRoom r \<longleftrightarrow> ri_getType r = JStr ''m.space''"

definition hasSpaceParent :: "room_info \<Rightarrow> bool" where
  "hasSpaceParent r \<longleftrightarrow> getStateEvents (Some ''m.space.parent'') (ri_state r) \<noteq> []"

section \<open>The name\<close>

text \<open>A stable insertion sort by a comparison function.\<close>

fun insert_cmp :: "('a \<Rightarrow> 'a \<Rightarrow> int) \<Rightarrow> 'a \<Rightarrow> 'a list \<Rightarrow> 'a list" where
  "insert_cmp cmp x [] = [x]"
| "insert_cmp cmp x (y # ys) = (if cmp x y \<le> 0 then x # y # ys else y # insert_cmp cmp x ys)"

definition sort_cmp :: "('a \<Rightarrow> 'a \<Rightarrow> int) \<Rightarrow> 'a list \<Rightarrow> 'a list" where
  "sort_cmp cmp xs = foldr (insert_cmp cmp) xs []"

definition excluded_users :: "room_info \<Rightarrow> string list" where
  "excluded_users r =
     (case jget (content_of (state_of ''io.element.functional_members'' r)) ''service_members'' of
        JArr xs \<Rightarrow> List.map_filter as_str xs
      | _ \<Rightarrow> [])"

text \<open>The names of the other members and how many of the counted ones were service members.\<close>

definition other_names :: "(string \<Rightarrow> string \<Rightarrow> int) \<Rightarrow> string \<Rightarrow> room_info \<Rightarrow> string list \<times> nat" where
  "other_names cmp userId r =
     (let excluded = excluded_users r in
      case ri_heroes r of
        Some heroes \<Rightarrow>
          (map (\<lambda>u. case ri_getMember u r of Some m \<Rightarrow> rm_name m | None \<Rightarrow> u) (filter (\<lambda>u. u \<notin> set excluded) heroes),
           length (filter (\<lambda>u. u \<in> set excluded) heroes))
      | None \<Rightarrow>
          (let others = filter (\<lambda>m. rm_userId m \<noteq> userId \<and> (rm_membership m = Some ''invite'' \<or> rm_membership m = Some ''join''))
                          (getMembers (ri_state r));
               kept = filter (\<lambda>m. rm_userId m \<notin> set excluded) others
           in (map rm_name (take 5 (sort_cmp (\<lambda>a b. cmp (rm_userId a) (rm_userId b)) kept)),
               length (filter (\<lambda>m. rm_userId m \<in> set excluded) others))))"

definition text_of :: "json \<Rightarrow> string" where
  "text_of j = (case as_str j of Some s \<Rightarrow> s | None \<Rightarrow> ''undefined'')"

definition left_names :: "string \<Rightarrow> string list \<Rightarrow> room_info \<Rightarrow> string list" where
  "left_names userId otherNames r =
     (if otherNames \<noteq> [] then otherNames
      else map rm_name (filter (\<lambda>m. rm_userId m \<noteq> userId \<and> rm_membership m \<noteq> Some ''invite'' \<and> rm_membership m \<noteq> Some ''join'')
             (getMembers (ri_state r))))"

definition implicit_name :: "(string \<Rightarrow> string \<Rightarrow> int) \<Rightarrow> string \<Rightarrow> room_info \<Rightarrow> string \<times> room_info" where
  "implicit_name cmp userId r =
     (let (joined, s1) = getJoinedMemberCount (ri_state r);
          (invited, s2) = getInvitedMemberCount s1;
          r1 = r\<lparr>ri_state := s2\<rparr>;
          (otherNames, service) = other_names cmp userId r1;
          inviteJoinCount = int joined + int invited - 1 - int service;
          thirdPartyInvites = getStateEvents (Some ''m.room.third_party_invite'') (ri_state r1);
          leftNames = left_names userId otherNames r1
      in if inviteJoinCount \<noteq> 0 then (memberNamesToRoomName otherNames (Some inviteJoinCount), r1)
         else if ri_selfMembership r1 = Some ''join'' \<and> thirdPartyInvites \<noteq> []
         then (''Inviting '' @ memberNamesToRoomName (map (\<lambda>i. text_of (jget (getContent i) ''display_name'')) thirdPartyInvites) None, r1)
         else if leftNames \<noteq> [] then (''Empty room (was '' @ memberNamesToRoomName leftNames None @ '')'', r1)
         else (''Empty room'', r1))"

definition calculateRoomName :: "(string \<Rightarrow> string \<Rightarrow> int) \<Rightarrow> string \<Rightarrow> bool \<Rightarrow> room_info \<Rightarrow> string \<times> room_info" where
  "calculateRoomName cmp userId ignoreRoomNameEvent r =
     (let mRoomName = jget (content_of (state_of ''m.room.name'' r)) ''name'';
          alias = getCanonicalAlias r;
          alias1 = (if truthy alias then alias
                    else case getAltAliases r of JArr (a # _) \<Rightarrow> a | _ \<Rightarrow> alias)
      in if \<not> ignoreRoomNameEvent \<and> truthy mRoomName then (text_of mRoomName, r)
         else if truthy alias1 then (text_of alias1, r)
         else implicit_name cmp userId r)"

definition getDefaultRoomName :: "(string \<Rightarrow> string \<Rightarrow> int) \<Rightarrow> string \<Rightarrow> room_info \<Rightarrow> string \<times> room_info" where
  "getDefaultRoomName cmp userId r = calculateRoomName cmp userId True r"

text \<open>
  \<open>recalculate\<close>: of an invitation, the stripped state stands in for state that is not known. \<open>ref\<close> numbers the event
  objects that it creates.
\<close>

fun fake_stripped :: "(string \<Rightarrow> string) \<Rightarrow> nat \<Rightarrow> nat \<Rightarrow> json list \<Rightarrow> room_info \<Rightarrow> room_info" where
  "fake_stripped unh now ref [] r = r"
| "fake_stripped unh now ref (e # es) r =
     (let known = getStateEvent (as_str (jget e ''type'')) (as_str (jget e ''state_key'')) (ri_state r);
          ev = new_event ref (JObj [(''type'', jget e ''type''), (''state_key'', jget e ''state_key''), (''content'', jget e ''content''),
                  (''event_id'', JStr (''$fake'' @ dec now)), (''room_id'', JStr (ri_roomId r)), (''user_id'', JStr (ri_myUserId r))])
      in fake_stripped unh now (ref + 1) es
           (if known = None then r\<lparr>ri_state := snd (setStateEvents unh now [ev] (ri_state r))\<rparr> else r))"

definition recalculate :: "(string \<Rightarrow> string) \<Rightarrow> (string \<Rightarrow> string \<Rightarrow> int) \<Rightarrow> nat \<Rightarrow> nat \<Rightarrow> room_info \<Rightarrow> room_info" where
  "recalculate unh cmp now ref r =
     (let r1 = (case getStateEvent (Some ''m.room.member'') (Some (ri_myUserId r)) (ri_state r) of
                  Some me \<Rightarrow>
                    (if jget (getContent me) ''membership'' = JStr ''invite''
                     then (case jget (getUnsigned me) ''invite_room_state'' of
                             JArr es \<Rightarrow> fake_stripped unh now ref es r
                           | _ \<Rightarrow> r)
                     else r)
                | None \<Rightarrow> r);
          (nm, r2) = calculateRoomName cmp (ri_myUserId r1) False r1;
          r3 = r2\<lparr>ri_name := nm, ri_normalizedName := normalize unh nm\<rparr>
      in if ri_name r1 \<noteq> nm then ri_emit RiName r3 else r3)"

section \<open>The name does not depend on the order of the members\<close>

definition collates :: "(string \<Rightarrow> string \<Rightarrow> int) \<Rightarrow> bool" where
  "collates cmp \<longleftrightarrow> (\<forall>a b. cmp a b \<le> 0 \<or> cmp b a \<le> 0) \<and> (\<forall>a b. cmp a b \<le> 0 \<longrightarrow> cmp b a \<le> 0 \<longrightarrow> a = b) \<and>
     (\<forall>a b c. cmp a b \<le> 0 \<longrightarrow> cmp b c \<le> 0 \<longrightarrow> cmp a c \<le> 0)"

lemma mset_insert_cmp: "mset (insert_cmp cmp x xs) = add_mset x (mset xs)"
  by (induction xs) auto

lemma mset_sort_cmp: "mset (sort_cmp cmp xs) = mset xs"
  by (induction xs) (simp_all add: sort_cmp_def mset_insert_cmp)

lemma sorted_insert_cmp:
  assumes "collates cmp" and "sorted_wrt (\<lambda>a b. cmp (f a) (f b) \<le> 0) xs"
  shows "sorted_wrt (\<lambda>a b. cmp (f a) (f b) \<le> 0) (insert_cmp (\<lambda>a b. cmp (f a) (f b)) x xs)"
  using assms(2)
proof (induction xs)
  case (Cons y ys)
  have set: "set (insert_cmp (\<lambda>a b. cmp (f a) (f b)) x ys) = insert x (set ys)"
    using arg_cong [OF mset_insert_cmp, of set_mset "\<lambda>a b. cmp (f a) (f b)" x ys] by simp
  show ?case
  proof (cases "cmp (f x) (f y) \<le> 0")
    case True
    then show ?thesis using Cons.prems assms(1) unfolding collates_def by auto
  next
    case False
    then have "cmp (f y) (f x) \<le> 0" using assms(1) unfolding collates_def by blast
    then show ?thesis using Cons False set by auto
  qed
qed simp

lemma sorted_sort_cmp: "collates cmp \<Longrightarrow> sorted_wrt (\<lambda>a b. cmp (f a) (f b) \<le> 0) (sort_cmp (\<lambda>a b. cmp (f a) (f b)) xs)"
  by (induction xs) (simp_all add: sort_cmp_def sorted_insert_cmp)

lemma sorted_unique:
  assumes "mset xs = mset ys" and "sorted_wrt P xs" and "sorted_wrt P ys"
    and "\<And>a b. a \<in> set xs \<Longrightarrow> b \<in> set xs \<Longrightarrow> P a b \<Longrightarrow> P b a \<Longrightarrow> a = b"
  shows "xs = ys"
  using assms
proof (induction xs arbitrary: ys)
  case (Cons x xs)
  obtain y ys' where ys: "ys = y # ys'" using Cons.prems(1) by (cases ys) auto
  have sets: "set (x # xs) = set ys" using Cons.prems(1) by (rule mset_eq_setD)
  have "x = y"
  proof (rule ccontr)
    assume "x \<noteq> y"
    then have m: "x \<in> set ys'" "y \<in> set xs" using sets ys by auto
    then have "P y x" "P x y" using Cons.prems(2,3) ys by auto
    then show False using Cons.prems(4) [of x y] m(2) \<open>x \<noteq> y\<close> by simp
  qed
  moreover have "xs = ys'"
    using Cons.prems \<open>x = y\<close> ys by (intro Cons.IH) auto
  ultimately show ?case using ys by simp
qed simp

lemma length_filter_perm: "mset xs = mset ys \<Longrightarrow> length (filter P xs) = length (filter P ys)"
  by (metis mset_filter size_mset)

text \<open>The members in another order of the dictionary.\<close>

definition with_members :: "(string \<times> room_member) list \<Rightarrow> room_info \<Rightarrow> room_info" where
  "with_members ms r = r\<lparr>ri_state := (ri_state r)\<lparr>rs_members := ms\<rparr>\<rparr>"

lemma with_members_simps:
  "ri_heroes (with_members ms r) = ri_heroes r" "rs_members (ri_state (with_members ms r)) = ms"
  "state_of ty (with_members ms r) = state_of ty r" "excluded_users (with_members ms r) = excluded_users r"
  "getStateEvents t (ri_state (with_members ms r)) = getStateEvents t (ri_state r)"
  by (simp_all add: with_members_def state_of_def excluded_users_def getStateEvent_def getStateEvents_def)

lemma other_names_order:
  assumes cmp: "collates cmp" and perm: "mset ms = mset (rs_members (ri_state r))"
    and keys: "dict_ok ms" "\<And>u m. (u, m) \<in> set ms \<Longrightarrow> rm_userId m = u"
  shows "other_names cmp userId (with_members ms r) = other_names cmp userId r"
proof (cases "ri_heroes r")
  case (Some heroes)
  have "dict_ok (rs_members (ri_state r))"
    using keys(1) perm unfolding dict_ok_def by (metis mset_map mset_eq_imp_distinct_iff)
  then have "map_of ms = map_of (rs_members (ri_state r))"
    using keys(1) mset_eq_setD [OF perm] by (simp add: dict_ok_def map_of_inject_set)
  then have "ri_getMember u (with_members ms r) = ri_getMember u r" for u
    by (simp add: ri_getMember_def getMember_def with_members_def)
  with Some show ?thesis by (simp add: other_names_def with_members_simps)
next
  case None
  let ?P = "\<lambda>m. rm_userId m \<noteq> userId \<and> (rm_membership m = Some ''invite'' \<or> rm_membership m = Some ''join'')"
  let ?K = "\<lambda>m. rm_userId m \<notin> set (excluded_users r)"
  let ?c = "\<lambda>a b. cmp (rm_userId a) (rm_userId b)"
  have vals: "mset (dvals ms) = mset (dvals (rs_members (ri_state r)))" using perm by (simp add: mset_map)
  have "sort_cmp ?c (filter ?K (filter ?P (dvals ms))) = sort_cmp ?c (filter ?K (filter ?P (dvals (rs_members (ri_state r)))))"
  proof (rule sorted_unique [where P = "\<lambda>a b. ?c a b \<le> 0"])
    show "mset (sort_cmp ?c (filter ?K (filter ?P (dvals ms)))) =
        mset (sort_cmp ?c (filter ?K (filter ?P (dvals (rs_members (ri_state r))))))"
      using vals by (simp add: mset_sort_cmp)
    have s: "set (sort_cmp ?c xs) = set xs" for xs using mset_sort_cmp [of ?c xs] by (rule mset_eq_setD)
    fix a b
    assume m: "a \<in> set (sort_cmp ?c (filter ?K (filter ?P (dvals ms))))" "b \<in> set (sort_cmp ?c (filter ?K (filter ?P (dvals ms))))"
      and le: "?c a b \<le> 0" "?c b a \<le> 0"
    have "\<exists>ua. (ua, a) \<in> set ms" "\<exists>ub. (ub, b) \<in> set ms" using m unfolding s by auto
    then have in_ms: "(rm_userId a, a) \<in> set ms" "(rm_userId b, b) \<in> set ms" using keys(2) by blast+
    have same: "rm_userId a = rm_userId b" using cmp le unfolding collates_def by blast
    have got: "dget ms (rm_userId a) = Some a" "dget ms (rm_userId b) = Some b"
      by (rule map_of_is_SomeI [OF keys(1) [unfolded dict_ok_def]], rule in_ms)+
    have e: "dget ms (rm_userId b) = Some a" using got(1) unfolding same .
    from trans [OF e [symmetric] got(2)] show "a = b" by (rule option.inject [THEN iffD1])
  qed (rule sorted_sort_cmp [OF cmp])+
  moreover have "length (filter Q (filter ?P (dvals ms))) = length (filter Q (filter ?P (dvals (rs_members (ri_state r)))))" for Q
    by (rule length_filter_perm) (simp only: mset_filter vals)
  ultimately show ?thesis using None by (simp add: other_names_def with_members_simps getMembers_def Let_def)
qed

lemma count_order: "mset ms = mset (rs_members s) \<Longrightarrow> count_membership t (s\<lparr>rs_members := ms\<rparr>) = count_membership t s"
proof -
  assume perm: "mset ms = mset (rs_members s)"
  have c: "count_membership t s = length (filter (\<lambda>m. rm_membership m = Some t) (dvals (rs_members s)))" for s
    using fold_count [of "\<lambda>m. rm_membership m = Some t" "getMembers s" 0] by (simp add: count_membership_def getMembers_def)
  have "mset (dvals ms) = mset (dvals (rs_members s))" using perm by (simp add: mset_map)
  from length_filter_perm [OF this] show ?thesis unfolding c by simp
qed

lemma counts_order:
  assumes "mset ms = mset (rs_members s)"
  shows "fst (getJoinedMemberCount (s\<lparr>rs_members := ms\<rparr>)) = fst (getJoinedMemberCount s)"
    and "fst (getInvitedMemberCount (snd (getJoinedMemberCount (s\<lparr>rs_members := ms\<rparr>)))) =
      fst (getInvitedMemberCount (snd (getJoinedMemberCount s)))"
    and "snd (getInvitedMemberCount (snd (getJoinedMemberCount (s\<lparr>rs_members := ms\<rparr>)))) =
      (snd (getInvitedMemberCount (snd (getJoinedMemberCount s))))\<lparr>rs_members := ms\<rparr>"
proof -
  have c: "count_membership t (s\<lparr>rs_members := ms, rs_joinedMemberCount := x\<rparr>) = count_membership t (s\<lparr>rs_joinedMemberCount := x\<rparr>)" for t x
    using count_order [of ms "s\<lparr>rs_joinedMemberCount := x\<rparr>" t] assms by (simp add: count_membership_def getMembers_def)
  show "fst (getJoinedMemberCount (s\<lparr>rs_members := ms\<rparr>)) = fst (getJoinedMemberCount s)"
    "fst (getInvitedMemberCount (snd (getJoinedMemberCount (s\<lparr>rs_members := ms\<rparr>)))) =
      fst (getInvitedMemberCount (snd (getJoinedMemberCount s)))"
    "snd (getInvitedMemberCount (snd (getJoinedMemberCount (s\<lparr>rs_members := ms\<rparr>)))) =
      (snd (getInvitedMemberCount (snd (getJoinedMemberCount s))))\<lparr>rs_members := ms\<rparr>"
    using c count_order [OF assms]
    by (simp_all add: getJoinedMemberCount_def getInvitedMemberCount_def Let_def split: option.split)
qed

lemma count_keeps_members:
  "rs_members (snd (getInvitedMemberCount (snd (getJoinedMemberCount s)))) = rs_members s"
  "rs_events (snd (getInvitedMemberCount (snd (getJoinedMemberCount s)))) = rs_events s"
  by (simp_all add: getJoinedMemberCount_def getInvitedMemberCount_def Let_def split: option.split)

definition counted_others :: "(string \<Rightarrow> string \<Rightarrow> int) \<Rightarrow> string \<Rightarrow> room_info \<Rightarrow> int" where
  "counted_others cmp userId r =
     int (fst (getJoinedMemberCount (ri_state r))) + int (fst (getInvitedMemberCount (snd (getJoinedMemberCount (ri_state r))))) - 1 -
     int (snd (other_names cmp userId r))"


definition cmp_codes :: "string \<Rightarrow> string \<Rightarrow> int" where
  "cmp_codes a b = (if a = b then 0 else if a < b then - 1 else 1)"

lemma collates_codes: "collates cmp_codes"
  by (auto simp: collates_def cmp_codes_def split: if_splits)

definition plain_member :: "string \<Rightarrow> string \<times> room_member" where
  "plain_member u = (u, (new_member 0 (Some ''!r'') u)\<lparr>rm_membership := Some ''join''\<rparr>)"

definition sample_info :: room_info where
  "sample_info = \<lparr>ri_roomId = ''!r'', ri_myUserId = ''@me'',
     ri_state = (new_room_state 0 (Some ''!r'') 0)\<lparr>rs_members := [plain_member ''@b'', plain_member ''@a'', plain_member ''@me'']\<rparr>,
     ri_selfMembership = Some ''join'', ri_heroes = None, ri_name = ''!r'', ri_normalizedName = '''', ri_tags = empty_obj,
     ri_accountData = [], ri_counts = [], ri_blacklist = None, ri_emitted = []\<rparr>"


text \<open>
  What \<open>getRecommendedVersion\<close> answers: an upgrade is advised only to a version other than the current one; without an upgrade
  the version is the current one and nothing is urgent; and an urgent upgrade is advised only from a version of the specification, after a
  refreshed capability (when there is one) has confirmed it.
\<close>

theorem getRecommendedVersion_sound:
  "let a = getRecommendedVersion caps1 caps2 r in
   (va_needsUpgrade a \<longrightarrow> va_version a \<noteq> getVersion r) \<and>
   (\<not> va_needsUpgrade a \<longrightarrow> va_version a = getVersion r \<and> \<not> va_urgent a) \<and>
   (va_urgent a \<longrightarrow> (\<exists>v. getVersion r = JStr v \<and> spec_version v)) \<and>
   (va_urgent a \<and> truthy (jget caps2 ''m.room_versions'') \<longrightarrow>
      a = checkVersionAgainstCapability (jget caps2 ''m.room_versions'') r)"
proof -
  have c: "(va_needsUpgrade a \<longrightarrow> va_version a \<noteq> getVersion r) \<and>
      (\<not> va_needsUpgrade a \<longrightarrow> va_version a = getVersion r \<and> \<not> va_urgent a) \<and>
      (va_urgent a \<longrightarrow> (\<exists>v. getVersion r = JStr v \<and> spec_version v))"
    if "a = checkVersionAgainstCapability cap r" for a cap
    unfolding that by (cases "getVersion r") (auto simp: checkVersionAgainstCapability_def Let_def)
  have n: "va_urgent a \<longrightarrow> va_needsUpgrade a" if "a = checkVersionAgainstCapability cap r" for a cap
    using c [OF that] by blast
  define cap1 where "cap1 = (if truthy (jget caps1 ''m.room_versions'') then jget caps1 ''m.room_versions'' else default_capability)"
  define cap2 where "cap2 = jget caps2 ''m.room_versions''"
  define res where "res = checkVersionAgainstCapability cap1 r"
  have g: "getRecommendedVersion caps1 caps2 r =
      (if va_urgent res \<and> va_needsUpgrade res then (if truthy cap2 then checkVersionAgainstCapability cap2 r else res) else res)"
    by (simp add: getRecommendedVersion_def Let_def res_def cap1_def cap2_def)
  show ?thesis
  proof (cases "va_urgent res \<and> va_needsUpgrade res \<and> truthy cap2")
    case True
    then have "getRecommendedVersion caps1 caps2 r = checkVersionAgainstCapability cap2 r" by (simp add: g)
    then show ?thesis using c [OF refl, of cap2] unfolding Let_def cap2_def [symmetric] by simp
  next
    case False
    then have r: "getRecommendedVersion caps1 caps2 r = res" by (auto simp: g)
    have "\<not> (va_urgent res \<and> truthy cap2)" using False n [OF res_def] by blast
    then show ?thesis using c [OF res_def] unfolding Let_def r cap2_def [symmetric] by blast
  qed
qed

definition six_only :: json where
  "six_only = JObj [(''m.room_versions'', JObj [(''default'', JStr ''6''), (''available'', JObj [(''6'', JStr ''stable'')])])]"

theorem getRecommendedVersion_sound_witness:
  "va_version (getRecommendedVersion six_only six_only sample_info) \<noteq> getVersion sample_info \<and>
   getRecommendedVersion six_only six_only sample_info = checkVersionAgainstCapability (jget six_only ''m.room_versions'') sample_info"
proof -
  have "va_needsUpgrade (getRecommendedVersion six_only six_only sample_info)"
    "va_urgent (getRecommendedVersion six_only six_only sample_info)"
    "truthy (jget six_only ''m.room_versions'')"
    by code_simp+
  then show ?thesis using getRecommendedVersion_sound [of six_only six_only sample_info] unfolding Let_def by blast
qed

section \<open>Divergences\<close>

text \<open>Without a count, the names are counted as if the user were one of them: of three invited people the first has three others with them.\<close>

lemma invited_others_off_by_one: "memberNamesToRoomName [''A'', ''B'', ''C''] None = ''A and 3 others''"
  by code_simp

text \<open>
  When nobody is counted at all, not even the user, the difference is negative and taken for a count, so that the
  name of a room that everybody has left is the name of a former member.
\<close>

lemma left_room_named_after_hero:
  "fst (calculateRoomName cmp_codes ''@me'' False
     (sample_info\<lparr>ri_heroes := Some [''@a''], ri_state := (new_room_state 0 (Some ''!r'') 0)\<lparr>rs_summaryJoined := Some 0, rs_summaryInvited := Some 0\<rparr>\<rparr>)) = ''@a''"
  by code_simp

end
