(* ===== verification/Channels.thy ===== *)
theory Channels
  imports Event Dict2
begin

text \<open>
  Key verification messages (\<^verbatim>\<open>src/crypto/verification/Error.ts\<close>) and the two channels they travel over
  (\<^verbatim>\<open>request/InRoomChannel.ts\<close>, \<^verbatim>\<open>request/ToDeviceChannel.ts\<close>) as far as they do not depend on a request:
  event types, transaction ids, validation, the content of what is sent, and the maps of requests by transaction.
  The operations that drive a request are in \<^verbatim>\<open>VerificationRequest\<close>. \<open>me\<close> and \<open>dev\<close> are the user and the
  device of the client.
\<close>

section \<open>Errors\<close>

datatype verification_error = VError string string | VTypeError | VFailure string

definition error_content :: "string \<Rightarrow> string \<Rightarrow> (string \<times> json) list \<Rightarrow> json" where
  "error_content code reason extra = JObj (fold (\<lambda>(k, v). dset k v) extra [(''code'', JStr code), (''reason'', JStr reason)])"

definition newVerificationError :: "nat \<Rightarrow> string \<Rightarrow> string \<Rightarrow> (string \<times> json) list \<Rightarrow> mx_event" where
  "newVerificationError ref code reason extra =
     new_event ref (JObj [(''type'', JStr ''m.key.verification.cancel''), (''content'', error_content code reason extra)])"

definition newUserCancelledError :: verification_error where
  "newUserCancelledError = VError ''m.user'' ''Cancelled by user''"

definition newUnknownMethodError :: verification_error where
  "newUnknownMethodError = VError ''m.unknown_method'' ''Unknown method''"

definition newUnexpectedMessageError :: verification_error where
  "newUnexpectedMessageError = VError ''m.unexpected_message'' ''Unexpected message''"

definition newKeyMismatchError :: verification_error where
  "newKeyMismatchError = VError ''m.key_mismatch'' ''Key mismatch''"

definition newInvalidMessageError :: verification_error where
  "newInvalidMessageError = VError ''m.invalid_message'' ''Invalid message''"

definition errorFromEvent :: "mx_event \<Rightarrow> json \<times> json" where
  "errorFromEvent ev =
     (let content = getContent ev in
      if truthy content then (jget content ''code'', jget content ''reason'') else (JStr ''Unknown error'', JStr ''m.unknown''))"

section \<open>Types of messages\<close>

definition EVENT_PREFIX :: string where "EVENT_PREFIX = ''m.key.verification.''"
definition REQUEST_TYPE :: string where "REQUEST_TYPE = ''m.key.verification.request''"
definition START_TYPE :: string where "START_TYPE = ''m.key.verification.start''"
definition CANCEL_TYPE :: string where "CANCEL_TYPE = ''m.key.verification.cancel''"
definition DONE_TYPE :: string where "DONE_TYPE = ''m.key.verification.done''"
definition READY_TYPE :: string where "READY_TYPE = ''m.key.verification.ready''"

lemmas type_defs = EVENT_PREFIX_def REQUEST_TYPE_def START_TYPE_def CANCEL_TYPE_def DONE_TYPE_def READY_TYPE_def

lemma types_distinct [simp]:
  "REQUEST_TYPE \<noteq> START_TYPE" "REQUEST_TYPE \<noteq> CANCEL_TYPE" "REQUEST_TYPE \<noteq> DONE_TYPE" "REQUEST_TYPE \<noteq> READY_TYPE"
  "START_TYPE \<noteq> REQUEST_TYPE" "START_TYPE \<noteq> CANCEL_TYPE" "START_TYPE \<noteq> DONE_TYPE" "START_TYPE \<noteq> READY_TYPE"
  "CANCEL_TYPE \<noteq> REQUEST_TYPE" "CANCEL_TYPE \<noteq> START_TYPE" "CANCEL_TYPE \<noteq> DONE_TYPE" "CANCEL_TYPE \<noteq> READY_TYPE"
  "DONE_TYPE \<noteq> REQUEST_TYPE" "DONE_TYPE \<noteq> START_TYPE" "DONE_TYPE \<noteq> CANCEL_TYPE" "DONE_TYPE \<noteq> READY_TYPE"
  "READY_TYPE \<noteq> REQUEST_TYPE" "READY_TYPE \<noteq> START_TYPE" "READY_TYPE \<noteq> CANCEL_TYPE" "READY_TYPE \<noteq> DONE_TYPE"
  by (simp_all add: type_defs)

section \<open>Validation\<close>

definition starts_with :: "string \<Rightarrow> string \<Rightarrow> bool" where
  "starts_with s p \<longleftrightarrow> take (length p) s = p"

text \<open>\<open>VerificationRequest.validateEvent\<close>; \<open>ty\<close> is the symbolic type, empty when there is none.\<close>

definition request_validateEvent :: "string \<Rightarrow> mx_event \<Rightarrow> bool" where
  "request_validateEvent ty ev =
     (let content = getContent ev in
      if ty = [] \<or> \<not> starts_with ty EVENT_PREFIX then False
      else if \<not> truthy content then False
      else if (ty = REQUEST_TYPE \<or> ty = READY_TYPE) \<and> \<not> is_array (jget content ''methods'') then False
      else if (ty = REQUEST_TYPE \<or> ty = READY_TYPE \<or> ty = START_TYPE) \<and>
              (case jget content ''from_device'' of JStr d \<Rightarrow> d = [] | _ \<Rightarrow> True) then False
      else True)"

definition inroom_getEventType :: "mx_event \<Rightarrow> string" where
  "inroom_getEventType ev =
     (if getType ev = Some ''m.room.message'' \<and> jget (getContent ev) ''msgtype'' = JStr REQUEST_TYPE then REQUEST_TYPE
      else case getType ev of
             Some ty \<Rightarrow> if ty \<noteq> [] \<and> ty \<noteq> REQUEST_TYPE then ty else []
           | None \<Rightarrow> [])"

definition inroom_getOtherPartyUserId :: "string \<Rightarrow> mx_event \<Rightarrow> string option" where
  "inroom_getOtherPartyUserId me ev =
     (if inroom_getEventType ev \<noteq> REQUEST_TYPE then None
      else let receiver = as_str (jget (getContent ev) ''to'') in
           if getSender ev = Some me then receiver
           else if receiver = Some me then getSender ev else None)"

definition inroom_getTransactionId :: "mx_event \<Rightarrow> string option" where
  "inroom_getTransactionId ev =
     (if inroom_getEventType ev = REQUEST_TYPE then getId ev
      else case getRelation ev of
             Some relation \<Rightarrow> if jget relation ''rel_type'' = JStr ''m.reference'' then as_str (jget relation ''event_id'') else None
           | None \<Rightarrow> None)"

definition falsy_str :: "string option \<Rightarrow> bool" where
  "falsy_str so \<longleftrightarrow> so = None \<or> so = Some []"

definition inroom_validateEvent :: "string \<Rightarrow> mx_event \<Rightarrow> bool" where
  "inroom_validateEvent me ev =
     (let ty = inroom_getEventType ev; content = getContent ev in
      if falsy_str (inroom_getTransactionId ev) then False
      else if ty = REQUEST_TYPE \<and> (\<not> truthy content \<or> falsy_str (as_str (jget content ''to''))) then False
      else if ty = REQUEST_TYPE \<and> falsy_str (inroom_getOtherPartyUserId me ev) then False
      else request_validateEvent ty ev)"

definition inroom_canCreateRequest :: "string \<Rightarrow> bool" where
  "inroom_canCreateRequest ty \<longleftrightarrow> ty = REQUEST_TYPE"

definition todevice_canCreateRequest :: "string \<Rightarrow> bool" where
  "todevice_canCreateRequest ty \<longleftrightarrow> ty = REQUEST_TYPE \<or> ty = START_TYPE"

definition todevice_getTransactionId :: "mx_event \<Rightarrow> json" where
  "todevice_getTransactionId ev = (let content = getContent ev in if truthy content then jget content ''transaction_id'' else content)"

definition todevice_validateEvent :: "string \<Rightarrow> string \<Rightarrow> mx_event \<Rightarrow> bool" where
  "todevice_validateEvent me dev ev =
     (let content = getContent ev in
      if cancelledFlag ev then False
      else if \<not> truthy content then False
      else if \<not> truthy (jget content ''transaction_id'') then False
      else if getType ev = Some REQUEST_TYPE \<and> (case jget content ''timestamp'' of JNum _ \<Rightarrow> False | _ \<Rightarrow> True) then False
      else if getType ev = Some REQUEST_TYPE \<and> getSender ev = Some me \<and> jget content ''from_device'' = JStr dev then False
      else request_validateEvent (case getType ev of Some ty \<Rightarrow> ty | None \<Rightarrow> []) ev)"

section \<open>Channels\<close>

record vchannel =
  ch_inRoom :: bool
  ch_me :: string
  ch_dev :: string
  ch_roomId :: string
  ch_userId :: "string option"
  ch_txn :: "string option"
  ch_devices :: "string list"
  ch_device :: "string option"

definition new_InRoomChannel :: "string \<Rightarrow> string \<Rightarrow> string \<Rightarrow> string option \<Rightarrow> vchannel" where
  "new_InRoomChannel me dev roomId userId =
     \<lparr>ch_inRoom = True, ch_me = me, ch_dev = dev, ch_roomId = roomId, ch_userId = userId, ch_txn = None, ch_devices = [], ch_device = None\<rparr>"

definition new_ToDeviceChannel :: "string \<Rightarrow> string \<Rightarrow> string \<Rightarrow> string list \<Rightarrow> string option \<Rightarrow> string option \<Rightarrow> vchannel" where
  "new_ToDeviceChannel me dev userId devices transactionId deviceId =
     \<lparr>ch_inRoom = False, ch_me = me, ch_dev = dev, ch_roomId = [], ch_userId = Some userId, ch_txn = transactionId,
      ch_devices = devices, ch_device = deviceId\<rparr>"

definition isToDevices :: "string list \<Rightarrow> vchannel \<Rightarrow> bool" where
  "isToDevices devices ch \<longleftrightarrow> length devices = length (ch_devices ch) \<and> (\<forall>d\<in>set devices. d \<in> set (ch_devices ch))"

definition ch_canCreateRequest :: "string \<Rightarrow> vchannel \<Rightarrow> bool" where
  "ch_canCreateRequest ty ch = (if ch_inRoom ch then inroom_canCreateRequest ty else todevice_canCreateRequest ty)"

definition receiveStartFromOtherDevices :: "vchannel \<Rightarrow> bool" where
  "receiveStartFromOtherDevices ch = ch_inRoom ch"

text \<open>A timestamp that is missing makes every later sum \<open>NaN\<close>: \<open>None\<close>.\<close>

definition ch_getTimestamp :: "vchannel \<Rightarrow> mx_event \<Rightarrow> rat option" where
  "ch_getTimestamp ch ev = (if ch_inRoom ch then getTs ev else as_num (jget (getContent ev) ''timestamp''))"

definition obj_put :: "string \<Rightarrow> json \<Rightarrow> json \<Rightarrow> json" where
  "obj_put k v j = JObj (dset k v (entries j))"

definition needs_device :: "string \<Rightarrow> bool" where
  "needs_device ty \<longleftrightarrow> ty = REQUEST_TYPE \<or> ty = READY_TYPE \<or> ty = START_TYPE"

definition inroom_completeContent :: "vchannel \<Rightarrow> string \<Rightarrow> json \<Rightarrow> json" where
  "inroom_completeContent ch ty content =
     (let content1 = (if needs_device ty then obj_put ''from_device'' (JStr (ch_dev ch)) content else JObj (entries content)) in
      if ty = REQUEST_TYPE
      then JObj [(''body'', JStr (ch_me ch @ '' is requesting to verify your key, but your client does not support in-chat key '' @
                  ''verification.  You will need to use legacy key verification to verify keys.'')),
                 (''msgtype'', JStr REQUEST_TYPE), (''to'', of_str (ch_userId ch)),
                 (''from_device'', jget content1 ''from_device''), (''methods'', jget content1 ''methods'')]
      else obj_put ''m.relates_to'' (JObj [(''rel_type'', JStr ''m.reference''), (''event_id'', of_str (ch_txn ch))]) content1)"

definition todevice_completeContent :: "vchannel \<Rightarrow> nat \<Rightarrow> string \<Rightarrow> json \<Rightarrow> json" where
  "todevice_completeContent ch now ty content =
     (let content1 = (if falsy_str (ch_txn ch) then JObj (entries content) else obj_put ''transaction_id'' (of_str (ch_txn ch)) content);
          content2 = (if needs_device ty then obj_put ''from_device'' (JStr (ch_dev ch)) content1 else content1)
      in if ty = REQUEST_TYPE then obj_put ''timestamp'' (JNum (of_nat now)) content2 else content2)"

definition completeContent :: "vchannel \<Rightarrow> nat \<Rightarrow> string \<Rightarrow> json \<Rightarrow> json" where
  "completeContent ch now ty content =
     (if ch_inRoom ch then inroom_completeContent ch ty content else todevice_completeContent ch now ty content)"

definition completedContentFromEvent :: "vchannel \<Rightarrow> mx_event \<Rightarrow> json" where
  "completedContentFromEvent ch ev =
     (if ch_inRoom ch
      then obj_put ''m.relates_to'' (case getRelation ev of Some relation \<Rightarrow> relation | None \<Rightarrow> JNull) (getContent ev)
      else getContent ev)"

end
