(* ===== verification/VerificationRequest.thy ===== *)
theory VerificationRequest
  imports Channels
begin

text \<open>
  A verification request (\<^verbatim>\<open>src/crypto/verification/request/VerificationRequest.ts\<close>) with its verifier
  (\<^verbatim>\<open>Base.ts\<close>) and the channel that drives it. The state of the three objects is one record. What happens
  after an \<open>await\<close> is a task, which the environment runs at any later time; what the code throws is the flag that an
  operation answers beside the state. Messages that leave are logged in \<open>vr_sent\<close>, the notifications of listeners in
  \<open>vr_emitted\<close>. Inside the verifier, the method's own exchange (\<open>doVerification\<close>) is the environment: it calls
  \<open>waitForEvent\<close>, sends, and ends with \<open>done\<close> or \<open>cancel\<close>.
\<close>

section \<open>State\<close>

datatype phase = Unsent | Requested | Ready | Started | Cancelled | Done

fun phase_no :: "phase \<Rightarrow> nat" where
  "phase_no Unsent = 1" | "phase_no Requested = 2" | "phase_no Ready = 3"
| "phase_no Started = 4" | "phase_no Cancelled = 5" | "phase_no Done = 6"

datatype vclass = SasMethod | ReciprocateMethod | NoMethod

datatype cause = TimedOut | CauseEvent mx_event | CauseText string

datatype vf_emission = VfResolveEvent mx_event | VfRejectEvent cause | VfSwitched mx_event | VfResolved | VfRejected cause | VfCancelled cause

record verifier =
  vf_class :: vclass
  vf_userId :: "string option"
  vf_deviceId :: "string option"
  vf_startEvent :: "mx_event option"
  vf_cancelled :: bool
  vf_done :: bool
  vf_promise :: bool
  vf_canReject :: bool
  vf_expected :: "string option"
  vf_rejectable :: bool
  vf_started :: bool
  vf_timer :: bool
  vf_waitingForAccept :: bool
  vf_log :: "vf_emission list"

definition new_verifier :: "vclass \<Rightarrow> string option \<Rightarrow> string option \<Rightarrow> mx_event option \<Rightarrow> verifier" where
  "new_verifier c userId deviceId startEvent =
     \<lparr>vf_class = c, vf_userId = userId, vf_deviceId = deviceId, vf_startEvent = startEvent, vf_cancelled = False, vf_done = False,
      vf_promise = False, vf_canReject = False, vf_expected = None, vf_rejectable = False, vf_started = False, vf_timer = False,
      vf_waitingForAccept = False, vf_log = []\<rparr>"

text \<open>What follows the handling of an event: nothing, or telling the other devices that one has been chosen.\<close>

datatype post = NoPost | TellOthers string bool

datatype vmsg = ToRoom string string json | ToDevices "string option" string "(string \<times> json) list"

datatype vtask =
    AfterCheck string mx_event bool bool bool bool post
  | AfterQr phase post
  | EchoOf string json post
  | RequestSent
  | Returned post

record vreq =
  vr_channel :: vchannel
  vr_supported :: "(string \<times> vclass) list"
  vr_by_us :: "(string, mx_event) dict"
  vr_by_them :: "(string, mx_event) dict"
  vr_observeOnly :: bool
  vr_accepting :: bool
  vr_declining :: bool
  vr_finished :: bool
  vr_cancelled :: bool
  vr_chosen :: "string option"
  vr_qr :: "nat option"
  vr_receivedAt :: nat
  vr_methods :: "string list"
  vr_phase :: phase
  vr_cancellingUserId :: "string option"
  vr_verifier :: "verifier option"
  vr_timer :: "rat option option"
  vr_tasks :: "vtask list"
  vr_sent :: "vmsg list"
  vr_emitted :: "phase list"

definition new_vreq :: "vchannel \<Rightarrow> (string \<times> vclass) list \<Rightarrow> vreq" where
  "new_vreq ch supported =
     \<lparr>vr_channel = ch, vr_supported = supported, vr_by_us = [], vr_by_them = [], vr_observeOnly = False, vr_accepting = False,
      vr_declining = False, vr_finished = False, vr_cancelled = False, vr_chosen = None, vr_qr = None, vr_receivedAt = 0,
      vr_methods = [], vr_phase = Unsent, vr_cancellingUserId = None, vr_verifier = None, vr_timer = None, vr_tasks = [],
      vr_sent = [], vr_emitted = []\<rparr>"

text \<open>What an operation takes from its surroundings: the clock, a random transaction id, a fresh event number.\<close>

record venv =
  en_now :: nat
  en_txn :: string
  en_ref :: nat

definition vr_me :: "vreq \<Rightarrow> string" where "vr_me r = ch_me (vr_channel r)"

definition emit_change :: "vreq \<Rightarrow> vreq" where
  "emit_change r = r\<lparr>vr_emitted := vr_emitted r @ [vr_phase r]\<rparr>"

definition push_vtask :: "vtask \<Rightarrow> vreq \<Rightarrow> vreq" where
  "push_vtask t r = r\<lparr>vr_tasks := vr_tasks r @ [t]\<rparr>"

definition finish :: "post \<Rightarrow> vreq \<Rightarrow> vreq" where
  "finish p r = (if p = NoPost then r else push_vtask (Returned p) r)"

definition send_out :: "vmsg \<Rightarrow> vreq \<Rightarrow> vreq" where
  "send_out m r = r\<lparr>vr_sent := vr_sent r @ [m]\<rparr>"

definition with_verifier :: "(verifier \<Rightarrow> verifier) \<Rightarrow> vreq \<Rightarrow> vreq" where
  "with_verifier f r = r\<lparr>vr_verifier := map_option f (vr_verifier r)\<rparr>"

section \<open>Sending over the channel\<close>

definition sendToDevices :: "string \<Rightarrow> json \<Rightarrow> string list \<Rightarrow> vreq \<Rightarrow> vreq" where
  "sendToDevices ty content devices r =
     (if devices = [] then r
      else send_out (ToDevices (ch_userId (vr_channel r)) ty (fold (\<lambda>d. dset d content) devices [])) r)"

definition channel_sendCompleted :: "string \<Rightarrow> json \<Rightarrow> post \<Rightarrow> vreq \<Rightarrow> vreq" where
  "channel_sendCompleted ty content p r =
     (let ch = vr_channel r in
      if ch_inRoom ch
      then (let r1 = send_out (ToRoom (ch_roomId ch) (if ty = REQUEST_TYPE then ''m.room.message'' else ty) content) r
            in if ty = REQUEST_TYPE then push_vtask RequestSent r1 else finish p r1)
      else push_vtask (EchoOf ty content p)
             (sendToDevices ty content
               (if ty = REQUEST_TYPE \<or> (ty = CANCEL_TYPE \<and> falsy_str (ch_device ch)) then ch_devices ch
                else [case ch_device ch of Some d \<Rightarrow> d | None \<Rightarrow> ''null'']) r))"

definition channel_send :: "venv \<Rightarrow> string \<Rightarrow> json \<Rightarrow> post \<Rightarrow> vreq \<Rightarrow> vreq" where
  "channel_send en ty content p r =
     (let ch = vr_channel r;
          ch1 = (if \<not> ch_inRoom ch \<and> (ty = REQUEST_TYPE \<or> ty = START_TYPE) \<and> falsy_str (ch_txn ch)
                 then ch\<lparr>ch_txn := Some (en_txn en)\<rparr> else ch)
      in channel_sendCompleted ty (completeContent ch1 (en_now en) ty content) p (r\<lparr>vr_channel := ch1\<rparr>))"

section \<open>Questions\<close>

definition getEventBy :: "string \<Rightarrow> bool \<Rightarrow> vreq \<Rightarrow> mx_event option" where
  "getEventBy ty byThem r = (if byThem then dget (vr_by_them r) ty else dget (vr_by_us r) ty)"

definition getEventByEither :: "string \<Rightarrow> vreq \<Rightarrow> mx_event option" where
  "getEventByEither ty r = (case dget (vr_by_them r) ty of Some e \<Rightarrow> Some e | None \<Rightarrow> dget (vr_by_us r) ty)"

definition initiatedByMe :: "vreq \<Rightarrow> bool" where
  "initiatedByMe r =
     (let noEventsYet = (vr_by_us r = [] \<and> vr_by_them r = []);
          myRequest = (dget (vr_by_us r) REQUEST_TYPE \<noteq> None); theirRequest = (dget (vr_by_them r) REQUEST_TYPE \<noteq> None);
          myStart = (dget (vr_by_us r) START_TYPE \<noteq> None); theirStart = (dget (vr_by_them r) START_TYPE \<noteq> None)
      in if vr_phase r = Unsent \<and> noEventsYet then True
         else if myRequest \<and> \<not> theirRequest then True
         else if \<not> myRequest \<and> theirRequest then False
         else myStart \<and> \<not> theirStart)"

definition requestingUserId :: "vreq \<Rightarrow> string option" where
  "requestingUserId r = (if initiatedByMe r then Some (vr_me r) else ch_userId (vr_channel r))"

definition receivingUserId :: "vreq \<Rightarrow> string option" where
  "receivingUserId r = (if initiatedByMe r then ch_userId (vr_channel r) else Some (vr_me r))"

definition isSelfVerification :: "vreq \<Rightarrow> bool" where
  "isSelfVerification r \<longleftrightarrow> ch_userId (vr_channel r) = Some (vr_me r)"

text \<open>\<open><\<close> on strings that may be missing.\<close>

definition js_less :: "string option \<Rightarrow> string option \<Rightarrow> bool" where
  "js_less a b = (case (a, b) of (Some x, Some y) \<Rightarrow> x < y | _ \<Rightarrow> False)"

definition cancellingUserId :: "vreq \<Rightarrow> string option" where
  "cancellingUserId r =
     (case (dget (vr_by_us r) CANCEL_TYPE, dget (vr_by_them r) CANCEL_TYPE) of
        (Some my, None) \<Rightarrow> getSender my
      | (Some my, Some their) \<Rightarrow> if js_less (getId my) (getId their) then getSender my else getSender their
      | (None, Some their) \<Rightarrow> getSender their
      | (None, None) \<Rightarrow> None)"

definition cancellationCode :: "vreq \<Rightarrow> json" where
  "cancellationCode r = (case getEventByEither CANCEL_TYPE r of Some e \<Rightarrow> jget (getContent e) ''code'' | None \<Rightarrow> JNull)"

definition canAccept :: "vreq \<Rightarrow> bool" where
  "canAccept r \<longleftrightarrow> phase_no (vr_phase r) < phase_no Ready \<and> \<not> vr_accepting r \<and> \<not> vr_declining r"

definition vr_pending :: "vreq \<Rightarrow> bool" where
  "vr_pending r \<longleftrightarrow> \<not> vr_observeOnly r \<and> vr_phase r \<noteq> Done \<and> vr_phase r \<noteq> Cancelled"

definition otherPartySupportsMethod :: "string \<Rightarrow> bool \<Rightarrow> vreq \<Rightarrow> bool" where
  "otherPartySupportsMethod meth force r =
     (if \<not> force \<and> vr_phase r \<noteq> Ready \<and> vr_phase r \<noteq> Started then False
      else case (case dget (vr_by_them r) REQUEST_TYPE of Some e \<Rightarrow> Some e | None \<Rightarrow> dget (vr_by_them r) READY_TYPE) of
             None \<Rightarrow>
               if vr_phase r = Started \<and> initiatedByMe r
               then (case dget (vr_by_us r) START_TYPE of
                       Some e \<Rightarrow> jget (getContent e) ''method'' = JStr meth
                     | None \<Rightarrow> False)
               else False
           | Some e \<Rightarrow> (case jget (getContent e) ''methods'' of JArr ms \<Rightarrow> JStr meth \<in> set ms | _ \<Rightarrow> False))"

text \<open>The device to talk to; \<open>None\<close> is the \<open>TypeError\<close> when the other party has sent nothing.\<close>

definition targetDevice :: "vreq \<Rightarrow> (string option \<times> string option) option" where
  "targetDevice r =
     map_option (\<lambda>e. (ch_userId (vr_channel r), as_str (jget (getContent e) ''from_device'')))
       (case dget (vr_by_them r) REQUEST_TYPE of Some e \<Rightarrow> Some e
        | None \<Rightarrow> (case dget (vr_by_them r) READY_TYPE of Some e \<Rightarrow> Some e
                  | None \<Rightarrow> dget (vr_by_them r) START_TYPE))"

definition TIMEOUT_FROM_EVENT_TS :: rat where "TIMEOUT_FROM_EVENT_TS = 600000"
definition TIMEOUT_FROM_EVENT_RECEIPT :: rat where "TIMEOUT_FROM_EVENT_RECEIPT = 120000"
definition VERIFICATION_REQUEST_MARGIN :: rat where "VERIFICATION_REQUEST_MARGIN = 3000"

text \<open>The time left from the event's timestamp, or from the receipt of a request that is not ours, whichever is less.\<close>

fun time_left :: "nat \<Rightarrow> nat option \<Rightarrow> rat option \<Rightarrow> rat option" where
  "time_left now receipt None = None"
| "time_left now None (Some ts) = Some (max 0 (ts + TIMEOUT_FROM_EVENT_TS - of_nat now))"
| "time_left now (Some received) (Some ts) =
     Some (max 0 (min (ts + TIMEOUT_FROM_EVENT_TS) (of_nat received + TIMEOUT_FROM_EVENT_RECEIPT) - of_nat now))"

definition calculateEventTimeout :: "nat \<Rightarrow> mx_event \<Rightarrow> vreq \<Rightarrow> rat option" where
  "calculateEventTimeout now ev r =
     time_left now
       (if vr_receivedAt r \<noteq> 0 \<and> \<not> initiatedByMe r \<and> phase_no (vr_phase r) \<le> phase_no Requested then Some (vr_receivedAt r) else None)
       (ch_getTimestamp (vr_channel r) ev)"

definition request_timeout :: "nat \<Rightarrow> vreq \<Rightarrow> rat option" where
  "request_timeout now r =
     (case getEventByEither REQUEST_TYPE r of Some e \<Rightarrow> calculateEventTimeout now e r | None \<Rightarrow> Some 0)"

definition hasEventId :: "string option \<Rightarrow> vreq \<Rightarrow> bool" where
  "hasEventId eventId r \<longleftrightarrow> eventId \<in> getId ` (snd ` set (vr_by_us r) \<union> snd ` set (vr_by_them r))"

definition wasSentByOwnUser :: "mx_event \<Rightarrow> vreq \<Rightarrow> bool" where
  "wasSentByOwnUser ev r \<longleftrightarrow> getSender ev = Some (vr_me r)"

definition wasSentByOwnDevice :: "mx_event \<Rightarrow> vreq \<Rightarrow> bool" where
  "wasSentByOwnDevice ev r \<longleftrightarrow>
     wasSentByOwnUser ev r \<and> jget (getContent ev) ''from_device'' = JStr (ch_dev (vr_channel r))"

section \<open>Phases\<close>

type_synonym transition = "phase \<times> mx_event option"

definition last_phase :: "transition list \<Rightarrow> phase" where
  "last_phase ts = fst (last ts)"

definition start_event :: "bool \<Rightarrow> bool \<Rightarrow> bool \<Rightarrow> vreq \<Rightarrow> mx_event option" where
  "start_event hasRequest hasReady hasRequestByThem r =
     (if hasReady \<or> \<not> hasRequest
      then (case (dget (vr_by_them r) START_TYPE, dget (vr_by_us r) START_TYPE) of
              (Some their, Some our) \<Rightarrow> Some (if js_less (getSender their) (getSender our) then their else our)
            | (Some their, None) \<Rightarrow> Some their
            | (None, our) \<Rightarrow> our)
      else getEventBy START_TYPE (\<not> hasRequestByThem) r)"

text \<open>The transitions up to the end of the verification; a cancellation may follow them.\<close>

definition active_transitions :: "vreq \<Rightarrow> transition list" where
  "active_transitions r =
     (let hasRequestByThem = (dget (vr_by_them r) REQUEST_TYPE \<noteq> None);
          requestEvent = getEventBy REQUEST_TYPE hasRequestByThem r;
          ts1 = [(Unsent, None)] @ (if requestEvent \<noteq> None then [(Requested, requestEvent)] else []);
          readyEvent = (if requestEvent \<noteq> None then getEventBy READY_TYPE (\<not> hasRequestByThem) r else None);
          ts2 = ts1 @ (if readyEvent \<noteq> None \<and> last_phase ts1 = Requested then [(Ready, readyEvent)] else []);
          startEvent = start_event (requestEvent \<noteq> None) (readyEvent \<noteq> None) hasRequestByThem r;
          fromRequestPhase = (last_phase ts2 = Requested \<and>
            (case (requestEvent, startEvent) of (Some q, Some s) \<Rightarrow> getSender q \<noteq> getSender s | _ \<Rightarrow> False));
          fromUnsentPhase = (last_phase ts2 = Unsent \<and> ch_canCreateRequest START_TYPE (vr_channel r));
          ts3 = ts2 @ (if startEvent \<noteq> None \<and> (fromRequestPhase \<or> last_phase ts2 = Ready \<or> fromUnsentPhase)
                       then [(Started, startEvent)] else [])
      in ts3 @ (if vr_finished r \<or> (dget (vr_by_us r) DONE_TYPE \<noteq> None \<and> last_phase ts3 = Started) then [(Done, None)] else []))"

definition calculatePhaseTransitions :: "vreq \<Rightarrow> transition list" where
  "calculatePhaseTransitions r =
     (let ts4 = active_transitions r; cancelEvent = getEventByEither CANCEL_TYPE r
      in ts4 @ (if (vr_cancelled r \<or> cancelEvent \<noteq> None) \<and> last_phase ts4 \<noteq> Done then [(Cancelled, cancelEvent)] else []))"

text \<open>Creating a verifier; \<open>Inr None\<close> when the method has no implementation.\<close>

definition createVerifier ::
    "json \<Rightarrow> mx_event option \<Rightarrow> (string option \<times> string option) option \<Rightarrow> vreq \<Rightarrow> verification_error + verifier option" where
  "createVerifier meth startEvent given r =
     (case (case given of Some t \<Rightarrow> Some t | None \<Rightarrow> targetDevice r) of
        None \<Rightarrow> Inl VTypeError
      | Some (userId, deviceId) \<Rightarrow>
          Inr (case as_str meth of
                 Some m \<Rightarrow> map_option (\<lambda>c. new_verifier c userId deviceId startEvent) (map_of (vr_supported r) m)
               | None \<Rightarrow> None))"

text \<open>\<open>cancel\<close> of a request that has no verifier.\<close>

definition cancel_bare :: "venv \<Rightarrow> json \<Rightarrow> json \<Rightarrow> post \<Rightarrow> vreq \<Rightarrow> vreq" where
  "cancel_bare en code reason p r =
     (if \<not> vr_observeOnly r \<and> vr_phase r \<noteq> Cancelled
      then (let r1 = emit_change (r\<lparr>vr_declining := True\<rparr>) in
            channel_send en CANCEL_TYPE (JObj [(''code'', code), (''reason'', reason)]) p
              (r1\<lparr>vr_cancellingUserId := Some (vr_me r)\<rparr>))
      else finish p r)"

definition supported_methods :: "json \<Rightarrow> vreq \<Rightarrow> string list" where
  "supported_methods ms r =
     (case ms of JArr xs \<Rightarrow> filter (\<lambda>m. map_of (vr_supported r) m \<noteq> None) (List.map_filter as_str xs) | _ \<Rightarrow> [])"

text \<open>The three parts of \<open>transitionToPhase\<close>: common methods, observing only, the verifier.\<close>

definition take_methods :: "phase \<Rightarrow> mx_event \<Rightarrow> vreq \<Rightarrow> vreq \<times> bool" where
  "take_methods ph ev r =
     (if (ph = Requested \<or> ph = Ready) \<and> \<not> wasSentByOwnDevice ev r
      then (let ms = jget (getContent ev) ''methods'' in
            if is_array ms then (r\<lparr>vr_methods := supported_methods ms r\<rparr>, False) else (r, True))
      else (r, False))"

definition detect_observer :: "phase \<Rightarrow> mx_event \<Rightarrow> vreq \<Rightarrow> vreq" where
  "detect_observer ph ev r =
     (if \<not> vr_observeOnly r \<and> (ph = Requested \<or> ph = Started \<or> ph = Ready) \<and>
         receiveStartFromOtherDevices (vr_channel r) \<and> wasSentByOwnUser ev r \<and> \<not> wasSentByOwnDevice ev r
      then r\<lparr>vr_observeOnly := True\<rparr> else r)"

definition make_verifier :: "venv \<Rightarrow> phase \<Rightarrow> mx_event \<Rightarrow> vreq \<Rightarrow> vreq \<times> bool" where
  "make_verifier en ph ev r =
     (if ph = Started \<and> vr_verifier r = None \<and> \<not> vr_observeOnly r
      then (let meth = jget (getContent ev) ''method'' in
            case createVerifier meth (Some ev) None r of
              Inl _ \<Rightarrow> (r, True)
            | Inr None \<Rightarrow>
                (cancel_bare en (JStr ''m.unknown_method'')
                   (JStr (''Unknown method: '' @ (case as_str meth of Some m \<Rightarrow> m | None \<Rightarrow> ''undefined''))) NoPost r, False)
            | Inr (Some v) \<Rightarrow> (r\<lparr>vr_verifier := Some v, vr_chosen := as_str meth\<rparr>, False))
      else (r, False))"

definition transitionToPhase :: "venv \<Rightarrow> transition \<Rightarrow> vreq \<Rightarrow> vreq \<times> bool" where
  "transitionToPhase en t r =
     (case t of
        (ph, None) \<Rightarrow> (r, False)
      | (ph, Some ev) \<Rightarrow>
          (case take_methods ph ev r of
             (r1, True) \<Rightarrow> (r1, True)
           | (r1, False) \<Rightarrow> make_verifier en ph ev (detect_observer ph ev r1)))"

fun run_transitions :: "venv \<Rightarrow> transition list \<Rightarrow> vreq \<Rightarrow> vreq \<times> bool" where
  "run_transitions en [] r = (r, False)"
| "run_transitions en (t # ts) r =
     (case transitionToPhase en t r of (r1, True) \<Rightarrow> (r1, True) | (r1, False) \<Rightarrow> run_transitions en ts r1)"

definition after_phase :: "phase \<Rightarrow> transition list \<Rightarrow> transition list" where
  "after_phase ph ts = (case dropWhile (\<lambda>t. fst t \<noteq> ph) ts of [] \<Rightarrow> ts | _ # rest \<Rightarrow> rest)"

definition new_transitions :: "vreq \<Rightarrow> transition list" where
  "new_transitions r = after_phase (vr_phase r) (calculatePhaseTransitions r)"

definition applyPhaseTransitions :: "venv \<Rightarrow> vreq \<Rightarrow> vreq \<times> bool" where
  "applyPhaseTransitions en r = run_transitions en (new_transitions r) r"

definition setPhase :: "phase \<Rightarrow> vreq \<Rightarrow> vreq" where
  "setPhase ph r = emit_change (r\<lparr>vr_phase := ph\<rparr>)"

text \<open>Applying the transitions and taking the last phase, as the callbacks of the verifier do.\<close>

definition advance_phase :: "venv \<Rightarrow> vreq \<Rightarrow> vreq \<times> bool" where
  "advance_phase en r =
     (let new = new_transitions r in
      case applyPhaseTransitions en r of
        (r1, True) \<Rightarrow> (r1, True)
      | (r1, False) \<Rightarrow> (if new = [] then r1 else setPhase (last_phase new) r1, False))"

definition onVerifierCancelled :: "venv \<Rightarrow> vreq \<Rightarrow> vreq \<times> bool" where
  "onVerifierCancelled en r = advance_phase en (r\<lparr>vr_cancelled := True\<rparr>)"

definition onVerifierFinished :: "venv \<Rightarrow> vreq \<Rightarrow> vreq \<times> bool" where
  "onVerifierFinished en r =
     advance_phase en ((channel_send en ''m.key.verification.done'' empty_obj NoPost r)\<lparr>vr_finished := True\<rparr>)"

section \<open>The verifier\<close>

definition verifier_events :: "vclass \<Rightarrow> string list" where
  "verifier_events c =
     (if c = SasMethod then [''m.key.verification.accept'', ''m.key.verification.key'', ''m.key.verification.mac''] else [])"

definition verifier_initiatedByMe :: "string \<Rightarrow> string \<Rightarrow> verifier \<Rightarrow> bool" where
  "verifier_initiatedByMe me dev v =
     (case vf_startEvent v of
        None \<Rightarrow> True
      | Some ev \<Rightarrow> getSender ev = Some me \<and> jget (getContent ev) ''from_device'' = JStr dev)"

definition canSwitchStartEvent :: "mx_event \<Rightarrow> verifier \<Rightarrow> bool" where
  "canSwitchStartEvent ev v \<longleftrightarrow>
     vf_class v = SasMethod \<and> getType ev = Some START_TYPE \<and> jget (getContent ev) ''method'' = JStr ''m.sas.v1'' \<and> vf_waitingForAccept v"

definition vf_emit :: "vf_emission \<Rightarrow> verifier \<Rightarrow> verifier" where
  "vf_emit em v = v\<lparr>vf_log := vf_log v @ [em]\<rparr>"

definition switchStartEvent :: "mx_event \<Rightarrow> verifier \<Rightarrow> verifier" where
  "switchStartEvent ev v =
     (if canSwitchStartEvent ev v
      then (if vf_rejectable v then vf_emit (VfSwitched ev) (v\<lparr>vf_rejectable := False\<rparr>) else v\<lparr>vf_startEvent := Some ev\<rparr>)
      else v)"

text \<open>The content that \<open>VerificationBase.cancel\<close> sends, when it sends one.\<close>

definition cancel_content :: "verifier \<Rightarrow> cause \<Rightarrow> json option" where
  "cancel_content v c =
     (if falsy_str (vf_userId v) \<or> falsy_str (vf_deviceId v) then None
      else case c of
        TimedOut \<Rightarrow> Some (error_content ''m.timeout'' ''Timed out'' [])
      | CauseText t \<Rightarrow> Some (JObj [(''code'', JStr ''m.unknown''), (''reason'', JStr t)])
      | CauseEvent e \<Rightarrow>
          (let content = getContent e in
           if getSender e = vf_userId v then None
           else if getType e = Some CANCEL_TYPE
           then Some (obj_put ''reason'' (js_or (jget content ''reason'') (js_or (jget content ''body'') (JStr ''Unknown reason'')))
                       (obj_put ''code'' (js_or (jget content ''code'') (JStr ''m.unknown'')) content))
           else Some (JObj [(''code'', JStr ''m.unknown''), (''reason'', js_or (jget content ''body'') (JStr ''Unknown reason''))])))"

definition reject_promise :: "cause \<Rightarrow> verifier \<Rightarrow> verifier" where
  "reject_promise c v =
     (if vf_promise v
      then (if vf_canReject v then vf_emit (VfRejected c) (v\<lparr>vf_done := True, vf_timer := False\<rparr>) else v)
      else v\<lparr>vf_promise := True\<rparr>)"

definition verifier_cancel :: "venv \<Rightarrow> cause \<Rightarrow> vreq \<Rightarrow> vreq \<times> bool" where
  "verifier_cancel en c r =
     (case vr_verifier r of
        None \<Rightarrow> (r, False)
      | Some v \<Rightarrow>
          if vf_done v then (with_verifier (vf_timer_update (\<lambda>_. False)) r, False)
          else (case onVerifierCancelled en (with_verifier (\<lambda>v. v\<lparr>vf_timer := False, vf_cancelled := True\<rparr>) r) of
                  (r1, True) \<Rightarrow> (r1, True)
                | (r1, False) \<Rightarrow>
                    (with_verifier (\<lambda>v. vf_emit (VfCancelled c) (reject_promise c v))
                       (case cancel_content v c of Some content \<Rightarrow> channel_send en CANCEL_TYPE content NoPost r1 | None \<Rightarrow> r1), False)))"

definition verifier_done :: "venv \<Rightarrow> vreq \<Rightarrow> vreq \<times> bool" where
  "verifier_done en r =
     (case vr_verifier r of
        None \<Rightarrow> (r, False)
      | Some v \<Rightarrow>
          if vf_done v then (with_verifier (vf_timer_update (\<lambda>_. False)) r, False)
          else (case onVerifierFinished en (with_verifier (vf_timer_update (\<lambda>_. False)) r) of
                  (r1, True) \<Rightarrow> (r1, True)
                | (r1, False) \<Rightarrow> (with_verifier (\<lambda>v. vf_emit VfResolved (v\<lparr>vf_done := True\<rparr>)) r1, False)))"

text \<open>\<open>verify\<close>; every method that is implemented has a \<open>doVerification\<close>.\<close>

definition verifier_verify :: "verifier \<Rightarrow> verifier" where
  "verifier_verify v =
     (if vf_promise v then v
      else (let v1 = v\<lparr>vf_promise := True, vf_canReject := True\<rparr> in
            if \<not> vf_started v then v1\<lparr>vf_started := True, vf_timer := True\<rparr> else v1))"

datatype awaited = WaitRejected | WaitResolved mx_event | Waiting

definition waitForEvent :: "string \<Rightarrow> vreq \<Rightarrow> awaited \<times> vreq" where
  "waitForEvent ty r =
     (case vr_verifier r of
        None \<Rightarrow> (WaitRejected, r)
      | Some v \<Rightarrow>
          if vf_done v then (WaitRejected, r)
          else (case dget (vr_by_them r) ty of
                  Some e \<Rightarrow> (WaitResolved e, r)
                | None \<Rightarrow> (Waiting, with_verifier (\<lambda>v. v\<lparr>vf_expected := Some ty, vf_rejectable := True\<rparr>) r)))"

definition js_text :: "json \<Rightarrow> string" where
  "js_text j = (case j of JStr t \<Rightarrow> t | JNull \<Rightarrow> ''null'' | _ \<Rightarrow> ''undefined'')"

text \<open>\<open>VerificationBase.handleEvent\<close>. A cancellation rejects the promise of \<open>verify\<close>, if it has been called.\<close>

definition verifier_handleEvent :: "venv \<Rightarrow> mx_event \<Rightarrow> vreq \<Rightarrow> vreq \<times> bool" where
  "verifier_handleEvent en e r =
     (case vr_verifier r of
        None \<Rightarrow> (r, False)
      | Some v \<Rightarrow>
          if vf_done v then (r, False)
          else if vf_expected v \<noteq> None \<and> getType e = vf_expected v
          then (if vf_expected v \<noteq> Some DONE_TYPE
                then (with_verifier (\<lambda>v. vf_emit (VfResolveEvent e) (v\<lparr>vf_expected := None, vf_rejectable := False, vf_timer := True\<rparr>)) r, False)
                else (r, False))
          else if getType e = Some CANCEL_TYPE
          then (with_verifier (\<lambda>v. if vf_canReject v
                  then vf_emit (VfRejected (CauseText (''Error: Other side cancelled verification because '' @
                         js_text (jget (getContent e) ''reason'') @ '' ('' @ js_text (jget (getContent e) ''code'') @ '')'')))
                         (v\<lparr>vf_canReject := False, vf_done := True, vf_timer := False\<rparr>)
                  else v) r, False)
          else (case vf_expected v of
                  None \<Rightarrow> (r, False)
                | Some ex \<Rightarrow>
                    (let c = CauseText (''Error: Unexpected message: expecting '' @ ex @ '' but got '' @
                               (case getType e of Some ty \<Rightarrow> ty | None \<Rightarrow> ''undefined'')) in
                     verifier_cancel en c
                       (with_verifier (\<lambda>v. if vf_rejectable v
                           then vf_emit (VfRejectEvent c) (v\<lparr>vf_expected := None, vf_rejectable := False\<rparr>)
                           else v\<lparr>vf_expected := None\<rparr>) r))))"

section \<open>Handling events\<close>

definition isWinningStartRace :: "mx_event \<Rightarrow> verifier \<Rightarrow> vreq \<Rightarrow> bool" where
  "isWinningStartRace ev v r =
     (if getType ev \<noteq> Some START_TYPE then False
      else js_less
        (if isSelfVerification r then as_str (jget (getContent ev) ''from_device'') else getSender ev)
        (case vf_startEvent v of
           Some old \<Rightarrow> if isSelfVerification r then as_str (jget (getContent old) ''from_device'') else getSender old
         | None \<Rightarrow> if isSelfVerification r then Some (ch_dev (vr_channel r)) else Some (vr_me r)))"

definition adjustObserveOnly :: "nat \<Rightarrow> mx_event \<Rightarrow> bool \<Rightarrow> vreq \<Rightarrow> vreq" where
  "adjustObserveOnly now ev isLiveEvent r =
     (let r1 = (if isLiveEvent then r else r\<lparr>vr_observeOnly := True\<rparr>) in
      case calculateEventTimeout now ev r1 of
        Some t \<Rightarrow> if t < VERIFICATION_REQUEST_MARGIN then r1\<lparr>vr_observeOnly := True\<rparr> else r1
      | None \<Rightarrow> r1)"

text \<open>\<open>VerificationRequest.cancel\<close>; the rest \<open>p\<close> follows when the cancellation has been sent.\<close>

definition request_cancel :: "venv \<Rightarrow> json \<Rightarrow> json \<Rightarrow> post \<Rightarrow> vreq \<Rightarrow> vreq \<times> bool" where
  "request_cancel en code reason p r =
     (if \<not> vr_observeOnly r \<and> vr_phase r \<noteq> Cancelled \<and> vr_verifier r \<noteq> None
      then (case verifier_cancel en
                   (CauseEvent (new_event (en_ref en) (JObj [(''type'', JStr CANCEL_TYPE),
                      (''content'', JObj [(''code'', code), (''reason'', reason)])])))
                   (emit_change (r\<lparr>vr_declining := True\<rparr>)) of
              (r1, True) \<Rightarrow> (r1, True)
            | (r1, False) \<Rightarrow> (finish p r1, False))
      else (cancel_bare en code reason p r, False))"

text \<open>The error that \<open>cancelOnError\<close> cancels with, if any.\<close>

definition event_error :: "string \<Rightarrow> mx_event \<Rightarrow> vreq \<Rightarrow> (string \<times> string) option" where
  "event_error ty ev r =
     (if ty = START_TYPE \<and> (case as_str (jget (getContent ev) ''method'') of Some m \<Rightarrow> map_of (vr_supported r) m = None | None \<Rightarrow> True)
      then Some (''m.unknown_method'', ''Unknown method'')
      else if vr_phase r \<noteq> Unsent \<and> ((ty = REQUEST_TYPE \<and> vr_phase r \<noteq> Unsent) \<or> (ty = READY_TYPE \<and> vr_phase r \<noteq> Requested))
      then Some (''m.unexpected_message'', ''Unexpected '' @ ty @ '' event in phase '' @ [char_of (48 + phase_no (vr_phase r))])
      else None)"

definition addEvent :: "nat \<Rightarrow> string \<Rightarrow> mx_event \<Rightarrow> bool \<Rightarrow> vreq \<Rightarrow> vreq" where
  "addEvent now ty ev isSentByUs r =
     (let r1 = (if isSentByUs then r\<lparr>vr_by_us := dset ty ev (vr_by_us r)\<rparr> else r\<lparr>vr_by_them := dset ty ev (vr_by_them r)\<rparr>)
      in if ty = REQUEST_TYPE
         then r1\<lparr>vr_by_them := filter (\<lambda>(_, e). getSender e = ch_userId (vr_channel r1)) (vr_by_them r1), vr_receivedAt := now\<rparr>
         else r1)"

definition setupTimeout :: "nat \<Rightarrow> phase \<Rightarrow> vreq \<Rightarrow> vreq" where
  "setupTimeout now ph r =
     (let r1 = (if vr_timer r = None \<and> \<not> vr_observeOnly r \<and> ph = Requested then r\<lparr>vr_timer := Some (request_timeout now r)\<rparr> else r)
      in if vr_timer r1 \<noteq> None \<and> (ph = Started \<or> ph = Ready \<or> ph = Done \<or> ph = Cancelled) then r1\<lparr>vr_timer := None\<rparr> else r1)"

definition after_qr :: "nat \<Rightarrow> phase \<Rightarrow> post \<Rightarrow> vreq \<Rightarrow> vreq" where
  "after_qr now ph p r = finish p (setPhase ph (setupTimeout now ph r))"

text \<open>The event is passed to the verifier: it may switch its start event, or it handles the event.\<close>

definition pass_to_verifier :: "venv \<Rightarrow> string \<Rightarrow> mx_event \<Rightarrow> bool \<Rightarrow> vreq \<Rightarrow> vreq \<times> bool" where
  "pass_to_verifier en ty ev isRemoteEcho r =
     (case vr_verifier r of
        None \<Rightarrow> (r, False)
      | Some v \<Rightarrow>
          if vr_observeOnly r then (r, False)
          else if canSwitchStartEvent ev v \<and> isWinningStartRace ev v r then (with_verifier (switchStartEvent ev) r, False)
          else if \<not> isRemoteEcho \<and> (ty = CANCEL_TYPE \<or> ty \<in> set (verifier_events (vf_class v))) then verifier_handleEvent en ev r
          else (r, False))"

definition SCAN_QR_CODE_METHOD :: string where "SCAN_QR_CODE_METHOD = ''m.qr_code.scan.v1''"

definition after_transitions :: "nat \<Rightarrow> transition list \<Rightarrow> bool \<Rightarrow> bool \<Rightarrow> post \<Rightarrow> vreq \<Rightarrow> vreq" where
  "after_transitions now new isLiveEvent wasObserveOnly p r =
     (if new \<noteq> []
      then (if isLiveEvent \<and> Ready \<in> fst ` set new \<and> otherPartySupportsMethod SCAN_QR_CODE_METHOD True r
            then push_vtask (AfterQr (last_phase new) p) r
            else after_qr now (last_phase new) p r)
      else if vr_observeOnly r \<noteq> wasObserveOnly then finish p (emit_change r) else finish p r)"

text \<open>\<open>handleEvent\<close> after \<open>cancelOnError\<close> found nothing.\<close>

definition handle_rest :: "venv \<Rightarrow> string \<Rightarrow> mx_event \<Rightarrow> bool \<Rightarrow> bool \<Rightarrow> bool \<Rightarrow> bool \<Rightarrow> post \<Rightarrow> vreq \<Rightarrow> vreq \<times> bool" where
  "handle_rest en ty ev isLiveEvent isRemoteEcho isSentByUs wasObserveOnly p r =
     (if dget (if isSentByUs then vr_by_us r else vr_by_them r) ty \<noteq> None then (finish p r, False)
      else (let r1 = addEvent (en_now en) ty ev isSentByUs r; new = new_transitions r1 in
            case applyPhaseTransitions en r1 of
              (r2, True) \<Rightarrow> (r2, True)
            | (r2, False) \<Rightarrow>
                (case pass_to_verifier en ty ev isRemoteEcho r2 of
                   (r3, True) \<Rightarrow> (r3, True)
                 | (r3, False) \<Rightarrow> (after_transitions (en_now en) new isLiveEvent wasObserveOnly p r3, False))))"

definition handleEvent :: "venv \<Rightarrow> string \<Rightarrow> mx_event \<Rightarrow> bool \<Rightarrow> bool \<Rightarrow> bool \<Rightarrow> post \<Rightarrow> vreq \<Rightarrow> vreq \<times> bool" where
  "handleEvent en ty ev isLiveEvent isRemoteEcho isSentByUs p r =
     (if vr_phase r = Done \<or> vr_phase r = Cancelled then (finish p r, False)
      else (let wasObserveOnly = vr_observeOnly r; r1 = adjustObserveOnly (en_now en) ev isLiveEvent r in
            if \<not> vr_observeOnly r1 \<and> \<not> isRemoteEcho
            then (case event_error ty ev r1 of
                    Some (code, reason) \<Rightarrow> request_cancel en (JStr code) (JStr reason) p r1
                  | None \<Rightarrow> (push_vtask (AfterCheck ty ev isLiveEvent isRemoteEcho isSentByUs wasObserveOnly p) r1, False))
            else handle_rest en ty ev isLiveEvent isRemoteEcho isSentByUs wasObserveOnly p r1))"

section \<open>What the application calls\<close>

text \<open>\<open>beginKeyVerification\<close>: \<open>Inl\<close> is thrown, \<open>Inr\<close> tells whether there is a verifier.\<close>

definition beginKeyVerification :: "string \<Rightarrow> (string option \<times> string option) option \<Rightarrow> vreq \<Rightarrow> (verification_error + bool) \<times> vreq" where
  "beginKeyVerification meth given r =
     (if vr_observeOnly r \<or> vr_verifier r \<noteq> None then (Inr (vr_verifier r \<noteq> None), r)
      else if vr_phase r = Requested \<or> vr_phase r = Ready \<or>
              (vr_phase r = Unsent \<and> ch_canCreateRequest START_TYPE (vr_channel r))
      then (if vr_methods r \<noteq> [] \<and> meth \<notin> set (vr_methods r) then (Inl newUnknownMethodError, r)
            else case createVerifier (JStr meth) None given r of
                   Inl e \<Rightarrow> (Inl e, r)
                 | Inr None \<Rightarrow> (Inl newUnknownMethodError, r)
                 | Inr (Some v) \<Rightarrow> (Inr True, r\<lparr>vr_verifier := Some v, vr_chosen := Some meth\<rparr>))
      else (Inr False, r))"

definition own_methods :: "vreq \<Rightarrow> json" where
  "own_methods r = JObj [(''methods'', JArr (map (\<lambda>(m, _). JStr m) (vr_supported r)))]"

definition sendRequest :: "venv \<Rightarrow> vreq \<Rightarrow> vreq" where
  "sendRequest en r =
     (if \<not> vr_observeOnly r \<and> vr_phase r = Unsent then channel_send en REQUEST_TYPE (own_methods r) NoPost r else r)"

definition accept_request :: "venv \<Rightarrow> vreq \<Rightarrow> vreq" where
  "accept_request en r =
     (if \<not> vr_observeOnly r \<and> vr_phase r = Requested \<and> \<not> initiatedByMe r
      then channel_send en READY_TYPE (own_methods r) NoPost (emit_change (r\<lparr>vr_accepting := True\<rparr>)) else r)"

definition cancelOnTimeout :: "venv \<Rightarrow> vreq \<Rightarrow> vreq \<times> bool" where
  "cancelOnTimeout en r =
     request_cancel en (JStr ''m.timeout'')
       (JStr (if initiatedByMe r then ''Other party didn't accept in time'' else ''User didn't accept in time'')) NoPost r"

section \<open>The channels driving the request\<close>

definition inroom_handleEvent :: "venv \<Rightarrow> mx_event \<Rightarrow> bool \<Rightarrow> vreq \<Rightarrow> vreq \<times> bool" where
  "inroom_handleEvent en ev isLiveEvent r =
     (if hasEventId (getId ev) r then (r, False)
      else if getRoomId ev \<noteq> Some (ch_roomId (vr_channel r)) then (r, False)
      else (let other = inroom_getOtherPartyUserId (vr_me r) ev; ch = vr_channel r;
                ch1 = (if ch_userId ch = None \<and> \<not> falsy_str other then ch\<lparr>ch_userId := other\<rparr> else ch)
            in if ch_userId ch1 \<noteq> None \<and> getSender ev \<noteq> Some (vr_me r) \<and> getSender ev \<noteq> ch_userId ch1
               then (r\<lparr>vr_channel := ch1\<rparr>, False)
               else (let ch2 = (if ch_txn ch1 = None then ch1\<lparr>ch_txn := inroom_getTransactionId ev\<rparr> else ch1) in
                     handleEvent en (inroom_getEventType ev) ev isLiveEvent (truthy (jget (getUnsigned ev) ''transaction_id''))
                       (getSender ev = Some (vr_me r)) NoPost (r\<lparr>vr_channel := ch2\<rparr>))))"

definition todevice_handleEvent :: "venv \<Rightarrow> mx_event \<Rightarrow> bool \<Rightarrow> vreq \<Rightarrow> vreq \<times> bool" where
  "todevice_handleEvent en ev isLiveEvent r =
     (let ty = (case getType ev of Some ty \<Rightarrow> ty | None \<Rightarrow> []); ch = vr_channel r; content = getContent ev;
          deviceId = as_str (jget content ''from_device'');
          ch1 = (if needs_device ty \<and> falsy_str (ch_txn ch) then ch\<lparr>ch_txn := as_str (jget content ''transaction_id'')\<rparr> else ch);
          ch2 = (if needs_device ty \<and> falsy_str (ch_device ch1) \<and> (case deviceId of Some d \<Rightarrow> d \<in> set (ch_devices ch1) | None \<Rightarrow> False)
                 then ch1\<lparr>ch_device := deviceId\<rparr> else ch1);
          r1 = r\<lparr>vr_channel := ch2\<rparr>
      in if needs_device ty \<and> (falsy_str (ch_device ch2) \<or> ch_device ch2 \<noteq> deviceId)
         then (sendToDevices CANCEL_TYPE
                 (completeContent ch2 (en_now en) CANCEL_TYPE
                    (JObj [(''code'', JStr ''m.unexpected_message''), (''reason'', JStr ''Unexpected message'')]))
                 [case deviceId of Some d \<Rightarrow> d | None \<Rightarrow> ''undefined''] r1, False)
         else handleEvent en ty ev isLiveEvent False False
                (TellOthers ty (vr_phase r1 = Started \<or> vr_phase r1 = Ready)) r1)"

definition channel_handleEvent :: "venv \<Rightarrow> mx_event \<Rightarrow> bool \<Rightarrow> vreq \<Rightarrow> vreq \<times> bool" where
  "channel_handleEvent en ev isLiveEvent r =
     (if ch_inRoom (vr_channel r) then inroom_handleEvent en ev isLiveEvent r else todevice_handleEvent en ev isLiveEvent r)"

definition tell_others :: "venv \<Rightarrow> string \<Rightarrow> bool \<Rightarrow> vreq \<Rightarrow> vreq" where
  "tell_others en ty wasStarted r =
     (let ch = vr_channel r in
      if (ty = START_TYPE \<or> ty = READY_TYPE) \<and> \<not> wasStarted \<and> (vr_phase r = Started \<or> vr_phase r = Ready) \<and> \<not> falsy_str (ch_device ch)
      then sendToDevices CANCEL_TYPE
             (completeContent ch (en_now en) CANCEL_TYPE
                (JObj [(''code'', JStr ''m.accepted''), (''reason'', JStr ''Verification request accepted by another device'')]))
             (filter (\<lambda>d. Some d \<noteq> ch_device ch \<and> d \<noteq> ch_dev ch) (ch_devices ch)) r
      else r)"

text \<open>
  The environment's answers: the code of a QR image (or the failure to make one), the id of a sent event,
  and for everything else that the call returned.
\<close>

datatype vanswer = QrMade nat | QrFailed | SentAs string | Returns

fun run_vtask :: "venv \<Rightarrow> vanswer \<Rightarrow> vtask \<Rightarrow> vreq \<Rightarrow> vreq \<times> bool" where
  "run_vtask en a (AfterCheck ty ev live echo byUs was p) r = handle_rest en ty ev live echo byUs was p r"
| "run_vtask en a (AfterQr ph p) r =
     (case a of QrMade q \<Rightarrow> (after_qr (en_now en) ph p (r\<lparr>vr_qr := Some q\<rparr>), False) | _ \<Rightarrow> (r, True))"
| "run_vtask en a (EchoOf ty content p) r =
     handleEvent en ty (new_event (en_ref en) (JObj [(''sender'', JStr (vr_me r)), (''content'', content), (''type'', JStr ty)])) True True True p r"
| "run_vtask en a RequestSent r =
     (case a of SentAs i \<Rightarrow> (r\<lparr>vr_channel := (vr_channel r)\<lparr>ch_txn := Some i\<rparr>\<rparr>, False) | _ \<Rightarrow> (r, False))"
| "run_vtask en a (Returned p) r =
     (case p of TellOthers ty was \<Rightarrow> (tell_others en ty was r, False) | NoPost \<Rightarrow> (r, False))"

definition drop_nth :: "nat \<Rightarrow> 'a list \<Rightarrow> 'a list" where
  "drop_nth i xs = take i xs @ drop (Suc i) xs"

text \<open>
  The operations: events that arrive, calls of the application, the timer, what the exchange inside the verifier does,
  and the run of a task.
\<close>

datatype vop =
    OpEvent mx_event bool
  | OpSendRequest
  | OpAccept
  | OpCancel json json
  | OpBegin string "(string option \<times> string option) option"
  | OpTimeout
  | OpVerify
  | OpWaitFor string
  | OpWaitForAccept bool
  | OpVerifierSend string json
  | OpVerifierDone
  | OpVerifierCancel cause
  | OpTask nat vanswer

definition exec_vop :: "venv \<Rightarrow> vop \<Rightarrow> vreq \<Rightarrow> vreq \<times> bool" where
  "exec_vop en op r =
     (case op of
        OpEvent ev live \<Rightarrow> channel_handleEvent en ev live r
      | OpSendRequest \<Rightarrow> (sendRequest en r, False)
      | OpAccept \<Rightarrow> (accept_request en r, False)
      | OpCancel code reason \<Rightarrow> request_cancel en code reason NoPost r
      | OpBegin meth given \<Rightarrow> (case beginKeyVerification meth given r of (Inl _, r1) \<Rightarrow> (r1, True) | (Inr _, r1) \<Rightarrow> (r1, False))
      | OpTimeout \<Rightarrow> if vr_timer r = None then (r, False) else cancelOnTimeout en r
      | OpVerify \<Rightarrow> (with_verifier verifier_verify r, False)
      | OpWaitFor ty \<Rightarrow> (snd (waitForEvent ty r), False)
      | OpWaitForAccept b \<Rightarrow> (with_verifier (vf_waitingForAccept_update (\<lambda>_. b)) r, False)
      | OpVerifierSend ty content \<Rightarrow> (if vr_verifier r = None then r else channel_send en ty content NoPost r, False)
      | OpVerifierDone \<Rightarrow> verifier_done en r
      | OpVerifierCancel c \<Rightarrow> verifier_cancel en c r
      | OpTask i a \<Rightarrow>
          if i < length (vr_tasks r) then run_vtask en a (vr_tasks r ! i) (r\<lparr>vr_tasks := drop_nth i (vr_tasks r)\<rparr>) else (r, False))"

text \<open>Every run: any operation at any time, tasks in any order, whatever is thrown.\<close>

inductive vr_reach :: "vreq \<Rightarrow> vreq \<Rightarrow> bool" for r0 where
  reach_refl: "vr_reach r0 r0"
| reach_step: "vr_reach r0 r \<Longrightarrow> vr_reach r0 (fst (exec_vop en op r))"

section \<open>An observer stays silent\<close>

fun without_post :: "vtask \<Rightarrow> bool" where
  "without_post (AfterCheck ty ev live echo byUs was p) = (p = NoPost)"
| "without_post (AfterQr ph p) = (p = NoPost)"
| "without_post (EchoOf ty content p) = False"
| "without_post (Returned p) = False"
| "without_post RequestSent = True"

text \<open>The request observes, has no verifier and has said what \<open>said\<close> lists; nothing that is pending will speak.\<close>

definition watching :: "vmsg list \<Rightarrow> vreq \<Rightarrow> bool" where
  "watching said r \<longleftrightarrow> vr_observeOnly r \<and> vr_verifier r = None \<and> ch_inRoom (vr_channel r) \<and> vr_sent r = said \<and>
     list_all without_post (vr_tasks r)"

lemma watching_emit [inv_intros]: "watching said r \<Longrightarrow> watching said (emit_change r)"
  by (simp add: watching_def emit_change_def)

lemma watching_finish [inv_intros]: "watching said r \<Longrightarrow> watching said (finish NoPost r)"
  by (simp add: finish_def)

lemma watching_fields [inv_intros]:
  "watching said r \<Longrightarrow> watching said (r\<lparr>vr_methods := ms\<rparr>)"
  "watching said r \<Longrightarrow> watching said (r\<lparr>vr_observeOnly := True\<rparr>)"
  "watching said r \<Longrightarrow> watching said (r\<lparr>vr_phase := ph\<rparr>)"
  "watching said r \<Longrightarrow> watching said (r\<lparr>vr_qr := q\<rparr>)"
  "watching said r \<Longrightarrow> watching said (r\<lparr>vr_timer := tm\<rparr>)"
  "watching said r \<Longrightarrow> watching said (r\<lparr>vr_cancelled := True\<rparr>)"
  by (simp_all add: watching_def)

lemma watching_push [inv_intros]: "watching said r \<Longrightarrow> without_post t \<Longrightarrow> watching said (push_vtask t r)"
  by (simp add: watching_def push_vtask_def)

lemma watching_channel [inv_intros]:
  "watching said r \<Longrightarrow> ch_inRoom ch = ch_inRoom (vr_channel r) \<Longrightarrow> watching said (r\<lparr>vr_channel := ch\<rparr>)"
  by (simp add: watching_def)

lemma watching_transition:
  assumes "watching said r"
  shows "watching said (fst (transitionToPhase en t r))"
proof -
  obtain ph eo where t: "t = (ph, eo)" by (cases t)
  show ?thesis
  proof (cases eo)
    case None
    then show ?thesis using assms by (simp add: transitionToPhase_def t)
  next
    case (Some ev)
    obtain r1 b where m: "take_methods ph ev r = (r1, b)" by fastforce
    have r1: "watching said r1"
      using m assms by (auto simp: take_methods_def Let_def intro: inv_intros split: if_splits)
    then have "detect_observer ph ev r1 = r1" "make_verifier en ph ev r1 = (r1, False)"
      by (auto simp: detect_observer_def make_verifier_def watching_def)
    then show ?thesis using r1 by (cases b) (simp_all add: transitionToPhase_def t Some m)
  qed
qed

lemma watching_run: "watching said r \<Longrightarrow> watching said (fst (run_transitions en ts r))"
proof (induction ts arbitrary: r)
  case (Cons t ts)
  obtain r1 b where m: "transitionToPhase en t r = (r1, b)" by fastforce
  then have "watching said r1" using watching_transition [OF Cons.prems, of en t] by simp
  then show ?case using Cons.IH m by (cases b) simp_all
qed simp

lemma watching_apply: "watching said r \<Longrightarrow> watching said (fst (applyPhaseTransitions en r))"
  by (simp add: applyPhaseTransitions_def watching_run)

lemma watching_addEvent: "watching said r \<Longrightarrow> watching said (addEvent now ty ev byUs r)"
  by (simp add: addEvent_def watching_def Let_def)

lemma watching_cancel: "watching said r \<Longrightarrow> fst (request_cancel en code reason NoPost r) = r"
  by (simp add: request_cancel_def cancel_bare_def watching_def finish_def)

lemma watching_after_qr: "watching said r \<Longrightarrow> watching said (after_qr now ph NoPost r)"
  by (auto simp: after_qr_def setPhase_def setupTimeout_def Let_def intro!: inv_intros)

lemma watching_rest:
  assumes "watching said r"
  shows "watching said (fst (handle_rest en ty ev live echo byUs was NoPost r))"
proof -
  let ?r1 = "addEvent (en_now en) ty ev byUs r"
  obtain r2 b where m: "applyPhaseTransitions en ?r1 = (r2, b)" by fastforce
  have r2: "watching said r2" using watching_apply [OF watching_addEvent [OF assms], of en "en_now en" ty ev byUs] m by simp
  then have "pass_to_verifier en ty ev echo r2 = (r2, False)" by (simp add: pass_to_verifier_def watching_def)
  then show ?thesis
    using assms r2 by (cases b) (auto simp: handle_rest_def Let_def m after_transitions_def
        intro!: inv_intros watching_after_qr)
qed

lemma watching_handle:
  assumes "watching said r"
  shows "watching said (fst (handleEvent en ty ev live echo byUs NoPost r))"
proof -
  let ?r1 = "adjustObserveOnly (en_now en) ev live r"
  have w: "watching said ?r1"
    using assms by (auto simp: adjustObserveOnly_def Let_def intro!: inv_intros split: option.split)
  then have "vr_observeOnly ?r1" by (simp add: watching_def)
  then show ?thesis
    using watching_finish [OF assms] watching_rest [OF w] by (simp add: handleEvent_def Let_def)
qed

lemma watching_exec:
  assumes w: "watching said r"
  shows "watching said (fst (exec_vop en op r))"
proof (cases op)
  case (OpEvent ev live)
  have "ch_inRoom (vr_channel r)" using w by (simp add: watching_def)
  then show ?thesis
    using w by (auto simp: exec_vop_def OpEvent channel_handleEvent_def inroom_handleEvent_def Let_def
        intro!: watching_handle inv_intros)
next
  case (OpTask i a)
  show ?thesis
  proof (cases "i < length (vr_tasks r)")
    case True
    have t: "without_post (vr_tasks r ! i)" using w True by (simp add: watching_def list_all_length)
    have "list_all without_post (drop_nth i (vr_tasks r))"
      using w by (auto simp: watching_def drop_nth_def list_all_iff dest: in_set_takeD in_set_dropD)
    then have d: "watching said (r\<lparr>vr_tasks := drop_nth i (vr_tasks r)\<rparr>)" using w by (simp add: watching_def)
    have "watching said (fst (run_vtask en a (vr_tasks r ! i) (r\<lparr>vr_tasks := drop_nth i (vr_tasks r)\<rparr>)))"
      using t d by (cases "vr_tasks r ! i")
        (auto intro!: watching_rest watching_after_qr inv_intros split: vanswer.split)
    then show ?thesis using True by (simp add: exec_vop_def OpTask)
  next
    case False
    then show ?thesis using w by (simp add: exec_vop_def OpTask)
  qed
next
  case (OpBegin meth given)
  then show ?thesis using w by (simp add: exec_vop_def beginKeyVerification_def watching_def)
next
  case OpTimeout
  then show ?thesis using w by (simp add: exec_vop_def cancelOnTimeout_def watching_cancel)
next
  case (OpWaitFor ty)
  then show ?thesis using w by (simp add: exec_vop_def waitForEvent_def watching_def)
qed (use w in \<open>simp_all add: exec_vop_def sendRequest_def accept_request_def watching_cancel with_verifier_def
      verifier_done_def verifier_cancel_def watching_def\<close>)


section \<open>The phases follow from the events\<close>

text \<open>The transitions are a subsequence of the six phases; what is known when a phase occurs.\<close>

lemma calc_shape:
  obtains Q Y S D C qe ye se ce where
    "calculatePhaseTransitions r = [(Unsent, None)] @ (if Q then [(Requested, Some qe)] else []) @ (if Y then [(Ready, Some ye)] else []) @
       (if S then [(Started, Some se)] else []) @ (if D then [(Done, None)] else []) @ (if C then [(Cancelled, ce)] else [])"
    and "Q \<longleftrightarrow> getEventBy REQUEST_TYPE (dget (vr_by_them r) REQUEST_TYPE \<noteq> None) r = Some qe"
    and "Y \<longrightarrow> Q \<and> getEventBy READY_TYPE (dget (vr_by_them r) REQUEST_TYPE = None) r = Some ye"
    and "S \<and> Q \<and> \<not> Y \<longrightarrow> getSender qe \<noteq> getSender se"
    and "S \<longrightarrow> dget (vr_by_them r) START_TYPE = Some se \<or> dget (vr_by_us r) START_TYPE = Some se"
    and "S \<longrightarrow> Q \<or> ch_canCreateRequest START_TYPE (vr_channel r)"
    and "D \<longrightarrow> vr_finished r \<or> (dget (vr_by_us r) DONE_TYPE \<noteq> None \<and> S)"
    and "C \<longleftrightarrow> \<not> D \<and> (vr_cancelled r \<or> getEventByEither CANCEL_TYPE r \<noteq> None)"
proof -
  define q where "q = getEventBy REQUEST_TYPE (dget (vr_by_them r) REQUEST_TYPE \<noteq> None) r"
  define y where "y = (if q \<noteq> None then getEventBy READY_TYPE (dget (vr_by_them r) REQUEST_TYPE = None) r else None)"
  define s where "s = start_event (q \<noteq> None) (y \<noteq> None) (dget (vr_by_them r) REQUEST_TYPE \<noteq> None) r"
  define S where "S \<longleftrightarrow> s \<noteq> None \<and> ((q \<noteq> None \<and> y = None \<and> getSender (the q) \<noteq> getSender (the s)) \<or> y \<noteq> None \<or>
      (q = None \<and> ch_canCreateRequest START_TYPE (vr_channel r)))"
  define D where "D \<longleftrightarrow> vr_finished r \<or> (dget (vr_by_us r) DONE_TYPE \<noteq> None \<and> S)"
  define C where "C \<longleftrightarrow> \<not> D \<and> (vr_cancelled r \<or> getEventByEither CANCEL_TYPE r \<noteq> None)"
  have yq: "q = None \<Longrightarrow> y = None" by (simp add: y_def)
  have ts: "calculatePhaseTransitions r =
      [(Unsent, None)] @ (if q \<noteq> None then [(Requested, Some (the q))] else []) @ (if y \<noteq> None then [(Ready, Some (the y))] else []) @
      (if S then [(Started, Some (the s))] else []) @ (if D then [(Done, None)] else []) @
      (if C then [(Cancelled, getEventByEither CANCEL_TYPE r)] else [])"
    unfolding calculatePhaseTransitions_def active_transitions_def Let_def q_def [symmetric] not_not y_def [symmetric] s_def [symmetric]
    using yq by (cases q; cases y; cases s) (simp_all add: last_phase_def S_def D_def C_def)
  have start: "dget (vr_by_them r) START_TYPE = Some (the s) \<or> dget (vr_by_us r) START_TYPE = Some (the s)" if "S"
    using that by (auto simp: S_def s_def start_event_def getEventBy_def split: option.splits if_splits)
  have q_iff: "(q \<noteq> None) \<longleftrightarrow> getEventBy REQUEST_TYPE (dget (vr_by_them r) REQUEST_TYPE \<noteq> None) r = Some (the q)"
    unfolding q_def [symmetric] by (cases q) auto
  have y_ready: "q \<noteq> None \<and> getEventBy READY_TYPE (dget (vr_by_them r) REQUEST_TYPE = None) r = Some (the y)" if "y \<noteq> None"
    using that by (auto simp: y_def split: if_splits)
  have differ: "getSender (the q) \<noteq> getSender (the s)" if "S" "q \<noteq> None" "\<not> y \<noteq> None"
    using that by (simp add: S_def)
  have allowed: "q \<noteq> None \<or> ch_canCreateRequest START_TYPE (vr_channel r)" if "S"
    using that yq by (auto simp: S_def)
  show thesis
    using y_ready differ start allowed by (intro that [OF ts q_iff _ _ _ _ _ C_def]) (simp_all add: D_def)
qed

lemma calc_nonempty: "calculatePhaseTransitions r \<noteq> []"
  by (rule calc_shape [of r]) simp

lemma calc_sorted: "sorted_wrt (\<lambda>a b. phase_no (fst a) < phase_no (fst b)) (calculatePhaseTransitions r)"
  by (rule calc_shape [of r]) (simp only:, auto simp: sorted_wrt_append)

lemma calc_distinct: "distinct (map fst (calculatePhaseTransitions r))"
  by (rule calc_shape [of r]) (simp only:, auto)

text \<open>
  C28. How the phases of a verification request follow from the events of the two sides: they only go forward, a ready phase needs a request
  and a ready message of the opposite sides, a start without a ready message comes from another user than the request, a start
  without a request is possible only on a channel that allows it, and no request is both done and cancelled.
\<close>

theorem phase_transitions_sound:
  "let ts = calculatePhaseTransitions r in
   sorted_wrt (\<lambda>a b. phase_no (fst a) < phase_no (fst b)) ts \<and>
   (\<forall>e. (Ready, Some e) \<in> set ts \<longrightarrow>
      (\<exists>q. (dget (vr_by_them r) REQUEST_TYPE = Some q \<and> dget (vr_by_us r) READY_TYPE = Some e) \<or>
           (dget (vr_by_us r) REQUEST_TYPE = Some q \<and> dget (vr_by_them r) READY_TYPE = Some e))) \<and>
   (\<forall>e q. (Started, Some e) \<in> set ts \<and> (Requested, Some q) \<in> set ts \<and> Ready \<notin> fst ` set ts \<longrightarrow> getSender q \<noteq> getSender e) \<and>
   (Started \<in> fst ` set ts \<and> Requested \<notin> fst ` set ts \<longrightarrow> ch_canCreateRequest START_TYPE (vr_channel r)) \<and>
   \<not> (Done \<in> fst ` set ts \<and> Cancelled \<in> fst ` set ts)"
proof -
  let ?ts = "calculatePhaseTransitions r"
  obtain Q Y S D C qe ye se ce where c:
    "?ts = [(Unsent, None)] @ (if Q then [(Requested, Some qe)] else []) @ (if Y then [(Ready, Some ye)] else []) @
       (if S then [(Started, Some se)] else []) @ (if D then [(Done, None)] else []) @ (if C then [(Cancelled, ce)] else [])"
    "Q \<longleftrightarrow> getEventBy REQUEST_TYPE (dget (vr_by_them r) REQUEST_TYPE \<noteq> None) r = Some qe"
    "Y \<longrightarrow> Q \<and> getEventBy READY_TYPE (dget (vr_by_them r) REQUEST_TYPE = None) r = Some ye"
    "S \<and> Q \<and> \<not> Y \<longrightarrow> getSender qe \<noteq> getSender se"
    "S \<longrightarrow> dget (vr_by_them r) START_TYPE = Some se \<or> dget (vr_by_us r) START_TYPE = Some se"
    "S \<longrightarrow> Q \<or> ch_canCreateRequest START_TYPE (vr_channel r)"
    "D \<longrightarrow> vr_finished r \<or> (dget (vr_by_us r) DONE_TYPE \<noteq> None \<and> S)"
    "C \<longleftrightarrow> \<not> D \<and> (vr_cancelled r \<or> getEventByEither CANCEL_TYPE r \<noteq> None)"
    by (rule calc_shape [of r])
  have "\<exists>q. (dget (vr_by_them r) REQUEST_TYPE = Some q \<and> dget (vr_by_us r) READY_TYPE = Some e) \<or>
      (dget (vr_by_us r) REQUEST_TYPE = Some q \<and> dget (vr_by_them r) READY_TYPE = Some e)"
    if "(Ready, Some e) \<in> set ?ts" for e
    using that c(2,3) unfolding c(1) by (auto simp: getEventBy_def split: if_splits)
  moreover have "getSender q \<noteq> getSender e"
    if "(Started, Some e) \<in> set ?ts" "(Requested, Some q) \<in> set ?ts" "Ready \<notin> fst ` set ?ts" for e q
    using that c(4) unfolding c(1) by (auto split: if_splits)
  moreover have "Started \<in> fst ` set ?ts \<and> Requested \<notin> fst ` set ?ts \<longrightarrow> ch_canCreateRequest START_TYPE (vr_channel r)"
    using c(6) unfolding c(1) by (auto split: if_splits)
  moreover have "\<not> (Done \<in> fst ` set ?ts \<and> Cancelled \<in> fst ` set ?ts)"
    using c(8) unfolding c(1) by (auto split: if_splits)
  ultimately show ?thesis using calc_sorted [of r] by (simp add: Let_def)
qed

definition phase_types :: "string list" where
  "phase_types = [REQUEST_TYPE, READY_TYPE, START_TYPE, DONE_TYPE, CANCEL_TYPE]"

lemma calc_cong:
  assumes "\<And>ty. ty \<in> set phase_types \<Longrightarrow> dget (vr_by_us r') ty = dget (vr_by_us r) ty"
    and "\<And>ty. ty \<in> set phase_types \<Longrightarrow> dget (vr_by_them r') ty = dget (vr_by_them r) ty"
    and "vr_cancelled r' = vr_cancelled r" "vr_finished r' = vr_finished r"
    and "ch_inRoom (vr_channel r') = ch_inRoom (vr_channel r)"
  shows "calculatePhaseTransitions r' = calculatePhaseTransitions r"
proof -
  have us: "dget (vr_by_us r') REQUEST_TYPE = dget (vr_by_us r) REQUEST_TYPE" "dget (vr_by_us r') READY_TYPE = dget (vr_by_us r) READY_TYPE"
    "dget (vr_by_us r') START_TYPE = dget (vr_by_us r) START_TYPE" "dget (vr_by_us r') DONE_TYPE = dget (vr_by_us r) DONE_TYPE"
    "dget (vr_by_us r') CANCEL_TYPE = dget (vr_by_us r) CANCEL_TYPE"
    using assms(1) by (simp_all add: phase_types_def)
  have them: "dget (vr_by_them r') REQUEST_TYPE = dget (vr_by_them r) REQUEST_TYPE" "dget (vr_by_them r') READY_TYPE = dget (vr_by_them r) READY_TYPE"
    "dget (vr_by_them r') START_TYPE = dget (vr_by_them r) START_TYPE" "dget (vr_by_them r') DONE_TYPE = dget (vr_by_them r) DONE_TYPE"
    "dget (vr_by_them r') CANCEL_TYPE = dget (vr_by_them r) CANCEL_TYPE"
    using assms(2) by (simp_all add: phase_types_def)
  show ?thesis
    by (simp only: calculatePhaseTransitions_def active_transitions_def getEventBy_def getEventByEither_def start_event_def ch_canCreateRequest_def us them assms(3-5))
qed

text \<open>Operations that change neither the events nor the phase nor the pending creations of a QR code.\<close>

definition is_qr :: "vtask \<Rightarrow> bool" where
  "is_qr t \<longleftrightarrow> (case t of AfterQr _ _ \<Rightarrow> True | _ \<Rightarrow> False)"

definition qr_tasks :: "vreq \<Rightarrow> vtask list" where
  "qr_tasks r = filter is_qr (vr_tasks r)"

definition same_phase :: "vreq \<Rightarrow> vreq \<Rightarrow> bool" where
  "same_phase r r' \<longleftrightarrow> calculatePhaseTransitions r' = calculatePhaseTransitions r \<and> vr_phase r' = vr_phase r \<and> qr_tasks r' = qr_tasks r"

lemma same_phase_refl [intro, simp]: "same_phase r r"
  by (simp add: same_phase_def)

lemma same_phase_trans [trans]: "same_phase r s \<Longrightarrow> same_phase s t \<Longrightarrow> same_phase r t"
  by (simp add: same_phase_def)

lemma same_phaseI:
  assumes "vr_by_us r' = vr_by_us r" "vr_by_them r' = vr_by_them r" "vr_cancelled r' = vr_cancelled r" "vr_finished r' = vr_finished r"
    "ch_inRoom (vr_channel r') = ch_inRoom (vr_channel r)" "vr_phase r' = vr_phase r" "qr_tasks r' = qr_tasks r"
  shows "same_phase r r'"
proof -
  have "calculatePhaseTransitions r' = calculatePhaseTransitions r"
    by (rule calc_cong) (simp_all only: assms)
  then show ?thesis using assms(6,7) by (simp add: same_phase_def)
qed

lemma qr_push: "qr_tasks (push_vtask t r) = qr_tasks r @ (if is_qr t then [t] else [])"
  by (simp add: qr_tasks_def push_vtask_def)

lemma same_push: "\<not> is_qr t \<Longrightarrow> same_phase r (push_vtask t r)"
  by (rule same_phaseI) (simp_all add: qr_push, simp_all add: push_vtask_def)

lemma same_finish: "same_phase r (finish p r)"
  by (simp add: finish_def same_push is_qr_def)

lemma same_emit_change: "same_phase r (emit_change r)"
  by (rule same_phaseI) (simp_all add: emit_change_def qr_tasks_def)

lemma same_send_out: "same_phase r (send_out m r)"
  by (rule same_phaseI) (simp_all add: send_out_def qr_tasks_def)

lemma same_verifier: "same_phase r (with_verifier f r)"
  by (rule same_phaseI) (simp_all add: with_verifier_def qr_tasks_def)

lemma same_fields:
  "same_phase r (r\<lparr>vr_methods := ms\<rparr>)" "same_phase r (r\<lparr>vr_observeOnly := b\<rparr>)" "same_phase r (r\<lparr>vr_declining := b\<rparr>)"
  "same_phase r (r\<lparr>vr_accepting := b\<rparr>)" "same_phase r (r\<lparr>vr_cancellingUserId := u\<rparr>)" "same_phase r (r\<lparr>vr_timer := tm\<rparr>)"
  "same_phase r (r\<lparr>vr_verifier := v\<rparr>)" "same_phase r (r\<lparr>vr_chosen := c\<rparr>)" "same_phase r (r\<lparr>vr_qr := q\<rparr>)"
  by (rule same_phaseI; simp add: qr_tasks_def)+

lemma same_channel: "ch_inRoom ch = ch_inRoom (vr_channel r) \<Longrightarrow> same_phase r (r\<lparr>vr_channel := ch\<rparr>)"
  by (rule same_phaseI) (simp_all add: qr_tasks_def)

lemmas same_rules = same_push same_finish same_emit_change same_send_out same_verifier same_fields same_channel

lemma same_devices: "same_phase r (sendToDevices ty content ds r)"
  by (simp add: sendToDevices_def same_send_out)

lemma same_sendCompleted: "same_phase r (channel_sendCompleted ty content p r)"
proof (cases "ch_inRoom (vr_channel r)")
  case True
  have "same_phase r (send_out m r)" for m by (rule same_send_out)
  moreover have "same_phase (send_out m r) (push_vtask RequestSent (send_out m r))" "same_phase (send_out m r) (finish p (send_out m r))" for m
    by (simp_all add: same_finish same_push is_qr_def)
  ultimately show ?thesis using True by (auto simp: channel_sendCompleted_def Let_def intro: same_phase_trans)
next
  case False
  show ?thesis unfolding channel_sendCompleted_def Let_def using False
    by (simp only: if_False) (rule same_phase_trans [OF same_devices same_push], simp add: is_qr_def)
qed

lemma same_send: "same_phase r (channel_send en ty content p r)"
  unfolding channel_send_def Let_def
  by (rule same_phase_trans [OF same_channel same_sendCompleted]) simp

lemma same_cancel_bare: "same_phase r (cancel_bare en code reason p r)"
proof (cases "\<not> vr_observeOnly r \<and> vr_phase r \<noteq> Cancelled")
  case True
  have "same_phase r (emit_change (r\<lparr>vr_declining := True\<rparr>))"
    by (rule same_phase_trans [OF same_fields(3) same_emit_change])
  also have "same_phase \<dots> ((emit_change (r\<lparr>vr_declining := True\<rparr>))\<lparr>vr_cancellingUserId := Some (vr_me r)\<rparr>)"
    by (rule same_fields(5))
  also have "same_phase \<dots> (channel_send en CANCEL_TYPE (JObj [(''code'', code), (''reason'', reason)]) p \<dots>)"
    by (rule same_send)
  finally show ?thesis using True by (simp add: cancel_bare_def Let_def)
next
  case False
  then show ?thesis by (auto simp: cancel_bare_def same_finish)
qed

lemma same_transition: "same_phase r (fst (transitionToPhase en t r))"
proof -
  obtain ph eo where t: "t = (ph, eo)" by (cases t)
  show ?thesis
  proof (cases eo)
    case None
    then show ?thesis by (simp add: transitionToPhase_def t)
  next
    case (Some ev)
    obtain r1 b where m: "take_methods ph ev r = (r1, b)" by fastforce
    have r1: "same_phase r r1"
      using m by (auto simp: take_methods_def Let_def same_fields split: if_splits)
    have r2: "same_phase r1 (detect_observer ph ev r1)" by (simp add: detect_observer_def same_fields)
    have v: "same_phase s (fst (make_verifier en ph ev s))" for s
      by (auto simp: make_verifier_def Let_def same_cancel_bare split: sum.split option.split
          intro: same_phase_trans [OF same_fields(7) same_fields(8)])
    show ?thesis
      using r1 same_phase_trans [OF r1 same_phase_trans [OF r2 v]] by (cases b) (simp_all add: transitionToPhase_def t Some m)
  qed
qed

lemma same_run: "same_phase r (fst (run_transitions en ts r))"
proof (induction ts arbitrary: r)
  case (Cons t ts)
  obtain r1 b where m: "transitionToPhase en t r = (r1, b)" by fastforce
  then have "same_phase r r1" using same_transition [of r en t] by simp
  then show ?case using Cons.IH [of r1] m by (cases b) (auto intro: same_phase_trans)
qed simp

lemma same_apply: "same_phase r (fst (applyPhaseTransitions en r))"
  by (simp add: applyPhaseTransitions_def same_run)

text \<open>The transitions that are new, and the phase after them.\<close>

lemma after_phase_nil: "after_phase ph ts = [] \<Longrightarrow> ts \<noteq> [] \<Longrightarrow> last_phase ts = ph"
proof -
  assume a: "after_phase ph ts = []" "ts \<noteq> []"
  then obtain t where d: "dropWhile (\<lambda>t. fst t \<noteq> ph) ts = [t]"
    by (auto simp: after_phase_def split: list.splits)
  then have "fst t = ph" using hd_dropWhile [of "\<lambda>t. fst t \<noteq> ph" ts] by simp
  moreover have "last ts = t"
    using takeWhile_dropWhile_id [of "\<lambda>t. fst t \<noteq> ph" ts] d by (metis last_snoc)
  ultimately show ?thesis by (simp add: last_phase_def)
qed

lemma after_phase_last: "after_phase ph ts \<noteq> [] \<Longrightarrow> last_phase (after_phase ph ts) = last_phase ts"
proof -
  assume a: "after_phase ph ts \<noteq> []"
  show ?thesis
  proof (cases "dropWhile (\<lambda>t. fst t \<noteq> ph) ts")
    case Nil
    then show ?thesis unfolding after_phase_def by (simp only: list.case)
  next
    case (Cons t rest)
    then have "after_phase ph ts = rest" by (simp add: after_phase_def)
    moreover have "ts = takeWhile (\<lambda>t. fst t \<noteq> ph) ts @ t # rest"
      using takeWhile_dropWhile_id [of "\<lambda>t. fst t \<noteq> ph" ts] Cons by simp
    ultimately show ?thesis using a by (metis last_phase_def last_appendR last_ConsR list.distinct(1))
  qed
qed

lemma after_phase_exact:
  assumes "distinct (map fst ts)" and "ts \<noteq> []"
  shows "after_phase (last_phase ts) ts = []"
proof -
  obtain us t where ts: "ts = us @ [t]" using assms(2) rev_exhaust by blast
  then have "\<forall>u\<in>set us. fst u \<noteq> fst t" using assms(1) by (auto simp: image_iff)
  then have "dropWhile (\<lambda>u. fst u \<noteq> fst t) ts = [t]" unfolding ts by (simp add: dropWhile_append)
  then show ?thesis by (simp add: after_phase_def last_phase_def ts)
qed


lemma new_exact: "vr_phase r = last_phase (calculatePhaseTransitions r) \<Longrightarrow> new_transitions r = []"
  by (simp add: new_transitions_def after_phase_exact calc_distinct calc_nonempty)

lemma new_nil: "new_transitions r = [] \<Longrightarrow> last_phase (calculatePhaseTransitions r) = vr_phase r"
  by (simp add: new_transitions_def after_phase_nil calc_nonempty)

lemma new_last: "new_transitions r \<noteq> [] \<Longrightarrow> last_phase (new_transitions r) = last_phase (calculatePhaseTransitions r)"
  by (simp add: new_transitions_def after_phase_last)

text \<open>
  The phase is the last that the events allow, or a QR code is being made and the phase will be set after it.
\<close>

definition exact :: "vreq \<Rightarrow> bool" where
  "exact r \<longleftrightarrow> qr_tasks r = [] \<and> vr_phase r = last_phase (calculatePhaseTransitions r)"

definition making_qr :: "vreq \<Rightarrow> bool" where
  "making_qr r \<longleftrightarrow> (\<exists>p. qr_tasks r = [AfterQr (last_phase (calculatePhaseTransitions r)) p])"

lemma exact_same [inv_intros]: "exact r \<Longrightarrow> same_phase r r' \<Longrightarrow> exact r'"
  by (simp add: exact_def same_phase_def)

lemma making_same: "making_qr r \<Longrightarrow> same_phase r r' \<Longrightarrow> making_qr r'"
  by (simp add: making_qr_def same_phase_def)

lemma exact_advance:
  assumes "advance_phase en r = (r', False)" and "qr_tasks r = []"
  shows "exact r'" and "calculatePhaseTransitions r' = calculatePhaseTransitions r"
proof -
  obtain r1 b where m: "applyPhaseTransitions en r = (r1, b)" by fastforce
  have s: "same_phase r r1" using same_apply [of r en] m by simp
  have r': "r' = (if new_transitions r = [] then r1 else setPhase (last_phase (new_transitions r)) r1)"
    using assms(1) m by (cases b) (simp_all add: advance_phase_def Let_def)
  have c: "calculatePhaseTransitions (setPhase ph r1) = calculatePhaseTransitions r1" for ph
    by (rule calc_cong) (simp_all add: setPhase_def emit_change_def)
  have q: "qr_tasks (setPhase ph r1) = qr_tasks r1" "vr_phase (setPhase ph r1) = ph" for ph
    by (simp_all add: setPhase_def emit_change_def qr_tasks_def)
  show "calculatePhaseTransitions r' = calculatePhaseTransitions r" using s r' c by (simp add: same_phase_def)
  then show "exact r'"
    using s r' assms(2) q new_nil [of r] new_last [of r] by (auto simp: exact_def same_phase_def)
qed

lemma in_optional: "x \<in> fst ` set (ts @ (if b then [(ph, e)] else [])) \<Longrightarrow> x \<in> fst ` set ts \<or> x = ph"
  by auto

lemma cancelled_calc:
  assumes "last_phase (calculatePhaseTransitions r) = Cancelled \<or> last_phase (calculatePhaseTransitions r) = Done"
    and "\<And>ty. dget (vr_by_us r') ty = dget (vr_by_us r) ty" "\<And>ty. dget (vr_by_them r') ty = dget (vr_by_them r) ty"
    and "vr_cancelled r'" "vr_finished r' = vr_finished r" "ch_inRoom (vr_channel r') = ch_inRoom (vr_channel r)"
  shows "last_phase (calculatePhaseTransitions r') = last_phase (calculatePhaseTransitions r)"
proof -
  have c: "getEventBy ty b r' = getEventBy ty b r" "getEventByEither ty r' = getEventByEither ty r"
    "start_event x y z r' = start_event x y z r" for ty b x y z
    by (auto simp: getEventBy_def getEventByEither_def start_event_def assms(2,3) split: option.split)
  have a: "active_transitions r' = active_transitions r"
    by (simp only: active_transitions_def ch_canCreateRequest_def c assms(2,3,5,6))
  have "Cancelled \<notin> fst ` set (active_transitions r)" and "active_transitions r \<noteq> []"
    unfolding active_transitions_def Let_def by (auto dest!: in_optional simp only: append_is_Nil_conv) simp_all
  then have "last_phase (active_transitions r) \<noteq> Cancelled"
    using last_in_set [of "active_transitions r"] unfolding last_phase_def by (metis image_eqI)
  then show ?thesis
    using assms(1,4) by (auto simp: calculatePhaseTransitions_def Let_def a c(2) last_phase_def split: if_splits)
qed


text \<open>Cancelling through the verifier keeps the events and moves to the last phase.\<close>

definition same_events :: "vreq \<Rightarrow> vreq \<Rightarrow> bool" where
  "same_events r r' \<longleftrightarrow> vr_by_us r' = vr_by_us r \<and> vr_by_them r' = vr_by_them r \<and> vr_finished r' = vr_finished r \<and>
     ch_inRoom (vr_channel r') = ch_inRoom (vr_channel r) \<and> qr_tasks r' = qr_tasks r \<and> (vr_cancelled r \<longrightarrow> vr_cancelled r')"

lemma same_events_send: "same_events r (channel_send en ty content p r)"
  by (auto simp: same_events_def channel_send_def channel_sendCompleted_def sendToDevices_def Let_def finish_def push_vtask_def
      send_out_def qr_tasks_def is_qr_def)

lemma same_events_trans: "same_events r s \<Longrightarrow> same_events s t \<Longrightarrow> same_events r t"
  by (simp add: same_events_def)

lemma same_events_setPhase: "same_events r (setPhase ph r)"
  by (simp add: same_events_def setPhase_def emit_change_def qr_tasks_def)

lemma same_events_bare: "same_events r (cancel_bare en code reason p r)"
proof -
  have "same_events r ((emit_change (r\<lparr>vr_declining := True\<rparr>))\<lparr>vr_cancellingUserId := Some (vr_me r)\<rparr>)"
    "same_events r (finish p r)"
    by (auto simp: same_events_def emit_change_def qr_tasks_def finish_def push_vtask_def is_qr_def)
  then show ?thesis using same_events_trans [OF _ same_events_send] by (auto simp: cancel_bare_def Let_def)
qed

lemma same_events_transition: "same_events r (fst (transitionToPhase en t r))"
proof -
  have d: "same_events s (detect_observer ph ev s)" for ph ev s by (simp add: same_events_def detect_observer_def qr_tasks_def)
  have m: "same_events s (fst (take_methods ph ev s))" for ph ev s
    by (simp add: same_events_def take_methods_def Let_def qr_tasks_def)
  have v: "same_events s (fst (make_verifier en ph ev s))" for ph ev s
    using same_events_bare [of s] by (auto simp: make_verifier_def Let_def same_events_def qr_tasks_def split: sum.split option.split)
  obtain ph eo where t: "t = (ph, eo)" by (cases t)
  show ?thesis
  proof (cases eo)
    case None
    then show ?thesis by (simp add: transitionToPhase_def t same_events_def)
  next
    case (Some ev)
    obtain r1 b where r1: "take_methods ph ev r = (r1, b)" by fastforce
    then have "same_events r r1" using m [of r ph ev] by simp
    then show ?thesis
      using same_events_trans [OF _ same_events_trans [OF d v]] by (cases b) (simp_all add: transitionToPhase_def t Some r1)
  qed
qed

lemma same_events_run: "same_events r (fst (run_transitions en ts r))"
proof (induction ts arbitrary: r)
  case (Cons t ts)
  obtain r1 b where m: "transitionToPhase en t r = (r1, b)" by fastforce
  then have "same_events r r1" using same_events_transition [of r en t] by simp
  then show ?case using Cons.IH [of r1] m by (cases b) (auto intro: same_events_trans)
qed (simp add: same_events_def)

lemma verifier_cancel_effect:
  assumes "verifier_cancel en c r = (r', False)" and "qr_tasks r = []"
  shows "same_phase r r' \<or> (exact r' \<and> vr_cancelled r' \<and> same_events r r')"
proof (cases "vr_verifier r")
  case None
  then show ?thesis using assms(1) by (simp add: verifier_cancel_def)
next
  case (Some v)
  show ?thesis
  proof (cases "vf_done v")
    case True
    then show ?thesis using assms(1) Some by (auto simp: verifier_cancel_def same_verifier)
  next
    case False
    let ?r0 = "(with_verifier (\<lambda>v. v\<lparr>vf_timer := False, vf_cancelled := True\<rparr>) r)\<lparr>vr_cancelled := True\<rparr>"
    obtain r1 b where m: "advance_phase en ?r0 = (r1, b)" by fastforce
    have b: "\<not> b" and r': "r' = with_verifier (\<lambda>v. vf_emit (VfCancelled c) (reject_promise c v))
        (case cancel_content v c of Some content \<Rightarrow> channel_send en CANCEL_TYPE content NoPost r1 | None \<Rightarrow> r1)"
      using assms(1) Some False m by (cases b; simp add: verifier_cancel_def onVerifierCancelled_def)+
    have e: "exact r1" using exact_advance(1) m b assms(2) by (simp add: with_verifier_def qr_tasks_def)
    obtain r2 d where a: "applyPhaseTransitions en ?r0 = (r2, d)" by fastforce
    have s2: "same_events ?r0 r2" using same_events_run [of ?r0 en "new_transitions ?r0"] a by (simp add: applyPhaseTransitions_def)
    have s1: "same_events ?r0 r1"
      using m b a s2 same_events_trans [OF _ same_events_setPhase] by (cases d) (auto simp: advance_phase_def Let_def split: if_splits)
    define r3 where "r3 = (case cancel_content v c of Some content \<Rightarrow> channel_send en CANCEL_TYPE content NoPost r1 | None \<Rightarrow> r1)"
    have s3: "same_phase r1 r3" "same_events r1 r3"
      by (auto simp: r3_def same_send same_events_send split: option.split) (simp add: same_events_def)?
    have r3': "r' = with_verifier (\<lambda>v. vf_emit (VfCancelled c) (reject_promise c v)) r3" by (simp add: r' r3_def)
    have "same_phase r3 r'" unfolding r3' by (rule same_verifier)
    moreover have "same_events r3 r'" by (simp add: r3' same_events_def with_verifier_def qr_tasks_def)
    ultimately have e': "exact r'" "same_events ?r0 r'"
      using exact_same [OF exact_same [OF e s3(1)]] same_events_trans [OF same_events_trans [OF s1 s3(2)]] by blast+
    have "vr_cancelled r'" using e'(2) by (simp add: same_events_def)
    moreover have "same_events r r'" using e'(2) by (simp add: same_events_def with_verifier_def qr_tasks_def)
    ultimately show ?thesis using e'(1) by blast
  qed
qed


lemma verifier_handle_effect:
  assumes "verifier_handleEvent en ev r = (r', False)" and "qr_tasks r = []"
  shows "same_phase r r' \<or> (exact r' \<and> vr_cancelled r' \<and> same_events r r')"
proof -
  have w: "same_phase r r' \<or> (exact r' \<and> vr_cancelled r' \<and> same_events r r')"
    if "verifier_cancel en c (with_verifier f r) = (r', False)" for c f
  proof -
    have "qr_tasks (with_verifier f r) = []" and "same_events r (with_verifier f r)"
      using assms(2) by (simp_all add: qr_tasks_def with_verifier_def same_events_def)
    then show ?thesis
      using verifier_cancel_effect [OF that] same_phase_trans [OF same_verifier] same_events_trans by blast
  qed
  show ?thesis
    using assms(1) w by (auto simp: verifier_handleEvent_def Let_def same_verifier split: option.splits if_splits)
qed

lemma pass_effect:
  assumes "pass_to_verifier en ty ev echo r = (r', False)" and "qr_tasks r = []"
  shows "same_phase r r' \<or> ((ty = CANCEL_TYPE \<or> (\<exists>c. ty \<in> set (verifier_events c))) \<and> exact r' \<and> vr_cancelled r' \<and> same_events r r')"
  using assms verifier_handle_effect [of en ev r r']
  by (auto simp: pass_to_verifier_def same_verifier split: option.splits if_splits)

lemma last_calc_cancel:
  "getEventByEither CANCEL_TYPE r \<noteq> None \<Longrightarrow> last_phase (calculatePhaseTransitions r) \<in> {Cancelled, Done}"
  by (auto simp: calculatePhaseTransitions_def Let_def last_phase_def)

lemma addEvent_fields:
  "qr_tasks (addEvent now ty ev byUs r) = qr_tasks r" "vr_phase (addEvent now ty ev byUs r) = vr_phase r"
  "vr_channel (addEvent now ty ev byUs r) = vr_channel r"
  by (simp_all add: addEvent_def Let_def qr_tasks_def)

lemma addEvent_cancel: "getEventByEither CANCEL_TYPE (addEvent now CANCEL_TYPE ev byUs r) \<noteq> None"
  by (auto simp: addEvent_def Let_def getEventByEither_def dget_dset split: option.splits)

lemma addEvent_method:
  assumes "ty \<in> set (verifier_events c)"
  shows "calculatePhaseTransitions (addEvent now ty ev byUs r) = calculatePhaseTransitions r"
proof (rule calc_cong)
  have n: "ty \<notin> set phase_types" using assms by (auto simp: verifier_events_def phase_types_def type_defs split: if_splits)
  show "dget (vr_by_us (addEvent now ty ev byUs r)) t = dget (vr_by_us r) t"
    "dget (vr_by_them (addEvent now ty ev byUs r)) t = dget (vr_by_them r) t" if "t \<in> set phase_types" for t
    using that n by (auto simp: addEvent_def Let_def dget_dset) (auto simp: phase_types_def)
qed (simp_all add: addEvent_def Let_def)

text \<open>After the last step of the handler the phase fits the events again.\<close>

lemma after_transitions_exact:
  assumes "new \<noteq> [] \<Longrightarrow> last_phase new = last_phase (calculatePhaseTransitions r)" and "new = [] \<Longrightarrow> exact r" and "qr_tasks r = []"
  shows "exact (after_transitions now new live was p r) \<or> making_qr (after_transitions now new live was p r)"
proof (cases "new = []")
  case True
  then show ?thesis
    using assms(2) exact_same [OF _ same_finish] exact_same [OF exact_same [OF _ same_emit_change] same_finish]
    by (auto simp: after_transitions_def)
next
  case False
  have c: "calculatePhaseTransitions (setPhase ph s) = calculatePhaseTransitions s" for ph s
    by (rule calc_cong) (simp_all add: setPhase_def emit_change_def)
  have q: "calculatePhaseTransitions (push_vtask t r) = calculatePhaseTransitions r" for t
    by (rule calc_cong) (simp_all add: push_vtask_def)
  have t: "same_phase r (setupTimeout now ph r)" for ph
    using same_phase_trans [OF same_fields(6) same_fields(6)] by (auto simp: setupTimeout_def Let_def same_fields)
  have "exact (setPhase (last_phase new) (setupTimeout now (last_phase new) r))"
    using t [of "last_phase new"] assms(1) [OF False] assms(3) c [of "last_phase new" "setupTimeout now (last_phase new) r"]
    by (simp add: exact_def same_phase_def setPhase_def emit_change_def qr_tasks_def)
  then have "exact (after_qr now (last_phase new) p r)" unfolding after_qr_def by (rule exact_same [OF _ same_finish])
  moreover have "making_qr (push_vtask (AfterQr (last_phase new) p) r)"
    using assms(1) [OF False] assms(3) by (simp add: making_qr_def qr_push q is_qr_def)
  ultimately show ?thesis using False by (auto simp: after_transitions_def)
qed

lemma handle_rest_exact:
  assumes ex: "exact r" and h: "handle_rest en ty ev live echo byUs was p r = (r', False)"
  shows "exact r' \<or> making_qr r'"
proof (cases "dget (if byUs then vr_by_us r else vr_by_them r) ty = None")
  case False
  then show ?thesis using h exact_same [OF ex same_finish] by (auto simp: handle_rest_def)
next
  case True
  let ?r1 = "addEvent (en_now en) ty ev byUs r"
  let ?new = "new_transitions ?r1"
  obtain r2 b where a: "applyPhaseTransitions en ?r1 = (r2, b)" by fastforce
  have b: "\<not> b" using h True a by (cases b) (simp_all add: handle_rest_def Let_def)
  have s2: "same_phase ?r1 r2" using same_apply [of ?r1 en] a by simp
  obtain r3 d where m: "pass_to_verifier en ty ev echo r2 = (r3, d)" by fastforce
  have r': "r' = after_transitions (en_now en) ?new live was p r3" and d: "\<not> d"
    using h True a b m by (cases d; simp add: handle_rest_def Let_def)+
  have q1: "qr_tasks ?r1 = []" using ex by (simp add: addEvent_fields exact_def)
  then have q2: "qr_tasks r2 = []" using s2 by (simp add: same_phase_def)
  have pass: "same_phase r2 r3 \<or> ((ty = CANCEL_TYPE \<or> (\<exists>c. ty \<in> set (verifier_events c))) \<and> exact r3 \<and> vr_cancelled r3 \<and> same_events r2 r3)"
    using pass_effect [of en ty ev echo r2 r3] m d q2 by simp
  show ?thesis
  proof (cases "same_phase r2 r3")
    case True
    then have s: "same_phase ?r1 r3" using s2 same_phase_trans by blast
    show ?thesis unfolding r'
      by (rule after_transitions_exact)
        (use s q1 new_last [of ?r1] new_nil [of ?r1] in \<open>auto simp: same_phase_def exact_def\<close>)
  next
    case False
    with pass have ev: "ty = CANCEL_TYPE \<or> (\<exists>c. ty \<in> set (verifier_events c))" and e3: "exact r3" "vr_cancelled r3" "same_events r2 r3"
      by blast+
    have same12: "same_events ?r1 r2" using same_events_run [of ?r1 en ?new] a by (simp add: applyPhaseTransitions_def)
    have cancel: "ty = CANCEL_TYPE" if "?new \<noteq> []"
    proof (rule ccontr)
      assume "ty \<noteq> CANCEL_TYPE"
      then have "calculatePhaseTransitions ?r1 = calculatePhaseTransitions r" using ev addEvent_method by blast
      then have "?new = []" using ex by (intro new_exact) (simp add: exact_def addEvent_fields)
      then show False using that by contradiction
    qed
    have "last_phase ?new = last_phase (calculatePhaseTransitions r3)" if n: "?new \<noteq> []"
    proof -
      have "last_phase (calculatePhaseTransitions r3) = last_phase (calculatePhaseTransitions ?r1)"
        using last_calc_cancel [OF addEvent_cancel, of "en_now en" ev byUs r] cancel [OF n] same12 e3(2,3)
        by (intro cancelled_calc) (auto simp: same_events_def)
      then show ?thesis using new_last [OF n] by simp
    qed
    then show ?thesis unfolding r' using e3(1) by (intro after_transitions_exact) (auto simp: exact_def)
  qed
qed


lemma cancel_exact:
  assumes ex: "exact r" and c: "request_cancel en code reason p r = (r', False)"
  shows "exact r'"
proof (cases "\<not> vr_observeOnly r \<and> vr_phase r \<noteq> Cancelled \<and> vr_verifier r \<noteq> None")
  case True
  let ?r0 = "emit_change (r\<lparr>vr_declining := True\<rparr>)"
  let ?c = "CauseEvent (new_event (en_ref en) (JObj [(''type'', JStr CANCEL_TYPE), (''content'', JObj [(''code'', code), (''reason'', reason)])]))"
  obtain r1 b where m: "verifier_cancel en ?c ?r0 = (r1, b)" by fastforce
  have e0: "exact ?r0" by (rule exact_same [OF ex same_phase_trans [OF same_fields(3) same_emit_change]])
  have b: "\<not> b" and r': "r' = finish p r1" using c True m by (cases b; simp add: request_cancel_def)+
  then have "exact r1"
    using verifier_cancel_effect [of en ?c ?r0 r1] m e0 exact_same [OF e0] by (auto simp: exact_def)
  then show ?thesis unfolding r' by (rule exact_same [OF _ same_finish])
next
  case False
  then have "r' = cancel_bare en code reason p r" using c by (simp only: request_cancel_def if_False prod.inject)
  then show ?thesis using exact_same [OF ex same_cancel_bare] by simp
qed

lemma handle_exact:
  assumes ex: "exact r" and h: "handleEvent en ty ev live echo byUs p r = (r', False)"
  shows "exact r' \<or> making_qr r'"
proof (cases "vr_phase r = Done \<or> vr_phase r = Cancelled")
  case True
  then show ?thesis using h exact_same [OF ex same_finish] by (auto simp: handleEvent_def)
next
  case False
  let ?r1 = "adjustObserveOnly (en_now en) ev live r"
  have "same_phase r ?r1"
    using same_phase_trans [OF same_fields(2) same_fields(2)]
    by (auto simp: adjustObserveOnly_def Let_def same_fields split: option.split)
  then have e1: "exact ?r1" by (rule exact_same [OF ex])
  show ?thesis
  proof (cases "\<not> vr_observeOnly ?r1 \<and> \<not> echo")
    case True
    then show ?thesis
      using h False cancel_exact [OF e1] exact_same [OF e1 same_push]
      by (auto simp: handleEvent_def Let_def is_qr_def split: option.splits prod.splits)
  next
    case False
    then have "handle_rest en ty ev live echo byUs (vr_observeOnly r) p ?r1 = (r', False)"
      using h \<open>\<not> (vr_phase r = Done \<or> vr_phase r = Cancelled)\<close> by (simp only: handleEvent_def Let_def if_False)
    then show ?thesis by (rule handle_rest_exact [OF e1])
  qed
qed

lemma inroom_exact:
  assumes ex: "exact r" and h: "inroom_handleEvent en ev live r = (r', False)"
  shows "exact r' \<or> making_qr r'"
proof (cases "hasEventId (getId ev) r \<or> getRoomId ev \<noteq> Some (ch_roomId (vr_channel r))")
  case True
  then show ?thesis using h ex by (auto simp: inroom_handleEvent_def split: if_splits)
next
  case False
  define ch1 where "ch1 = (if ch_userId (vr_channel r) = None \<and> \<not> falsy_str (inroom_getOtherPartyUserId (vr_me r) ev)
    then (vr_channel r)\<lparr>ch_userId := inroom_getOtherPartyUserId (vr_me r) ev\<rparr> else vr_channel r)"
  define ch2 where "ch2 = (if ch_txn ch1 = None then ch1\<lparr>ch_txn := inroom_getTransactionId ev\<rparr> else ch1)"
  have "ch_inRoom ch1 = ch_inRoom (vr_channel r)" "ch_inRoom ch2 = ch_inRoom (vr_channel r)" by (simp_all add: ch1_def ch2_def)
  then have e: "exact (r\<lparr>vr_channel := ch1\<rparr>)" "exact (r\<lparr>vr_channel := ch2\<rparr>)" using exact_same [OF ex same_channel] by blast+
  have "inroom_handleEvent en ev live r =
      (if ch_userId ch1 \<noteq> None \<and> getSender ev \<noteq> Some (vr_me r) \<and> getSender ev \<noteq> ch_userId ch1 then (r\<lparr>vr_channel := ch1\<rparr>, False)
       else handleEvent en (inroom_getEventType ev) ev live (truthy (jget (getUnsigned ev) ''transaction_id''))
         (getSender ev = Some (vr_me r)) NoPost (r\<lparr>vr_channel := ch2\<rparr>))"
    unfolding inroom_handleEvent_def Let_def ch1_def [symmetric] ch2_def [symmetric] using False by presburger
  then show ?thesis using h e handle_exact [OF e(2)] by (auto split: if_splits)
qed

lemma todevice_exact:
  assumes ex: "exact r" and h: "todevice_handleEvent en ev live r = (r', False)"
  shows "exact r' \<or> making_qr r'"
proof -
  define ty where "ty = (case getType ev of Some ty \<Rightarrow> ty | None \<Rightarrow> [])"
  define device where "device = as_str (jget (getContent ev) ''from_device'')"
  define ch1 where "ch1 = (if needs_device ty \<and> falsy_str (ch_txn (vr_channel r))
    then (vr_channel r)\<lparr>ch_txn := as_str (jget (getContent ev) ''transaction_id'')\<rparr> else vr_channel r)"
  define ch2 where "ch2 = (if needs_device ty \<and> falsy_str (ch_device ch1) \<and> (case device of Some d \<Rightarrow> d \<in> set (ch_devices ch1) | None \<Rightarrow> False)
    then ch1\<lparr>ch_device := device\<rparr> else ch1)"
  have "ch_inRoom ch2 = ch_inRoom (vr_channel r)" by (simp add: ch1_def ch2_def)
  then have e: "exact (r\<lparr>vr_channel := ch2\<rparr>)" by (rule exact_same [OF ex same_channel])
  obtain content ds p where m: "todevice_handleEvent en ev live r =
      (if needs_device ty \<and> (falsy_str (ch_device ch2) \<or> ch_device ch2 \<noteq> device)
       then (sendToDevices CANCEL_TYPE content ds (r\<lparr>vr_channel := ch2\<rparr>), False)
       else handleEvent en ty ev live False False p (r\<lparr>vr_channel := ch2\<rparr>))"
    unfolding todevice_handleEvent_def Let_def ty_def [symmetric] device_def [symmetric] ch1_def [symmetric] ch2_def [symmetric] by blast
  show ?thesis
  proof (cases "needs_device ty \<and> (falsy_str (ch_device ch2) \<or> ch_device ch2 \<noteq> device)")
    case True
    then have "r' = sendToDevices CANCEL_TYPE content ds (r\<lparr>vr_channel := ch2\<rparr>)" using h m by simp
    then show ?thesis using exact_same [OF e same_devices] by simp
  next
    case False
    then have "handleEvent en ty ev live False False p (r\<lparr>vr_channel := ch2\<rparr>) = (r', False)" using h m by (simp only: if_False)
    then show ?thesis by (rule handle_exact [OF e])
  qed
qed

lemma channel_handle_exact:
  "exact r \<Longrightarrow> channel_handleEvent en ev live r = (r', False) \<Longrightarrow> exact r' \<or> making_qr r'"
  using inroom_exact todevice_exact by (auto simp: channel_handleEvent_def split: if_splits)

lemma filter_drop_nth: "i < length xs \<Longrightarrow> filter P xs = filter P (take i xs) @ (if P (xs ! i) then [xs ! i] else []) @ filter P (drop (Suc i) xs)"
  by (subst id_take_nth_drop [of i xs]) simp_all

lemma qr_drop_nth: "qr_tasks (r\<lparr>vr_tasks := drop_nth i (vr_tasks r)\<rparr>) = filter is_qr (take i (vr_tasks r)) @ filter is_qr (drop (Suc i) (vr_tasks r))"
  by (simp add: qr_tasks_def drop_nth_def)

lemma calc_tasks: "calculatePhaseTransitions (r\<lparr>vr_tasks := ts\<rparr>) = calculatePhaseTransitions r"
  by (rule calc_cong) simp_all

lemma task_exact:
  assumes ex: "exact r" and i: "i < length (vr_tasks r)"
    and h: "run_vtask en a (vr_tasks r ! i) (r\<lparr>vr_tasks := drop_nth i (vr_tasks r)\<rparr>) = (r', False)"
  shows "exact r' \<or> making_qr r'"
proof -
  let ?r0 = "r\<lparr>vr_tasks := drop_nth i (vr_tasks r)\<rparr>"
  have f: "filter is_qr (vr_tasks r) = []" using ex by (simp add: exact_def qr_tasks_def)
  then have n: "\<not> is_qr (vr_tasks r ! i)" and e0: "exact ?r0"
    using filter_drop_nth [OF i, of is_qr] ex by (auto simp: exact_def qr_drop_nth calc_tasks split: if_splits)
  have t: "same_phase ?r0 (tell_others en ty was ?r0)" for ty was by (simp add: tell_others_def Let_def same_devices)
  have c: "same_phase ?r0 (?r0\<lparr>vr_channel := (vr_channel ?r0)\<lparr>ch_txn := x\<rparr>\<rparr>)" for x by (rule same_channel) simp
  show ?thesis
  proof (cases "vr_tasks r ! i")
    case (AfterCheck ty ev live echo byUs was p)
    then show ?thesis using h handle_rest_exact [OF e0] by simp
  next
    case (AfterQr ph p)
    then show ?thesis using n by (simp add: is_qr_def)
  next
    case (EchoOf ty content p)
    then show ?thesis using h handle_exact [OF e0] by simp
  next
    case RequestSent
    then show ?thesis using h e0 exact_same [OF e0 c] by (auto split: vanswer.splits)
  next
    case (Returned p)
    then show ?thesis using h e0 exact_same [OF e0 t] by (auto split: post.splits)
  qed
qed

lemma qr_made_exact:
  assumes m: "making_qr r" and i: "i < length (vr_tasks r)" "vr_tasks r ! i = AfterQr ph p"
  shows "exact (fst (exec_vop en (OpTask i (QrMade q)) r))"
proof -
  let ?r0 = "r\<lparr>vr_tasks := drop_nth i (vr_tasks r)\<rparr>"
  obtain p' where f: "filter is_qr (vr_tasks r) = [AfterQr (last_phase (calculatePhaseTransitions r)) p']"
    using m by (auto simp: making_qr_def qr_tasks_def)
  then have ph: "ph = last_phase (calculatePhaseTransitions r)" and q0: "qr_tasks ?r0 = []"
    using filter_drop_nth [OF i(1), of is_qr] i(2) by (auto simp: qr_drop_nth is_qr_def append_eq_Cons_conv)
  have s: "same_phase ?r0 (setupTimeout (en_now en) ph (?r0\<lparr>vr_qr := Some q\<rparr>))"
    using same_phase_trans [OF same_fields(9) same_phase_trans [OF same_fields(6) same_fields(6)]]
      same_phase_trans [OF same_fields(9) same_fields(6)]
    by (auto simp: setupTimeout_def Let_def same_fields)
  have c: "calculatePhaseTransitions (setPhase ph s) = calculatePhaseTransitions s" for s
    by (rule calc_cong) (simp_all add: setPhase_def emit_change_def)
  have "exact (setPhase ph (setupTimeout (en_now en) ph (?r0\<lparr>vr_qr := Some q\<rparr>)))"
    using s q0 ph c [of "setupTimeout (en_now en) ph (?r0\<lparr>vr_qr := Some q\<rparr>)"]
    by (simp add: exact_def same_phase_def calc_tasks setPhase_def emit_change_def qr_tasks_def)
  then show ?thesis using i exact_same [OF _ same_finish] by (simp add: exec_vop_def after_qr_def)
qed


text \<open>
  The runs in which nothing is thrown and a QR code is made before anything else happens.
\<close>

inductive vr_calm :: "vreq \<Rightarrow> vreq \<Rightarrow> bool" for r0 where
  calm_refl: "vr_calm r0 r0"
| calm_step: "vr_calm r0 r \<Longrightarrow> qr_tasks r = [] \<Longrightarrow> exec_vop en op r = (r', False) \<Longrightarrow> vr_calm r0 r'"
| calm_qr: "vr_calm r0 r \<Longrightarrow> i < length (vr_tasks r) \<Longrightarrow> vr_tasks r ! i = AfterQr ph p \<Longrightarrow> exec_vop en (OpTask i (QrMade q)) r = (r', False) \<Longrightarrow>
    vr_calm r0 r'"

lemma exec_exact:
  assumes ex: "exact r" and h: "exec_vop en op r = (r', False)"
  shows "exact r' \<or> making_qr r'"
proof (cases op)
  case (OpEvent ev live)
  then show ?thesis using h channel_handle_exact [OF ex] by (simp add: exec_vop_def)
next
  case OpSendRequest
  then show ?thesis using h ex exact_same [OF ex same_send] by (auto simp: exec_vop_def sendRequest_def)
next
  case OpAccept
  have "same_phase r (channel_send en READY_TYPE (own_methods r) NoPost (emit_change (r\<lparr>vr_accepting := True\<rparr>)))"
    by (rule same_phase_trans [OF same_phase_trans [OF same_fields(4) same_emit_change] same_send])
  then show ?thesis using h ex exact_same [OF ex] OpAccept by (auto simp: exec_vop_def accept_request_def)
next
  case (OpCancel code reason)
  then show ?thesis using h cancel_exact [OF ex] by (simp add: exec_vop_def)
next
  case (OpBegin meth given)
  have "same_phase r (r\<lparr>vr_verifier := v, vr_chosen := c\<rparr>)" for v c
    by (rule same_phase_trans [OF same_fields(7) same_fields(8)])
  then show ?thesis
    using h ex exact_same [OF ex] OpBegin
    by (auto simp: exec_vop_def beginKeyVerification_def split: if_splits sum.splits option.splits)
next
  case OpTimeout
  then show ?thesis using h ex cancel_exact [OF ex] by (auto simp: exec_vop_def cancelOnTimeout_def split: if_splits)
next
  case (OpWaitFor ty)
  then show ?thesis
    using h ex exact_same [OF ex same_verifier] by (auto simp: exec_vop_def waitForEvent_def split: option.splits if_splits)
next
  case (OpVerifierSend ty content)
  then show ?thesis using h ex exact_same [OF ex same_send] by (auto simp: exec_vop_def split: if_splits)
next
  case OpVerifierDone
  have q: "qr_tasks ((channel_send en ty content p (with_verifier f r))\<lparr>vr_finished := True\<rparr>) = []" for ty content p f
    using ex same_send [of "with_verifier f r" en ty content p] same_verifier [of r f]
    by (simp add: exact_def same_phase_def) (simp add: qr_tasks_def)
  show ?thesis
  proof (cases "vr_verifier r = None \<or> vf_done (the (vr_verifier r))")
    case True
    then show ?thesis using h ex exact_same [OF ex same_verifier] OpVerifierDone
      by (auto simp: exec_vop_def verifier_done_def split: option.splits)
  next
    case False
    then obtain r1 where a: "onVerifierFinished en (with_verifier (vf_timer_update (\<lambda>_. False)) r) = (r1, False)"
      "r' = with_verifier (\<lambda>v. vf_emit VfResolved (v\<lparr>vf_done := True\<rparr>)) r1"
      using h OpVerifierDone by (auto simp: exec_vop_def verifier_done_def split: option.splits prod.splits bool.splits)
    then have "exact r1" using exact_advance(1) q by (simp add: onVerifierFinished_def)
    then show ?thesis unfolding a(2) using exact_same [OF _ same_verifier] by blast
  qed
next
  case (OpVerifierCancel c)
  then show ?thesis
    using h verifier_cancel_effect [of en c r r'] ex exact_same [OF ex] by (auto simp: exec_vop_def exact_def)
next
  case (OpTask i a)
  then show ?thesis using h ex task_exact [OF ex] by (auto simp: exec_vop_def split: if_splits)
qed (use h exact_same [OF ex same_verifier] in \<open>auto simp: exec_vop_def\<close>)

text \<open>
  C14. The phase of a verification request is always the last one its events allow: in every run from a new request in which nothing is
  thrown and the QR code is made before anything else happens, whatever the order of events and continuations otherwise; while the
  code is being made, the phase that follows is the one the events allow.
\<close>

theorem phase_follows_events:
  assumes "vr_calm (new_vreq ch supported) r"
  shows "(qr_tasks r = [] \<longrightarrow> vr_phase r = last_phase (calculatePhaseTransitions r)) \<and>
    (qr_tasks r \<noteq> [] \<longrightarrow> (\<exists>p. qr_tasks r = [AfterQr (last_phase (calculatePhaseTransitions r)) p]))"
proof -
  have "calculatePhaseTransitions (new_vreq ch supported) = [(Unsent, None)]"
    by (simp add: new_vreq_def calculatePhaseTransitions_def active_transitions_def Let_def getEventBy_def getEventByEither_def
        start_event_def last_phase_def)
  then have "exact (new_vreq ch supported)" by (simp add: exact_def qr_tasks_def new_vreq_def last_phase_def)
  with assms have "exact r \<or> making_qr r"
  proof (induction rule: vr_calm.induct)
    case (calm_step r en op r')
    then show ?case using exec_exact [of r en op r'] by (auto simp: making_qr_def)
  next
    case (calm_qr r i ph p en q r')
    have "is_qr (vr_tasks r ! i)" using calm_qr by (simp add: is_qr_def)
    then have "qr_tasks r \<noteq> []" using calm_qr(2) by (auto simp: qr_tasks_def filter_empty_conv)
    then have "making_qr r" using calm_qr by (auto simp: exact_def)
    from qr_made_exact [OF this calm_qr(2,3), of en q] show ?case using calm_qr(4) by simp
  qed simp
  then show ?thesis by (auto simp: exact_def making_qr_def)
qed

section \<open>A sample verification\<close>

definition sample_env :: venv where
  "sample_env = \<lparr>en_now = 1000, en_txn = ''t'', en_ref = 100\<rparr>"

definition sample_ev :: "nat \<Rightarrow> string \<Rightarrow> string \<Rightarrow> (string \<times> json) list \<Rightarrow> mx_event" where
  "sample_ev n from_user ty content =
     new_event n (JObj [(''event_id'', JStr [CHR ''$'', char_of (48 + n)]), (''sender'', JStr from_user), (''type'', JStr ty),
       (''room_id'', JStr ''!r''), (''content'', JObj content),
       (''unsigned'', if from_user = ''@a'' then JObj [(''transaction_id'', JStr ''x'')] else JObj [])])"

definition sample_methods :: json where
  "sample_methods = JArr [JStr ''m.qr_code.scan.v1'', JStr ''m.reciprocate.v1'']"

definition ev_request :: mx_event where
  "ev_request = sample_ev 1 ''@b'' ''m.room.message'' [(''msgtype'', JStr REQUEST_TYPE), (''to'', JStr ''@a''), (''from_device'', JStr ''B''),
     (''methods'', sample_methods)]"

definition ev_ready :: mx_event where
  "ev_ready = sample_ev 2 ''@a'' READY_TYPE [(''from_device'', JStr ''A''), (''methods'', sample_methods)]"

definition ev_start :: mx_event where
  "ev_start = sample_ev 3 ''@b'' START_TYPE [(''from_device'', JStr ''B''), (''method'', JStr ''m.reciprocate.v1'')]"

definition ev_cancel :: mx_event where
  "ev_cancel = sample_ev 4 ''@b'' CANCEL_TYPE [(''code'', JStr ''m.user'')]"

definition sample_request :: vreq where
  "sample_request = new_vreq (new_InRoomChannel ''@a'' ''A'' ''!r'' None)
     [(''m.reciprocate.v1'', ReciprocateMethod), (''m.sas.v1'', SasMethod), (''m.qr_code.scan.v1'', NoMethod)]"

definition run_vops :: "vop list \<Rightarrow> vreq \<Rightarrow> vreq" where
  "run_vops ops r = fold (\<lambda>op r. fst (exec_vop sample_env op r)) ops r"

definition to_ready :: "vop list" where
  "to_ready = [OpEvent ev_request True, OpTask 0 Returns, OpAccept, OpEvent ev_ready True]"

text \<open>
  The other side cancels before \<open>verify\<close> has been called: the verifier is not told, and can still finish.
\<close>

lemma finished_after_cancel:
  "let r = run_vops (to_ready @ [OpTask 0 (QrMade 7), OpEvent ev_start True, OpTask 0 Returns, OpEvent ev_cancel True, OpTask 0 Returns]) sample_request
   in vr_phase r = Cancelled \<and> vr_phase (run_vops [OpVerify, OpVerifierDone] r) = Done"
  by code_simp

text \<open>A verification that is cancelled while the QR code is being made goes back to the ready phase.\<close>

lemma stale_phase_after_qr:
  "let r = run_vops (to_ready @ [OpBegin ''m.reciprocate.v1'' None, OpVerifierCancel TimedOut]) sample_request
   in vr_phase r = Cancelled \<and> vr_phase (run_vops [OpTask 0 (QrMade 7)] r) = Ready"
  by code_simp

lemma vr_reach_run: "vr_reach r (run_vops ops r)"
proof -
  have "vr_reach r0 r1 \<Longrightarrow> vr_reach r0 (run_vops ops r1)" for r0 r1
    by (induction ops arbitrary: r1) (simp_all add: run_vops_def vr_reach.reach_step)
  then show ?thesis by (simp add: vr_reach.reach_refl)
qed


definition sample_started :: vreq where
  "sample_started = run_vops (to_ready @ [OpTask 0 (QrMade 7), OpEvent ev_start True, OpTask 0 Returns]) sample_request"

theorem phase_transitions_sound_witness:
  "\<exists>q e. (Ready, Some e) \<in> set (calculatePhaseTransitions sample_started) \<and> dget (vr_by_them sample_started) REQUEST_TYPE = Some q \<and>
     \<not> (Done \<in> fst ` set (calculatePhaseTransitions sample_started) \<and> Cancelled \<in> fst ` set (calculatePhaseTransitions sample_started))"
proof -
  have "map fst (calculatePhaseTransitions sample_started) = [Unsent, Requested, Ready, Started]" by code_simp
  then have "Ready \<in> fst ` set (calculatePhaseTransitions sample_started)" by (metis list.set_intros list.set_map)
  moreover have "calculatePhaseTransitions sample_started ! 2 = (Ready, Some ev_ready)" "length (calculatePhaseTransitions sample_started) = 4"
    "dget (vr_by_us sample_started) REQUEST_TYPE = None"
    by code_simp+
  then have "(Ready, Some ev_ready) \<in> set (calculatePhaseTransitions sample_started)"
    by (metis nth_mem less_numeral_simps(3) numeral_less_iff semiring_norm(76) semiring_norm(78))
  ultimately show ?thesis
    using phase_transitions_sound [of sample_started] \<open>dget (vr_by_us sample_started) REQUEST_TYPE = None\<close>
    unfolding Let_def by (metis option.distinct(1))
qed

lemma calm_run:
  assumes "vr_calm r0 r" and "qr_tasks r = []" and "\<not> snd (exec_vop sample_env op r)"
  shows "vr_calm r0 (run_vops [op] r)"
  using vr_calm.calm_step [OF assms(1,2), of sample_env op "fst (exec_vop sample_env op r)"] assms(3)
  by (simp add: run_vops_def prod_eq_iff)

theorem phase_follows_events_witness:
  "qr_tasks (run_vops to_ready sample_request) \<noteq> [] \<and>
   (\<exists>p. qr_tasks (run_vops to_ready sample_request) = [AfterQr (last_phase (calculatePhaseTransitions (run_vops to_ready sample_request))) p])"
proof -
  let ?r0 = "new_vreq (new_InRoomChannel ''@a'' ''A'' ''!r'' None)
     [(''m.reciprocate.v1'', ReciprocateMethod), (''m.sas.v1'', SasMethod), (''m.qr_code.scan.v1'', NoMethod)]"
  have split: "run_vops (ops @ [op]) r = run_vops [op] (run_vops ops r)" for ops op r by (simp add: run_vops_def)
  have "vr_calm ?r0 (run_vops (take n to_ready) sample_request)" if "n \<le> 4" for n
    using that
  proof (induction n)
    case 0
    then show ?case by (simp add: run_vops_def sample_request_def vr_calm.calm_refl)
  next
    case (Suc n)
    have "take (Suc n) to_ready = take n to_ready @ [to_ready ! n]"
      using Suc.prems by (intro take_Suc_conv_app_nth) (simp add: to_ready_def)
    moreover have "\<forall>k\<in>set [0,1,2,3]. qr_tasks (run_vops (take k to_ready) sample_request) = [] \<and>
        \<not> snd (exec_vop sample_env (to_ready ! k) (run_vops (take k to_ready) sample_request))"
      by code_simp
    then have "qr_tasks (run_vops (take n to_ready) sample_request) = [] \<and>
        \<not> snd (exec_vop sample_env (to_ready ! n) (run_vops (take n to_ready) sample_request))"
      using Suc.prems by (auto simp: numeral_eq_Suc le_Suc_eq)
    ultimately show ?case using Suc by (simp add: split calm_run)
  qed
  from this [of 4] have "vr_calm ?r0 (run_vops to_ready sample_request)" by (simp add: to_ready_def)
  moreover have "qr_tasks (run_vops to_ready sample_request) \<noteq> []" by code_simp
  ultimately show ?thesis using phase_follows_events by blast
qed

end
