(* ===== verification/Sas.thy ===== *)
theory Sas
  imports Channels "HOL-Library.Word"
begin

unbundle bit_operations_syntax

text \<open>
  The short authentication string (\<^verbatim>\<open>src/crypto/verification/SAS.ts\<close>): the numbers and emoji derived from
  six bytes, the agreement on methods, the messages of the two sides and the check of the MACs, with \<open>verifyKeys\<close> of
  \<^verbatim>\<open>Base.ts\<close>. The library olm is a parameter: key pairs by their secret, the bytes and MACs of the shared
  secret, the hash; so is the canonical JSON of \<open>another-json\<close>. Each \<open>await waitForEvent\<close> of the exchange starts a new step.
\<close>

section \<open>The string\<close>

type_synonym bytes = "8 word list"

text \<open>A byte as a number; one that is missing counts as 0 in a bit operation.\<close>

definition byte :: "bytes \<Rightarrow> nat \<Rightarrow> nat" where
  "byte bs i = (if i < length bs then unat (bs ! i) else 0)"

definition generateDecimalSas :: "bytes \<Rightarrow> nat \<times> nat \<times> nat" where
  "generateDecimalSas bs =
     ((push_bit 5 (byte bs 0) OR drop_bit 3 (byte bs 1)) + 1000,
      (push_bit 10 (byte bs 1 AND 7) OR (push_bit 2 (byte bs 2) OR drop_bit 6 (byte bs 3))) + 1000,
      (push_bit 7 (byte bs 3 AND 63) OR drop_bit 1 (byte bs 4)) + 1000)"

text \<open>The table has a picture beside each name; the names are distinct, so they stand for the entries.\<close>

definition emojiMapping :: "string list" where
  "emojiMapping =
     [''dog'', ''cat'', ''lion'', ''horse'', ''unicorn'', ''pig'', ''elephant'', ''rabbit'',
      ''panda'', ''rooster'', ''penguin'', ''turtle'', ''fish'', ''octopus'', ''butterfly'', ''flower'',
      ''tree'', ''cactus'', ''mushroom'', ''globe'', ''moon'', ''cloud'', ''fire'', ''banana'',
      ''apple'', ''strawberry'', ''corn'', ''pizza'', ''cake'', ''heart'', ''smiley'', ''robot'',
      ''hat'', ''glasses'', ''spanner'', ''santa'', ''thumbs up'', ''umbrella'', ''hourglass'', ''clock'',
      ''gift'', ''light bulb'', ''book'', ''pencil'', ''paperclip'', ''scissors'', ''lock'', ''key'',
      ''hammer'', ''telephone'', ''flag'', ''train'', ''bicycle'', ''aeroplane'', ''rocket'', ''trophy'',
      ''ball'', ''guitar'', ''trumpet'', ''bell'', ''anchor'', ''headphones'', ''folder'', ''pin'']"

definition emoji_indices :: "bytes \<Rightarrow> nat list" where
  "emoji_indices bs =
     [drop_bit 2 (byte bs 0),
      push_bit 4 (byte bs 0 AND 3) OR drop_bit 4 (byte bs 1),
      push_bit 2 (byte bs 1 AND 15) OR drop_bit 6 (byte bs 2),
      byte bs 2 AND 63,
      drop_bit 2 (byte bs 3),
      push_bit 4 (byte bs 3 AND 3) OR drop_bit 4 (byte bs 4),
      push_bit 2 (byte bs 4 AND 15) OR drop_bit 6 (byte bs 5)]"

definition generateEmojiSas :: "bytes \<Rightarrow> string list" where
  "generateEmojiSas bs = map (\<lambda>n. emojiMapping ! n) (emoji_indices bs)"

record generated_sas =
  sas_decimal :: "(nat \<times> nat \<times> nat) option"
  sas_emoji :: "string list option"

definition generateSas :: "bytes \<Rightarrow> string list \<Rightarrow> generated_sas" where
  "generateSas bs methods =
     \<lparr>sas_decimal = (if ''decimal'' \<in> set methods then Some (generateDecimalSas bs) else None),
      sas_emoji = (if ''emoji'' \<in> set methods then Some (generateEmojiSas bs) else None)\<rparr>"

section \<open>The exchange\<close>

record 's olm =
  olm_pubkey :: "'s \<Rightarrow> string"
  olm_bytes :: "'s \<Rightarrow> string \<Rightarrow> string \<Rightarrow> nat \<Rightarrow> bytes"
  olm_mac :: "'s \<Rightarrow> string \<Rightarrow> string \<Rightarrow> string \<Rightarrow> string \<Rightarrow> string"
  olm_sha256 :: "string \<Rightarrow> string"
  olm_json :: "json \<Rightarrow> string"

text \<open>
  What is documented of the library: both sides of an exchange of public keys have the same shared secret, so they derive the
  same bytes and MACs from it (the arguments are the own secret, the public key of the other side and, for a MAC, the name of its function).
\<close>

definition olm_agrees :: "'s olm \<Rightarrow> bool" where
  "olm_agrees ol \<longleftrightarrow>
     (\<forall>a b. olm_bytes ol a (olm_pubkey ol b) = olm_bytes ol b (olm_pubkey ol a)) \<and>
     (\<forall>a b. olm_mac ol a (olm_pubkey ol b) = olm_mac ol b (olm_pubkey ol a))"

definition KEY_AGREEMENT_LIST :: "string list" where "KEY_AGREEMENT_LIST = [''curve25519-hkdf-sha256'', ''curve25519'']"
definition HASHES_LIST :: "string list" where "HASHES_LIST = [''sha256'']"
definition MAC_LIST :: "string list" where "MAC_LIST = [''hkdf-hmac-sha256'', ''hmac-sha256'']"
definition SAS_LIST :: "string list" where "SAS_LIST = [''decimal'', ''emoji'']"

definition macMethods :: "string \<Rightarrow> string" where
  "macMethods m = (if m = ''hkdf-hmac-sha256'' then ''calculate_mac'' else ''calculate_mac_long_kdf'')"

text \<open>One side: the users and devices, the secret of the key pair, what it knows of the other side.\<close>

record 's sas_side =
  sd_me :: string
  sd_dev :: string
  sd_user :: string
  sd_device :: string
  sd_secret :: 's
  sd_channel :: vchannel
  sd_initiatedByMe :: bool
  sd_start :: json
  sd_keyAgreement :: string
  sd_macMethod :: string
  sd_sasMethods :: "string list"
  sd_commitment :: string
  sd_ourSASPubKey :: string
  sd_theirSASPubKey :: string
  sd_shown :: "generated_sas option"

definition sd_txn :: "'s sas_side \<Rightarrow> string" where
  "sd_txn s = (case ch_txn (sd_channel s) of Some t \<Rightarrow> t | None \<Rightarrow> ''null'')"

definition calculateKeyAgreement :: "'s olm \<Rightarrow> 's sas_side \<Rightarrow> nat \<Rightarrow> bytes" where
  "calculateKeyAgreement ol s n =
     olm_bytes ol (sd_secret s) (sd_theirSASPubKey s)
       (if sd_keyAgreement s = ''curve25519-hkdf-sha256''
        then (let ourInfo = sd_me s @ ''|'' @ sd_dev s @ ''|'' @ sd_ourSASPubKey s @ ''|'';
                  theirInfo = sd_user s @ ''|'' @ sd_device s @ ''|'' @ sd_theirSASPubKey s @ ''|''
              in ''SENDINGNETWORK_KEY_VERIFICATION_SAS|'' @ (if sd_initiatedByMe s then ourInfo @ theirInfo else theirInfo @ ourInfo) @ sd_txn s)
        else (let ourInfo = sd_me s @ sd_dev s; theirInfo = sd_user s @ sd_device s
              in ''SENDINGNETWORK_KEY_VERIFICATION_SAS'' @ (if sd_initiatedByMe s then ourInfo @ theirInfo else theirInfo @ ourInfo) @ sd_txn s)) n"

text \<open>\<open>intersection\<close> of a value that should be an array with a set, and of a list with such a value.\<close>

definition strings_of :: "json \<Rightarrow> string list" where
  "strings_of j = (case j of JArr xs \<Rightarrow> List.map_filter as_str xs | _ \<Rightarrow> [])"

definition intersection :: "string list \<Rightarrow> string list \<Rightarrow> string list" where
  "intersection xs ys = filter (\<lambda>x. x \<in> set ys) xs"

definition strs :: "string list \<Rightarrow> json" where
  "strs xs = JArr (map JStr xs)"

text \<open>The initiator: the start message, then the answers to accept and key.\<close>

definition sendStart :: "nat \<Rightarrow> 's sas_side \<Rightarrow> 's sas_side \<times> json" where
  "sendStart now s =
     (let startContent = completeContent (sd_channel s) now START_TYPE
            (JObj [(''method'', JStr ''m.sas.v1''), (''from_device'', JStr (sd_dev s)), (''key_agreement_protocols'', strs KEY_AGREEMENT_LIST),
                   (''hashes'', strs HASHES_LIST), (''message_authentication_codes'', strs MAC_LIST),
                   (''short_authentication_string'', strs SAS_LIST)])
      in (s\<lparr>sd_start := startContent\<rparr>, startContent))"

definition in_list :: "json \<Rightarrow> string list \<Rightarrow> bool" where
  "in_list j xs = (case j of JStr x \<Rightarrow> x \<in> set xs | _ \<Rightarrow> False)"

definition on_accept :: "'s olm \<Rightarrow> json \<Rightarrow> 's sas_side \<Rightarrow> verification_error + ('s sas_side \<times> json)" where
  "on_accept ol content s =
     (let sasMethods = intersection (strings_of (jget content ''short_authentication_string'')) SAS_LIST;
          keyAgreement = jget content ''key_agreement_protocol''; macMethod = jget content ''message_authentication_code''
      in if \<not> (in_list keyAgreement KEY_AGREEMENT_LIST \<and> in_list (jget content ''hash'') HASHES_LIST \<and>
               in_list macMethod MAC_LIST \<and> sasMethods \<noteq> [])
         then Inl newUnknownMethodError
         else case as_str (jget content ''commitment'') of
                None \<Rightarrow> Inl newInvalidMessageError
              | Some hashCommitment \<Rightarrow>
                  (let ours = olm_pubkey ol (sd_secret s) in
                   Inr (s\<lparr>sd_sasMethods := sasMethods, sd_keyAgreement := the (as_str keyAgreement), sd_macMethod := the (as_str macMethod),
                          sd_commitment := hashCommitment, sd_ourSASPubKey := ours\<rparr>,
                        JObj [(''key'', JStr ours)])))"

text \<open>Taking the other side's key and showing the string, as both sides do.\<close>

definition show_sas :: "'s olm \<Rightarrow> string \<Rightarrow> 's sas_side \<Rightarrow> 's sas_side" where
  "show_sas ol key s =
     (let s1 = s\<lparr>sd_theirSASPubKey := key\<rparr> in
      s1\<lparr>sd_shown := Some (generateSas (calculateKeyAgreement ol s1 6) (sd_sasMethods s1))\<rparr>)"

definition js_key :: "json \<Rightarrow> string" where
  "js_key j = (case as_str j of Some k \<Rightarrow> k | None \<Rightarrow> ''undefined'')"

definition initiator_on_key :: "'s olm \<Rightarrow> json \<Rightarrow> 's sas_side \<Rightarrow> verification_error + 's sas_side" where
  "initiator_on_key ol content s =
     (let key = js_key (jget content ''key'') in
      if olm_sha256 ol (key @ olm_json ol (sd_start s)) \<noteq> sd_commitment s
      then Inl (VError ''m.mismatched_commitment'' ''Mismatched commitment'')
      else Inr (show_sas ol key s))"

text \<open>The responder: accepting the start message, then answering the key with its own.\<close>

definition respond_start :: "'s olm \<Rightarrow> mx_event \<Rightarrow> 's sas_side \<Rightarrow> verification_error + ('s sas_side \<times> json)" where
  "respond_start ol startEvent s =
     (let content = completedContentFromEvent (sd_channel s) startEvent;
          keyAgreements = intersection KEY_AGREEMENT_LIST (strings_of (jget content ''key_agreement_protocols''));
          hashes = intersection HASHES_LIST (strings_of (jget content ''hashes''));
          macs = intersection MAC_LIST (strings_of (jget content ''message_authentication_codes''));
          sasMethods = intersection (strings_of (jget content ''short_authentication_string'')) SAS_LIST
      in case (keyAgreements, hashes, macs, sasMethods) of
           (keyAgreement # _, hashMethod # _, macMethod # _, _ # _) \<Rightarrow>
             Inr (s\<lparr>sd_start := content, sd_keyAgreement := keyAgreement, sd_macMethod := macMethod, sd_sasMethods := sasMethods\<rparr>,
                  JObj [(''key_agreement_protocol'', JStr keyAgreement), (''hash'', JStr hashMethod),
                        (''message_authentication_code'', JStr macMethod), (''short_authentication_string'', strs sasMethods),
                        (''commitment'', JStr (olm_sha256 ol (olm_pubkey ol (sd_secret s) @ olm_json ol content)))])
         | _ \<Rightarrow> Inl newUnknownMethodError)"

definition responder_on_key :: "'s olm \<Rightarrow> json \<Rightarrow> 's sas_side \<Rightarrow> 's sas_side \<times> json" where
  "responder_on_key ol content s =
     (let ours = olm_pubkey ol (sd_secret s) in
      (show_sas ol (js_key (jget content ''key'')) (s\<lparr>sd_ourSASPubKey := ours\<rparr>), JObj [(''key'', JStr ours)]))"

section \<open>The MACs\<close>

definition calculateMAC :: "'s olm \<Rightarrow> 's sas_side \<Rightarrow> string \<Rightarrow> string \<Rightarrow> string" where
  "calculateMAC ol s input info = olm_mac ol (sd_secret s) (sd_theirSASPubKey s) (macMethods (sd_macMethod s)) input info"

definition MAC_PREFIX :: string where "MAC_PREFIX = ''SENDINGNETWORK_KEY_VERIFICATION_MAC''"

fun join_comma :: "string list \<Rightarrow> string" where
  "join_comma [] = []"
| "join_comma [x] = x"
| "join_comma (x # xs) = x @ '','' @ join_comma xs"

text \<open>\<open>deviceKey\<close> is the own device's signing key, \<open>crossId\<close> the own master key if there is one.\<close>

definition sendMAC :: "'s olm \<Rightarrow> string \<Rightarrow> string option \<Rightarrow> 's sas_side \<Rightarrow> json" where
  "sendMAC ol deviceKey crossId s =
     (let baseInfo = MAC_PREFIX @ sd_me s @ sd_dev s @ sd_user s @ sd_device s @ sd_txn s;
          deviceKeyId = ''ed25519:'' @ sd_dev s;
          keys1 = [(deviceKeyId, deviceKey)];
          keys = keys1 @ (case crossId of Some c \<Rightarrow> if c = [] then [] else [(''ed25519:'' @ c, c)] | None \<Rightarrow> [])
      in JObj [(''mac'', JObj (fold (\<lambda>(i, k). dset i (JStr (calculateMAC ol s k (baseInfo @ i)))) keys [])),
               (''keys'', JStr (calculateMAC ol s (join_comma (sort (map fst keys))) (baseInfo @ ''KEY_IDS'')))])"

text \<open>
  What the client knows of the other user: devices with their keys, and the master key.
\<close>

record known_keys =
  kk_devices :: "(string, (string, string) dict) dict"
  kk_master :: "string option"

fun after_colon :: "string \<Rightarrow> string option" where
  "after_colon [] = None"
| "after_colon (c # cs) = (if c = CHR '':'' then Some (takeWhile (\<lambda>d. d \<noteq> CHR '':'') cs) else after_colon cs)"

text \<open>The keys to check a key id against: those of the device, or of the master key under the name of a device.\<close>

definition keys_for :: "known_keys \<Rightarrow> string \<Rightarrow> (string \<times> (string, string) dict) option" where
  "keys_for kk keyId =
     (case after_colon keyId of
        None \<Rightarrow> None
      | Some deviceId \<Rightarrow>
          (case dget (kk_devices kk) deviceId of
             Some ks \<Rightarrow> Some (deviceId, ks)
           | None \<Rightarrow> if kk_master kk = Some deviceId then Some (deviceId, [(keyId, deviceId)]) else None))"

fun check_each :: "(string \<Rightarrow> (string, string) dict \<Rightarrow> json \<Rightarrow> bool) \<Rightarrow> known_keys \<Rightarrow> (string \<times> json) list \<Rightarrow> verification_error + string list" where
  "check_each ok kk [] = Inr []"
| "check_each ok kk ((keyId, keyInfo) # rest) =
     (case keys_for kk keyId of
        None \<Rightarrow> check_each ok kk rest
      | Some (deviceId, ks) \<Rightarrow>
          if \<not> ok keyId ks keyInfo then Inl newKeyMismatchError
          else case check_each ok kk rest of Inl e \<Rightarrow> Inl e | Inr ds \<Rightarrow> Inr (deviceId # ds))"

text \<open>\<open>verifyKeys\<close>: the devices that are to be marked as verified, or what is thrown.\<close>

definition verifyKeys ::
    "(string \<Rightarrow> (string, string) dict \<Rightarrow> json \<Rightarrow> bool) \<Rightarrow> known_keys \<Rightarrow> (string \<times> json) list \<Rightarrow> verification_error + string list" where
  "verifyKeys ok kk keys =
     (case check_each ok kk keys of
        Inl e \<Rightarrow> Inl e
      | Inr [] \<Rightarrow> Inl (VFailure ''No devices could be verified'')
      | Inr devices \<Rightarrow> Inr devices)"

definition mac_ok :: "'s olm \<Rightarrow> 's sas_side \<Rightarrow> string \<Rightarrow> string \<Rightarrow> (string, string) dict \<Rightarrow> json \<Rightarrow> bool" where
  "mac_ok ol s baseInfo keyId ks keyInfo \<longleftrightarrow>
     keyInfo = JStr (calculateMAC ol s (case dget ks keyId of Some k \<Rightarrow> k | None \<Rightarrow> ''undefined'') (baseInfo @ keyId))"

text \<open>\<open>baseInfo\<close> of \<open>checkMAC\<close>: that of the sender.\<close>

definition mac_info :: "'s sas_side \<Rightarrow> string" where
  "mac_info s = MAC_PREFIX @ sd_user s @ sd_device s @ sd_me s @ sd_dev s @ sd_txn s"

definition checkMAC :: "'s olm \<Rightarrow> known_keys \<Rightarrow> json \<Rightarrow> 's sas_side \<Rightarrow> verification_error + string list" where
  "checkMAC ol kk content s =
     (let baseInfo = mac_info s; macs = jget content ''mac'' in
      if \<not> is_object macs then Inl VTypeError
      else if jget content ''keys'' \<noteq> JStr (calculateMAC ol s (join_comma (sort (map fst (entries macs)))) (baseInfo @ ''KEY_IDS''))
      then Inl newKeyMismatchError
      else verifyKeys (mac_ok ol s baseInfo) kk (entries macs))"

section \<open>The string determines the bytes\<close>

lemma or_plus: "m < 2 ^ n \<Longrightarrow> push_bit n a OR m = a * 2 ^ n + (m::nat)"
proof -
  assume m: "m < 2 ^ n"
  have "bit (push_bit n a AND m) k = False" for k
  proof (cases "k < n")
    case True
    then show ?thesis by (simp add: bit_simps)
  next
    case False
    then have "m < 2 ^ k" using m by (metis less_le_trans nat_less_le not_less one_le_numeral power_increasing)
    then have "\<not> bit m k" by (simp add: bit_nat_def)
    then show ?thesis by (simp add: bit_simps)
  qed
  then have "push_bit n a AND m = 0" by (intro bit_eqI) simp
  then show ?thesis by (simp add: disjunctive_add_eq_or push_bit_nat_def mult.commute)
qed

lemma and_low_bits:
  "(x::nat) AND 3 = x mod 4" "x AND 7 = x mod 8" "x AND 15 = x mod 16" "x AND 63 = x mod 64"
  using take_bit_eq_mask [of 2 x] take_bit_eq_mask [of 3 x] take_bit_eq_mask [of 4 x] take_bit_eq_mask [of 6 x]
  by (simp_all add: take_bit_nat_def mask_eq_exp_minus_1)

lemma byte_bound: "byte bs i < 256"
  using unsigned_less [of "bs ! i", where 'a = nat] by (simp add: byte_def)

lemma decimal_arith:
  "generateDecimalSas bs =
     (byte bs 0 * 32 + byte bs 1 div 8 + 1000,
      byte bs 1 mod 8 * 1024 + byte bs 2 * 4 + byte bs 3 div 64 + 1000,
      byte bs 3 mod 64 * 128 + byte bs 4 div 2 + 1000)"
proof -
  have "push_bit 5 (byte bs 0) OR drop_bit 3 (byte bs 1) = byte bs 0 * 32 + byte bs 1 div 8"
    using or_plus [of "drop_bit 3 (byte bs 1)" 5 "byte bs 0"] byte_bound [of bs 1] by (simp add: drop_bit_nat_def)
  moreover have in2: "push_bit 2 (byte bs 2) OR drop_bit 6 (byte bs 3) = byte bs 2 * 4 + byte bs 3 div 64"
    using or_plus [of "drop_bit 6 (byte bs 3)" 2 "byte bs 2"] byte_bound [of bs 3] by (simp add: drop_bit_nat_def)
  moreover have "push_bit 10 (byte bs 1 AND 7) OR (push_bit 2 (byte bs 2) OR drop_bit 6 (byte bs 3)) =
      byte bs 1 mod 8 * 1024 + (byte bs 2 * 4 + byte bs 3 div 64)"
    unfolding in2 using or_plus [of "byte bs 2 * 4 + byte bs 3 div 64" 10 "byte bs 1 AND 7"] byte_bound [of bs 2] byte_bound [of bs 3]
    by (simp add: and_low_bits)
  moreover have "push_bit 7 (byte bs 3 AND 63) OR drop_bit 1 (byte bs 4) = byte bs 3 mod 64 * 128 + byte bs 4 div 2"
    using or_plus [of "drop_bit 1 (byte bs 4)" 7 "byte bs 3 AND 63"] byte_bound [of bs 4] by (simp add: drop_bit_nat_def and_low_bits)
  ultimately show ?thesis by (simp add: generateDecimalSas_def)
qed

lemma emoji_arith:
  "emoji_indices bs =
     [byte bs 0 div 4, byte bs 0 mod 4 * 16 + byte bs 1 div 16, byte bs 1 mod 16 * 4 + byte bs 2 div 64, byte bs 2 mod 64,
      byte bs 3 div 4, byte bs 3 mod 4 * 16 + byte bs 4 div 16, byte bs 4 mod 16 * 4 + byte bs 5 div 64]"
proof -
  have "push_bit 4 (byte bs i AND 3) OR drop_bit 4 (byte bs j) = byte bs i mod 4 * 16 + byte bs j div 16" for i j
    using or_plus [of "drop_bit 4 (byte bs j)" 4 "byte bs i AND 3"] byte_bound [of bs j] by (simp add: drop_bit_nat_def and_low_bits)
  moreover have "push_bit 2 (byte bs i AND 15) OR drop_bit 6 (byte bs j) = byte bs i mod 16 * 4 + byte bs j div 64" for i j
    using or_plus [of "drop_bit 6 (byte bs j)" 2 "byte bs i AND 15"] byte_bound [of bs j] by (simp add: drop_bit_nat_def and_low_bits)
  ultimately show ?thesis by (simp add: emoji_indices_def drop_bit_nat_def and_low_bits)
qed

lemma emoji_bound: "n \<in> set (emoji_indices bs) \<Longrightarrow> n < 64"
  using byte_bound [of bs 0] byte_bound [of bs 1] byte_bound [of bs 2] byte_bound [of bs 3] byte_bound [of bs 4] byte_bound [of bs 5]
  by (auto simp: emoji_arith)

lemma bytes_eq:
  assumes "length bs = length cs" "n \<le> length bs" and "\<And>i. i < n \<Longrightarrow> byte bs i = byte cs i"
  shows "take n bs = take n cs"
proof (rule nth_equalityI)
  fix i assume "i < length (take n bs)"
  then show "take n bs ! i = take n cs ! i" using assms(1,2) assms(3) [of i] by (auto simp: byte_def intro: unsigned_word_eqI)
qed (use assms in simp)

lemma byte_take: "take n bs = take n cs \<Longrightarrow> i < n \<Longrightarrow> byte bs i = byte cs i"
proof -
  assume t: "take n bs = take n cs" and i: "i < n"
  have "byte (take n xs) i = byte xs i" for xs using i by (simp add: byte_def)
  then show ?thesis using t by metis
qed

text \<open>Two digits of a mixed radix are determined by their number.\<close>

lemma radix:
  assumes "x * m + y = u * m + (v::nat)" and "y < m" and "v < m"
  shows "x = u" and "y = v"
proof -
  have "(x * m + y) div m = x" "(x * m + y) mod m = y" "(u * m + v) div m = u" "(u * m + v) mod m = v"
    using assms(2,3) by simp_all
  then show "x = u" "y = v" using assms(1) by metis+
qed

lemma decimal_parts:
  assumes "b0 * 32 + b1 div 8 = c0 * 32 + c1 div 8" "b1 mod 8 * 1024 + b2 * 4 + b3 div 64 = c1 mod 8 * 1024 + c2 * 4 + c3 div 64"
    "b3 mod 64 * 128 + b4 div 2 = c3 mod 64 * 128 + c4 div (2::nat)"
    and "b1 < 256" "b2 < 256" "b3 < 256" "b4 < 256" "c1 < 256" "c2 < 256" "c3 < 256" "c4 < 256"
  shows "b0 = c0" "b1 = c1" "b2 = c2" "b3 = c3" "b4 div 2 = c4 div 2"
proof -
  have 1: "b0 = c0" "b1 div 8 = c1 div 8" using radix [OF assms(1)] assms(4,8) by auto
  have m: "b1 mod 8 * 1024 + (b2 * 4 + b3 div 64) = c1 mod 8 * 1024 + (c2 * 4 + c3 div 64)" using assms(2) by simp
  have 2: "b1 mod 8 = c1 mod 8" "b2 * 4 + b3 div 64 = c2 * 4 + c3 div 64" using radix [OF m] assms(5,6,9,10) by auto
  have 3: "b2 = c2" "b3 div 64 = c3 div 64" using radix [OF 2(2)] assms(6,10) by auto
  have 4: "b3 mod 64 = c3 mod 64" "b4 div 2 = c4 div 2" using radix [OF assms(3)] assms(7,11) by auto
  show "b0 = c0" by (rule 1)
  show "b1 = c1" using 1(2) 2(1) by (metis mult_div_mod_eq)
  show "b2 = c2" by (rule 3)
  show "b3 = c3" using 3(2) 4(1) by (metis mult_div_mod_eq)
  show "b4 div 2 = c4 div 2" by (rule 4)
qed

lemma emoji_parts:
  assumes "emoji_indices bs = emoji_indices cs"
  shows "\<forall>i<5. byte bs i = byte cs i" "byte bs 5 div 64 = byte cs 5 div 64"
proof -
  note b = byte_bound [of bs 1] byte_bound [of bs 2] byte_bound [of bs 4] byte_bound [of bs 5]
    byte_bound [of cs 1] byte_bound [of cs 2] byte_bound [of cs 4] byte_bound [of cs 5]
  have e: "byte bs 0 div 4 = byte cs 0 div 4" "byte bs 0 mod 4 * 16 + byte bs 1 div 16 = byte cs 0 mod 4 * 16 + byte cs 1 div 16"
    "byte bs 1 mod 16 * 4 + byte bs 2 div 64 = byte cs 1 mod 16 * 4 + byte cs 2 div 64" "byte bs 2 mod 64 = byte cs 2 mod 64"
    "byte bs 3 div 4 = byte cs 3 div 4" "byte bs 3 mod 4 * 16 + byte bs 4 div 16 = byte cs 3 mod 4 * 16 + byte cs 4 div 16"
    "byte bs 4 mod 16 * 4 + byte bs 5 div 64 = byte cs 4 mod 16 * 4 + byte cs 5 div 64"
    using assms by (simp_all add: emoji_arith)
  have 01: "byte bs 0 mod 4 = byte cs 0 mod 4" "byte bs 1 div 16 = byte cs 1 div 16" using radix [OF e(2)] b by auto
  have 12: "byte bs 1 mod 16 = byte cs 1 mod 16" "byte bs 2 div 64 = byte cs 2 div 64" using radix [OF e(3)] b by auto
  have 34: "byte bs 3 mod 4 = byte cs 3 mod 4" "byte bs 4 div 16 = byte cs 4 div 16" using radix [OF e(6)] b by auto
  have 45: "byte bs 4 mod 16 = byte cs 4 mod 16" "byte bs 5 div 64 = byte cs 5 div 64" using radix [OF e(7)] b by auto
  have "byte bs 0 = byte cs 0" "byte bs 1 = byte cs 1" "byte bs 2 = byte cs 2" "byte bs 3 = byte cs 3" "byte bs 4 = byte cs 4"
    using e(1,4,5) 01 12 34 45 by (metis mult_div_mod_eq)+
  then show "\<forall>i<5. byte bs i = byte cs i" by (auto simp: numeral_eq_Suc less_Suc_eq)
  show "byte bs 5 div 64 = byte cs 5 div 64" by (rule 45)
qed

lemma emoji_distinct: "distinct emojiMapping" "length emojiMapping = 64"
  by code_simp+

lemma emoji_injective:
  assumes "generateEmojiSas bs = generateEmojiSas cs"
  shows "emoji_indices bs = emoji_indices cs"
proof (rule nth_equalityI)
  have l: "length (emoji_indices xs) = 7" for xs by (simp add: emoji_indices_def)
  then show "length (emoji_indices bs) = length (emoji_indices cs)" by simp
  fix i assume i: "i < length (emoji_indices bs)"
  then have "emojiMapping ! (emoji_indices bs ! i) = emojiMapping ! (emoji_indices cs ! i)"
    using arg_cong [OF assms, of "\<lambda>xs. xs ! i"] l by (simp add: generateEmojiSas_def)
  moreover have "emoji_indices xs ! i < 64" for xs using emoji_bound [OF nth_mem, of i xs] i l by simp
  ultimately show "emoji_indices bs ! i = emoji_indices cs ! i"
    using nth_eq_iff_index_eq [OF emoji_distinct(1)] emoji_distinct(2) by simp
qed

lemma sas_bytes:
  assumes "length bs = 6" and "length cs = 6"
  shows "(let (a, b, c) = generateDecimalSas bs in a \<in> {1000..9191} \<and> b \<in> {1000..9191} \<and> c \<in> {1000..9191})"
    and "generateDecimalSas bs = generateDecimalSas cs \<longleftrightarrow> take 4 bs = take 4 cs \<and> byte bs 4 div 2 = byte cs 4 div 2"
    and "generateEmojiSas bs = generateEmojiSas cs \<longleftrightarrow> take 5 bs = take 5 cs \<and> byte bs 5 div 64 = byte cs 5 div 64"
proof -
  note b = byte_bound [of bs 0] byte_bound [of bs 1] byte_bound [of bs 2] byte_bound [of bs 3] byte_bound [of bs 4]
  note c = byte_bound [of cs 1] byte_bound [of cs 2] byte_bound [of cs 3] byte_bound [of cs 4]
  show "(let (a, b, c) = generateDecimalSas bs in a \<in> {1000..9191} \<and> b \<in> {1000..9191} \<and> c \<in> {1000..9191})"
  proof -
    have "byte bs 1 div 8 < 32" "byte bs 3 div 64 < 4" "byte bs 4 div 2 < 128" "byte bs 1 mod 8 < 8" "byte bs 3 mod 64 < 64"
      using b by simp_all
    then show ?thesis unfolding decimal_arith Let_def prod.case atLeastAtMost_iff using b(1,3) by linarith
  qed
  show "generateDecimalSas bs = generateDecimalSas cs \<longleftrightarrow> take 4 bs = take 4 cs \<and> byte bs 4 div 2 = byte cs 4 div 2"
  proof
    assume "generateDecimalSas bs = generateDecimalSas cs"
    then have e: "byte bs 0 * 32 + byte bs 1 div 8 = byte cs 0 * 32 + byte cs 1 div 8"
      "byte bs 1 mod 8 * 1024 + byte bs 2 * 4 + byte bs 3 div 64 = byte cs 1 mod 8 * 1024 + byte cs 2 * 4 + byte cs 3 div 64"
      "byte bs 3 mod 64 * 128 + byte bs 4 div 2 = byte cs 3 mod 64 * 128 + byte cs 4 div 2"
      by (simp_all only: decimal_arith prod.inject add_right_cancel)
    note parts = decimal_parts [OF e b(2-5) c]
    have four: "byte bs 4 div 2 = byte cs 4 div 2" by (rule parts)
    have "byte bs 0 = byte cs 0" "byte bs 1 = byte cs 1" "byte bs 2 = byte cs 2" "byte bs 3 = byte cs 3" by (rule parts)+
    then have "\<forall>i<4. byte bs i = byte cs i" by (auto simp: numeral_eq_Suc less_Suc_eq)
    then show "take 4 bs = take 4 cs \<and> byte bs 4 div 2 = byte cs 4 div 2" using four bytes_eq [of bs cs 4] assms by simp
  next
    assume h: "take 4 bs = take 4 cs \<and> byte bs 4 div 2 = byte cs 4 div 2"
    have "byte bs 0 = byte cs 0" "byte bs 1 = byte cs 1" "byte bs 2 = byte cs 2" "byte bs 3 = byte cs 3"
      by (rule byte_take [OF h [THEN conjunct1]], simp)+
    then show "generateDecimalSas bs = generateDecimalSas cs" by (simp only: decimal_arith h)
  qed
  show "generateEmojiSas bs = generateEmojiSas cs \<longleftrightarrow> take 5 bs = take 5 cs \<and> byte bs 5 div 64 = byte cs 5 div 64"
  proof
    assume "generateEmojiSas bs = generateEmojiSas cs"
    note parts = emoji_parts [OF emoji_injective [OF this]]
    have "take 5 bs = take 5 cs" by (rule bytes_eq) (use parts(1) assms in simp_all)
    then show "take 5 bs = take 5 cs \<and> byte bs 5 div 64 = byte cs 5 div 64" using parts(2) by (rule conjI)
  next
    assume h: "take 5 bs = take 5 cs \<and> byte bs 5 div 64 = byte cs 5 div 64"
    have "byte bs 0 = byte cs 0" "byte bs 1 = byte cs 1" "byte bs 2 = byte cs 2" "byte bs 3 = byte cs 3" "byte bs 4 = byte cs 4"
      by (rule byte_take [OF h [THEN conjunct1]], simp)+
    then show "generateEmojiSas bs = generateEmojiSas cs" by (simp only: generateEmojiSas_def emoji_arith h)
  qed
qed

text \<open>
  C18. What the two users compare: the three numbers have four digits and are the same exactly when the first 39 bits of the six bytes
  are; the seven emoji are the same exactly when the first 42 bits are.
\<close>

theorem sas_determines_bytes:
  assumes "length bs = 6" and "length cs = 6"
  shows "(let (a, b, c) = generateDecimalSas bs in a \<in> {1000..9191} \<and> b \<in> {1000..9191} \<and> c \<in> {1000..9191}) \<and>
    (generateDecimalSas bs = generateDecimalSas cs \<longleftrightarrow> take 4 bs = take 4 cs \<and> byte bs 4 div 2 = byte cs 4 div 2) \<and>
    (generateEmojiSas bs = generateEmojiSas cs \<longleftrightarrow> take 5 bs = take 5 cs \<and> byte bs 5 div 64 = byte cs 5 div 64)"
  using sas_bytes(1) [OF assms] sas_bytes(2) [OF assms] sas_bytes(3) [OF assms] by (intro conjI)

theorem sas_determines_bytes_witness:
  "generateDecimalSas [1, 2, 3, 4, 5, 6] = generateDecimalSas [1, 2, 3, 4, 4, 9] \<and>
   generateEmojiSas [1, 2, 3, 4, 5, 6] \<noteq> generateEmojiSas [1, 2, 3, 4, 4, 9]"
proof -
  have "byte [1, 2, 3, 4, 5, 6] 4 div 2 = byte [1, 2, 3, 4, 4, 9] 4 div 2" by (simp add: byte_def)
  then show ?thesis
    using sas_determines_bytes [of "[1, 2, 3, 4, 5, 6]" "[1, 2, 3, 4, 4, 9]"] by simp
qed

section \<open>What a check of the MACs accepts\<close>

definition known_ids :: "known_keys \<Rightarrow> (string \<times> json) list \<Rightarrow> (string \<times> json \<times> string \<times> (string, string) dict) list" where
  "known_ids kk keys = List.map_filter (\<lambda>(i, info). map_option (\<lambda>(d, ks). (i, info, d, ks)) (keys_for kk i)) keys"

lemma check_each_spec:
  "check_each ok kk keys =
     (if \<forall>(i, info, d, ks) \<in> set (known_ids kk keys). ok i ks info then Inr (map (\<lambda>(i, info, d, ks). d) (known_ids kk keys))
      else Inl newKeyMismatchError)"
proof (induction keys)
  case (Cons x keys)
  obtain i info where x: "x = (i, info)" by (cases x)
  show ?case
  proof (cases "keys_for kk i")
    case None
    then show ?thesis using Cons by (simp add: x known_ids_def map_filter_simps)
  next
    case (Some dk)
    then show ?thesis using Cons by (cases dk) (auto simp: x known_ids_def map_filter_simps)
  qed
qed (simp add: known_ids_def map_filter_simps)

text \<open>
  C17. When the MACs of the other side are accepted: exactly when the MAC over the list of key ids is right, at least one of the keys
  is known, and the MAC of every known key is the one of the key the client knows; the devices marked as verified are then those of the
  known keys. A wrong MAC is a key mismatch, no known key is an error of its own.
\<close>

theorem checkMAC_accepts:
  fixes ol :: "'s olm"
  assumes "is_object (jget content ''mac'')"
  shows "checkMAC ol kk content s =
    (let macs = entries (jget content ''mac'') in
     if jget content ''keys'' \<noteq> JStr (calculateMAC ol s (join_comma (sort (map fst macs))) (mac_info s @ ''KEY_IDS'')) \<or>
        (\<exists>(i, info, d, ks) \<in> set (known_ids kk macs). \<not> mac_ok ol s (mac_info s) i ks info)
     then Inl newKeyMismatchError
     else if known_ids kk macs = [] then Inl (VFailure ''No devices could be verified'')
     else Inr (map (\<lambda>(i, info, d, ks). d) (known_ids kk macs)))"
proof -
  define macs where "macs = entries (jget content ''mac'')"
  have c: "check_each (mac_ok ol s (mac_info s)) kk macs =
      (if \<exists>(i, info, d, ks) \<in> set (known_ids kk macs). \<not> mac_ok ol s (mac_info s) i ks info then Inl newKeyMismatchError
       else Inr (map (\<lambda>(i, info, d, ks). d) (known_ids kk macs)))"
    by (auto simp: check_each_spec)
  have v: "verifyKeys (mac_ok ol s (mac_info s)) kk macs =
      (if \<exists>(i, info, d, ks) \<in> set (known_ids kk macs). \<not> mac_ok ol s (mac_info s) i ks info then Inl newKeyMismatchError
       else if known_ids kk macs = [] then Inl (VFailure ''No devices could be verified'')
       else Inr (map (\<lambda>(i, info, d, ks). d) (known_ids kk macs)))"
    unfolding verifyKeys_def c by (simp split: list.split)
  show ?thesis
    unfolding checkMAC_def Let_def macs_def [symmetric] v using assms(1) by simp
qed


section \<open>Two honest sides agree\<close>

lemma sort_two [simp]: "sort [x, y] = (if x \<le> y then [x, y] else [y, (x::string)])"
  by simp

lemma after_colon_key: "CHR '':'' \<notin> set d \<Longrightarrow> after_colon (''ed25519:'' @ d) = Some d"
  by simp (metis takeWhile_eq_all_conv)

text \<open>What a client knows of another side: the device with its key, and the master key, which is no device.\<close>

definition knows :: "known_keys \<Rightarrow> string \<Rightarrow> string \<Rightarrow> string option \<Rightarrow> bool" where
  "knows kk d deviceKey crossId \<longleftrightarrow>
     CHR '':'' \<notin> set d \<and>
     (\<exists>ks. dget (kk_devices kk) d = Some ks \<and> dget ks (''ed25519:'' @ d) = Some deviceKey) \<and>
     (case crossId of
        Some c \<Rightarrow> c \<noteq> [] \<longrightarrow> CHR '':'' \<notin> set c \<and> dget (kk_devices kk) c = None \<and> kk_master kk = Some c
      | None \<Rightarrow> True)"

definition crossed :: "string option \<Rightarrow> string list" where
  "crossed crossId = (case crossId of Some c \<Rightarrow> if c = [] then [] else [c] | None \<Rightarrow> [])"

text \<open>Two sides of one exchange, and two that have each other's public keys.\<close>

definition paired :: "'s sas_side \<Rightarrow> 's sas_side \<Rightarrow> bool" where
  "paired a b \<longleftrightarrow> sd_user a = sd_me b \<and> sd_device a = sd_dev b \<and> sd_user b = sd_me a \<and> sd_device b = sd_dev a \<and> sd_txn a = sd_txn b"

definition joined :: "'s olm \<Rightarrow> 's sas_side \<Rightarrow> 's sas_side \<Rightarrow> bool" where
  "joined ol a b \<longleftrightarrow> paired a b \<and> sd_macMethod a = sd_macMethod b \<and> sd_keyAgreement a = sd_keyAgreement b \<and>
     sd_ourSASPubKey a = olm_pubkey ol (sd_secret a) \<and> sd_ourSASPubKey b = olm_pubkey ol (sd_secret b) \<and>
     sd_theirSASPubKey a = olm_pubkey ol (sd_secret b) \<and> sd_theirSASPubKey b = olm_pubkey ol (sd_secret a)"

lemma joined_sym: "joined ol a b \<Longrightarrow> joined ol b a"
  by (simp add: joined_def paired_def)

lemma joined_mac: "olm_agrees ol \<Longrightarrow> joined ol a b \<Longrightarrow> calculateMAC ol a k info = calculateMAC ol b k info"
  unfolding calculateMAC_def joined_def olm_agrees_def by metis

lemma joined_bytes:
  assumes "olm_agrees ol" "joined ol a b" "sd_initiatedByMe a" "\<not> sd_initiatedByMe b"
  shows "calculateKeyAgreement ol a n = calculateKeyAgreement ol b n"
proof -
  have "olm_bytes ol (sd_secret a) (olm_pubkey ol (sd_secret b)) = olm_bytes ol (sd_secret b) (olm_pubkey ol (sd_secret a))"
    using assms(1) unfolding olm_agrees_def by blast
  then show ?thesis using assms(2-4) by (simp add: calculateKeyAgreement_def joined_def paired_def Let_def)
qed

lemma mac_accepted:
  assumes ag: "olm_agrees ol" and j: "joined ol a b" and k: "knows kk (sd_dev a) deviceKey crossId"
  shows "checkMAC ol kk (sendMAC ol deviceKey crossId a) b = Inr (sd_dev a # crossed crossId)"
proof -
  obtain ks where d: "CHR '':'' \<notin> set (sd_dev a)" "dget (kk_devices kk) (sd_dev a) = Some ks"
    "dget ks (''ed25519:'' @ sd_dev a) = Some deviceKey"
    using k by (auto simp: knows_def)
  have f: "keys_for kk (''ed25519:'' @ sd_dev a) = Some (sd_dev a, ks)"
    unfolding keys_for_def after_colon_key [OF d(1)] using d(2) by simp
  have info: "mac_info b = MAC_PREFIX @ sd_me a @ sd_dev a @ sd_user a @ sd_device a @ sd_txn a"
    using j by (simp add: mac_info_def joined_def paired_def)
  note mac = joined_mac [OF ag j]
  show ?thesis
  proof (cases "crossed crossId")
    case Nil
    then have "sendMAC ol deviceKey crossId a =
        JObj [(''mac'', JObj [(''ed25519:'' @ sd_dev a, JStr (calculateMAC ol b deviceKey (mac_info b @ ''ed25519:'' @ sd_dev a)))]),
              (''keys'', JStr (calculateMAC ol b (''ed25519:'' @ sd_dev a) (mac_info b @ ''KEY_IDS'')))]"
      by (auto simp: sendMAC_def Let_def crossed_def info mac split: option.splits if_splits)
    then show ?thesis
      using f d(3) Nil by (simp add: checkMAC_def Let_def verifyKeys_def mac_ok_def del: append.simps)
  next
    case (Cons c cs)
    then have c: "crossId = Some c" "c \<noteq> []" "cs = []" by (auto simp: crossed_def split: option.splits if_splits)
    then have m: "CHR '':'' \<notin> set c" "dget (kk_devices kk) c = None" "kk_master kk = Some c" using k by (auto simp: knows_def)
    have f2: "keys_for kk (''ed25519:'' @ c) = Some (c, [(''ed25519:'' @ c, c)])"
      unfolding keys_for_def after_colon_key [OF m(1)] using m(2,3) by simp
    have ne: "''ed25519:'' @ sd_dev a \<noteq> ''ed25519:'' @ c" using d(2) m(2) by auto
    define ia where "ia = ''ed25519:'' @ sd_dev a"
    define ic where "ic = ''ed25519:'' @ c"
    have "sendMAC ol deviceKey crossId a =
        JObj [(''mac'', JObj [(ia, JStr (calculateMAC ol b deviceKey (mac_info b @ ia))), (ic, JStr (calculateMAC ol b c (mac_info b @ ic)))]),
              (''keys'', JStr (calculateMAC ol b (join_comma (sort [ia, ic])) (mac_info b @ ''KEY_IDS'')))]"
      using c(2) ne unfolding sendMAC_def Let_def c(1) option.case ia_def [symmetric] ic_def [symmetric] info
      by (simp add: mac del: sort_two)
    then show ?thesis
      using f f2 d(3) Cons c unfolding ia_def [symmetric] ic_def [symmetric]
      by (simp add: checkMAC_def Let_def verifyKeys_def mac_ok_def del: append.simps sort_two)
  qed
qed

lemma jget_obj_put: "jget (obj_put k v j) l = (if l = k then v else jget (JObj (entries j)) l)"
  by (simp add: obj_put_def dget_dset)

lemma entries_obj_put: "entries (obj_put k v j) = dset k v (entries j)"
  by (simp add: obj_put_def)

text \<open>The start message as it is sent: the offers are those of the lists.\<close>

lemma start_fields:
  assumes "k \<notin> {''from_device'', ''transaction_id'', ''m.relates_to''}"
  shows "jget (completeContent ch now START_TYPE (JObj d)) k = jget (JObj d) k"
  using assms by (simp add: completeContent_def inroom_completeContent_def todevice_completeContent_def Let_def needs_device_def
      jget_obj_put entries_obj_put dget_dset)

lemma strings_of_strs: "strings_of (strs xs) = xs"
  by (induction xs) (simp_all add: strings_of_def strs_def map_filter_simps)

lemma list_intersections:
  "intersection KEY_AGREEMENT_LIST KEY_AGREEMENT_LIST = KEY_AGREEMENT_LIST" "intersection HASHES_LIST HASHES_LIST = HASHES_LIST"
  "intersection MAC_LIST MAC_LIST = MAC_LIST" "intersection SAS_LIST SAS_LIST = SAS_LIST"
  by (simp_all add: intersection_def)

text \<open>
  C16. Two honest sides that run the exchange with each other both finish: the responder accepts the start message, the initiator the
  commitment, both show the same string, numbers and emoji, and each accepts the MACs of the other and marks its device (and its master
  key) as verified. Assumed are that olm agrees on the shared secret, that the responder sees the content that was sent, and that each
  side knows the other's keys.
\<close>

theorem honest_sas_agrees:
  assumes ag: "olm_agrees ol" and pair: "paired i r" and roles: "sd_initiatedByMe i" "\<not> sd_initiatedByMe r"
    and seen: "completedContentFromEvent (sd_channel r) ev = snd (sendStart now i)"
    and ki: "knows kr (sd_dev i) di ci" and kr: "knows ki (sd_dev r) dr cr"
  shows "\<exists>r1 acc i1 ikey r2 rkey i2 shown.
    respond_start ol ev r = Inr (r1, acc) \<and> on_accept ol acc (fst (sendStart now i)) = Inr (i1, ikey) \<and>
    responder_on_key ol ikey r1 = (r2, rkey) \<and> initiator_on_key ol rkey i1 = Inr i2 \<and>
    sd_shown i2 = Some shown \<and> sd_shown r2 = Some shown \<and> sas_decimal shown \<noteq> None \<and> sas_emoji shown \<noteq> None \<and>
    checkMAC ol kr (sendMAC ol di ci i2) r2 = Inr (sd_dev i # crossed ci) \<and>
    checkMAC ol ki (sendMAC ol dr cr r2) i2 = Inr (sd_dev r # crossed cr)"
proof -
  define start where "start = snd (sendStart now i)"
  define pi where "pi = olm_pubkey ol (sd_secret i)"
  define pr where "pr = olm_pubkey ol (sd_secret r)"
  define r1 where "r1 = r\<lparr>sd_start := start, sd_keyAgreement := hd KEY_AGREEMENT_LIST, sd_macMethod := hd MAC_LIST, sd_sasMethods := SAS_LIST\<rparr>"
  define commit where "commit = olm_sha256 ol (pr @ olm_json ol start)"
  define acc where "acc = JObj [(''key_agreement_protocol'', JStr (hd KEY_AGREEMENT_LIST)), (''hash'', JStr (hd HASHES_LIST)),
    (''message_authentication_code'', JStr (hd MAC_LIST)), (''short_authentication_string'', strs SAS_LIST), (''commitment'', JStr commit)]"
  define i1 where "i1 = (fst (sendStart now i))\<lparr>sd_sasMethods := SAS_LIST, sd_keyAgreement := hd KEY_AGREEMENT_LIST,
    sd_macMethod := hd MAC_LIST, sd_commitment := commit, sd_ourSASPubKey := pi\<rparr>"
  define r2 where "r2 = show_sas ol pi (r1\<lparr>sd_ourSASPubKey := pr\<rparr>)"
  define i2 where "i2 = show_sas ol pr i1"
  have f: "jget start ''key_agreement_protocols'' = strs KEY_AGREEMENT_LIST" "jget start ''hashes'' = strs HASHES_LIST"
    "jget start ''message_authentication_codes'' = strs MAC_LIST" "jget start ''short_authentication_string'' = strs SAS_LIST"
    by (simp_all add: start_def sendStart_def Let_def start_fields)
  have s1: "respond_start ol ev r = Inr (r1, acc)"
    unfolding respond_start_def Let_def seen start_def [symmetric] f strings_of_strs list_intersections
    by (simp add: r1_def acc_def commit_def pr_def KEY_AGREEMENT_LIST_def HASHES_LIST_def MAC_LIST_def SAS_LIST_def)
  have s2: "on_accept ol acc (fst (sendStart now i)) = Inr (i1, JObj [(''key'', JStr pi)])"
    by (simp add: on_accept_def Let_def acc_def strings_of_strs list_intersections in_list_def i1_def pi_def sendStart_def
        KEY_AGREEMENT_LIST_def HASHES_LIST_def MAC_LIST_def) (simp add: SAS_LIST_def)
  have s3: "responder_on_key ol (JObj [(''key'', JStr pi)]) r1 = (r2, JObj [(''key'', JStr pr)])"
    by (simp add: responder_on_key_def Let_def r2_def js_key_def pr_def r1_def)
  have s4: "initiator_on_key ol (JObj [(''key'', JStr pr)]) i1 = Inr i2"
    by (simp add: initiator_on_key_def Let_def js_key_def i1_def i2_def commit_def start_def sendStart_def)
  have j: "joined ol (i2\<lparr>sd_shown := x\<rparr>) (r2\<lparr>sd_shown := y\<rparr>)" for x y
    using pair by (simp add: joined_def paired_def i2_def r2_def i1_def r1_def show_sas_def Let_def sendStart_def pi_def pr_def sd_txn_def)
  have ji: "joined ol i2 r2" using j [of "sd_shown i2" "sd_shown r2"] by simp
  have jb: "calculateKeyAgreement ol (i1\<lparr>sd_theirSASPubKey := pr\<rparr>) 6 = calculateKeyAgreement ol (r1\<lparr>sd_ourSASPubKey := pr, sd_theirSASPubKey := pi\<rparr>) 6"
  proof (rule joined_bytes [OF ag])
    show "joined ol (i1\<lparr>sd_theirSASPubKey := pr\<rparr>) (r1\<lparr>sd_ourSASPubKey := pr, sd_theirSASPubKey := pi\<rparr>)"
      using pair by (simp add: joined_def paired_def i1_def r1_def sendStart_def Let_def pi_def pr_def sd_txn_def)
  qed (use roles in \<open>simp_all add: i1_def r1_def sendStart_def Let_def\<close>)
  define shown where "shown = generateSas (calculateKeyAgreement ol (i1\<lparr>sd_theirSASPubKey := pr\<rparr>) 6) SAS_LIST"
  have sh: "sd_shown i2 = Some shown" "sd_shown r2 = Some shown"
    using jb by (simp_all add: i2_def r2_def show_sas_def Let_def shown_def) (simp_all add: i1_def r1_def)
  have "sas_decimal shown \<noteq> None" "sas_emoji shown \<noteq> None"
    by (simp_all add: shown_def generateSas_def SAS_LIST_def)
  moreover have "checkMAC ol kr (sendMAC ol di ci i2) r2 = Inr (sd_dev i # crossed ci)"
    using mac_accepted [OF ag ji, of kr di ci] ki by (simp add: i2_def i1_def show_sas_def Let_def sendStart_def)
  moreover have "checkMAC ol ki (sendMAC ol dr cr r2) i2 = Inr (sd_dev r # crossed cr)"
    using mac_accepted [OF ag joined_sym [OF ji], of ki dr cr] kr by (simp add: r2_def r1_def show_sas_def Let_def)
  ultimately show ?thesis using s1 s2 s3 s4 sh by blast
qed


definition sample_olm :: "string olm" where
  "sample_olm = \<lparr>olm_pubkey = (\<lambda>a. a), olm_bytes = (\<lambda>a b info n. replicate n (of_nat (length a + length b + length info))),
     olm_mac = (\<lambda>a b m k info. m @ k @ info @ concat (sort [a, b])), olm_sha256 = (\<lambda>x. x), olm_json = (\<lambda>_. ''start'')\<rparr>"

definition sample_side :: "string \<Rightarrow> string \<Rightarrow> string \<Rightarrow> string \<Rightarrow> string \<Rightarrow> bool \<Rightarrow> string sas_side" where
  "sample_side me dev user device secret first =
     \<lparr>sd_me = me, sd_dev = dev, sd_user = user, sd_device = device, sd_secret = secret,
      sd_channel = new_ToDeviceChannel me dev user [device] (Some ''t'') (Some device), sd_initiatedByMe = first,
      sd_start = JUndef, sd_keyAgreement = [], sd_macMethod = [], sd_sasMethods = [], sd_commitment = [],
      sd_ourSASPubKey = [], sd_theirSASPubKey = [], sd_shown = None\<rparr>"

definition alice :: "string sas_side" where "alice = sample_side ''@a'' ''A'' ''@b'' ''B'' ''x'' True"
definition bob :: "string sas_side" where "bob = sample_side ''@b'' ''B'' ''@a'' ''A'' ''y'' False"

definition knows_device :: "string \<Rightarrow> known_keys" where
  "knows_device d = \<lparr>kk_devices = [(d, [(''ed25519:'' @ d, ''key'')])], kk_master = None\<rparr>"

theorem honest_sas_agrees_witness:
  "\<exists>r1 acc i1 ikey r2 rkey i2 shown.
    respond_start sample_olm (new_event 1 (JObj [(''content'', snd (sendStart 0 alice))])) bob = Inr (r1, acc) \<and>
    on_accept sample_olm acc (fst (sendStart 0 alice)) = Inr (i1, ikey) \<and>
    responder_on_key sample_olm ikey r1 = (r2, rkey) \<and> initiator_on_key sample_olm rkey i1 = Inr i2 \<and>
    sd_shown i2 = Some shown \<and> sd_shown r2 = Some shown"
proof -
  have "olm_agrees sample_olm"
    by (auto simp: olm_agrees_def sample_olm_def fun_eq_iff add.commute)
  moreover have "paired alice bob" "sd_initiatedByMe alice" "\<not> sd_initiatedByMe bob"
    by (simp_all add: alice_def bob_def sample_side_def paired_def sd_txn_def new_ToDeviceChannel_def)
  moreover have "completedContentFromEvent (sd_channel bob) (new_event 1 (JObj [(''content'', snd (sendStart 0 alice))])) = snd (sendStart 0 alice)"
    by (simp add: completedContentFromEvent_def bob_def alice_def sample_side_def new_ToDeviceChannel_def getContent_def getOriginalContent_def
        new_event_def sendStart_def Let_def completeContent_def todevice_completeContent_def needs_device_def obj_put_def js_or_def)
  moreover have "knows (knows_device ''A'') (sd_dev alice) ''key'' None" "knows (knows_device ''B'') (sd_dev bob) ''key'' None"
    by (simp_all add: knows_def knows_device_def alice_def bob_def sample_side_def)
  ultimately show ?thesis
    using honest_sas_agrees [of sample_olm alice bob "new_event 1 (JObj [(''content'', snd (sendStart 0 alice))])" 0
        "knows_device ''A''" "''key''" None "knows_device ''B''" "''key''" None] by blast
qed

theorem checkMAC_accepts_witness:
  "checkMAC sample_olm (knows_device ''A'') (JObj [(''mac'', JObj []), (''keys'', JStr (calculateMAC sample_olm bob [] (mac_info bob @ ''KEY_IDS'')))]) bob =
     Inl (VFailure ''No devices could be verified'')"
proof -
  have "is_object (jget (JObj [(''mac'', JObj []), (''keys'', JStr (calculateMAC sample_olm bob [] (mac_info bob @ ''KEY_IDS'')))]) ''mac'')" by simp
  from checkMAC_accepts [OF this, of sample_olm "knows_device ''A''" bob] show ?thesis by (simp add: Let_def known_ids_def map_filter_simps)
qed

end
