(* ===== verification/RealtimeCallbacks.thy ===== *)
theory RealtimeCallbacks
  imports Prelude
begin

text \<open>
  The timers of \<^verbatim>\<open>src/realtime-callbacks.ts\<close>: a list of callbacks sorted by the time at which they are due, driven by
  one real timer. Times are integers (milliseconds). A callback is a name; what it does when it runs is given by a program, a list of
  calls of this module, each with the time of the clock at it, which may end with an exception.
\<close>

datatype 'f action = ActSet int 'f "int option" | ActClear int nat | ActThrow

record 'f callback =
  cb_runAt :: int
  cb_func :: 'f
  cb_key :: nat

record 'f timers =
  tm_count :: nat
  tm_real :: "int option"
  tm_list :: "'f callback list"
  tm_ran :: "'f list"
  tm_errors :: nat

definition new_timers :: "'f timers" where
  "new_timers = \<lparr>tm_count = 0, tm_real = None, tm_list = [], tm_ran = [], tm_errors = 0\<rparr>"

definition TIMER_CHECK_PERIOD_MS :: int where
  "TIMER_CHECK_PERIOD_MS = 1000"

section \<open>The code\<close>

function search_from :: "('a \<Rightarrow> int) \<Rightarrow> 'a list \<Rightarrow> nat \<Rightarrow> nat \<Rightarrow> nat" where
  "search_from f xs mn mx =
     (if mn < mx
      then (let mid = (mn + mx) div 2 in
            if f (xs ! mid) > 0 then search_from f xs mn mid else search_from f xs (mid + 1) mx)
      else mn)"
  by pat_completeness auto
termination by (relation "measure (\<lambda>(f, xs, mn, mx). mx - mn)") auto

declare search_from.simps [simp del]

definition binarySearch :: "'a list \<Rightarrow> ('a \<Rightarrow> int) \<Rightarrow> nat" where
  "binarySearch xs f = search_from f xs 0 (length xs)"

text \<open>The real timer is armed for the first callback, at most a second ahead; \<open>Some d\<close> is its delay.\<close>

definition scheduleRealCallback :: "int \<Rightarrow> 'f timers \<Rightarrow> 'f timers" where
  "scheduleRealCallback now s =
     (case tm_list s of
        [] \<Rightarrow> s\<lparr>tm_real := None\<rparr>
      | first # _ \<Rightarrow> s\<lparr>tm_real := Some (min (cb_runAt first - now) TIMER_CHECK_PERIOD_MS)\<rparr>)"

definition js_delay :: "int option \<Rightarrow> int" where
  "js_delay d = (case d of None \<Rightarrow> 0 | Some ms \<Rightarrow> if ms < 0 then 0 else ms)"

definition splice_in :: "nat \<Rightarrow> 'a \<Rightarrow> 'a list \<Rightarrow> 'a list" where
  "splice_in i x xs = take i xs @ x # drop i xs"

definition rt_setTimeout :: "int \<Rightarrow> 'f \<Rightarrow> int option \<Rightarrow> 'f timers \<Rightarrow> nat \<times> 'f timers" where
  "rt_setTimeout now f delayMs s =
     (let runAt = now + js_delay delayMs; key = tm_count s;
          idx = binarySearch (tm_list s) (\<lambda>el. cb_runAt el - runAt)
      in (key, scheduleRealCallback now
                 (s\<lparr>tm_count := tm_count s + 1, tm_list := splice_in idx \<lparr>cb_runAt = runAt, cb_func = f, cb_key = key\<rparr> (tm_list s)\<rparr>)))"

text \<open>The loop of \<open>clearTimeout\<close>: the list without the callback, and the index at which the loop stopped.\<close>

fun remove_key :: "nat \<Rightarrow> nat \<Rightarrow> 'f callback list \<Rightarrow> 'f callback list \<times> nat" where
  "remove_key key i [] = ([], i)"
| "remove_key key i (c # cs) =
     (if cb_key c = key then (cs, i) else (let (rest, j) = remove_key key (i + 1) cs in (c # rest, j)))"

definition rt_clearTimeout :: "int \<Rightarrow> nat \<Rightarrow> 'f timers \<Rightarrow> 'f timers" where
  "rt_clearTimeout now key s =
     (if tm_list s = [] then s
      else (let (rest, i) = remove_key key 0 (tm_list s); s1 = s\<lparr>tm_list := rest\<rparr> in
            if i = 0 then scheduleRealCallback now s1 else s1))"

fun run_actions :: "'f action list \<Rightarrow> 'f timers \<Rightarrow> 'f timers" where
  "run_actions [] s = s"
| "run_actions (ActSet now f d # as) s = run_actions as (snd (rt_setTimeout now f d s))"
| "run_actions (ActClear now k # as) s = run_actions as (rt_clearTimeout now k s)"
| "run_actions (ActThrow # as) s = s\<lparr>tm_errors := tm_errors s + 1\<rparr>"

fun run_each :: "('f \<Rightarrow> 'f action list) \<Rightarrow> 'f callback list \<Rightarrow> 'f timers \<Rightarrow> 'f timers" where
  "run_each prog [] s = s"
| "run_each prog (c # cs) s =
     run_each prog cs (run_actions (prog (cb_func c)) (s\<lparr>tm_ran := tm_ran s @ [cb_func c]\<rparr>))"

text \<open>\<open>timestamp\<close> is the time at which the real timer fires, \<open>later\<close> the time when it is armed again.\<close>

definition runCallbacks :: "('f \<Rightarrow> 'f action list) \<Rightarrow> int \<Rightarrow> int \<Rightarrow> 'f timers \<Rightarrow> 'f timers" where
  "runCallbacks prog timestamp later s =
     run_each prog (takeWhile (\<lambda>c. cb_runAt c \<le> timestamp) (tm_list s))
       (scheduleRealCallback later (s\<lparr>tm_list := dropWhile (\<lambda>c. cb_runAt c \<le> timestamp) (tm_list s)\<rparr>))"

section \<open>Binary search\<close>

text \<open>The interface of a search over a list that the predicate divides into a front and a back.\<close>

lemma search_from_spec:
  assumes "\<And>i j. i \<le> j \<Longrightarrow> j < length xs \<Longrightarrow> f (xs ! i) > 0 \<Longrightarrow> f (xs ! j) > 0"
    and "mn \<le> mx" "mx \<le> length xs" and "\<forall>i<mn. f (xs ! i) \<le> 0" and "\<forall>i. mx \<le> i \<longrightarrow> i < length xs \<longrightarrow> f (xs ! i) > 0"
  shows "search_from f xs mn mx \<le> length xs \<and> (\<forall>i<search_from f xs mn mx. f (xs ! i) \<le> 0) \<and>
    (\<forall>i. search_from f xs mn mx \<le> i \<longrightarrow> i < length xs \<longrightarrow> f (xs ! i) > 0)"
  using assms(2-)
proof (induction "mx - mn" arbitrary: mn mx rule: less_induct)
  case less
  show ?case
  proof (cases "mn < mx")
    case False
    then have "search_from f xs mn mx = mn" by (subst search_from.simps) simp
    moreover have "mn = mx" using False less.prems(1) by simp
    ultimately show ?thesis using less.prems(2-4) by simp
  next
    case True
    define mid where "mid = (mn + mx) div 2"
    have m: "mn \<le> mid" "mid < mx" using True by (auto simp: mid_def)
    show ?thesis
    proof (cases "f (xs ! mid) > 0")
      case pos: True
      have "\<forall>i. mid \<le> i \<longrightarrow> i < length xs \<longrightarrow> f (xs ! i) > 0" using assms(1) pos by blast
      note behind = this
      have e: "search_from f xs mn mx = search_from f xs mn mid"
        using True pos by (subst search_from.simps) (simp add: mid_def Let_def)
      have "mid - mn < mx - mn" "mid \<le> length xs" using m less.prems(2) by simp_all
      from less.hyps [OF this(1) m(1) this(2) less.prems(3) behind] show ?thesis unfolding e .
    next
      case neg: False
      have "\<forall>i<mid + 1. f (xs ! i) \<le> 0"
      proof (intro allI impI, rule ccontr)
        fix i assume "i < mid + 1" "\<not> f (xs ! i) \<le> 0"
        then have "f (xs ! mid) > 0" using assms(1) [of i mid] m less.prems by auto
        then show False using neg by contradiction
      qed
      note ahead = this
      have e: "search_from f xs mn mx = search_from f xs (mid + 1) mx"
        using True neg by (subst search_from.simps) (simp add: mid_def Let_def)
      have "mx - (mid + 1) < mx - mn" "mid + 1 \<le> mx" using m by simp_all
      from less.hyps [OF this less.prems(2) ahead less.prems(4)] show ?thesis unfolding e .
    qed
  qed
qed

lemma binarySearch_spec:
  assumes "\<And>i j. i \<le> j \<Longrightarrow> j < length xs \<Longrightarrow> f (xs ! i) > 0 \<Longrightarrow> f (xs ! j) > 0"
  shows "binarySearch xs f = length (takeWhile (\<lambda>x. f x \<le> 0) xs)"
proof -
  let ?n = "binarySearch xs f"
  have s: "?n \<le> length xs" "\<forall>i<?n. f (xs ! i) \<le> 0" "\<forall>i. ?n \<le> i \<longrightarrow> i < length xs \<longrightarrow> f (xs ! i) > 0"
    using search_from_spec [of xs f 0 "length xs", OF assms] by (auto simp: binarySearch_def)
  have "takeWhile (\<lambda>x. f x \<le> 0) xs = take ?n xs"
    by (rule takeWhile_eq_take_P_nth) (use s in \<open>auto simp: not_le\<close>)
  then show ?thesis using s(1) by simp
qed

section \<open>The list stays sorted\<close>

definition before :: "'f callback \<Rightarrow> 'f callback \<Rightarrow> bool" where
  "before a b \<longleftrightarrow> cb_runAt a < cb_runAt b \<or> (cb_runAt a = cb_runAt b \<and> cb_key a < cb_key b)"

definition agenda_ok :: "'f timers \<Rightarrow> bool" where
  "agenda_ok s \<longleftrightarrow> sorted_wrt before (tm_list s) \<and> distinct (map cb_key (tm_list s)) \<and> (\<forall>c\<in>set (tm_list s). cb_key c < tm_count s)"

definition armed :: "'f timers \<Rightarrow> bool" where
  "armed s \<longleftrightarrow> (tm_list s \<noteq> [] \<longrightarrow> (\<exists>d. tm_real s = Some d \<and> d \<le> TIMER_CHECK_PERIOD_MS))"

lemma schedule_fields [simp]:
  "tm_list (scheduleRealCallback now s) = tm_list s" "tm_count (scheduleRealCallback now s) = tm_count s"
  "tm_ran (scheduleRealCallback now s) = tm_ran s"
  by (simp_all add: scheduleRealCallback_def split: list.split)

lemma armed_schedule: "armed (scheduleRealCallback now s)"
  by (auto simp: armed_def scheduleRealCallback_def split: list.split)

lemma sorted_split:
  assumes "sorted_wrt before xs"
  shows "takeWhile (\<lambda>c. cb_runAt c \<le> t) xs = filter (\<lambda>c. cb_runAt c \<le> t) xs"
    and "dropWhile (\<lambda>c. cb_runAt c \<le> t) xs = filter (\<lambda>c. t < cb_runAt c) xs"
  using assms
proof (induction xs)
  case (Cons x xs)
  have late: "\<forall>y\<in>set xs. t < cb_runAt y" if "\<not> cb_runAt x \<le> t" "sorted_wrt before (x # xs)"
    using that by (auto simp: before_def)
  {
    case 1
    show ?case using Cons.IH(1) late 1 by (cases "cb_runAt x \<le> t") (auto simp: not_le filter_False)
  next
    case 2
    show ?case using Cons.IH(2) late 2 by (cases "cb_runAt x \<le> t") (auto simp: filter_True)
  }
qed simp_all

text \<open>A new callback goes behind those that are due no later.\<close>

definition insert_due :: "'f callback \<Rightarrow> 'f callback list \<Rightarrow> 'f callback list" where
  "insert_due c xs = filter (\<lambda>x. cb_runAt x \<le> cb_runAt c) xs @ c # filter (\<lambda>x. cb_runAt c < cb_runAt x) xs"

lemma splice_due:
  assumes "sorted_wrt before xs"
  shows "splice_in (binarySearch xs (\<lambda>el. cb_runAt el - cb_runAt c)) c xs = insert_due c xs"
proof -
  have "cb_runAt (xs ! i) \<le> cb_runAt (xs ! j)" if "i \<le> j" "j < length xs" for i j
    using that assms sorted_wrt_nth_less [OF assms, of i j] by (cases "i = j") (auto simp: before_def)
  then have "binarySearch xs (\<lambda>el. cb_runAt el - cb_runAt c) = length (takeWhile (\<lambda>x. cb_runAt x \<le> cb_runAt c) xs)"
    using binarySearch_spec [of xs "\<lambda>el. cb_runAt el - cb_runAt c"] by fastforce
  then show ?thesis
    by (simp add: splice_in_def insert_due_def sorted_split [OF assms, symmetric] takeWhile_eq_take [symmetric] dropWhile_eq_drop [symmetric])
qed

lemma setTimeout_list:
  assumes "agenda_ok s"
  shows "tm_list (snd (rt_setTimeout now f d s)) = insert_due \<lparr>cb_runAt = now + js_delay d, cb_func = f, cb_key = tm_count s\<rparr> (tm_list s)"
    and "tm_count (snd (rt_setTimeout now f d s)) = tm_count s + 1"
  using splice_due [of "tm_list s" "\<lparr>cb_runAt = now + js_delay d, cb_func = f, cb_key = tm_count s\<rparr>"] assms
  by (simp_all add: rt_setTimeout_def Let_def agenda_ok_def)

lemma insert_due_sorted:
  assumes "sorted_wrt before xs" and "\<forall>x\<in>set xs. cb_key x < cb_key c"
  shows "sorted_wrt before (insert_due c xs)"
  using assms by (auto simp: insert_due_def sorted_wrt_append sorted_wrt_filter before_def)

lemma insert_due_keys:
  assumes "distinct (map cb_key xs)" and fresh: "\<forall>x\<in>set xs. cb_key x < cb_key c"
  shows "distinct (map cb_key (insert_due c xs))"
proof -
  let ?early = "filter (\<lambda>x. cb_runAt x \<le> cb_runAt c) xs" and ?late = "filter (\<lambda>x. cb_runAt c < cb_runAt x) xs"
  have inj: "inj_on cb_key (set xs)" using assms(1) by (simp add: distinct_map)
  have "cb_key ` set ?early \<inter> cb_key ` set ?late = cb_key ` (set ?early \<inter> set ?late)"
    by (rule inj_on_image_Int [OF inj, symmetric]) auto
  then have "cb_key ` set ?early \<inter> cb_key ` set ?late = {}" by (auto simp del: set_filter) (auto simp: set_filter)
  moreover have "distinct (map cb_key ?early)" "distinct (map cb_key ?late)"
    by (rule distinct_map_filter [OF assms(1)])+
  moreover have "cb_key c \<notin> cb_key ` set ?early" "cb_key c \<notin> cb_key ` set ?late" using fresh by force+
  ultimately show ?thesis by (simp add: insert_due_def del: set_filter)
qed

lemma ok_setTimeout [inv_intros]: "agenda_ok s \<Longrightarrow> agenda_ok (snd (rt_setTimeout now f d s))"
proof -
  assume ok: "agenda_ok s"
  let ?c = "\<lparr>cb_runAt = now + js_delay d, cb_func = f, cb_key = tm_count s\<rparr>"
  have k: "\<forall>x\<in>set (tm_list s). cb_key x < cb_key ?c" using ok by (simp add: agenda_ok_def)
  have "sorted_wrt before (insert_due ?c (tm_list s))" "distinct (map cb_key (insert_due ?c (tm_list s)))"
    using insert_due_sorted [OF _ k] insert_due_keys [OF _ k] ok by (simp_all add: agenda_ok_def)
  moreover have "\<forall>x\<in>set (insert_due ?c (tm_list s)). cb_key x < tm_count s + 1"
    using k by (auto simp: insert_due_def)
  ultimately show ?thesis unfolding agenda_ok_def setTimeout_list [OF ok] by blast
qed

lemma remove_key_filter: "distinct (map cb_key xs) \<Longrightarrow> fst (remove_key k i xs) = filter (\<lambda>c. cb_key c \<noteq> k) xs"
proof (induction xs arbitrary: i)
  case (Cons x xs)
  have "filter (\<lambda>c. cb_key c \<noteq> cb_key x) xs = xs" 
    by (rule filter_True) (use Cons.prems in \<open>auto simp: image_iff eq_commute\<close>)
  then show ?case using Cons by (auto simp: split_beta)
qed simp

lemma clear_fields:
  assumes "agenda_ok s"
  shows "tm_list (rt_clearTimeout now k s) = filter (\<lambda>c. cb_key c \<noteq> k) (tm_list s)"
    and "tm_count (rt_clearTimeout now k s) = tm_count s" and "tm_ran (rt_clearTimeout now k s) = tm_ran s"
  using remove_key_filter [of "tm_list s" k 0] assms by (auto simp: rt_clearTimeout_def agenda_ok_def split_beta Let_def)

lemma ok_filter: "agenda_ok s \<Longrightarrow> agenda_ok (s\<lparr>tm_list := filter P (tm_list s)\<rparr>)"
  by (auto simp: agenda_ok_def sorted_wrt_filter distinct_map inj_on_def)

lemma agenda_cong: "tm_list s' = tm_list s \<Longrightarrow> tm_count s' = tm_count s \<Longrightarrow> agenda_ok s' = agenda_ok s"
  by (simp add: agenda_ok_def)

lemma ok_clearTimeout [inv_intros]: "agenda_ok s \<Longrightarrow> agenda_ok (rt_clearTimeout now k s)"
  using agenda_cong [of "rt_clearTimeout now k s" "s\<lparr>tm_list := filter (\<lambda>c. cb_key c \<noteq> k) (tm_list s)\<rparr>"] ok_filter [of s] clear_fields [of s now k]
  by simp

lemma armed_setTimeout: "armed (snd (rt_setTimeout now f d s))"
  by (simp add: rt_setTimeout_def Let_def armed_schedule)

text \<open>A callback that is not the first can be cleared without arming the timer again: the first one stays.\<close>

lemma armed_clearTimeout: "armed s \<Longrightarrow> armed (rt_clearTimeout now k s)"
proof -
  assume a: "armed s"
  show ?thesis
  proof (cases "tm_list s = [] \<or> snd (remove_key k 0 (tm_list s)) = 0")
    case True
    then show ?thesis using a by (auto simp: rt_clearTimeout_def split_beta Let_def armed_schedule)
  next
    case False
    then show ?thesis using a by (auto simp: rt_clearTimeout_def split_beta Let_def armed_def)
  qed
qed

lemma setTimeout_ran: "tm_ran (snd (rt_setTimeout now f d s)) = tm_ran s"
  by (simp add: rt_setTimeout_def Let_def)

lemma run_actions_keeps:
  assumes "agenda_ok s" "armed s"
  shows "agenda_ok (run_actions as s) \<and> armed (run_actions as s) \<and> tm_ran (run_actions as s) = tm_ran s"
  using assms
proof (induction as s rule: run_actions.induct)
  case (2 now f d as s)
  then show ?case using ok_setTimeout armed_setTimeout setTimeout_ran by (metis run_actions.simps(2))
next
  case (3 now k as s)
  then show ?case using ok_clearTimeout armed_clearTimeout clear_fields(3) by (metis run_actions.simps(3))
qed (simp_all add: agenda_ok_def armed_def)

lemma run_each_keeps:
  assumes "agenda_ok s" "armed s"
  shows "agenda_ok (run_each prog cs s) \<and> armed (run_each prog cs s) \<and> tm_ran (run_each prog cs s) = tm_ran s @ map cb_func cs"
  using assms
proof (induction cs arbitrary: s)
  case (Cons c cs)
  let ?s = "s\<lparr>tm_ran := tm_ran s @ [cb_func c]\<rparr>"
  have "agenda_ok ?s" "armed ?s" using Cons.prems by (simp_all add: agenda_ok_def armed_def)
  from run_actions_keeps [OF this, of "prog (cb_func c)"] show ?case using Cons.IH by simp
qed simp

lemma runCallbacks_effect:
  assumes "agenda_ok s"
  shows "agenda_ok (runCallbacks prog timestamp later s)" and "armed (runCallbacks prog timestamp later s)"
    and "tm_ran (runCallbacks prog timestamp later s) = tm_ran s @ map cb_func (filter (\<lambda>c. cb_runAt c \<le> timestamp) (tm_list s))"
proof -
  have sp: "sorted_wrt before (tm_list s)" using assms by (simp add: agenda_ok_def)
  let ?s = "scheduleRealCallback later (s\<lparr>tm_list := dropWhile (\<lambda>c. cb_runAt c \<le> timestamp) (tm_list s)\<rparr>)"
  have "agenda_ok ?s" using ok_filter [OF assms] by (simp add: agenda_ok_def sorted_split [OF sp])
  from run_each_keeps [OF this armed_schedule]
  show "agenda_ok (runCallbacks prog timestamp later s)" "armed (runCallbacks prog timestamp later s)"
    "tm_ran (runCallbacks prog timestamp later s) = tm_ran s @ map cb_func (filter (\<lambda>c. cb_runAt c \<le> timestamp) (tm_list s))"
    by (simp_all add: runCallbacks_def sorted_split [OF sp])
qed

text \<open>Any sequence of calls, and the real timer firing at any time with callbacks that do anything.\<close>

inductive tm_reach :: "'f timers \<Rightarrow> bool" where
  tm_new: "tm_reach new_timers"
| tm_set: "tm_reach s \<Longrightarrow> tm_reach (snd (rt_setTimeout now f d s))"
| tm_clear: "tm_reach s \<Longrightarrow> tm_reach (rt_clearTimeout now k s)"
| tm_fire: "tm_reach s \<Longrightarrow> tm_reach (runCallbacks prog timestamp later s)"

lemma tm_reach_ok: "tm_reach s \<Longrightarrow> agenda_ok s \<and> armed s"
proof (induction rule: tm_reach.induct)
  case tm_new
  then show ?case by (simp add: agenda_ok_def armed_def new_timers_def)
qed (simp_all add: ok_setTimeout armed_setTimeout ok_clearTimeout armed_clearTimeout runCallbacks_effect)

text \<open>
  C19. The timers never miss a callback: in every reachable state the list is sorted by due time and age, the real timer is armed at most
  a second ahead whenever something is pending, and when it fires, exactly the callbacks that are due run, in the order of due time and
  age, whatever the callbacks themselves set, clear or throw.
\<close>

theorem timers_never_miss:
  assumes "tm_reach s"
  shows "sorted_wrt before (tm_list s) \<and> (tm_list s \<noteq> [] \<longrightarrow> (\<exists>d. tm_real s = Some d \<and> d \<le> TIMER_CHECK_PERIOD_MS)) \<and>
    tm_ran (runCallbacks prog timestamp later s) = tm_ran s @ map cb_func (filter (\<lambda>c. cb_runAt c \<le> timestamp) (tm_list s))"
  using tm_reach_ok [OF assms] runCallbacks_effect(3) [of s prog timestamp later] by (auto simp: agenda_ok_def armed_def)

definition sample_timers :: "string timers" where
  "sample_timers = snd (rt_setTimeout 0 ''b'' (Some 5) (snd (rt_setTimeout 0 ''a'' None (snd (rt_setTimeout 0 ''c'' (Some 5) new_timers)))))"

lemma sample_timers_reach: "tm_reach sample_timers"
  unfolding sample_timers_def by (intro tm_reach.intros)

theorem timers_never_miss_witness:
  "tm_ran (runCallbacks (\<lambda>_. [ActThrow]) 5 5 sample_timers) = [''a'', ''c'', ''b''] \<and> tm_real sample_timers = Some 0"
proof -
  have "tm_ran sample_timers = []" "map cb_func (filter (\<lambda>c. cb_runAt c \<le> 5) (tm_list sample_timers)) = [''a'', ''c'', ''b'']"
    "tm_real sample_timers = Some 0"
    by code_simp+
  then show ?thesis using timers_never_miss [OF sample_timers_reach, of "\<lambda>_. [ActThrow]" 5 5] by simp
qed

section \<open>Divergences\<close>

text \<open>
  A callback that is due together with the one that clears it still runs: \<open>a\<close>, which is number 1, clears \<open>c\<close>, number 0.
\<close>

lemma cleared_still_runs:
  "tm_ran (runCallbacks (\<lambda>f. if f = ''a'' then [ActClear 5 0] else []) 5 5 sample_timers) = [''a'', ''c'', ''b'']"
  by code_simp

end
