(* ===== verification/Relations.thy ===== *)
theory Relations
  imports Event
begin

text \<open>
  The containers of \<^verbatim>\<open>models/relations.ts\<close>: the events that relate to one event by one relation type, with annotations
  counted by key and sender and the latest replacement applied to the event they relate to. Event objects are shared and mutated, so they
  live in a heap (\<open>rl_heap\<close>) under their identity. What follows an \<open>await\<close> is a task that carries the replacement found before it.
\<close>

datatype rel_emission = RelAdd nat | RelRemove nat | RelRedaction nat | RelCreated

datatype rel_cont = AfterAdd nat | AfterRemove nat | AfterRedaction nat | AfterTarget

record relations =
  rl_type :: string
  rl_eventType :: string
  rl_heap :: "nat \<Rightarrow> mx_event"
  rl_ids :: "string option list"
  rl_events :: "nat list"
  rl_byKey :: "(string, nat list) dict"
  rl_bySender :: "(string option, nat list) dict"
  rl_sorted :: "string list"
  rl_target :: "nat option"
  rl_created :: bool
  rl_onStatus :: "nat list"
  rl_onRedaction :: "nat list"
  rl_emitted :: "rel_emission list"
  rl_tasks :: "(rel_cont \<times> nat option) list"
  rl_rejected :: nat

definition new_relations :: "string \<Rightarrow> string \<Rightarrow> (nat \<Rightarrow> mx_event) \<Rightarrow> relations" where
  "new_relations relationType eventType heap =
     \<lparr>rl_type = relationType, rl_eventType = eventType, rl_heap = heap, rl_ids = [], rl_events = [], rl_byKey = [], rl_bySender = [],
      rl_sorted = [], rl_target = None, rl_created = False, rl_onStatus = [], rl_onRedaction = [], rl_emitted = [], rl_tasks = [],
      rl_rejected = 0\<rparr>"

section \<open>The code\<close>

text \<open>A \<open>Set\<close> keeps the order of insertion.\<close>

definition set_add :: "'a \<Rightarrow> 'a list \<Rightarrow> 'a list" where
  "set_add x xs = (if x \<in> set xs then xs else xs @ [x])"

definition set_delete :: "'a \<Rightarrow> 'a list \<Rightarrow> 'a list" where
  "set_delete x xs = filter (\<lambda>y. y \<noteq> x) xs"

definition events_of :: "('k, nat list) dict \<Rightarrow> 'k \<Rightarrow> nat list" where
  "events_of d k = (case dget d k of Some is \<Rightarrow> is | None \<Rightarrow> [])"

text \<open>
  The pairs of \<open>sortedAnnotationsByKey\<close> share their sets with \<open>annotationsByKey\<close>, so the list of keys stands for them. The sort is
  stable and descending in the number of events.
\<close>

definition resort :: "relations \<Rightarrow> relations" where
  "resort r = r\<lparr>rl_sorted := sort_key (\<lambda>k. - int (length (events_of (rl_byKey r) k))) (rl_sorted r)\<rparr>"

text \<open>
  \<open>annotationsByKey\<close> is a plain object: for a key that every object inherits the lookup finds a function, which has no \<open>add\<close> or
  \<open>delete\<close>, and the call throws (\<open>None\<close>), as it does when the event has no relation any more.
\<close>

definition addAnnotationToAggregation :: "nat \<Rightarrow> relations \<Rightarrow> relations option" where
  "addAnnotationToAggregation i r =
     (case getRelation (rl_heap r i) of
        None \<Rightarrow> None
      | Some relation \<Rightarrow>
          (case as_str (jget relation ''key'') of
             None \<Rightarrow> Some r
           | Some [] \<Rightarrow> Some r
           | Some key \<Rightarrow>
               if key \<in> set object_prototype_names then None
               else
                 let r1 = (if dget (rl_byKey r) key = None
                           then r\<lparr>rl_byKey := dset key [] (rl_byKey r), rl_sorted := rl_sorted r @ [key]\<rparr> else r);
                     r2 = resort (r1\<lparr>rl_byKey := dset key (set_add i (events_of (rl_byKey r1) key)) (rl_byKey r1)\<rparr>);
                     sender = getSender (rl_heap r i)
                 in Some (r2\<lparr>rl_bySender := dset sender (set_add i (events_of (rl_bySender r2) sender)) (rl_bySender r2)\<rparr>)))"

definition removeAnnotationFromAggregation :: "nat \<Rightarrow> relations \<Rightarrow> relations option" where
  "removeAnnotationFromAggregation i r =
     (case getRelation (rl_heap r i) of
        None \<Rightarrow> None
      | Some relation \<Rightarrow>
          (case as_str (jget relation ''key'') of
             None \<Rightarrow> Some r
           | Some [] \<Rightarrow> Some r
           | Some key \<Rightarrow>
               if key \<in> set object_prototype_names then None
               else
                 let r1 = (case dget (rl_byKey r) key of
                             Some is \<Rightarrow> resort (r\<lparr>rl_byKey := dset key (set_delete i is) (rl_byKey r)\<rparr>)
                           | None \<Rightarrow> r);
                     sender = getSender (rl_heap r i)
                 in Some (case dget (rl_bySender r1) sender of
                            Some is \<Rightarrow> r1\<lparr>rl_bySender := dset sender (set_delete i is) (rl_bySender r1)\<rparr>
                          | None \<Rightarrow> r1)))"

text \<open>The reduction of \<open>getLastReplacement\<close>; \<open>>\<close> is false when a side is undefined.\<close>

definition js_gt :: "rat option \<Rightarrow> rat option \<Rightarrow> bool" where
  "js_gt a b = (case a of None \<Rightarrow> False | Some x \<Rightarrow> (case b of None \<Rightarrow> False | Some y \<Rightarrow> x > y))"

definition min_replacement_ts :: "mx_event \<Rightarrow> rat option" where
  "min_replacement_ts t =
     (let replaceRelation = getServerAggregatedRelation t ''m.replace'' in
      if truthy (jget replaceRelation ''origin_server_ts'') then as_num (jget replaceRelation ''origin_server_ts'') else None)"

definition later_replacement :: "(nat \<Rightarrow> mx_event) \<Rightarrow> mx_event \<Rightarrow> nat \<Rightarrow> nat option \<Rightarrow> nat option" where
  "later_replacement heap t i found =
     (if getSender (heap i) \<noteq> getSender t then found
      else if js_gt (min_replacement_ts t) (getTs (heap i)) then found
      else case found of
             Some l \<Rightarrow> if js_gt (getTs (heap l)) (getTs (heap i)) then found else Some i
           | None \<Rightarrow> Some i)"

definition getLastReplacement :: "relations \<Rightarrow> nat option" where
  "getLastReplacement r =
     (if rl_type r \<noteq> ''m.replace'' then None
      else case rl_target r of
             None \<Rightarrow> None
           | Some t \<Rightarrow> fold (later_replacement (rl_heap r) (rl_heap r t)) (rl_events r) None)"

definition maybeEmitCreated :: "relations \<Rightarrow> relations" where
  "maybeEmitCreated r =
     (if rl_created r then r
      else if rl_target r = None \<or> rl_events r = [] then r
      else r\<lparr>rl_created := True, rl_emitted := rl_emitted r @ [RelCreated]\<rparr>)"

definition after_added :: "nat \<Rightarrow> relations \<Rightarrow> relations" where
  "after_added i r =
     maybeEmitCreated (r\<lparr>rl_onRedaction := rl_onRedaction r @ [i], rl_emitted := rl_emitted r @ [RelAdd i]\<rparr>)"

definition await_replacement :: "rel_cont \<Rightarrow> relations \<Rightarrow> relations" where
  "await_replacement c r = r\<lparr>rl_tasks := rl_tasks r @ [(c, getLastReplacement r)]\<rparr>"

definition reject :: "relations \<Rightarrow> relations" where
  "reject r = r\<lparr>rl_rejected := rl_rejected r + 1\<rparr>"

definition belongs :: "relations \<Rightarrow> nat \<Rightarrow> bool" where
  "belongs r i \<longleftrightarrow>
     (case getRelation (rl_heap r i) of
        None \<Rightarrow> False
      | Some relation \<Rightarrow> jget relation ''rel_type'' = JStr (rl_type r) \<and> getType (rl_heap r i) = Some (rl_eventType r))"

definition rel_addEvent :: "nat \<Rightarrow> relations \<Rightarrow> relations" where
  "rel_addEvent i r =
     (if getId (rl_heap r i) \<in> set (rl_ids r) then r
      else if \<not> belongs r i then r
      else
        let r1 = (if isSending (rl_heap r i) then r\<lparr>rl_onStatus := rl_onStatus r @ [i]\<rparr> else r);
            r2 = r1\<lparr>rl_events := set_add i (rl_events r1), rl_ids := set_add (getId (rl_heap r i)) (rl_ids r1)\<rparr>
        in if rl_type r = ''m.annotation''
           then (case addAnnotationToAggregation i r2 of None \<Rightarrow> reject r2 | Some r3 \<Rightarrow> after_added i r3)
           else if rl_type r = ''m.replace'' \<and> rl_target r \<noteq> None then await_replacement (AfterAdd i) r2
           else after_added i r2)"

definition emit_rel :: "rel_emission \<Rightarrow> relations \<Rightarrow> relations" where
  "emit_rel e r = r\<lparr>rl_emitted := rl_emitted r @ [e]\<rparr>"

definition rel_removeEvent :: "nat \<Rightarrow> relations \<Rightarrow> relations" where
  "rel_removeEvent i r =
     (if i \<notin> set (rl_events r) then r
      else if \<not> belongs r i then r
      else
        let r1 = r\<lparr>rl_events := set_delete i (rl_events r)\<rparr> in
        if rl_type r = ''m.annotation''
        then (case removeAnnotationFromAggregation i r1 of None \<Rightarrow> reject r1 | Some r2 \<Rightarrow> emit_rel (RelRemove i) r2)
        else if rl_type r = ''m.replace'' \<and> rl_target r \<noteq> None then await_replacement (AfterRemove i) r1
        else emit_rel (RelRemove i) r1)"

definition onEventStatus :: "nat \<Rightarrow> event_status option \<Rightarrow> relations \<Rightarrow> relations" where
  "onEventStatus i st r =
     (if \<not> isSending (rl_heap r i) then r\<lparr>rl_onStatus := remove1 i (rl_onStatus r)\<rparr>
      else if st \<noteq> Some CANCELLED then r
      else rel_removeEvent i (r\<lparr>rl_onStatus := remove1 i (rl_onStatus r)\<rparr>))"

definition after_redacted :: "nat \<Rightarrow> relations \<Rightarrow> relations" where
  "after_redacted i r = emit_rel (RelRedaction i) (r\<lparr>rl_onRedaction := remove1 i (rl_onRedaction r)\<rparr>)"

definition onBeforeRedaction :: "nat \<Rightarrow> relations \<Rightarrow> relations" where
  "onBeforeRedaction i r =
     (if i \<notin> set (rl_events r) then r
      else
        let r1 = r\<lparr>rl_events := set_delete i (rl_events r)\<rparr> in
        if rl_type r = ''m.annotation''
        then (case removeAnnotationFromAggregation i r1 of None \<Rightarrow> reject r1 | Some r2 \<Rightarrow> after_redacted i r2)
        else if rl_type r = ''m.replace'' \<and> rl_target r \<noteq> None then await_replacement (AfterRedaction i) r1
        else after_redacted i r1)"

definition setTargetEvent :: "nat \<Rightarrow> relations \<Rightarrow> relations" where
  "setTargetEvent t r =
     (if rl_target r \<noteq> None then r
      else
        let r1 = r\<lparr>rl_target := Some t\<rparr> in
        if rl_type r = ''m.replace'' then await_replacement AfterTarget r1 else maybeEmitCreated r1)"

definition replace_target :: "nat option \<Rightarrow> relations \<Rightarrow> relations" where
  "replace_target found r =
     (case rl_target r of
        None \<Rightarrow> r
      | Some t \<Rightarrow> r\<lparr>rl_heap := (rl_heap r)(t := makeReplaced (map_option (rl_heap r) found) (rl_heap r t))\<rparr>)"

fun run_rel :: "rel_cont \<times> nat option \<Rightarrow> relations \<Rightarrow> relations" where
  "run_rel (AfterAdd i, found) r = after_added i (replace_target found r)"
| "run_rel (AfterRemove i, found) r = emit_rel (RelRemove i) (replace_target found r)"
| "run_rel (AfterRedaction i, found) r = after_redacted i (replace_target found r)"
| "run_rel (AfterTarget, found) r = maybeEmitCreated (if found = None then r else replace_target found r)"

definition getSortedAnnotationsByKey :: "relations \<Rightarrow> (string \<times> nat list) list option" where
  "getSortedAnnotationsByKey r =
     (if rl_type r \<noteq> ''m.annotation'' then None else Some (map (\<lambda>k. (k, events_of (rl_byKey r) k)) (rl_sorted r)))"

definition getAnnotationsBySender :: "relations \<Rightarrow> (string option, nat list) dict option" where
  "getAnnotationsBySender r = (if rl_type r \<noteq> ''m.annotation'' then None else Some (rl_bySender r))"

text \<open>An event emits to as many listeners as are registered when it emits.\<close>

definition status_changes :: "nat \<Rightarrow> event_status option \<Rightarrow> relations \<Rightarrow> relations" where
  "status_changes i st r =
     fold (\<lambda>_. onEventStatus i st) (filter (\<lambda>j. j = i) (rl_onStatus r)) (r\<lparr>rl_heap := (rl_heap r)(i := setStatus st (rl_heap r i))\<rparr>)"

definition redaction_announced :: "nat \<Rightarrow> relations \<Rightarrow> relations" where
  "redaction_announced i r = fold (\<lambda>_. onBeforeRedaction i) (filter (\<lambda>j. j = i) (rl_onRedaction r)) r"

section \<open>Annotations\<close>

definition annotation_key :: "mx_event \<Rightarrow> string option" where
  "annotation_key e =
     (case getRelation e of
        None \<Rightarrow> None
      | Some relation \<Rightarrow>
          (case as_str (jget relation ''key'') of
             Some (c # cs) \<Rightarrow> if c # cs \<in> set object_prototype_names then None else Some (c # cs)
           | _ \<Rightarrow> None))"

text \<open>The groups agree with the list of the events, and the keys are sorted.\<close>

definition ranked :: "relations \<Rightarrow> bool" where
  "ranked r \<longleftrightarrow> distinct (rl_sorted r) \<and> set (rl_sorted r) = dom (map_of (rl_byKey r)) \<and>
     sorted_wrt (\<lambda>a b. length (events_of (rl_byKey r) b) \<le> length (events_of (rl_byKey r) a)) (rl_sorted r)"

definition grouped :: "relations \<Rightarrow> nat list \<Rightarrow> bool" where
  "grouped r is \<longleftrightarrow>
     (\<forall>k. events_of (rl_byKey r) k = filter (\<lambda>i. annotation_key (rl_heap r i) = Some k) is) \<and>
     (\<forall>s. events_of (rl_bySender r) s = filter (\<lambda>i. annotation_key (rl_heap r i) \<noteq> None \<and> getSender (rl_heap r i) = s) is)"

lemma events_of_dset: "events_of (dset k v d) j = (if j = k then v else events_of d j)"
  by (simp add: events_of_def dict_simps)

lemma filter_set_add: "filter P (set_add i is) = (if P i then set_add i (filter P is) else filter P is)"
  by (auto simp: set_add_def)

lemma filter_set_delete: "filter P (set_delete i is) = set_delete i (filter P is)"
  unfolding set_delete_def filter_filter by (rule filter_cong) auto

lemma set_delete_absent: "i \<notin> set is \<Longrightarrow> set_delete i is = is"
  unfolding set_delete_def by (rule filter_True) auto

lemma resort_fields [simp]:
  "rl_heap (resort r) = rl_heap r" "rl_events (resort r) = rl_events r" "rl_byKey (resort r) = rl_byKey r"
  "rl_bySender (resort r) = rl_bySender r" "set (rl_sorted (resort r)) = set (rl_sorted r)" "rl_type (resort r) = rl_type r"
  "distinct (rl_sorted (resort r)) = distinct (rl_sorted r)"
  by (simp_all add: resort_def)

lemma ranked_resort:
  assumes "distinct (rl_sorted r)" "set (rl_sorted r) = dom (map_of (rl_byKey r))"
  shows "ranked (resort r)"
proof -
  have "sorted (map (\<lambda>k. - int (length (events_of (rl_byKey r) k))) (rl_sorted (resort r)))"
    by (simp add: resort_def)
  then show ?thesis using assms by (simp add: ranked_def sorted_map)
qed

lemma add_annotation_keyed:
  assumes "annotation_key (rl_heap r i) = Some k"
  shows "\<exists>r'. addAnnotationToAggregation i r = Some r' \<and>
    events_of (rl_byKey r') = (events_of (rl_byKey r))(k := set_add i (events_of (rl_byKey r) k)) \<and>
    events_of (rl_bySender r') =
      (events_of (rl_bySender r))(getSender (rl_heap r i) := set_add i (events_of (rl_bySender r) (getSender (rl_heap r i)))) \<and>
    rl_heap r' = rl_heap r \<and> rl_events r' = rl_events r \<and> rl_type r' = rl_type r \<and> (ranked r \<longrightarrow> ranked r')"
proof -
  let ?s = "getSender (rl_heap r i)"
  let ?r1 = "if dget (rl_byKey r) k = None then r\<lparr>rl_byKey := dset k [] (rl_byKey r), rl_sorted := rl_sorted r @ [k]\<rparr> else r"
  let ?r2 = "?r1\<lparr>rl_byKey := dset k (set_add i (events_of (rl_byKey ?r1) k)) (rl_byKey ?r1)\<rparr>"
  let ?r' = "resort ?r2\<lparr>rl_bySender := dset ?s (set_add i (events_of (rl_bySender ?r2) ?s)) (rl_bySender ?r2)\<rparr>"
  have run: "addAnnotationToAggregation i r = Some ?r'"
    using assms by (auto simp: addAnnotationToAggregation_def annotation_key_def Let_def split: option.splits list.splits if_splits)
  have "ranked ?r'" if "ranked r"
  proof -
    have "distinct (rl_sorted ?r2)" "set (rl_sorted ?r2) = dom (map_of (rl_byKey ?r2))"
      using that by (auto simp: ranked_def dom_def dict_simps split: if_splits)
    from ranked_resort [OF this] show ?thesis by (simp add: ranked_def)
  qed
  then show ?thesis
    by (intro exI [of _ ?r'] conjI run)
      (auto simp: fun_eq_iff events_of_dset, auto simp: events_of_def)
qed

lemma add_annotation_unkeyed:
  assumes "annotation_key (rl_heap r i) = None"
  shows "addAnnotationToAggregation i r \<in> {None, Some r}"
  using assms by (auto simp: addAnnotationToAggregation_def annotation_key_def split: option.splits list.splits if_splits)

lemma add_annotation:
  assumes "grouped r is" "ranked r"
  shows "case addAnnotationToAggregation i r of
      None \<Rightarrow> grouped r (set_add i is)
    | Some r' \<Rightarrow> grouped r' (set_add i is) \<and> ranked r' \<and> rl_heap r' = rl_heap r \<and> rl_events r' = rl_events r \<and> rl_type r' = rl_type r"
proof (cases "annotation_key (rl_heap r i)")
  case None
  then have "grouped r (set_add i is)" using assms(1) by (simp add: grouped_def filter_set_add)
  then show ?thesis using add_annotation_unkeyed [OF None] assms(2) by auto
next
  case (Some k)
  then show ?thesis using add_annotation_keyed [OF Some] assms by (auto simp: grouped_def filter_set_add)
qed

lemma remove_annotation_keyed:
  assumes "annotation_key (rl_heap r i) = Some k"
  shows "\<exists>r'. removeAnnotationFromAggregation i r = Some r' \<and>
    events_of (rl_byKey r') = (events_of (rl_byKey r))(k := set_delete i (events_of (rl_byKey r) k)) \<and>
    events_of (rl_bySender r') =
      (events_of (rl_bySender r))(getSender (rl_heap r i) := set_delete i (events_of (rl_bySender r) (getSender (rl_heap r i)))) \<and>
    rl_heap r' = rl_heap r \<and> rl_events r' = rl_events r \<and> rl_type r' = rl_type r \<and> (ranked r \<longrightarrow> ranked r')"
proof -
  let ?s = "getSender (rl_heap r i)"
  let ?r1 = "case dget (rl_byKey r) k of Some is \<Rightarrow> resort (r\<lparr>rl_byKey := dset k (set_delete i is) (rl_byKey r)\<rparr>) | None \<Rightarrow> r"
  let ?r' = "case dget (rl_bySender ?r1) ?s of Some is \<Rightarrow> ?r1\<lparr>rl_bySender := dset ?s (set_delete i is) (rl_bySender ?r1)\<rparr> | None \<Rightarrow> ?r1"
  have run: "removeAnnotationFromAggregation i r = Some ?r'"
    using assms by (auto simp: removeAnnotationFromAggregation_def annotation_key_def Let_def split: option.splits list.splits if_splits)
  have "ranked ?r1" if "ranked r"
  proof (cases "dget (rl_byKey r) k")
    case (Some ns)
    let ?r2 = "r\<lparr>rl_byKey := dset k (set_delete i ns) (rl_byKey r)\<rparr>"
    have "distinct (rl_sorted ?r2)" "set (rl_sorted ?r2) = dom (map_of (rl_byKey ?r2))"
      using that Some by (auto simp: ranked_def dom_def dict_simps split: if_splits)
    from ranked_resort [OF this] show ?thesis using Some by simp
  qed (use that in simp)
  then have "ranked ?r'" if "ranked r" using that by (auto simp: ranked_def split: option.splits)
  then show ?thesis
    by (intro exI [of _ ?r'] conjI run)
      (auto simp: fun_eq_iff events_of_dset set_delete_def split: option.splits, auto simp: events_of_def split: option.splits)
qed

lemma remove_annotation:
  assumes "grouped r is" "ranked r"
  shows "case removeAnnotationFromAggregation i r of
      None \<Rightarrow> grouped r (set_delete i is)
    | Some r' \<Rightarrow> grouped r' (set_delete i is) \<and> ranked r' \<and> rl_heap r' = rl_heap r \<and> rl_events r' = rl_events r \<and> rl_type r' = rl_type r"
proof (cases "annotation_key (rl_heap r i)")
  case None
  have "filter P (set_delete i is) = filter P is" if "\<not> P i" for P
    using that by (simp add: filter_set_delete set_delete_absent)
  then have "grouped r (set_delete i is)" using assms(1) None by (simp add: grouped_def)
  moreover have "removeAnnotationFromAggregation i r \<in> {None, Some r}"
    using None by (auto simp: removeAnnotationFromAggregation_def annotation_key_def split: option.splits list.splits if_splits)
  ultimately show ?thesis using assms(2) by auto
next
  case (Some k)
  have "filter P (set_delete i is) = filter P is" if "\<not> P i" for P
    using that by (simp add: filter_set_delete set_delete_absent)
  then show ?thesis using remove_annotation_keyed [OF Some] assms Some by (auto simp: grouped_def filter_set_delete)
qed

section \<open>Steps\<close>

text \<open>
  What the rest of the program may do to an event: anything, but an event of the container keeps its key and its sender (a redaction is
  announced first, and takes the event out). In the strict variant it keeps its time, too, the event that the relations are about
  keeps what concerns them and is not redacted, and the tasks run in the order in which they were queued.
\<close>

definition keeps_event :: "bool \<Rightarrow> relations \<Rightarrow> nat \<Rightarrow> mx_event \<Rightarrow> bool" where
  "keeps_event strict r i e \<longleftrightarrow> ev_ref e = i \<and>
     (i \<in> set (rl_events r) \<longrightarrow> annotation_key e = annotation_key (rl_heap r i) \<and> getSender e = getSender (rl_heap r i) \<and>
        (strict \<longrightarrow> getTs e = getTs (rl_heap r i))) \<and>
     (strict \<longrightarrow> rl_target r = Some i \<longrightarrow> getSender e = getSender (rl_heap r i) \<and> replacingEvent e = replacingEvent (rl_heap r i) \<and>
        min_replacement_ts e = min_replacement_ts (rl_heap r i) \<and> \<not> isRedacted e)"

inductive rel_reach :: "bool \<Rightarrow> relations \<Rightarrow> bool" for strict where
  rel_new: "(\<And>i. ev_ref (heap i) = i) \<Longrightarrow> rel_reach strict (new_relations relationType eventType heap)"
| rel_add: "rel_reach strict r \<Longrightarrow> rel_reach strict (rel_addEvent i r)"
| rel_target: "rel_reach strict r \<Longrightarrow> strict \<longrightarrow> replacingEvent (rl_heap r t) = None \<and> \<not> isRedacted (rl_heap r t) \<Longrightarrow>
    rel_reach strict (setTargetEvent t r)"
| rel_status: "rel_reach strict r \<Longrightarrow> rel_reach strict (status_changes i st r)"
| rel_redaction: "rel_reach strict r \<Longrightarrow> rel_reach strict (redaction_announced i r)"
| rel_change: "rel_reach strict r \<Longrightarrow> keeps_event strict r i e \<Longrightarrow> rel_reach strict (r\<lparr>rl_heap := (rl_heap r)(i := e)\<rparr>)"
| rel_run: "rel_reach strict r \<Longrightarrow> n < length (rl_tasks r) \<Longrightarrow> strict \<longrightarrow> n = 0 \<Longrightarrow>
    rel_reach strict (run_rel (rl_tasks r ! n) (r\<lparr>rl_tasks := take n (rl_tasks r) @ drop (Suc n) (rl_tasks r)\<rparr>))"

definition same_groups :: "relations \<Rightarrow> relations \<Rightarrow> bool" where
  "same_groups r r' \<longleftrightarrow> rl_type r' = rl_type r \<and> rl_events r' = rl_events r \<and> rl_byKey r' = rl_byKey r \<and>
     rl_bySender r' = rl_bySender r \<and> rl_sorted r' = rl_sorted r \<and>
     (\<forall>i\<in>set (rl_events r). annotation_key (rl_heap r' i) = annotation_key (rl_heap r i) \<and> getSender (rl_heap r' i) = getSender (rl_heap r i))"

definition agg_ok :: "relations \<Rightarrow> bool" where
  "agg_ok r \<longleftrightarrow> rl_type r = ''m.annotation'' \<longrightarrow> grouped r (rl_events r) \<and> ranked r \<and> distinct (rl_events r)"

lemma grouped_cong:
  assumes "rl_byKey r' = rl_byKey r" "rl_bySender r' = rl_bySender r"
    and "\<forall>i\<in>set ns. annotation_key (rl_heap r' i) = annotation_key (rl_heap r i) \<and> getSender (rl_heap r' i) = getSender (rl_heap r i)"
  shows "grouped r' ns = grouped r ns"
proof -
  have "filter (\<lambda>i. annotation_key (rl_heap r' i) = Some k) ns = filter (\<lambda>i. annotation_key (rl_heap r i) = Some k) ns" for k
    by (rule filter_cong) (use assms(3) in auto)
  moreover have "filter (\<lambda>i. annotation_key (rl_heap r' i) \<noteq> None \<and> getSender (rl_heap r' i) = s) ns =
      filter (\<lambda>i. annotation_key (rl_heap r i) \<noteq> None \<and> getSender (rl_heap r i) = s) ns" for s
    by (rule filter_cong) (use assms(3) in auto)
  ultimately show ?thesis by (simp add: grouped_def assms(1,2))
qed

lemma agg_ok_same: "agg_ok r \<Longrightarrow> same_groups r r' \<Longrightarrow> agg_ok r'"
  using grouped_cong [of r' r "rl_events r"] by (auto simp: agg_ok_def same_groups_def ranked_def)

lemma same_groups_effects [simp]:
  "same_groups r (maybeEmitCreated r)" "same_groups r (after_added i r)" "same_groups r (await_replacement c r)"
  "same_groups r (reject r)" "same_groups r (emit_rel em r)" "same_groups r (after_redacted i r)" "same_groups r (setTargetEvent t r)"
  by (simp_all add: same_groups_def maybeEmitCreated_def after_added_def await_replacement_def reject_def emit_rel_def after_redacted_def
      setTargetEvent_def Let_def)

lemma same_groups_trans: "same_groups a b \<Longrightarrow> same_groups b c \<Longrightarrow> same_groups a c"
  by (simp add: same_groups_def)

lemma annotation_key_cong: "event e' = event e \<Longrightarrow> annotation_key e' = annotation_key e"
  by (simp add: annotation_key_def getRelation_def isRelation_def getWireContent_def)

lemma getSender_cong: "event e' = event e \<Longrightarrow> getSender e' = getSender e"
  by (simp add: getSender_def)

lemma event_kept [simp]: "event (makeReplaced x e) = event e" "event (setStatus st e) = event e"
  by (simp_all add: makeReplaced_def setStatus_def fire_def)

lemma same_groups_event:
  assumes "event e = event (rl_heap r i)"
  shows "same_groups r (r\<lparr>rl_heap := (rl_heap r)(i := e)\<rparr>)"
  using annotation_key_cong [OF assms] getSender_cong [OF assms] by (simp add: same_groups_def)

lemma same_groups_replace: "same_groups r (replace_target x r)"
  using same_groups_event by (auto simp: replace_target_def same_groups_def split: option.split)

lemma same_groups_run: "same_groups r (run_rel task r)"
proof (cases task)
  case (Pair c found)
  have "same_groups r (after_added i (replace_target x r))" "same_groups r (emit_rel em (replace_target x r))"
    "same_groups r (after_redacted i (replace_target x r))" "same_groups r (maybeEmitCreated (replace_target x r))" for i em x
    by (rule same_groups_trans [OF same_groups_replace [where x = x]], simp)+
  then show ?thesis using Pair by (cases c) auto
qed

lemma distinct_set_add: "distinct xs \<Longrightarrow> distinct (set_add x xs)"
  by (simp add: set_add_def)

text \<open>The container with the event registered, before it is aggregated.\<close>

definition registered :: "nat \<Rightarrow> relations \<Rightarrow> relations" where
  "registered i r =
     (let r1 = (if isSending (rl_heap r i) then r\<lparr>rl_onStatus := rl_onStatus r @ [i]\<rparr> else r)
      in r1\<lparr>rl_events := set_add i (rl_events r1), rl_ids := set_add (getId (rl_heap r i)) (rl_ids r1)\<rparr>)"

lemma registered_fields [simp]:
  "rl_type (registered i r) = rl_type r" "rl_heap (registered i r) = rl_heap r" "rl_events (registered i r) = set_add i (rl_events r)"
  "rl_byKey (registered i r) = rl_byKey r" "rl_bySender (registered i r) = rl_bySender r" "rl_sorted (registered i r) = rl_sorted r"
  "rl_target (registered i r) = rl_target r" "rl_created (registered i r) = rl_created r" "rl_emitted (registered i r) = rl_emitted r"
  "rl_tasks (registered i r) = rl_tasks r" "rl_rejected (registered i r) = rl_rejected r"
  by (simp_all add: registered_def Let_def)

lemma addEvent_registered:
  "rel_addEvent i r =
     (if getId (rl_heap r i) \<in> set (rl_ids r) then r
      else if \<not> belongs r i then r
      else if rl_type r = ''m.annotation''
        then (case addAnnotationToAggregation i (registered i r) of None \<Rightarrow> reject (registered i r) | Some r3 \<Rightarrow> after_added i r3)
      else if rl_type r = ''m.replace'' \<and> rl_target r \<noteq> None then await_replacement (AfterAdd i) (registered i r)
      else after_added i (registered i r))"
  by (simp only: rel_addEvent_def registered_def Let_def)

lemma agg_ok_add: "agg_ok r \<Longrightarrow> agg_ok (rel_addEvent i r)"
proof -
  assume ok: "agg_ok r"
  show ?thesis
  proof (cases "rl_type r = ''m.annotation''")
    case False
    then show ?thesis
      by (auto simp: agg_ok_def addEvent_registered after_added_def maybeEmitCreated_def await_replacement_def)
  next
    case True
    then have parts: "grouped r (rl_events r)" "ranked r" "distinct (rl_events r)" using ok by (simp_all add: agg_ok_def)
    have g: "grouped (registered i r) (rl_events r)" using grouped_cong [of "registered i r" r "rl_events r"] parts(1) by simp
    have k: "ranked (registered i r)" using parts(2) by (simp add: ranked_def)
    have ag: "agg_ok (case addAnnotationToAggregation i (registered i r) of None \<Rightarrow> reject (registered i r) | Some r3 \<Rightarrow> after_added i r3)"
    proof (cases "addAnnotationToAggregation i (registered i r)")
      case None
      then have "agg_ok (registered i r)" using add_annotation [OF g k, of i] k distinct_set_add [OF parts(3)] by (simp add: agg_ok_def)
      then show ?thesis using None agg_ok_same by fastforce
    next
      case (Some r3)
      then have "grouped r3 (set_add i (rl_events r)) \<and> ranked r3 \<and> rl_events r3 = set_add i (rl_events r)"
        using add_annotation [OF g k, of i] by simp
      then have "agg_ok r3" using distinct_set_add [OF parts(3)] by (simp add: agg_ok_def)
      then show ?thesis using Some agg_ok_same by fastforce
    qed
    show ?thesis using ok ag True by (simp add: addEvent_registered)
  qed
qed

text \<open>What \<open>removeEvent\<close> and \<open>onBeforeRedaction\<close> have in common.\<close>

lemma agg_ok_take_out:
  assumes ok: "agg_ok r" and t: "rl_type r = ''m.annotation''"
    and same: "\<And>r2. same_groups r2 (f r2)"
  shows "agg_ok (case removeAnnotationFromAggregation i (r\<lparr>rl_events := set_delete i (rl_events r)\<rparr>) of
      None \<Rightarrow> reject (r\<lparr>rl_events := set_delete i (rl_events r)\<rparr>) | Some r2 \<Rightarrow> f r2)"
proof -
  let ?r1 = "r\<lparr>rl_events := set_delete i (rl_events r)\<rparr>"
  have parts: "grouped r (rl_events r)" "ranked r" "distinct (rl_events r)" using ok t by (simp_all add: agg_ok_def)
  have g: "grouped ?r1 (rl_events r)" using grouped_cong [of ?r1 r "rl_events r"] parts(1) by simp
  have k: "ranked ?r1" using parts(2) by (simp add: ranked_def)
  have d: "distinct (set_delete i (rl_events r))" using parts(3) by (simp add: set_delete_def)
  show ?thesis
  proof (cases "removeAnnotationFromAggregation i ?r1")
    case None
    then have "agg_ok ?r1" using remove_annotation [OF g k, of i] k d by (simp add: agg_ok_def)
    then show ?thesis using None agg_ok_same by fastforce
  next
    case (Some r2)
    then have "agg_ok r2" using remove_annotation [OF g k, of i] d by (simp add: agg_ok_def)
    then show ?thesis using Some agg_ok_same [OF _ same] by simp
  qed
qed

lemma agg_ok_remove: "agg_ok r \<Longrightarrow> agg_ok (rel_removeEvent i r)"
proof (cases "rl_type r = ''m.annotation''")
  case True
  assume ok: "agg_ok r"
  show ?thesis using agg_ok_take_out [OF ok True, of "emit_rel (RelRemove i)" i] ok True by (simp add: rel_removeEvent_def Let_def)
qed (auto simp: agg_ok_def rel_removeEvent_def Let_def await_replacement_def emit_rel_def)

lemma agg_ok_redaction: "agg_ok r \<Longrightarrow> agg_ok (onBeforeRedaction i r)"
proof (cases "rl_type r = ''m.annotation''")
  case True
  assume ok: "agg_ok r"
  show ?thesis using agg_ok_take_out [OF ok True, of "after_redacted i" i] ok True by (simp add: onBeforeRedaction_def Let_def)
qed (auto simp: agg_ok_def onBeforeRedaction_def Let_def await_replacement_def after_redacted_def emit_rel_def)

lemma agg_ok_onStatus: "agg_ok r \<Longrightarrow> agg_ok (onEventStatus i st r)"
proof -
  assume ok: "agg_ok r"
  have "agg_ok (r\<lparr>rl_onStatus := l\<rparr>)" for l using agg_ok_same [OF ok] by (simp add: same_groups_def)
  then show ?thesis using ok agg_ok_remove by (simp add: onEventStatus_def)
qed

lemma fold_keeps: "(\<And>r. P r \<Longrightarrow> P (f r)) \<Longrightarrow> P r \<Longrightarrow> P (fold (\<lambda>_. f) xs r)"
  by (induction xs arbitrary: r) simp_all

lemma rel_reach_agg: "rel_reach strict r \<Longrightarrow> agg_ok r"
proof (induction rule: rel_reach.induct)
  case (rel_new heap relationType eventType)
  then show ?case by (simp add: agg_ok_def new_relations_def grouped_def ranked_def events_of_def)
next
  case (rel_status r i st)
  have "agg_ok (r\<lparr>rl_heap := (rl_heap r)(i := setStatus st (rl_heap r i))\<rparr>)"
    by (rule agg_ok_same [OF rel_status.IH same_groups_event]) simp
  then show ?case unfolding status_changes_def by (intro fold_keeps [where P = agg_ok] agg_ok_onStatus)
next
  case (rel_redaction r i)
  then show ?case unfolding redaction_announced_def by (intro fold_keeps [where P = agg_ok] agg_ok_redaction)
next
  case (rel_change r i e)
  then have "same_groups r (r\<lparr>rl_heap := (rl_heap r)(i := e)\<rparr>)" by (simp add: same_groups_def keeps_event_def)
  then show ?case by (rule agg_ok_same [OF rel_change.IH])
next
  case (rel_run r n)
  have "same_groups r (r\<lparr>rl_tasks := l\<rparr>)" for l by (simp add: same_groups_def)
  from same_groups_trans [OF this same_groups_run] show ?case by (rule agg_ok_same [OF rel_run.IH])
qed (use agg_ok_add agg_ok_same in \<open>auto\<close>)

section \<open>Creation is announced once\<close>

fun creating :: "rel_cont \<Rightarrow> bool" where
  "creating (AfterAdd _) = True"
| "creating AfterTarget = True"
| "creating _ = False"

definition once_ok :: "relations \<Rightarrow> bool" where
  "once_ok r \<longleftrightarrow> length (filter (\<lambda>e. e = RelCreated) (rl_emitted r)) = of_bool (rl_created r) \<and>
     (rl_target r \<noteq> None \<and> rl_events r \<noteq> [] \<and> rl_rejected r = 0 \<longrightarrow> rl_created r \<or> (\<exists>t\<in>set (rl_tasks r). creating (fst t)))"

text \<open>Effects that leave what the creation depends on as it is, or call \<open>maybeEmitCreated\<close>.\<close>

definition same_creation :: "relations \<Rightarrow> relations \<Rightarrow> bool" where
  "same_creation r r' \<longleftrightarrow> rl_target r' = rl_target r \<and> rl_rejected r' = rl_rejected r \<and> rl_created r' = rl_created r \<and>
     rl_tasks r' = rl_tasks r \<and> filter (\<lambda>e. e = RelCreated) (rl_emitted r') = filter (\<lambda>e. e = RelCreated) (rl_emitted r)"

lemma same_creation_aggregation:
  "addAnnotationToAggregation i r = Some r' \<Longrightarrow> same_creation r r' \<and> rl_events r' = rl_events r"
  "removeAnnotationFromAggregation i r = Some r' \<Longrightarrow> same_creation r r' \<and> rl_events r' = rl_events r"
  by (auto simp: addAnnotationToAggregation_def removeAnnotationFromAggregation_def same_creation_def resort_def Let_def
      split: option.splits list.splits if_splits)

lemma once_ok_settled:
  assumes "length (filter (\<lambda>e. e = RelCreated) (rl_emitted r)) = of_bool (rl_created r)"
  shows "once_ok (maybeEmitCreated r)" "once_ok (after_added i r)"
  using assms by (auto simp: once_ok_def maybeEmitCreated_def after_added_def)

lemma once_ok_smaller:
  assumes "once_ok r" "same_creation r r'" "set (rl_events r') \<subseteq> set (rl_events r)"
  shows "once_ok r'"
  using assms by (auto simp: once_ok_def same_creation_def)

lemma once_ok_await:
  assumes "length (filter (\<lambda>e. e = RelCreated) (rl_emitted r)) = of_bool (rl_created r)"
  shows "creating c \<or> once_ok r \<Longrightarrow> once_ok (await_replacement c r)"
  using assms by (auto simp: once_ok_def await_replacement_def)

lemma once_ok_count: "once_ok r \<Longrightarrow> length (filter (\<lambda>e. e = RelCreated) (rl_emitted r)) = of_bool (rl_created r)"
  by (simp add: once_ok_def)

lemma once_ok_add: "once_ok r \<Longrightarrow> once_ok (rel_addEvent i r)"
proof -
  assume ok: "once_ok r"
  have c: "length (filter (\<lambda>e. e = RelCreated) (rl_emitted (registered i r))) = of_bool (rl_created (registered i r))"
    using once_ok_count [OF ok] by simp
  have a: "once_ok (case addAnnotationToAggregation i (registered i r) of None \<Rightarrow> reject (registered i r) | Some r3 \<Rightarrow> after_added i r3)"
  proof (cases "addAnnotationToAggregation i (registered i r)")
    case None
    then show ?thesis using c by (simp add: once_ok_def reject_def)
  next
    case (Some r3)
    have "length (filter (\<lambda>e. e = RelCreated) (rl_emitted r3)) = of_bool (rl_created r3)"
      using same_creation_aggregation(1) [OF Some] c by (simp add: same_creation_def)
    then show ?thesis using Some once_ok_settled(2) by simp
  qed
  show ?thesis
    unfolding addEvent_registered
    by (simp add: ok a once_ok_settled(2) [OF c] once_ok_await [OF c] del: registered_fields split del: option.split)
qed

lemma once_ok_emit: "once_ok r \<Longrightarrow> e \<noteq> RelCreated \<Longrightarrow> once_ok (emit_rel e r)"
  by (simp add: once_ok_def emit_rel_def)

lemma once_ok_redacted: "once_ok r \<Longrightarrow> once_ok (after_redacted i r)"
  by (simp add: once_ok_def emit_rel_def after_redacted_def)

lemma once_ok_take_out:
  assumes ok: "once_ok r" and f: "\<And>r2. once_ok r2 \<Longrightarrow> once_ok (f r2)"
  shows "once_ok (case removeAnnotationFromAggregation i (r\<lparr>rl_events := set_delete i (rl_events r)\<rparr>) of
      None \<Rightarrow> reject (r\<lparr>rl_events := set_delete i (rl_events r)\<rparr>) | Some r2 \<Rightarrow> f r2)"
    and "once_ok (r\<lparr>rl_events := set_delete i (rl_events r)\<rparr>)"
proof -
  let ?r1 = "r\<lparr>rl_events := set_delete i (rl_events r)\<rparr>"
  have s: "set (set_delete i (rl_events r)) \<subseteq> set (rl_events r)" by (auto simp: set_delete_def)
  show r1: "once_ok ?r1" by (rule once_ok_smaller [OF ok]) (use s in \<open>simp_all add: same_creation_def\<close>)
  show "once_ok (case removeAnnotationFromAggregation i ?r1 of None \<Rightarrow> reject ?r1 | Some r2 \<Rightarrow> f r2)"
  proof (cases "removeAnnotationFromAggregation i ?r1")
    case None
    then show ?thesis using r1 by (simp add: once_ok_def reject_def)
  next
    case (Some r2)
    from same_creation_aggregation(2) [OF this] have "once_ok r2" by (intro once_ok_smaller [OF r1]) auto
    then show ?thesis using Some f by simp
  qed
qed

lemma once_ok_remove: "once_ok r \<Longrightarrow> once_ok (rel_removeEvent i r)"
proof -
  assume ok: "once_ok r"
  note out = once_ok_take_out [OF ok, where i = i]
  show ?thesis unfolding rel_removeEvent_def Let_def
    using ok out(1) [of "emit_rel (RelRemove i)"] once_ok_emit [OF out(2)] once_ok_await [OF once_ok_count [OF out(2)]] out(2)
    by (simp add: once_ok_emit split del: option.split)
qed

lemma once_ok_redaction: "once_ok r \<Longrightarrow> once_ok (onBeforeRedaction i r)"
proof -
  assume ok: "once_ok r"
  note out = once_ok_take_out [OF ok, where i = i]
  show ?thesis unfolding onBeforeRedaction_def Let_def
    using ok out(1) [of "after_redacted i"] once_ok_redacted [OF out(2)] once_ok_await [OF once_ok_count [OF out(2)]] out(2)
    by (simp add: once_ok_redacted split del: option.split)
qed

lemma once_ok_onStatus: "once_ok r \<Longrightarrow> once_ok (onEventStatus i st r)"
proof -
  assume ok: "once_ok r"
  have "once_ok (r\<lparr>rl_onStatus := l\<rparr>)" for l using ok by (simp add: once_ok_def)
  then show ?thesis using ok once_ok_remove by (simp add: onEventStatus_def)
qed

lemma once_ok_run:
  assumes ok: "once_ok r" and n: "n < length (rl_tasks r)"
  shows "once_ok (run_rel (rl_tasks r ! n) (r\<lparr>rl_tasks := take n (rl_tasks r) @ drop (Suc n) (rl_tasks r)\<rparr>))"
proof -
  let ?r = "r\<lparr>rl_tasks := take n (rl_tasks r) @ drop (Suc n) (rl_tasks r)\<rparr>"
  have c: "length (filter (\<lambda>e. e = RelCreated) (rl_emitted (replace_target x ?r))) = of_bool (rl_created (replace_target x ?r))" for x
    using once_ok_count [OF ok] by (cases "rl_target r") (simp_all add: replace_target_def)
  have others: "once_ok (replace_target x ?r)" if "\<not> creating (fst (rl_tasks r ! n))" for x
  proof -
    have "rl_tasks r = take n (rl_tasks r) @ rl_tasks r ! n # drop (Suc n) (rl_tasks r)" by (rule id_take_nth_drop [OF n])
    from arg_cong [OF this, of set] have "set (rl_tasks r) = insert (rl_tasks r ! n) (set (rl_tasks ?r))" by simp
    then have "once_ok ?r" using ok that by (auto simp: once_ok_def)
    then show ?thesis by (auto simp: once_ok_def replace_target_def split: option.split)
  qed
  have plain: "length (filter (\<lambda>e. e = RelCreated) (rl_emitted ?r)) = of_bool (rl_created ?r)" using once_ok_count [OF ok] by simp
  obtain k x where task: "rl_tasks r ! n = (k, x)" by fastforce
  note settled = once_ok_settled [OF c] once_ok_settled(1) [OF plain]
  show ?thesis
  proof (cases k)
    case (AfterRemove i)
    then show ?thesis using others [of x] once_ok_emit task by simp
  next
    case (AfterRedaction i)
    then show ?thesis using others [of x] once_ok_redacted task by simp
  qed (simp_all add: task settled)
qed

lemma rel_reach_once: "rel_reach strict r \<Longrightarrow> once_ok r"
proof (induction rule: rel_reach.induct)
  case (rel_target r t)
  have c: "length (filter (\<lambda>e. e = RelCreated) (rl_emitted (r\<lparr>rl_target := Some t\<rparr>))) = of_bool (rl_created (r\<lparr>rl_target := Some t\<rparr>))"
    using once_ok_count [OF rel_target.IH] by simp
  show ?case using rel_target.IH once_ok_settled(1) [OF c] once_ok_await [OF c] by (simp add: setTargetEvent_def Let_def)
next
  case (rel_status r i st)
  have "once_ok (r\<lparr>rl_heap := h\<rparr>)" for h using rel_status.IH by (simp add: once_ok_def)
  then show ?case unfolding status_changes_def by (intro fold_keeps [where P = once_ok] once_ok_onStatus)
next
  case (rel_redaction r i)
  then show ?case unfolding redaction_announced_def by (intro fold_keeps [where P = once_ok] once_ok_redaction)
qed (simp_all add: once_ok_add once_ok_run, simp_all add: once_ok_def new_relations_def)

section \<open>The latest replacement\<close>

text \<open>
  \<open>latest heap t is found\<close>: of the events that count (sent by the sender of the target, and not before the time that the server knows
  of) \<open>found\<close> has the greatest time, and of those with that time it came last.
\<close>

definition counts_as_replacement :: "(nat \<Rightarrow> mx_event) \<Rightarrow> mx_event \<Rightarrow> nat \<Rightarrow> bool" where
  "counts_as_replacement heap t i \<longleftrightarrow> getSender (heap i) = getSender t \<and> \<not> js_gt (min_replacement_ts t) (getTs (heap i))"

definition latest :: "(nat \<Rightarrow> mx_event) \<Rightarrow> mx_event \<Rightarrow> nat list \<Rightarrow> nat option \<Rightarrow> bool" where
  "latest heap t ns found \<longleftrightarrow>
     (case found of
        None \<Rightarrow> \<forall>i\<in>set ns. \<not> counts_as_replacement heap t i
      | Some i \<Rightarrow> \<exists>pre post. filter (counts_as_replacement heap t) ns = pre @ i # post \<and>
          (\<forall>j\<in>set pre. the (getTs (heap j)) \<le> the (getTs (heap i))) \<and> (\<forall>j\<in>set post. the (getTs (heap j)) < the (getTs (heap i))))"

lemma latestI:
  "filter (counts_as_replacement heap t) ns = pre @ i # post \<Longrightarrow> \<forall>j\<in>set pre. the (getTs (heap j)) \<le> the (getTs (heap i)) \<Longrightarrow>
   \<forall>j\<in>set post. the (getTs (heap j)) < the (getTs (heap i)) \<Longrightarrow> latest heap t ns (Some i)"
  by (auto simp: latest_def)

lemma fold_later_latest:
  assumes "\<forall>i\<in>set ns. getTs (heap i) \<noteq> None"
  shows "latest heap t ns (fold (later_replacement heap t) ns None)"
  using assms
proof (induction ns rule: rev_induct)
  case Nil
  then show ?case by (simp add: latest_def)
next
  case (snoc x ns)
  let ?f = "fold (later_replacement heap t) ns None" and ?c = "counts_as_replacement heap t"
  have IH: "latest heap t ns ?f" using snoc by simp
  obtain tx where tx: "getTs (heap x) = Some tx" using snoc.prems by auto
  show ?case
  proof (cases "?c x")
    case False
    then have "fold (later_replacement heap t) (ns @ [x]) None = ?f"
      by (auto simp: later_replacement_def counts_as_replacement_def)
    then show ?thesis using IH False by (auto simp: latest_def split: option.splits)
  next
    case True
    then have step: "fold (later_replacement heap t) (ns @ [x]) None =
        (case ?f of Some l \<Rightarrow> if js_gt (getTs (heap l)) (getTs (heap x)) then ?f else Some x | None \<Rightarrow> Some x)"
      by (auto simp: later_replacement_def counts_as_replacement_def split: option.split)
    show ?thesis
    proof (cases ?f)
      case None
      then have "filter ?c ns = []" using IH by (simp add: latest_def filter_empty_conv)
      then have "latest heap t (ns @ [x]) (Some x)" using True by (intro latestI [where pre = "[]" and post = "[]"]) simp_all
      then show ?thesis using step None by simp
    next
      case (Some l)
      then obtain pre post where f: "filter ?c ns = pre @ l # post"
        and b: "\<forall>j\<in>set pre. the (getTs (heap j)) \<le> the (getTs (heap l))" "\<forall>j\<in>set post. the (getTs (heap j)) < the (getTs (heap l))"
        using IH by (auto simp: latest_def)
      have "l \<in> set (filter ?c ns)" unfolding f by simp
      then obtain tl where tl: "getTs (heap l) = Some tl" using snoc.prems by auto
      show ?thesis
      proof (cases "tl > tx")
        case True
        then have e: "fold (later_replacement heap t) (ns @ [x]) None = Some l" using step Some tl tx by (simp add: js_gt_def)
        have "filter ?c (ns @ [x]) = pre @ l # (post @ [x])" using f \<open>?c x\<close> by simp
        then show ?thesis unfolding e by (rule latestI) (use b True tl tx in auto)
      next
        case False
        then have e: "fold (later_replacement heap t) (ns @ [x]) None = Some x" using step Some tl tx by (simp add: js_gt_def)
        have s: "filter ?c (ns @ [x]) = (pre @ l # post) @ x # []" using f \<open>?c x\<close> by simp
        have "\<forall>j\<in>set (pre @ l # post). the (getTs (heap j)) \<le> the (getTs (heap x))"
          using b False tl tx by (auto intro: order_trans less_imp_le)
        then show ?thesis unfolding e by (rule latestI [OF s]) simp
      qed
    qed
  qed
qed

text \<open>What the tasks will make of the replacement that the target shows.\<close>

fun task_shows :: "rel_cont \<times> nat option \<Rightarrow> nat option \<Rightarrow> nat option" where
  "task_shows (AfterTarget, None) cur = cur"
| "task_shows (_, x) cur = x"

definition shown :: "relations \<Rightarrow> nat \<Rightarrow> nat option" where
  "shown r t = map_option rv_ref (replacingEvent (rl_heap r t))"

definition shown_ok :: "relations \<Rightarrow> bool" where
  "shown_ok r \<longleftrightarrow> (\<forall>i. ev_ref (rl_heap r i) = i) \<and>
     (rl_type r = ''m.replace'' \<longrightarrow>
        (case rl_target r of
           None \<Rightarrow> rl_tasks r = []
         | Some t \<Rightarrow> \<not> isRedacted (rl_heap r t) \<and> fold task_shows (rl_tasks r) (shown r t) = getLastReplacement r))"

lemma last_replacement_cong:
  assumes "rl_type r' = rl_type r" "rl_target r' = rl_target r" "rl_events r' = rl_events r"
    and "\<forall>i\<in>set (rl_events r). getSender (rl_heap r' i) = getSender (rl_heap r i) \<and> getTs (rl_heap r' i) = getTs (rl_heap r i)"
    and "\<forall>t. rl_target r = Some t \<longrightarrow> getSender (rl_heap r' t) = getSender (rl_heap r t) \<and>
      min_replacement_ts (rl_heap r' t) = min_replacement_ts (rl_heap r t)"
  shows "getLastReplacement r' = getLastReplacement r"
proof (cases "rl_target r")
  case (Some t)
  have "fold (later_replacement (rl_heap r') (rl_heap r' t)) ns a = fold (later_replacement (rl_heap r) (rl_heap r t)) ns a"
    if "set ns \<subseteq> set (rl_events r)" "\<forall>l. a = Some l \<longrightarrow> l \<in> set (rl_events r)" for ns a
    using that
  proof (induction ns arbitrary: a)
    case (Cons i ns)
    let ?l = "later_replacement (rl_heap r) (rl_heap r t) i a"
    have "later_replacement (rl_heap r') (rl_heap r' t) i a = ?l"
      using Cons.prems assms(4,5) Some by (auto simp: later_replacement_def split: option.split)
    moreover have "\<forall>l. ?l = Some l \<longrightarrow> l \<in> set (rl_events r)"
      using Cons.prems by (auto simp: later_replacement_def split: option.splits if_splits)
    ultimately show ?case using Cons by simp
  qed simp
  then show ?thesis using Some assms(1-3) by (simp add: getLastReplacement_def)
qed (simp add: getLastReplacement_def assms(2))

lemma same_facts:
  assumes "event e' = event e"
  shows "getSender e' = getSender e" "getTs e' = getTs e" "min_replacement_ts e' = min_replacement_ts e" "isRedacted e' = isRedacted e"
  using assms
  by (simp_all add: getSender_def getTs_def min_replacement_ts_def getServerAggregatedRelation_def getUnsigned_def isRedacted_def)

lemmas kept_facts [simp] = same_facts [OF event_kept(1)] same_facts [OF event_kept(2)]

lemma shown_ok_await:
  assumes "\<forall>i. ev_ref (rl_heap r i) = i" "rl_target r = Some t" "\<not> isRedacted (rl_heap r t)"
    and "c = AfterTarget \<longrightarrow> fold task_shows (rl_tasks r) (shown r t) = None"
  shows "shown_ok (await_replacement c r)"
proof -
  have "getLastReplacement (await_replacement c r) = getLastReplacement r"
    by (rule last_replacement_cong) (simp_all add: await_replacement_def)
  then show ?thesis using assms
    by (cases c; cases "getLastReplacement r") (simp_all add: shown_ok_def await_replacement_def shown_def)
qed

text \<open>Steps that leave the heap, the events, the target and the tasks as they are.\<close>

definition same_view :: "relations \<Rightarrow> relations \<Rightarrow> bool" where
  "same_view r r' \<longleftrightarrow> rl_type r' = rl_type r \<and> rl_target r' = rl_target r \<and> rl_events r' = rl_events r \<and> rl_heap r' = rl_heap r \<and>
     rl_tasks r' = rl_tasks r"

lemma shown_ok_same: "shown_ok r \<Longrightarrow> same_view r r' \<Longrightarrow> shown_ok r'"
  using last_replacement_cong [of r' r] by (auto simp: shown_ok_def same_view_def shown_def split: option.splits)

lemma same_view_effects [simp]:
  "same_view r (maybeEmitCreated r)" "same_view r (after_added i r)" "same_view r (reject r)" "same_view r (emit_rel em r)"
  "same_view r (after_redacted i r)" "same_view r (r\<lparr>rl_onStatus := l\<rparr>)"
  by (simp_all add: same_view_def maybeEmitCreated_def after_added_def reject_def emit_rel_def after_redacted_def)

lemma heap_aggregation:
  "addAnnotationToAggregation i r = Some r' \<Longrightarrow> rl_heap r' = rl_heap r \<and> rl_type r' = rl_type r"
  "removeAnnotationFromAggregation i r = Some r' \<Longrightarrow> rl_heap r' = rl_heap r \<and> rl_type r' = rl_type r"
  by (auto simp: addAnnotationToAggregation_def removeAnnotationFromAggregation_def resort_def Let_def
      split: option.splits list.splits if_splits)

lemma shown_ok_other:
  assumes "shown_ok r" "rl_type r' = rl_type r" "rl_type r \<noteq> ''m.replace''" "rl_heap r' = rl_heap r"
  shows "shown_ok r'"
  using assms by (simp add: shown_ok_def)

text \<open>The three ways in which the events change: with a target they end in an await.\<close>

lemma shown_ok_events:
  assumes ok: "shown_ok r" and t: "rl_type r = ''m.replace''"
    and same: "rl_type r' = ''m.replace''" "rl_target r' = rl_target r" "rl_heap r' = rl_heap r" "rl_tasks r' = rl_tasks r"
  shows "rl_target r \<noteq> None \<Longrightarrow> c \<noteq> AfterTarget \<Longrightarrow> shown_ok (await_replacement c r')" and "rl_target r = None \<Longrightarrow> shown_ok r'"
proof -
  assume c: "rl_target r \<noteq> None" "c \<noteq> AfterTarget"
  then obtain u where u: "rl_target r = Some u" by auto
  show "shown_ok (await_replacement c r')"
    by (rule shown_ok_await [where t = u]) (use ok t same u c(2) in \<open>simp_all add: shown_ok_def\<close>)
next
  assume "rl_target r = None"
  then show "shown_ok r'" using ok t same by (simp add: shown_ok_def)
qed

lemma shown_ok_add: "shown_ok r \<Longrightarrow> shown_ok (rel_addEvent i r)"
proof -
  assume ok: "shown_ok r"
  show ?thesis
  proof (cases "rl_type r = ''m.replace''")
    case True
    note s = shown_ok_events [OF ok True, of "registered i r"]
    show ?thesis using s shown_ok_same [OF s(2)] ok True by (auto simp: addEvent_registered)
  next
    case False
    have "shown_ok (rel_addEvent i r)" if "\<not> (getId (rl_heap r i) \<in> set (rl_ids r) \<or> \<not> belongs r i)"
      by (rule shown_ok_other [OF ok _ False])
        (use that False in \<open>auto simp: addEvent_registered reject_def after_added_def maybeEmitCreated_def heap_aggregation
           split: option.split dest!: heap_aggregation(1)\<close>)
    then show ?thesis using ok by (auto simp: addEvent_registered)
  qed
qed

lemma shown_ok_remove: "shown_ok r \<Longrightarrow> shown_ok (rel_removeEvent i r)"
proof -
  assume ok: "shown_ok r"
  show ?thesis
  proof (cases "rl_type r = ''m.replace''")
    case True
    note s = shown_ok_events [OF ok True, of "r\<lparr>rl_events := set_delete i (rl_events r)\<rparr>"]
    show ?thesis using s shown_ok_same [OF s(2)] ok True by (auto simp: rel_removeEvent_def Let_def)
  next
    case False
    show ?thesis
      by (rule shown_ok_other [OF ok _ False])
        (use False in \<open>auto simp: rel_removeEvent_def Let_def reject_def emit_rel_def split: option.split dest!: heap_aggregation(2)\<close>)
  qed
qed

lemma shown_ok_redaction: "shown_ok r \<Longrightarrow> shown_ok (onBeforeRedaction i r)"
proof -
  assume ok: "shown_ok r"
  show ?thesis
  proof (cases "rl_type r = ''m.replace''")
    case True
    note s = shown_ok_events [OF ok True, of "r\<lparr>rl_events := set_delete i (rl_events r)\<rparr>"]
    show ?thesis using s shown_ok_same [OF s(2)] ok True by (auto simp: onBeforeRedaction_def Let_def)
  next
    case False
    show ?thesis
      by (rule shown_ok_other [OF ok _ False])
        (use False in \<open>auto simp: onBeforeRedaction_def Let_def reject_def after_redacted_def emit_rel_def split: option.split
           dest!: heap_aggregation(2)\<close>)
  qed
qed

lemma shown_ok_onStatus: "shown_ok r \<Longrightarrow> shown_ok (onEventStatus i st r)"
  using shown_ok_same [of r] shown_ok_remove by (auto simp: onEventStatus_def)

lemma shown_ok_change:
  assumes ok: "shown_ok r" and e: "ev_ref e = i"
    and ev: "i \<in> set (rl_events r) \<longrightarrow> getSender e = getSender (rl_heap r i) \<and> getTs e = getTs (rl_heap r i)"
    and tg: "rl_target r = Some i \<longrightarrow> getSender e = getSender (rl_heap r i) \<and> replacingEvent e = replacingEvent (rl_heap r i) \<and>
        min_replacement_ts e = min_replacement_ts (rl_heap r i) \<and> (isRedacted e \<longrightarrow> isRedacted (rl_heap r i))"
  shows "shown_ok (r\<lparr>rl_heap := (rl_heap r)(i := e)\<rparr>)"
proof -
  let ?r = "r\<lparr>rl_heap := (rl_heap r)(i := e)\<rparr>"
  have "getLastReplacement ?r = getLastReplacement r"
    by (rule last_replacement_cong) (use ev tg in auto)
  moreover have "\<forall>t. rl_target r = Some t \<longrightarrow> shown ?r t = shown r t \<and> (isRedacted (rl_heap ?r t) \<longrightarrow> isRedacted (rl_heap r t))"
    using tg by (auto simp: shown_def)
  ultimately show ?thesis using ok e by (auto simp: shown_ok_def split: option.splits)
qed

lemma replaced_shows:
  assumes "\<forall>i. ev_ref (rl_heap r i) = i" "rl_target r = Some t" "\<not> isRedacted (rl_heap r t)"
  shows "shown (replace_target x r) t = x"
  using assms by (cases x) (auto simp: shown_def replace_target_def makeReplaced_def fire_def replacing_view_of_def)

lemma ev_ref_kept [simp]: "ev_ref (makeReplaced x e) = ev_ref e" "ev_ref (setStatus st e) = ev_ref e"
  by (simp_all add: makeReplaced_def setStatus_def fire_def)

lemma replacing_kept [simp]: "replacingEvent (setStatus st e) = replacingEvent e"
  by (simp add: setStatus_def fire_def)

lemma last_replacement_replaced: "getLastReplacement (replace_target x r) = getLastReplacement r"
  by (rule last_replacement_cong) (simp_all add: replace_target_def split: option.split)

lemma shown_ok_replaced:
  assumes "\<forall>i. ev_ref (rl_heap r i) = i"
    and "\<And>t. rl_type r = ''m.replace'' \<Longrightarrow> rl_target r = Some t \<Longrightarrow>
      \<not> isRedacted (rl_heap r t) \<and> fold task_shows (rl_tasks r) x = getLastReplacement r"
    and "rl_type r = ''m.replace'' \<Longrightarrow> rl_target r \<noteq> None"
  shows "shown_ok (replace_target x r)"
proof -
  have refs: "\<forall>i. ev_ref (rl_heap (replace_target x r) i) = i"
    using assms(1) by (auto simp: replace_target_def split: option.split)
  have rest: "\<not> isRedacted (rl_heap (replace_target x r) t) \<and>
      fold task_shows (rl_tasks (replace_target x r)) (shown (replace_target x r) t) = getLastReplacement (replace_target x r)"
    if "rl_type r = ''m.replace''" "rl_target r = Some t" for t
    unfolding last_replacement_replaced using assms(1) assms(2) [OF that] that replaced_shows
    by (auto simp: replace_target_def)
  have "rl_type (replace_target x r) = rl_type r" "rl_target (replace_target x r) = rl_target r"
    by (simp_all add: replace_target_def split: option.split)
  then show ?thesis using refs rest assms(3) by (auto simp: shown_ok_def split: option.split)
qed

lemma shown_ok_run:
  assumes ok: "shown_ok r" and tasks: "rl_tasks r = task # rest"
  shows "shown_ok (run_rel task (r\<lparr>rl_tasks := rest\<rparr>))"
proof -
  let ?r = "r\<lparr>rl_tasks := rest\<rparr>"
  obtain k x where task: "task = (k, x)" by fastforce
  have refs: "\<forall>i. ev_ref (rl_heap ?r i) = i" using ok by (simp add: shown_ok_def)
  have l: "getLastReplacement ?r = getLastReplacement r" by (rule last_replacement_cong) simp_all
  have tg: "rl_type r = ''m.replace'' \<Longrightarrow> rl_target r \<noteq> None" using ok tasks by (auto simp: shown_ok_def split: option.splits)
  have live: "\<not> isRedacted (rl_heap r t) \<and> fold task_shows rest (task_shows task (shown r t)) = getLastReplacement r"
    if "rl_type r = ''m.replace''" "rl_target r = Some t" for t
    using ok tasks that by (simp add: shown_ok_def)
  have replaced: "shown_ok (replace_target x ?r)" if "k \<noteq> AfterTarget \<or> x \<noteq> None"
  proof (rule shown_ok_replaced [OF refs])
    show "\<not> isRedacted (rl_heap ?r t) \<and> fold task_shows (rl_tasks ?r) x = getLastReplacement ?r"
      if "rl_type ?r = ''m.replace''" "rl_target ?r = Some t" for t
      using live [of t] that \<open>k \<noteq> AfterTarget \<or> x \<noteq> None\<close> unfolding l by (cases k; cases x) (auto simp: task)
  qed (use tg in auto)
  have kept: "shown_ok ?r" if "k = AfterTarget" "x = None"
    using ok live tg refs that l by (auto simp: shown_ok_def task shown_def split: option.split)
  show ?thesis
    by (cases k) (use replaced kept shown_ok_same in \<open>auto simp: task\<close>)
qed

lemma rel_reach_shown: "rel_reach True r \<Longrightarrow> shown_ok r"
proof (induction rule: rel_reach.induct)
  case (rel_new heap relationType eventType)
  then show ?case by (simp add: shown_ok_def new_relations_def)
next
  case (rel_target r t)
  let ?r = "r\<lparr>rl_target := Some t\<rparr>"
  show ?case
  proof (cases "rl_target r = None \<and> rl_type r = ''m.replace''")
    case True
    have "shown_ok (await_replacement AfterTarget ?r)"
      by (rule shown_ok_await [where t = t]) (use rel_target True in \<open>auto simp: shown_ok_def shown_def\<close>)
    then show ?thesis using True by (simp add: setTargetEvent_def Let_def)
  next
    case False
    then have "shown_ok ?r" if "rl_target r = None" using rel_target.IH that by (simp add: shown_ok_def)
    then show ?thesis using rel_target.IH False shown_ok_same by (auto simp: setTargetEvent_def Let_def)
  qed
next
  case (rel_status r i st)
  have "shown_ok (r\<lparr>rl_heap := (rl_heap r)(i := setStatus st (rl_heap r i))\<rparr>)"
    by (rule shown_ok_change [OF rel_status.IH])
      (use rel_status.IH in \<open>simp_all add: shown_ok_def\<close>)
  then show ?case unfolding status_changes_def by (intro fold_keeps [where P = shown_ok] shown_ok_onStatus)
next
  case (rel_redaction r i)
  then show ?case unfolding redaction_announced_def by (intro fold_keeps [where P = shown_ok] shown_ok_redaction)
next
  case (rel_change r i e)
  then show ?case by (intro shown_ok_change) (simp_all add: keeps_event_def)
next
  case (rel_run r n)
  then obtain task rest where "rl_tasks r = task # rest" by (cases "rl_tasks r") auto
  then show ?case using rel_run shown_ok_run [of r] by simp
qed (simp_all add: shown_ok_add)

section \<open>The properties\<close>



text \<open>
  The creation of the container is announced at most once, and, unless an addition was rejected, it has been announced when
  there are a target and an event and no task is left.
\<close>

theorem creation_announced_once:
  assumes "rel_reach strict r"
  shows "length (filter (\<lambda>e. e = RelCreated) (rl_emitted r)) \<le> 1 \<and>
    (rl_target r \<noteq> None \<and> rl_events r \<noteq> [] \<and> rl_tasks r = [] \<and> rl_rejected r = 0 \<longrightarrow> RelCreated \<in> set (rl_emitted r))"
proof -
  have ok: "once_ok r" by (rule rel_reach_once [OF assms])
  have "RelCreated \<in> set (rl_emitted r)" if "rl_created r"
    using once_ok_count [OF ok] that filter_False [of "rl_emitted r" "\<lambda>e. e = RelCreated"] by fastforce
  then show ?thesis using ok by (auto simp: once_ok_def)
qed

section \<open>Concrete containers\<close>

text \<open>Reactions to one event: their number is their identity, the even ones are of another sender.\<close>

definition sample_related :: "string \<Rightarrow> string \<Rightarrow> string \<Rightarrow> nat \<Rightarrow> mx_event" where
  "sample_related ty rel key i =
     new_event i (JObj [(''event_id'', JStr (replicate (Suc i) (CHR ''e''))), (''type'', JStr ty),
       (''sender'', JStr (if i = 2 then ''@b'' else ''@a'')), (''origin_server_ts'', JNum (of_nat i)),
       (''content'', JObj [(''m.relates_to'', JObj [(''rel_type'', JStr rel), (''event_id'', JStr ''t''), (''key'', JStr key)])])])"

definition sample_reactions :: relations where
  "sample_reactions =
     fold rel_addEvent [1, 2, 3]
       (new_relations ''m.annotation'' ''m.reaction'' (\<lambda>i. sample_related ''m.reaction'' ''m.annotation'' (if i = 1 then ''x'' else ''y'') i))"

lemma ref_related [simp]: "ev_ref (sample_related ty rel key i) = i"
  by (simp add: sample_related_def new_event_def)

lemma sample_reactions_reach: "rel_reach strict sample_reactions"
  by (simp add: sample_reactions_def rel_add rel_new)


text \<open>Two edits of event 5 by its sender, one by somebody else; nothing has been awaited yet.\<close>

definition edits_added :: relations where
  "edits_added =
     fold rel_addEvent [3, 2, 1]
       (setTargetEvent 5 (new_relations ''m.replace'' ''m.room.message'' (\<lambda>i. sample_related ''m.room.message'' ''m.replace'' '''' i)))"

definition edits_done :: relations where
  "edits_done = fold (\<lambda>_ r. run_rel (hd (rl_tasks r)) (r\<lparr>rl_tasks := tl (rl_tasks r)\<rparr>)) [0..<4] edits_added"

lemma rel_run_first:
  "rel_reach strict r \<Longrightarrow> rl_tasks r \<noteq> [] \<Longrightarrow> rel_reach strict (run_rel (hd (rl_tasks r)) (r\<lparr>rl_tasks := tl (rl_tasks r)\<rparr>))"
  using rel_run [of strict r 0] by (simp add: hd_conv_nth drop_Suc)

lemma edits_added_reach: "rel_reach strict edits_added"
proof -
  let ?r = "new_relations ''m.replace'' ''m.room.message'' (\<lambda>i. sample_related ''m.room.message'' ''m.replace'' '''' i)"
  have "replacingEvent (rl_heap ?r 5) = None" "\<not> isRedacted (rl_heap ?r 5)" by code_simp+
  then have "rel_reach strict (setTargetEvent 5 ?r)" by (intro rel_target rel_new) simp_all
  then show ?thesis by (simp add: edits_added_def rel_add)
qed

lemma edits_done_reach: "rel_reach strict edits_done"
proof -
  let ?run = "\<lambda>r. run_rel (hd (rl_tasks r)) (r\<lparr>rl_tasks := tl (rl_tasks r)\<rparr>)"
  have t: "rl_tasks edits_added \<noteq> []" "rl_tasks (?run edits_added) \<noteq> []" "rl_tasks (?run (?run edits_added)) \<noteq> []"
    "rl_tasks (?run (?run (?run edits_added))) \<noteq> []"
    by code_simp+
  have "edits_done = ?run (?run (?run (?run edits_added)))" by (simp add: edits_done_def upt_rec)
  then show ?thesis using rel_run_first [OF rel_run_first [OF rel_run_first [OF rel_run_first [OF edits_added_reach t(1)] t(2)] t(3)] t(4)]
    by simp
qed


theorem creation_announced_once_witness:
  "filter (\<lambda>e. e = RelCreated) (rl_emitted edits_done) = [RelCreated] \<and> RelCreated \<in> set (rl_emitted edits_done)"
proof -
  have "filter (\<lambda>e. e = RelCreated) (rl_emitted edits_done) = [RelCreated]" "rl_target edits_done \<noteq> None" "rl_events edits_done \<noteq> []"
    "rl_tasks edits_done = []" "rl_rejected edits_done = 0" by code_simp+
  then show ?thesis using creation_announced_once [OF edits_done_reach [of True]] by blast
qed

section \<open>Divergences\<close>

text \<open>
  When a newer edit has been added before an older one that is still being decrypted, and the older one's turn comes last, the older
  edit stays visible: here the tasks of \<open>edits_added\<close> run in another order, and edit 1 had to be decrypted.
\<close>

definition slow_edit :: relations where
  "slow_edit =
     (let r = fold rel_addEvent [1, 3]
        (run_rel (AfterTarget, None)
          ((setTargetEvent 5 (new_relations ''m.replace'' ''m.room.message'' (\<lambda>i. sample_related ''m.room.message'' ''m.replace'' '''' i)))
            \<lparr>rl_tasks := []\<rparr>))
      in run_rel (rl_tasks r ! 0) (run_rel (rl_tasks r ! 1) (r\<lparr>rl_tasks := []\<rparr>)))"

lemma older_edit_wins: "rl_tasks slow_edit = [] \<and> getLastReplacement slow_edit = Some 3 \<and> shown slow_edit 5 = Some 1"
  by code_simp

text \<open>A redaction of an edit is not noticed while the container waits for a decryption: the edit remains in the container.\<close>

lemma redaction_not_noticed: "redaction_announced 3 edits_added = edits_added \<and> 3 \<in> set (rl_events edits_added)"
proof -
  have "rl_onRedaction edits_added = []" "3 \<in> set (rl_events edits_added)" by code_simp+
  then show ?thesis by (simp add: redaction_announced_def)
qed

text \<open>A reaction whose key is the name of a property that every object has is kept, but neither grouped nor announced.\<close>

lemma inherited_key_rejected:
  "let r = rel_addEvent 1 (new_relations ''m.annotation'' ''m.reaction'' (sample_related ''m.reaction'' ''m.annotation'' ''constructor''))
   in rl_events r = [1] \<and> rl_rejected r = 1 \<and> rl_byKey r = [] \<and> rl_emitted r = []"
  by code_simp

end
