(* ===== verification/Signing.thy ===== *)
theory Signing
  imports Json
begin

text \<open>
  Signed JSON objects (\<open>pkSign\<close>, \<open>pkVerify\<close> and \<open>verifySignature\<close> of \<^verbatim>\<open>crypto/olmlib.ts\<close>) and the information about a device
  (\<^verbatim>\<open>crypto/deviceinfo.ts\<close>). The library olm and the canonical JSON of \<open>another-json\<close> are parameters; a key pair is its seed.
\<close>

record 's signer =
  canonical :: "json \<Rightarrow> string"
  ed25519_verify :: "json \<Rightarrow> string \<Rightarrow> json \<Rightarrow> bool"
  ed25519_sign :: "'s \<Rightarrow> string \<Rightarrow> string"
  public_key :: "'s \<Rightarrow> string"

text \<open>What the documentation of olm promises: a signature is not empty and verifies under the public key of the seed.\<close>

definition signer_ok :: "'s signer \<Rightarrow> bool" where
  "signer_ok c \<longleftrightarrow> (\<forall>k m. ed25519_sign c k m \<noteq> [] \<and> ed25519_verify c (JStr (public_key c k)) m (JStr (ed25519_sign c k m)))"

section \<open>Signatures\<close>

text \<open>A key in a string.\<close>

fun key_text :: "json \<Rightarrow> string" where
  "key_text (JStr s) = s"
| "key_text JNull = ''null''"
| "key_text _ = ''undefined''"

definition key_id :: "json \<Rightarrow> string" where
  "key_id pubKey = ''ed25519:'' @ key_text pubKey"

datatype 's signing_key = Seed 's | PkSigning 's

definition without_unsigned :: "json \<Rightarrow> json" where
  "without_unsigned obj = (if truthy (jget obj ''unsigned'') then del_prop ''unsigned'' obj else obj)"

definition pkSign :: "'s signer \<Rightarrow> json \<Rightarrow> 's signing_key \<Rightarrow> string \<Rightarrow> json \<Rightarrow> json" where
  "pkSign c obj key userId pubKey =
     (let (k, pub) = (case key of Seed k \<Rightarrow> (k, JStr (public_key c k)) | PkSigning k \<Rightarrow> (k, pubKey));
          sigs = js_or (jget obj ''signatures'') empty_obj;
          unsigned = jget obj ''unsigned'';
          bare = without_unsigned (del_prop ''signatures'' obj);
          mysigs = js_or (jget sigs userId) empty_obj;
          sig = JStr (ed25519_sign c k (canonical c bare));
          signed = set_prop ''signatures'' (set_prop userId (set_prop (key_id pub) sig mysigs) sigs) bare
      in if truthy unsigned then set_prop ''unsigned'' unsigned signed else signed)"

text \<open>Whether \<open>pkVerify\<close> returns. It removes two properties while it runs and puts them back, which changes only their order.\<close>

definition pkVerify :: "'s signer \<Rightarrow> json \<Rightarrow> json \<Rightarrow> string \<Rightarrow> bool" where
  "pkVerify c obj pubKey userId =
     (let signature = jget (jget (jget obj ''signatures'') userId) (key_id pubKey) in
      truthy signature \<and> ed25519_verify c pubKey (canonical c (without_unsigned (del_prop ''signatures'' obj))) signature)"

definition verifySignature :: "'s signer \<Rightarrow> json \<Rightarrow> string \<Rightarrow> string \<Rightarrow> json \<Rightarrow> bool" where
  "verifySignature c obj signingUserId signingDeviceId signingKey =
     (let signatures = js_or (jget obj ''signatures'') empty_obj;
          userSigs = js_or (jget signatures signingUserId) empty_obj;
          signature = jget userSigs (''ed25519:'' @ signingDeviceId)
      in truthy signature \<and>
         ed25519_verify c signingKey (canonical c (del_prop ''signatures'' (del_prop ''unsigned'' obj))) signature)"

section \<open>Devices\<close>

datatype device_verification = Blocked | Unverified | Verified

record device_info =
  dv_deviceId :: string
  dv_algorithms :: json
  dv_keys :: json
  dv_verified :: device_verification
  dv_known :: bool
  dv_unsigned :: json
  dv_signatures :: json

record idevice =
  id_algorithms :: json
  id_keys :: json
  id_verified :: device_verification
  id_known :: bool
  id_unsigned :: json
  id_signatures :: json

definition new_device :: "string \<Rightarrow> device_info" where
  "new_device deviceId =
     \<lparr>dv_deviceId = deviceId, dv_algorithms = JUndef, dv_keys = empty_obj, dv_verified = Unverified, dv_known = False,
      dv_unsigned = empty_obj, dv_signatures = empty_obj\<rparr>"

definition device_fromStorage :: "idevice \<Rightarrow> string \<Rightarrow> device_info" where
  "device_fromStorage obj deviceId =
     \<lparr>dv_deviceId = deviceId, dv_algorithms = id_algorithms obj, dv_keys = id_keys obj, dv_verified = id_verified obj,
      dv_known = id_known obj, dv_unsigned = id_unsigned obj, dv_signatures = id_signatures obj\<rparr>"

definition device_toStorage :: "device_info \<Rightarrow> idevice" where
  "device_toStorage d =
     \<lparr>id_algorithms = dv_algorithms d, id_keys = dv_keys d, id_verified = dv_verified d, id_known = dv_known d,
      id_unsigned = dv_unsigned d, id_signatures = dv_signatures d\<rparr>"

definition getFingerprint :: "device_info \<Rightarrow> json" where
  "getFingerprint d = jget (dv_keys d) (''ed25519:'' @ dv_deviceId d)"

definition getIdentityKey :: "device_info \<Rightarrow> json" where
  "getIdentityKey d = jget (dv_keys d) (''curve25519:'' @ dv_deviceId d)"

definition getDisplayName :: "device_info \<Rightarrow> json" where
  "getDisplayName d = js_or (jget (dv_unsigned d) ''device_display_name'') JNull"

definition isBlocked :: "device_info \<Rightarrow> bool" where
  "isBlocked d \<longleftrightarrow> dv_verified d = Blocked"

definition isVerifiedDevice :: "device_info \<Rightarrow> bool" where
  "isVerifiedDevice d \<longleftrightarrow> dv_verified d = Verified"

definition isUnverified :: "device_info \<Rightarrow> bool" where
  "isUnverified d \<longleftrightarrow> dv_verified d = Unverified"

section \<open>Lemmas\<close>

lemma is_object_empty [simp]: "is_object empty_obj"
  by (simp add: empty_obj_def)

lemma truthy_del_prop [simp]: "truthy (del_prop k j) = truthy j"
  by (cases j) simp_all

lemma del_set_same: "del_prop k (set_prop k v j) = del_prop k j"
proof (cases j)
  case (JObj d)
  have "ddel k (dset k v d) = ddel k d" by (induction d) auto
  then show ?thesis using JObj by simp
qed simp_all

lemma del_set_other: "k \<noteq> l \<Longrightarrow> del_prop k (set_prop l v j) = set_prop l v (del_prop k j)"
proof (cases j)
  case (JObj d)
  assume "k \<noteq> l"
  then have "ddel k (dset l v d) = dset l v (ddel k d)" by (induction d) auto
  then show ?thesis using JObj by simp
qed simp_all

lemma del_absent: "is_object j \<Longrightarrow> \<not> own j k \<Longrightarrow> del_prop k j = j"
  by (cases j) (auto intro!: delete_id simp: map_of_eq_None_iff image_iff split: prod.splits)

lemma own_del [simp]: "\<not> own (del_prop k j) k"
  by (cases j) (simp_all add: dict_simps)

lemma del_twice: "del_prop k (del_prop k j) = del_prop k j"
  by (cases j) (simp_all add: delete_idem)

lemma own_del_other: "own (del_prop k j) l = (own j l \<and> l \<noteq> k)"
  by (cases j) (auto simp: dict_simps)

lemma del_del: "del_prop k (del_prop l j) = del_prop l (del_prop k j)"
  by (cases j) (simp_all add: delete_twist)

text \<open>What was signed is what is verified.\<close>

lemma bare_pkSign:
  assumes "is_object obj"
  shows "without_unsigned (del_prop ''signatures'' (pkSign c obj key userId pub)) = without_unsigned (del_prop ''signatures'' obj)"
proof -
  let ?bare = "without_unsigned (del_prop ''signatures'' obj)"
  have o: "is_object ?bare" and n: "\<not> own ?bare ''signatures''"
    using assms by (simp_all add: without_unsigned_def own_del_other)
  obtain sigs where p: "pkSign c obj key userId pub =
      (if truthy (jget obj ''unsigned'') then set_prop ''unsigned'' (jget obj ''unsigned'') (set_prop ''signatures'' sigs ?bare)
       else set_prop ''signatures'' sigs ?bare)"
    unfolding pkSign_def Let_def split_beta by blast
  have d: "del_prop ''signatures'' (set_prop ''signatures'' sigs ?bare) = ?bare"
    unfolding del_set_same by (rule del_absent [OF o n])
  show ?thesis
  proof (cases "truthy (jget obj ''unsigned'')")
    case True
    then have b: "?bare = del_prop ''unsigned'' (del_prop ''signatures'' obj)" by (simp add: without_unsigned_def js_simps)
    have "del_prop ''signatures'' (pkSign c obj key userId pub) = set_prop ''unsigned'' (jget obj ''unsigned'') ?bare"
      using True p d by (simp add: del_set_other)
    moreover have "without_unsigned (set_prop ''unsigned'' (jget obj ''unsigned'') ?bare) = del_prop ''unsigned'' ?bare"
      using True o by (simp add: without_unsigned_def js_simps del_set_same)
    ultimately show ?thesis using b by (simp add: del_twice)
  next
    case False
    then have "?bare = del_prop ''signatures'' obj" by (simp add: without_unsigned_def js_simps)
    then show ?thesis using False p d by (simp add: without_unsigned_def js_simps)
  qed
qed

lemma signature_pkSign:
  assumes "is_object obj" and "is_object (js_or (jget obj ''signatures'') empty_obj)"
    and "is_object (js_or (jget (js_or (jget obj ''signatures'') empty_obj) userId) empty_obj)"
  shows "jget (jget (jget (pkSign c obj (PkSigning k) userId pub) ''signatures'') userId) (key_id pub) =
    JStr (ed25519_sign c k (canonical c (without_unsigned (del_prop ''signatures'' obj))))"
proof -
  have "is_object (without_unsigned (del_prop ''signatures'' obj))" using assms(1) by (simp add: without_unsigned_def)
  then show ?thesis using assms(2,3) by (simp add: pkSign_def Let_def js_simps)
qed

lemma pkVerify_pkSign:
  assumes "signer_ok c" "is_object obj" "is_object (js_or (jget obj ''signatures'') empty_obj)"
    "is_object (js_or (jget (js_or (jget obj ''signatures'') empty_obj) userId) empty_obj)"
  shows "pkVerify c (pkSign c obj (PkSigning k) userId (JStr (public_key c k))) (JStr (public_key c k)) userId"
  using assms by (simp add: pkVerify_def Let_def bare_pkSign signature_pkSign signer_ok_def)

end
