(* ===== verification/CrossSigning.thy ===== *)
theory CrossSigning
  imports Signing "HOL-Library.Word"
begin

unbundle bit_operations_syntax

text \<open>
  The cross-signing keys of a user and the trust that follows from them (\<^verbatim>\<open>crypto/CrossSigning.ts\<close>). The keys are JSON objects as the
  server stores them; the callbacks of the application and of the cache are functions that answer with seeds. A \<open>throw\<close> is an \<open>Inl\<close>.
\<close>

datatype xs_error = MismatchedUser | NoMasterKey | BadSignature | NoCallback | NoSuchKey | KeyMismatch | TypeError

record xs_info =
  xs_userId :: string
  xs_keys :: json
  xs_firstUse :: bool
  xs_verifiedBefore :: bool

record 's xs_callbacks =
  cb_getCrossSigningKey :: "(string \<Rightarrow> json \<Rightarrow> 's option) option"
  cb_canSave :: bool
  cb_cache :: "(string \<Rightarrow> json \<Rightarrow> 's option) option"
  cb_storesCache :: bool

definition new_xs_info :: "string \<Rightarrow> xs_info" where
  "new_xs_info userId = \<lparr>xs_userId = userId, xs_keys = empty_obj, xs_firstUse = True, xs_verifiedBefore = False\<rparr>"

record xs_stored =
  st_keys :: json
  st_firstUse :: bool
  st_verifiedBefore :: bool

definition xs_fromStorage :: "xs_stored \<Rightarrow> string \<Rightarrow> xs_info" where
  "xs_fromStorage obj userId =
     \<lparr>xs_userId = userId, xs_keys = st_keys obj, xs_firstUse = st_firstUse obj, xs_verifiedBefore = st_verifiedBefore obj\<rparr>"

definition xs_toStorage :: "xs_info \<Rightarrow> xs_stored" where
  "xs_toStorage x = \<lparr>st_keys = xs_keys x, st_firstUse = xs_firstUse x, st_verifiedBefore = xs_verifiedBefore x\<rparr>"

section \<open>Keys\<close>

text \<open>\<open>Object.values(keyInfo.keys)[0]\<close>; a key info without \<open>keys\<close> reads as one with none, where the code throws.\<close>

definition publicKeyFromKeyInfo :: "json \<Rightarrow> json" where
  "publicKeyFromKeyInfo keyInfo = (case entries (jget keyInfo ''keys'') of [] \<Rightarrow> JUndef | kv # _ \<Rightarrow> snd kv)"

definition xs_getId :: "string \<Rightarrow> xs_info \<Rightarrow> json" where
  "xs_getId ty x = (if \<not> truthy (jget (xs_keys x) ty) then JNull else publicKeyFromKeyInfo (jget (xs_keys x) ty))"

definition validateKey :: "'s signer \<Rightarrow> json \<Rightarrow> 's option \<Rightarrow> (json \<times> 's) option" where
  "validateKey c expected privkey =
     (case privkey of
        None \<Rightarrow> None
      | Some k \<Rightarrow> if JStr (public_key c k) = expected then Some (JStr (public_key c k), k) else None)"

text \<open>The key, and the keys that have been written to the cache.\<close>

definition getCrossSigningKey ::
  "'s signer \<Rightarrow> 's xs_callbacks \<Rightarrow> string \<Rightarrow> json \<Rightarrow> xs_info \<Rightarrow> (xs_error + json \<times> 's) \<times> (string \<times> 's) list" where
  "getCrossSigningKey c cbs ty expectedPubkey x =
     (case cb_getCrossSigningKey cbs of
        None \<Rightarrow> (Inl NoCallback, [])
      | Some get \<Rightarrow>
          let shouldCache = (ty \<in> {''master'', ''self_signing'', ''user_signing''});
              expected = (if expectedPubkey = JUndef then xs_getId ty x else expectedPubkey);
              cached = (case cb_cache cbs of Some f \<Rightarrow> if shouldCache then f ty expected else None | None \<Rightarrow> None)
          in (case validateKey c expected cached of
                Some r \<Rightarrow> (Inr r, [])
              | None \<Rightarrow>
                  (case validateKey c expected (get ty expected) of
                     Some r \<Rightarrow> (Inr r, if cb_storesCache cbs \<and> shouldCache then [(ty, snd r)] else [])
                   | None \<Rightarrow> if get ty expected = None then (Inl NoSuchKey, []) else (Inl KeyMismatch, []))))"

definition MASTER :: int where "MASTER = 4"
definition USER_SIGNING :: int where "USER_SIGNING = 2"
definition SELF_SIGNING :: int where "SELF_SIGNING = 1"

definition key_object :: "string \<Rightarrow> string \<Rightarrow> string \<Rightarrow> json" where
  "key_object userId usage pub =
     JObj [(''user_id'', JStr userId), (''usage'', JArr [JStr usage]), (''keys'', JObj [(key_id (JStr pub), JStr pub)])]"

definition reset_level :: "int option \<Rightarrow> xs_info \<Rightarrow> int option" where
  "reset_level level x =
     (case level of
        None \<Rightarrow> Some (MASTER OR USER_SIGNING OR SELF_SIGNING)
      | Some l \<Rightarrow>
          if l AND MASTER \<noteq> 0 \<or> \<not> truthy (jget (xs_keys x) ''master'') then Some (MASTER OR USER_SIGNING OR SELF_SIGNING)
          else if l = 0 then None else Some l)"

text \<open>A signing key below the master key; the entries to store, and the seed to save.\<close>

definition subkey :: "'s signer \<Rightarrow> int \<Rightarrow> int \<Rightarrow> string \<Rightarrow> (string \<Rightarrow> 's) \<Rightarrow> string \<Rightarrow> 's \<Rightarrow> json \<Rightarrow> (string \<times> json \<times> 's) list" where
  "subkey c level flag ty seeds userId masterSigning masterPub =
     (if level AND flag \<noteq> 0
      then [(ty, pkSign c (key_object userId ty (public_key c (seeds ty))) (PkSigning masterSigning) userId masterPub, seeds ty)] else [])"

text \<open>\<open>seeds\<close> are the random seeds. The result is what \<open>saveCrossSigningKeys\<close> is called with, if it is.\<close>

definition resetKeys ::
  "'s signer \<Rightarrow> 's xs_callbacks \<Rightarrow> (string \<Rightarrow> 's) \<Rightarrow> int option \<Rightarrow> xs_info \<Rightarrow> (xs_error + (string \<times> 's) list option) \<times> xs_info" where
  "resetKeys c cbs seeds level x =
     (if \<not> cb_canSave cbs then (Inl NoCallback, x)
      else case reset_level level x of
             None \<Rightarrow> (Inr None, x)
           | Some l \<Rightarrow>
               let userId = xs_userId x;
                   masterKey = (if l AND MASTER \<noteq> 0 then Inr (JStr (public_key c (seeds ''master'')), seeds ''master'')
                                else fst (getCrossSigningKey c cbs ''master'' JUndef x))
               in (case masterKey of
                     Inl e \<Rightarrow> (Inl e, x)
                   | Inr (masterPub, masterSigning) \<Rightarrow>
                       let new = (if l AND MASTER \<noteq> 0
                                  then [(''master'', key_object userId ''master'' (public_key c (seeds ''master'')), seeds ''master'')] else [])
                               @ subkey c l SELF_SIGNING ''self_signing'' seeds userId masterSigning masterPub
                               @ subkey c l USER_SIGNING ''user_signing'' seeds userId masterSigning masterPub
                       in (Inr (Some (map (\<lambda>(t, k, s). (t, s)) new)),
                           x\<lparr>xs_keys := fold (\<lambda>(t, k, s). set_prop t k) new (xs_keys x)\<rparr>)))"

definition clearKeys :: "xs_info \<Rightarrow> xs_info" where
  "clearKeys x = x\<lparr>xs_keys := empty_obj\<rparr>"

text \<open>One of the signing keys in the argument of \<open>setKeys\<close>.\<close>

definition check_signing_key :: "'s signer \<Rightarrow> json \<Rightarrow> json \<Rightarrow> json \<Rightarrow> xs_info \<Rightarrow> xs_error option" where
  "check_signing_key c keys keyInfo masterKey x =
     (if \<not> truthy keyInfo then None
      else if jget keyInfo ''user_id'' \<noteq> JStr (xs_userId x)
        then (if js_nullish (jget keys ''master'') then Some TypeError else Some MismatchedUser)
      else if pkVerify c keyInfo masterKey (xs_userId x) then None
      else Some BadSignature)"

definition save_keys :: "json \<Rightarrow> xs_info \<Rightarrow> xs_info" where
  "save_keys keys x =
     (let k1 = (if truthy (jget keys ''master'')
                then set_prop ''user_signing'' JNull (set_prop ''self_signing'' JNull (set_prop ''master'' (jget keys ''master'') (xs_keys x)))
                else xs_keys x);
          k2 = (if truthy (jget keys ''self_signing'') then set_prop ''self_signing'' (jget keys ''self_signing'') k1 else k1);
          k3 = (if truthy (jget keys ''user_signing'') then set_prop ''user_signing'' (jget keys ''user_signing'') k2 else k2)
      in x\<lparr>xs_keys := k3\<rparr>)"

definition check_and_save :: "'s signer \<Rightarrow> json \<Rightarrow> json \<Rightarrow> xs_info \<Rightarrow> (xs_error + unit) \<times> xs_info" where
  "check_and_save c keys signingMaster x =
     (let masterKey = publicKeyFromKeyInfo signingMaster in
      case check_signing_key c keys (jget keys ''user_signing'') masterKey x of
        Some e \<Rightarrow> (Inl e, x)
      | None \<Rightarrow>
          (case check_signing_key c keys (jget keys ''self_signing'') masterKey x of
             Some e \<Rightarrow> (Inl e, x)
           | None \<Rightarrow> (Inr (), save_keys keys x)))"

definition setKeys :: "'s signer \<Rightarrow> json \<Rightarrow> xs_info \<Rightarrow> (xs_error + unit) \<times> xs_info" where
  "setKeys c keys x =
     (let master = jget keys ''master'' in
      if truthy master then
        (if jget master ''user_id'' \<noteq> JStr (xs_userId x) then (Inl MismatchedUser, x)
         else check_and_save c keys master
           (if \<not> truthy (jget (xs_keys x) ''master'') then x\<lparr>xs_firstUse := True\<rparr>
            else if publicKeyFromKeyInfo master \<noteq> xs_getId ''master'' x then x\<lparr>xs_firstUse := False\<rparr>
            else x))
      else if truthy (jget (xs_keys x) ''master'') then check_and_save c keys (jget (xs_keys x) ''master'') x
      else (Inl NoMasterKey, x))"

definition updateCrossSigningVerifiedBefore :: "bool \<Rightarrow> xs_info \<Rightarrow> xs_info" where
  "updateCrossSigningVerifiedBefore isVerified x =
     (if \<not> xs_verifiedBefore x \<and> isVerified then x\<lparr>xs_verifiedBefore := True\<rparr> else x)"

definition signObject :: "'s signer \<Rightarrow> 's xs_callbacks \<Rightarrow> json \<Rightarrow> string \<Rightarrow> xs_info \<Rightarrow> xs_error + json" where
  "signObject c cbs data ty x =
     (if \<not> truthy (jget (xs_keys x) ty) then Inl NoSuchKey
      else case fst (getCrossSigningKey c cbs ty JUndef x) of
             Inl e \<Rightarrow> Inl e
           | Inr (pubkey, signing) \<Rightarrow>
               if js_nullish data then Inl TypeError else Inr (pkSign c data (PkSigning signing) (xs_userId x) pubkey))"

text \<open>\<open>signUser\<close> signs the master key of the other user in place.\<close>

definition signUser :: "'s signer \<Rightarrow> 's xs_callbacks \<Rightarrow> xs_info \<Rightarrow> xs_info \<Rightarrow> (xs_error + json option) \<times> xs_info" where
  "signUser c cbs key x =
     (if \<not> truthy (jget (xs_keys x) ''user_signing'') then (Inr None, key)
      else case signObject c cbs (jget (xs_keys key) ''master'') ''user_signing'' x of
             Inl e \<Rightarrow> (Inl e, key)
           | Inr res \<Rightarrow> (Inr (Some res), key\<lparr>xs_keys := set_prop ''master'' res (xs_keys key)\<rparr>))"

definition device_fields :: "device_info \<Rightarrow> string \<Rightarrow> (string \<times> json) list" where
  "device_fields d userId =
     [(''algorithms'', dv_algorithms d), (''keys'', dv_keys d), (''device_id'', JStr (dv_deviceId d)), (''user_id'', JStr userId)]"

definition deviceToObject :: "device_info \<Rightarrow> string \<Rightarrow> json" where
  "deviceToObject d userId = JObj (device_fields d userId @ [(''signatures'', dv_signatures d)])"

definition signDevice :: "'s signer \<Rightarrow> 's xs_callbacks \<Rightarrow> string \<Rightarrow> device_info \<Rightarrow> xs_info \<Rightarrow> xs_error + json option" where
  "signDevice c cbs userId d x =
     (if userId \<noteq> xs_userId x then Inl MismatchedUser
      else if \<not> truthy (jget (xs_keys x) ''self_signing'') then Inr None
      else case signObject c cbs (JObj (device_fields d userId)) ''self_signing'' x of
             Inl e \<Rightarrow> Inl e
           | Inr res \<Rightarrow> Inr (Some res))"

section \<open>Trust\<close>

record user_trust =
  ut_crossSigningVerified :: bool
  ut_verifiedBefore :: bool
  ut_tofu :: bool

record device_trust =
  dt_crossSigningVerified :: bool
  dt_tofu :: bool
  dt_localVerified :: bool
  dt_trustCrossSignedDevices :: bool

definition checkUserTrust :: "'s signer \<Rightarrow> xs_info \<Rightarrow> xs_info \<Rightarrow> user_trust" where
  "checkUserTrust c user x =
     (if xs_userId x = xs_userId user \<and> truthy (xs_getId ''master'' x) \<and> xs_getId ''master'' x = xs_getId ''master'' user \<and>
         truthy (xs_getId ''self_signing'' x) \<and> xs_getId ''self_signing'' x = xs_getId ''self_signing'' user
      then \<lparr>ut_crossSigningVerified = True, ut_verifiedBefore = True, ut_tofu = xs_firstUse x\<rparr>
      else if \<not> truthy (jget (xs_keys x) ''user_signing'')
      then \<lparr>ut_crossSigningVerified = False, ut_verifiedBefore = False, ut_tofu = xs_firstUse user\<rparr>
      else \<lparr>ut_crossSigningVerified = pkVerify c (jget (xs_keys user) ''master'') (xs_getId ''user_signing'' x) (xs_userId x),
            ut_verifiedBefore = xs_verifiedBefore user, ut_tofu = xs_firstUse user\<rparr>)"

definition fromUserTrustLevel :: "user_trust \<Rightarrow> bool \<Rightarrow> bool \<Rightarrow> device_trust" where
  "fromUserTrustLevel ut localVerified trustCrossSignedDevices =
     \<lparr>dt_crossSigningVerified = ut_crossSigningVerified ut, dt_tofu = ut_tofu ut, dt_localVerified = localVerified,
      dt_trustCrossSignedDevices = trustCrossSignedDevices\<rparr>"

definition checkDeviceTrust :: "'s signer \<Rightarrow> xs_info \<Rightarrow> device_info \<Rightarrow> bool \<Rightarrow> bool \<Rightarrow> xs_info \<Rightarrow> device_trust" where
  "checkDeviceTrust c user d localTrust trustCrossSignedDevices x =
     (let userTrust = checkUserTrust c user x;
          userSSK = jget (xs_keys user) ''self_signing'';
          untrusted = \<lparr>dt_crossSigningVerified = False, dt_tofu = False, dt_localVerified = localTrust,
                       dt_trustCrossSignedDevices = trustCrossSignedDevices\<rparr>
      in if \<not> truthy userSSK then untrusted
         else if pkVerify c userSSK (xs_getId ''master'' user) (xs_userId user) \<and>
                 pkVerify c (deviceToObject d (xs_userId user)) (publicKeyFromKeyInfo userSSK) (xs_userId user)
         then fromUserTrustLevel userTrust localTrust trustCrossSignedDevices
         else untrusted)"

definition deviceTrust_isVerified :: "device_trust \<Rightarrow> bool" where
  "deviceTrust_isVerified t \<longleftrightarrow> dt_localVerified t \<or> (dt_trustCrossSignedDevices t \<and> dt_crossSigningVerified t)"

section \<open>Signing keys belong to the master key\<close>

definition xs_ok :: "'s signer \<Rightarrow> xs_info \<Rightarrow> bool" where
  "xs_ok c x \<longleftrightarrow> is_object (xs_keys x) \<and>
     (truthy (jget (xs_keys x) ''master'') \<longrightarrow> jget (jget (xs_keys x) ''master'') ''user_id'' = JStr (xs_userId x)) \<and>
     (\<forall>t\<in>{''self_signing'', ''user_signing''}. truthy (jget (xs_keys x) t) \<longrightarrow>
        truthy (jget (xs_keys x) ''master'') \<and> jget (jget (xs_keys x) t) ''user_id'' = JStr (xs_userId x) \<and>
        pkVerify c (jget (xs_keys x) t) (publicKeyFromKeyInfo (jget (xs_keys x) ''master'')) (xs_userId x))"

inductive xs_reach :: "'s signer \<Rightarrow> xs_info \<Rightarrow> bool" for c where
  xs_new: "xs_reach c (new_xs_info userId)"
| xs_set: "xs_reach c x \<Longrightarrow> xs_reach c (snd (setKeys c keys x))"
| xs_reset: "xs_reach c x \<Longrightarrow> xs_reach c (snd (resetKeys c cbs seeds level x))"
| xs_clear: "xs_reach c x \<Longrightarrow> xs_reach c (clearKeys x)"
| xs_latch: "xs_reach c x \<Longrightarrow> xs_reach c (updateCrossSigningVerifiedBefore b x)"
| xs_signed: "xs_reach c x \<Longrightarrow> xs_reach c (snd (signUser c cbs x signer))"

lemma xs_ok_same_keys:
  assumes "xs_ok c x" "xs_keys x' = xs_keys x" "xs_userId x' = xs_userId x"
  shows "xs_ok c x'"
proof -
  have "xs_getId t x' = xs_getId t x" for t by (simp add: xs_getId_def assms(2))
  then show ?thesis using assms by (simp add: xs_ok_def)
qed

lemma jget_pkSign: "k \<notin> {''signatures'', ''unsigned''} \<Longrightarrow> jget (pkSign c obj key userId pub) k = jget obj k"
  by (auto simp: pkSign_def without_unsigned_def Let_def js_simps split_beta)

lemma truthy_pkSign: "is_object obj \<Longrightarrow> truthy (pkSign c obj key userId pub)"
  by (simp add: pkSign_def without_unsigned_def Let_def split_beta truthy_object)

lemma save_keys_field:
  assumes "is_object (xs_keys x)" and "t \<in> {''self_signing'', ''user_signing''}"
  shows "jget (xs_keys (save_keys keys x)) t =
    (if truthy (jget keys t) then jget keys t else if truthy (jget keys ''master'') then JNull else jget (xs_keys x) t)"
  using assms by (auto simp: save_keys_def Let_def js_simps)

lemma save_keys_master:
  assumes "is_object (xs_keys x)"
  shows "jget (xs_keys (save_keys keys x)) ''master'' =
    (if truthy (jget keys ''master'') then jget keys ''master'' else jget (xs_keys x) ''master'')"
    and "is_object (xs_keys (save_keys keys x))" and "xs_userId (save_keys keys x) = xs_userId x"
  using assms by (simp_all add: save_keys_def Let_def js_simps)

lemma check_passed:
  "check_signing_key c keys k m x = None \<Longrightarrow> truthy k \<Longrightarrow> jget k ''user_id'' = JStr (xs_userId x) \<and> pkVerify c k m (xs_userId x)"
  by (auto simp: check_signing_key_def split: if_splits)

lemma xs_ok_check_and_save:
  assumes ok: "xs_ok c x" and m: "truthy m" "jget m ''user_id'' = JStr (xs_userId x)"
    and given: "m = (if truthy (jget keys ''master'') then jget keys ''master'' else jget (xs_keys x) ''master'')"
  shows "xs_ok c (snd (check_and_save c keys m x))"
proof (cases "check_signing_key c keys (jget keys ''user_signing'') (publicKeyFromKeyInfo m) x = None \<and>
    check_signing_key c keys (jget keys ''self_signing'') (publicKeyFromKeyInfo m) x = None")
  case False
  then show ?thesis using ok by (auto simp: check_and_save_def Let_def split: option.split)
next
  case True
  let ?x = "save_keys keys x"
  have o: "is_object (xs_keys x)" using ok by (simp add: xs_ok_def)
  have s: "snd (check_and_save c keys m x) = ?x" using True by (simp add: check_and_save_def Let_def)
  have master: "jget (xs_keys ?x) ''master'' = m"
    using save_keys_master(1) [OF o, of keys] given m(1) by simp
  have old: "pkVerify c (jget (xs_keys x) t) (publicKeyFromKeyInfo m) (xs_userId x) \<and> jget (jget (xs_keys x) t) ''user_id'' = JStr (xs_userId x)"
    if "t \<in> {''self_signing'', ''user_signing''}" "truthy (jget (xs_keys x) t)" "\<not> truthy (jget keys ''master'')" for t
    using ok that given m(1) by (auto simp: xs_ok_def xs_getId_def)
  have fields: "jget (jget (xs_keys ?x) t) ''user_id'' = JStr (xs_userId x) \<and> pkVerify c (jget (xs_keys ?x) t) (publicKeyFromKeyInfo m) (xs_userId x)"
    if t: "t \<in> {''self_signing'', ''user_signing''}" and "truthy (jget (xs_keys ?x) t)" for t
  proof (cases "truthy (jget keys t)")
    case True
    then show ?thesis using check_passed [of c keys "jget keys t" "publicKeyFromKeyInfo m" x] t \<open>_ \<and> _\<close> save_keys_field [OF o t, of keys]
      by auto
  next
    case False
    then have "\<not> truthy (jget keys ''master'')" "jget (xs_keys ?x) t = jget (xs_keys x) t"
      using save_keys_field [OF o t, of keys] \<open>truthy (jget (xs_keys ?x) t)\<close> by (auto split: if_splits)
    then show ?thesis using old [OF t] \<open>truthy (jget (xs_keys ?x) t)\<close> by simp
  qed
  then show ?thesis unfolding s xs_ok_def using save_keys_master(2,3) [OF o, of keys] m master by simp
qed

lemma xs_ok_setKeys: "xs_ok c x \<Longrightarrow> xs_ok c (snd (setKeys c keys x))"
proof -
  assume ok: "xs_ok c x"
  have f: "xs_ok c (x\<lparr>xs_firstUse := b\<rparr>)" for b by (rule xs_ok_same_keys [OF ok]) simp_all
  show ?thesis
  proof (cases "truthy (jget keys ''master'')")
    case True
    then show ?thesis using ok f xs_ok_check_and_save [of c _ "jget keys ''master''" keys]
      by (auto simp: setKeys_def Let_def)
  next
    case False
    moreover have "jget (jget (xs_keys x) ''master'') ''user_id'' = JStr (xs_userId x)" if "truthy (jget (xs_keys x) ''master'')"
      using ok that by (simp add: xs_ok_def)
    ultimately show ?thesis using ok xs_ok_check_and_save [of c x "jget (xs_keys x) ''master''" keys]
      by (auto simp: setKeys_def Let_def)
  qed
qed

lemma getCrossSigningKey_sound:
  assumes "fst (getCrossSigningKey c cbs ty JUndef x) = Inr (pub, k)"
  shows "pub = JStr (public_key c k) \<and> pub = xs_getId ty x"
  using assms by (auto simp: getCrossSigningKey_def validateKey_def Let_def split: option.splits if_splits)

lemma key_object_simps [simp]:
  "is_object (key_object userId usage pub)" "jget (key_object userId usage pub) ''user_id'' = JStr userId"
  "jget (key_object userId usage pub) ''signatures'' = JUndef" "truthy (key_object userId usage pub)"
  "publicKeyFromKeyInfo (key_object userId usage pub) = JStr pub"
  by (simp_all add: key_object_def publicKeyFromKeyInfo_def)

text \<open>A signing key made by \<open>resetKeys\<close> is that of the user, and the master key has signed it.\<close>

lemma subkey_good:
  assumes "signer_ok c"
  shows "let k = pkSign c (key_object userId ty pub) (PkSigning s) userId (JStr (public_key c s)) in
    truthy k \<and> jget k ''user_id'' = JStr userId \<and> pkVerify c k (JStr (public_key c s)) userId \<and> publicKeyFromKeyInfo k = JStr pub"
proof -
  have "publicKeyFromKeyInfo (pkSign c (key_object userId ty pub) (PkSigning s) userId (JStr (public_key c s))) = JStr pub"
    by (simp add: publicKeyFromKeyInfo_def jget_pkSign) (simp add: key_object_def)
  then show ?thesis using assms by (simp add: Let_def truthy_pkSign jget_pkSign pkVerify_pkSign js_or_def)
qed

lemma all_levels [simp]: "MASTER OR USER_SIGNING OR SELF_SIGNING = 7" "7 AND MASTER = 4" "7 AND USER_SIGNING = 2" "7 AND SELF_SIGNING = 1"
  by (simp_all add: MASTER_def USER_SIGNING_def SELF_SIGNING_def)

lemma resetKeys_all:
  assumes "cb_canSave cbs" "level = None"
  shows "resetKeys c cbs seeds level x =
    (let M = key_object (xs_userId x) ''master'' (public_key c (seeds ''master''));
         sub = \<lambda>t. pkSign c (key_object (xs_userId x) t (public_key c (seeds t))) (PkSigning (seeds ''master'')) (xs_userId x)
                 (JStr (public_key c (seeds ''master'')))
     in (Inr (Some (map (\<lambda>t. (t, seeds t)) [''master'', ''self_signing'', ''user_signing''])),
         x\<lparr>xs_keys := set_prop ''user_signing'' (sub ''user_signing'') (set_prop ''self_signing'' (sub ''self_signing'')
            (set_prop ''master'' M (xs_keys x)))\<rparr>))"
  using assms by (simp add: resetKeys_def reset_level_def subkey_def Let_def)

lemma xs_ok_resetKeys:
  assumes c: "signer_ok c" and ok: "xs_ok c x"
  shows "xs_ok c (snd (resetKeys c cbs seeds level x))"
proof -
  have o: "is_object (xs_keys x)" using ok by (simp add: xs_ok_def)
  let ?sub = "\<lambda>s t. pkSign c (key_object (xs_userId x) t (public_key c (seeds t))) (PkSigning s) (xs_userId x) (JStr (public_key c s))"
  have all: "xs_ok c (x\<lparr>xs_keys := set_prop ''user_signing'' (?sub (seeds ''master'') ''user_signing'')
      (set_prop ''self_signing'' (?sub (seeds ''master'') ''self_signing'')
        (set_prop ''master'' (key_object (xs_userId x) ''master'' (public_key c (seeds ''master''))) (xs_keys x)))\<rparr>)"
    using o subkey_good [OF c] by (simp add: xs_ok_def xs_getId_def js_simps Let_def)
  have some: "xs_ok c (x\<lparr>xs_keys := fold (\<lambda>(t, k, s). set_prop t k) new (xs_keys x)\<rparr>)"
    if key: "fst (getCrossSigningKey c cbs ''master'' JUndef x) = Inr (pub, k)" and m: "truthy (jget (xs_keys x) ''master'')"
      and new: "new = subkey c l SELF_SIGNING ''self_signing'' seeds (xs_userId x) k pub @
        subkey c l USER_SIGNING ''user_signing'' seeds (xs_userId x) k pub" for pub k l new
  proof -
    let ?new = "subkey c l SELF_SIGNING ''self_signing'' seeds (xs_userId x) k pub @
        subkey c l USER_SIGNING ''user_signing'' seeds (xs_userId x) k pub"
    have p: "pub = JStr (public_key c k)" "xs_getId ''master'' x = JStr (public_key c k)"
      using getCrossSigningKey_sound [OF key] by auto
    have g: "publicKeyFromKeyInfo (jget (xs_keys x) ''master'') = JStr (public_key c k)" using p(2) m by (simp add: xs_getId_def)
    have old: "truthy (jget (xs_keys x) t) \<longrightarrow> jget (jget (xs_keys x) t) ''user_id'' = JStr (xs_userId x) \<and>
        pkVerify c (jget (xs_keys x) t) (JStr (public_key c k)) (xs_userId x)" if "t \<in> {''self_signing'', ''user_signing''}" for t
      using ok that g by (auto simp: xs_ok_def)
    have mid: "jget (jget (xs_keys x) ''master'') ''user_id'' = JStr (xs_userId x)" using ok m by (simp add: xs_ok_def)
    show ?thesis
      using o m subkey_good [OF c] old mid g
      by (simp add: new p(1) subkey_def xs_ok_def xs_getId_def js_simps Let_def)
  qed
  show ?thesis
  proof (cases "cb_canSave cbs \<and> reset_level level x \<noteq> None")
    case False
    then show ?thesis using ok by (auto simp: resetKeys_def)
  next
    case True
    then obtain l where l: "reset_level level x = Some l" by auto
    show ?thesis
    proof (cases "l AND MASTER \<noteq> 0")
      case m: True
      then have "l = 7" using l by (auto simp: reset_level_def split: option.splits if_splits)
      then show ?thesis using True l all by (simp add: resetKeys_def subkey_def Let_def)
    next
      case False
      then have m: "truthy (jget (xs_keys x) ''master'')" using l by (auto simp: reset_level_def split: option.splits if_splits)
      show ?thesis
      proof (cases "fst (getCrossSigningKey c cbs ''master'' JUndef x)")
        case (Inl e)
        then show ?thesis using ok True l False by (simp add: resetKeys_def Let_def)
      next
        case (Inr r)
        obtain pub k where r: "r = (pub, k)" by fastforce
        note key = Inr [unfolded r]
        from some [OF key m refl, of l] show ?thesis using True l False key by (simp add: resetKeys_def Let_def)
      qed
    qed
  qed
qed

lemma signUser_effect:
  "snd (signUser c cbs x signer) = x \<or>
   (\<exists>k u p. snd (signUser c cbs x signer) = x\<lparr>xs_keys := set_prop ''master'' (pkSign c (jget (xs_keys x) ''master'') k u p) (xs_keys x)\<rparr>)"
  by (auto simp: signUser_def signObject_def split: option.split sum.split)

lemma xs_ok_signUser:
  assumes ok: "xs_ok c x"
  shows "xs_ok c (snd (signUser c cbs x signer))"
proof (cases "snd (signUser c cbs x signer) = x")
  case False
  then obtain k u p where s: "snd (signUser c cbs x signer) =
      x\<lparr>xs_keys := set_prop ''master'' (pkSign c (jget (xs_keys x) ''master'') k u p) (xs_keys x)\<rparr>"
    using signUser_effect by blast
  let ?m = "jget (xs_keys x) ''master''" and ?m' = "pkSign c (jget (xs_keys x) ''master'') k u p"
  have fields: "jget ?m' ''user_id'' = jget ?m ''user_id''" "publicKeyFromKeyInfo ?m' = publicKeyFromKeyInfo ?m"
    by (simp_all add: jget_pkSign publicKeyFromKeyInfo_def)
  have "truthy ?m' = truthy ?m"
    by (simp add: pkSign_def without_unsigned_def Let_def split_beta truthy_del_prop)
  then show ?thesis using ok fields unfolding s by (simp add: xs_ok_def xs_getId_def js_simps)
qed (simp add: ok)

lemma xs_reach_ok: "xs_reach c x \<Longrightarrow> signer_ok c \<Longrightarrow> xs_ok c x"
proof (induction rule: xs_reach.induct)
  case (xs_new userId)
  then show ?case by (simp add: xs_ok_def new_xs_info_def)
next
  case (xs_clear x)
  then show ?case by (simp add: xs_ok_def clearKeys_def)
next
  case (xs_latch x b)
  then have "xs_ok c x" by simp
  then show ?case by (rule xs_ok_same_keys) (simp_all add: updateCrossSigningVerifiedBefore_def)
qed (simp_all add: xs_ok_setKeys xs_ok_resetKeys xs_ok_signUser)

section \<open>The properties\<close>



text \<open>Two users who have just created their keys, and whose applications return the seeds.\<close>

definition own_seeds :: "(string \<Rightarrow> 's) \<Rightarrow> 's xs_callbacks" where
  "own_seeds seeds = \<lparr>cb_getCrossSigningKey = Some (\<lambda>ty _. Some (seeds ty)), cb_canSave = True, cb_cache = None, cb_storesCache = False\<rparr>"

definition fresh_keys :: "'s signer \<Rightarrow> (string \<Rightarrow> 's) \<Rightarrow> string \<Rightarrow> xs_info" where
  "fresh_keys c seeds userId = snd (resetKeys c (own_seeds seeds) seeds None (new_xs_info userId))"

definition fresh_sub :: "'s signer \<Rightarrow> (string \<Rightarrow> 's) \<Rightarrow> string \<Rightarrow> string \<Rightarrow> json" where
  "fresh_sub c seeds userId t =
     pkSign c (key_object userId t (public_key c (seeds t))) (PkSigning (seeds ''master'')) userId (JStr (public_key c (seeds ''master'')))"

lemma fresh_keys_simps:
  "xs_userId (fresh_keys c seeds userId) = userId"
  "xs_keys (fresh_keys c seeds userId) =
     JObj [(''master'', key_object userId ''master'' (public_key c (seeds ''master''))),
           (''self_signing'', fresh_sub c seeds userId ''self_signing''), (''user_signing'', fresh_sub c seeds userId ''user_signing'')]"
proof -
  have "cb_canSave (own_seeds seeds)" by (simp add: own_seeds_def)
  note run = resetKeys_all [OF this refl, of c seeds "new_xs_info userId"]
  note keys = fresh_keys_def [of c seeds userId, unfolded run Let_def snd_conv]
  show "xs_userId (fresh_keys c seeds userId) = userId" by (simp add: keys new_xs_info_def)
  show "xs_keys (fresh_keys c seeds userId) =
     JObj [(''master'', key_object userId ''master'' (public_key c (seeds ''master''))),
           (''self_signing'', fresh_sub c seeds userId ''self_signing''), (''user_signing'', fresh_sub c seeds userId ''user_signing'')]"
    by (simp add: keys new_xs_info_def fresh_sub_def empty_obj_def)
qed

lemma fresh_sub_good:
  assumes "signer_ok c"
  shows "truthy (fresh_sub c seeds userId t)" "jget (fresh_sub c seeds userId t) ''user_id'' = JStr userId"
    "pkVerify c (fresh_sub c seeds userId t) (JStr (public_key c (seeds ''master''))) userId"
    "publicKeyFromKeyInfo (fresh_sub c seeds userId t) = JStr (public_key c (seeds t))"
  using subkey_good [OF assms, of userId t "public_key c (seeds t)" "seeds ''master''"] by (simp_all add: fresh_sub_def Let_def)

lemma own_key_found:
  assumes "xs_getId ty x = JStr (public_key c (seeds ty))"
  shows "fst (getCrossSigningKey c (own_seeds seeds) ty JUndef x) = Inr (JStr (public_key c (seeds ty)), seeds ty)"
  using assms by (simp add: getCrossSigningKey_def own_seeds_def validateKey_def Let_def)

text \<open>
  C27. An honest verification works end to end: two users create their keys, the first signs the second, the second signs a device; when
  the first reads the keys of the second from the server, they are accepted and the signed device is verified.
\<close>

theorem honest_cross_signing:
  assumes ok: "signer_ok c"
  shows "let alice = fresh_keys c seedsA userA; bob = fresh_keys c seedsB userB;
      (signedUser, bob') = signUser c (own_seeds seedsA) bob alice;
      signedDevice = signDevice c (own_seeds seedsB) userB d bob;
      (result, seen) = setKeys c (xs_keys bob') (new_xs_info userB)
    in isl signedUser = False \<and> result = Inr () \<and>
       (\<exists>obj. signedDevice = Inr (Some obj) \<and>
          deviceTrust_isVerified (checkDeviceTrust c seen (d\<lparr>dv_signatures := jget obj ''signatures''\<rparr>) False True alice))"
proof -
  let ?alice = "fresh_keys c seedsA userA" and ?bob = "fresh_keys c seedsB userB"
  let ?pub = "\<lambda>seeds t. JStr (public_key c (seeds t))"
  let ?M = "key_object userB ''master'' (public_key c (seedsB ''master''))"
  let ?M' = "pkSign c ?M (PkSigning (seedsA ''user_signing'')) userA (?pub seedsA ''user_signing'')"
  let ?S = "fresh_sub c seedsB userB ''self_signing''" and ?U = "fresh_sub c seedsB userB ''user_signing''"
  let ?obj = "pkSign c (JObj (device_fields d userB)) (PkSigning (seedsB ''self_signing'')) userB (?pub seedsB ''self_signing'')"
  have ids: "xs_getId ''user_signing'' ?alice = ?pub seedsA ''user_signing''" "xs_getId ''self_signing'' ?bob = ?pub seedsB ''self_signing''"
    by (simp_all add: xs_getId_def fresh_keys_simps fresh_sub_good [OF ok])
  have user: "signUser c (own_seeds seedsA) ?bob ?alice = (Inr (Some ?M'), ?bob\<lparr>xs_keys := set_prop ''master'' ?M' (xs_keys ?bob)\<rparr>)"
    using own_key_found [of "''user_signing''" ?alice c seedsA, OF ids(1)]
    by (simp add: signUser_def signObject_def fresh_keys_simps fresh_sub_good [OF ok] js_nullish_def key_object_def)
  have device: "signDevice c (own_seeds seedsB) userB d ?bob = Inr (Some ?obj)"
    using own_key_found [of "''self_signing''" ?bob c seedsB, OF ids(2)]
    by (simp add: signDevice_def signObject_def fresh_keys_simps fresh_sub_good [OF ok] js_nullish_def)
  have keys: "xs_keys (?bob\<lparr>xs_keys := set_prop ''master'' ?M' (xs_keys ?bob)\<rparr>) =
      JObj [(''master'', ?M'), (''self_signing'', ?S), (''user_signing'', ?U)]"
    by (simp add: fresh_keys_simps)
  have m: "truthy ?M'" "jget ?M' ''user_id'' = JStr userB" "publicKeyFromKeyInfo ?M' = ?pub seedsB ''master''"
  proof -
    show "truthy ?M'" by (simp add: truthy_pkSign)
    show "jget ?M' ''user_id'' = JStr userB" by (simp add: jget_pkSign)
    have "publicKeyFromKeyInfo ?M' = publicKeyFromKeyInfo ?M" by (simp add: publicKeyFromKeyInfo_def jget_pkSign)
    then show "publicKeyFromKeyInfo ?M' = ?pub seedsB ''master''" by simp
  qed
  let ?seen = "\<lparr>xs_userId = userB, xs_keys = JObj [(''master'', ?M'), (''self_signing'', ?S), (''user_signing'', ?U)],
      xs_firstUse = True, xs_verifiedBefore = False\<rparr>"
  have set: "setKeys c (JObj [(''master'', ?M'), (''self_signing'', ?S), (''user_signing'', ?U)]) (new_xs_info userB) = (Inr (), ?seen)"
    by (simp add: setKeys_def check_and_save_def check_signing_key_def save_keys_def new_xs_info_def Let_def m fresh_sub_good [OF ok] empty_obj_def)
  have trust: "pkVerify c ?M' (?pub seedsA ''user_signing'') userA"
    by (rule pkVerify_pkSign [OF ok]) (simp_all add: js_or_def)
  have dev: "pkVerify c ?obj (?pub seedsB ''self_signing'') userB"
    by (rule pkVerify_pkSign [OF ok]) (simp_all add: js_or_def device_fields_def)
  have bare: "?obj = deviceToObject (d\<lparr>dv_signatures := jget ?obj ''signatures''\<rparr>) userB"
    by (simp add: pkSign_def without_unsigned_def deviceToObject_def device_fields_def Let_def js_or_def)
  have "deviceTrust_isVerified (checkDeviceTrust c ?seen (d\<lparr>dv_signatures := jget ?obj ''signatures''\<rparr>) False True ?alice)"
    using trust dev bare [symmetric] fresh_sub_good [OF ok]
    by (simp add: deviceTrust_isVerified_def checkDeviceTrust_def fromUserTrustLevel_def checkUserTrust_def Let_def xs_getId_def
        fresh_keys_simps m)
  then show ?thesis unfolding Let_def user device by (simp add: keys set)
qed

section \<open>Concrete keys\<close>

text \<open>A signature scheme that satisfies the law: a signature is the key and the message.\<close>

definition sample_signer :: "string signer" where
  "sample_signer =
     \<lparr>canonical = (\<lambda>j. ''c''), ed25519_verify = (\<lambda>pub m s. case pub of JStr p \<Rightarrow> s = JStr (''s'' @ p @ m) | _ \<Rightarrow> False),
      ed25519_sign = (\<lambda>k m. ''s'' @ k @ m), public_key = (\<lambda>k. k)\<rparr>"

lemma sample_signer_ok: "signer_ok sample_signer"
  by (simp add: signer_ok_def sample_signer_def)

definition sample_alice :: xs_info where
  "sample_alice = fresh_keys sample_signer (\<lambda>t. ''A'' @ t) ''@a''"

definition sample_bob :: xs_info where
  "sample_bob = snd (signUser sample_signer (own_seeds (\<lambda>t. ''A'' @ t)) (fresh_keys sample_signer (\<lambda>t. ''B'' @ t) ''@b'') sample_alice)"

definition sample_device :: device_info where
  "sample_device = (new_device ''D'')\<lparr>dv_signatures :=
     (case signDevice sample_signer (own_seeds (\<lambda>t. ''B'' @ t)) ''@b'' (new_device ''D'') sample_bob of
        Inr (Some obj) \<Rightarrow> jget obj ''signatures'' | _ \<Rightarrow> JUndef)\<rparr>"

lemma sample_alice_reach: "xs_reach sample_signer sample_alice"
  unfolding sample_alice_def fresh_keys_def by (intro xs_reset xs_new)



theorem honest_cross_signing_witness:
  "\<exists>obj. signDevice sample_signer (own_seeds (\<lambda>t. ''B'' @ t)) ''@b'' (new_device ''D'') (fresh_keys sample_signer (\<lambda>t. ''B'' @ t) ''@b'') =
     Inr (Some obj)"
  using honest_cross_signing [OF sample_signer_ok, of "\<lambda>t. ''A'' @ t" "''@a''" "\<lambda>t. ''B'' @ t" "''@b''" "new_device ''D''"]
  by (auto simp: Let_def split_beta)

section \<open>Divergences\<close>

text \<open>
  \<open>setKeys\<close> takes back the trust on first use before it has checked the signatures: keys that it rejects leave the stored keys as they
  are, but no longer trusted on first use.
\<close>

lemma first_use_lost:
  "let forged = JObj [(''master'', key_object ''@a'' ''master'' ''X''), (''self_signing'', key_object ''@a'' ''self_signing'' ''Y'')];
       (result, x) = setKeys sample_signer forged sample_alice
   in result = Inl BadSignature \<and> xs_keys x = xs_keys sample_alice \<and> xs_firstUse sample_alice \<and> \<not> xs_firstUse x"
  by code_simp

end
