(* ===== verification/DeviceList.thy ===== *)
theory DeviceList
  imports CrossSigning
begin

text \<open>
  The lists of devices (\<^verbatim>\<open>crypto/DeviceList.ts\<close>): which users are tracked, the downloads of their keys, one query at a time, and what a
  response may change. Promises are numbers: a download registers a handler with the deferred of its query; the handlers that a settled
  deferred runs, and the writes of a save, are tasks. A query that is under way and the users whose answers are still to be processed are
  the field \<open>dl_query\<close>; between reading the devices of a user and storing them again the program awaits, which makes two steps.
\<close>

datatype tracking = NotTracked | PendingDownload | DownloadInProgress | UpToDate

record 's dl_env =
  ev_signer :: "'s signer"
  ev_userId :: string
  ev_deviceId :: string
  ev_chunkSize :: nat

record dl_snapshot =
  sn_devices :: "(string, (string, idevice) dict) dict"
  sn_crossSigning :: "(string, xs_stored) dict"
  sn_status :: "(string, tracking) dict"
  sn_syncToken :: "string option"

text \<open>The four parts of the merged responses: device, master, self-signing and user-signing keys by user.\<close>

record key_answers =
  ka_devices :: json
  ka_master :: json
  ka_self_signing :: json
  ka_user_signing :: json

datatype query =
    Waiting nat "string list"
  | Processing nat "string list" key_answers
  | Storing nat "string list" key_answers string "(string, idevice) dict option"

datatype dl_emission = WillUpdateDevices "string list" bool | DevicesUpdated "string list" bool | UserCrossSigningUpdated string

datatype dl_task = Finished nat "string list" bool | Write dl_snapshot nat

record device_list =
  dl_devices :: "(string, (string, idevice) dict) dict"
  dl_crossSigning :: "(string, xs_stored) dict"
  dl_userByIdentityKey :: "(string, string) dict"
  dl_status :: "(string, tracking) dict"
  dl_syncToken :: "string option"
  dl_inProgress :: "(string, nat) dict"
  dl_dirty :: bool
  dl_savePromise :: "nat option"
  dl_savePromiseTime :: "int option"
  dl_saveTimer :: "nat option"
  dl_hasFetched :: bool
  us_downloadInProgress :: bool
  us_queued :: "string list"
  us_deferred :: "nat option"
  us_syncToken :: "string option"
  dl_query :: "query option"
  dl_handlers :: "(nat \<times> nat \<times> string list) list"
  dl_tasks :: "dl_task list"
  dl_next :: nat
  dl_sent :: "(string list list \<times> string option) list"
  dl_emitted :: "dl_emission list"
  dl_saved :: "nat list"
  dl_store :: "dl_snapshot option"

section \<open>Loading and saving\<close>

definition loaded_status :: "(string, tracking) dict \<Rightarrow> (string, tracking) dict" where
  "loaded_status d = map (\<lambda>(u, t). (u, if t = DownloadInProgress then PendingDownload else t)) d"

definition identity_key :: "string \<Rightarrow> idevice \<Rightarrow> json" where
  "identity_key deviceId dev = jget (id_keys dev) (''curve25519:'' @ deviceId)"

definition loaded_users :: "(string, (string, idevice) dict) dict \<Rightarrow> (string, string) dict" where
  "loaded_users devices =
     fold (\<lambda>(user, devs). fold (\<lambda>(d, dev) m. if identity_key d dev = JUndef then m else dset (key_text (identity_key d dev)) user m) devs)
       devices []"

text \<open>A new device list after \<open>load\<close>.\<close>

definition dl_load :: "dl_snapshot option \<Rightarrow> device_list" where
  "dl_load stored =
     (let sn = (case stored of Some sn \<Rightarrow> sn | None \<Rightarrow> \<lparr>sn_devices = [], sn_crossSigning = [], sn_status = [], sn_syncToken = None\<rparr>)
      in \<lparr>dl_devices = sn_devices sn, dl_crossSigning = sn_crossSigning sn, dl_userByIdentityKey = loaded_users (sn_devices sn),
          dl_status = loaded_status (sn_status sn), dl_syncToken = sn_syncToken sn, dl_inProgress = [], dl_dirty = False,
          dl_savePromise = None, dl_savePromiseTime = None, dl_saveTimer = None, dl_hasFetched = (stored \<noteq> None),
          us_downloadInProgress = False, us_queued = [], us_deferred = None, us_syncToken = None, dl_query = None, dl_handlers = [],
          dl_tasks = [], dl_next = 0, dl_sent = [], dl_emitted = [], dl_saved = [], dl_store = stored\<rparr>)"

definition saveIfDirty :: "int \<Rightarrow> int \<Rightarrow> device_list \<Rightarrow> device_list" where
  "saveIfDirty now delay s =
     (if \<not> dl_dirty s then s
      else
        let targetTime = now + delay;
            s1 = (case dl_savePromiseTime s of
                    Some t \<Rightarrow> if t \<noteq> 0 \<and> targetTime < t then s\<lparr>dl_saveTimer := None, dl_savePromiseTime := None\<rparr> else s
                  | None \<Rightarrow> s);
            s2 = (if dl_savePromise s1 = None then s1\<lparr>dl_savePromise := Some (dl_next s1), dl_next := dl_next s1 + 1\<rparr> else s1)
        in if dl_saveTimer s2 = None
           then s2\<lparr>dl_savePromiseTime := Some targetTime, dl_saveTimer := dl_savePromise s2\<rparr> else s2)"

definition snapshot :: "device_list \<Rightarrow> dl_snapshot" where
  "snapshot s =
     \<lparr>sn_devices = dl_devices s, sn_crossSigning = dl_crossSigning s, sn_status = dl_status s, sn_syncToken = dl_syncToken s\<rparr>"

text \<open>The timer of a save fires; its write completes later, or fails.\<close>

definition save_timer_fires :: "device_list \<Rightarrow> device_list" where
  "save_timer_fires s =
     (case dl_saveTimer s of
        None \<Rightarrow> s
      | Some p \<Rightarrow> s\<lparr>dl_savePromiseTime := None, dl_saveTimer := None, dl_savePromise := None, dl_tasks := dl_tasks s @ [Write (snapshot s) p]\<rparr>)"

definition write_done :: "bool \<Rightarrow> dl_snapshot \<Rightarrow> nat \<Rightarrow> device_list \<Rightarrow> device_list" where
  "write_done success sn p s = (if success then s\<lparr>dl_store := Some sn, dl_dirty := False, dl_saved := dl_saved s @ [p]\<rparr> else s)"

definition dl_stop :: "device_list \<Rightarrow> device_list" where
  "dl_stop s = s\<lparr>dl_saveTimer := None\<rparr>"

definition setSyncToken :: "string option \<Rightarrow> device_list \<Rightarrow> device_list" where
  "setSyncToken st s = s\<lparr>dl_syncToken := st\<rparr>"

section \<open>Questions\<close>

definition getStoredDevicesForUser :: "string \<Rightarrow> device_list \<Rightarrow> device_info list option" where
  "getStoredDevicesForUser userId s = map_option (map (\<lambda>(d, dev). device_fromStorage dev d)) (dget (dl_devices s) userId)"

definition getDevicesFromStore :: "string list \<Rightarrow> device_list \<Rightarrow> (string, (string, device_info) dict) dict" where
  "getDevicesFromStore userIds s =
     fold (\<lambda>u stored. dset u (fold (\<lambda>dev. dset (dv_deviceId dev) dev)
             (case getStoredDevicesForUser u s of Some ds \<Rightarrow> ds | None \<Rightarrow> []) []) stored) userIds []"

definition getStoredDevice :: "string \<Rightarrow> string \<Rightarrow> device_list \<Rightarrow> device_info option" where
  "getStoredDevice userId deviceId s =
     (case dget (dl_devices s) userId of
        None \<Rightarrow> None
      | Some devs \<Rightarrow> map_option (\<lambda>dev. device_fromStorage dev deviceId) (dget devs deviceId))"

definition getStoredCrossSigningForUser :: "string \<Rightarrow> device_list \<Rightarrow> xs_info option" where
  "getStoredCrossSigningForUser userId s = map_option (\<lambda>x. xs_fromStorage x userId) (dget (dl_crossSigning s) userId)"

definition getUserByIdentityKey :: "string \<Rightarrow> string \<Rightarrow> device_list \<Rightarrow> string option" where
  "getUserByIdentityKey algorithm senderKey s =
     (if algorithm \<noteq> ''m.olm.v1.curve25519-aes-sha2'' \<and> algorithm \<noteq> ''m.megolm.v1.aes-sha2'' then None
      else dget (dl_userByIdentityKey s) senderKey)"

definition getDeviceByIdentityKey :: "string \<Rightarrow> string \<Rightarrow> device_list \<Rightarrow> device_info option" where
  "getDeviceByIdentityKey algorithm senderKey s =
     (case getUserByIdentityKey algorithm senderKey s of
        None \<Rightarrow> None
      | Some userId \<Rightarrow>
          (case dget (dl_devices s) userId of
             None \<Rightarrow> None
           | Some devs \<Rightarrow>
               map_option (\<lambda>(d, dev). device_fromStorage dev d)
                 (List.find (\<lambda>(d, dev). \<exists>kv\<in>set (entries (id_keys dev)). take 11 (fst kv) = ''curve25519:'' \<and> snd kv = JStr senderKey) devs)))"

section \<open>Tracking\<close>

definition status_of :: "device_list \<Rightarrow> string \<Rightarrow> tracking" where
  "status_of s u = (case dget (dl_status s) u of Some t \<Rightarrow> t | None \<Rightarrow> NotTracked)"

definition startTrackingDeviceList :: "string \<Rightarrow> device_list \<Rightarrow> device_list" where
  "startTrackingDeviceList userId s =
     (if status_of s userId = NotTracked then s\<lparr>dl_status := dset userId PendingDownload (dl_status s), dl_dirty := True\<rparr> else s)"

definition stopTrackingDeviceList :: "string \<Rightarrow> device_list \<Rightarrow> device_list" where
  "stopTrackingDeviceList userId s =
     (if status_of s userId \<noteq> NotTracked then s\<lparr>dl_status := dset userId NotTracked (dl_status s), dl_dirty := True\<rparr> else s)"

definition stopTrackingAllDeviceLists :: "device_list \<Rightarrow> device_list" where
  "stopTrackingAllDeviceLists s = s\<lparr>dl_status := map (\<lambda>(u, t). (u, NotTracked)) (dl_status s), dl_dirty := True\<rparr>"

definition invalidateUserDeviceList :: "string \<Rightarrow> device_list \<Rightarrow> device_list" where
  "invalidateUserDeviceList userId s =
     (if status_of s userId \<noteq> NotTracked then s\<lparr>dl_status := dset userId PendingDownload (dl_status s), dl_dirty := True\<rparr> else s)"

section \<open>Storing devices\<close>

definition setRawStoredDevicesForUser :: "string \<Rightarrow> (string, idevice) dict \<Rightarrow> device_list \<Rightarrow> device_list" where
  "setRawStoredDevicesForUser userId devices s =
     (let old = (case dget (dl_devices s) userId of Some devs \<Rightarrow> devs | None \<Rightarrow> []);
          m1 = fold (\<lambda>(d, dev). ddel (key_text (identity_key d dev))) old (dl_userByIdentityKey s);
          m2 = fold (\<lambda>(d, dev). dset (key_text (identity_key d dev)) userId) devices m1
      in s\<lparr>dl_devices := dset userId devices (dl_devices s), dl_userByIdentityKey := m2\<rparr>)"

definition storeDevicesForUser :: "string \<Rightarrow> (string, idevice) dict \<Rightarrow> device_list \<Rightarrow> device_list" where
  "storeDevicesForUser userId devices s = (setRawStoredDevicesForUser userId devices s)\<lparr>dl_dirty := True\<rparr>"

definition storeCrossSigningForUser :: "string \<Rightarrow> xs_stored \<Rightarrow> device_list \<Rightarrow> device_list" where
  "storeCrossSigningForUser userId x s = s\<lparr>dl_crossSigning := dset userId x (dl_crossSigning s), dl_dirty := True\<rparr>"

definition storeDeviceKeys :: "'s signer \<Rightarrow> json \<Rightarrow> string \<Rightarrow> string \<Rightarrow> (string, device_info) dict \<Rightarrow> (string, device_info) dict" where
  "storeDeviceKeys c deviceResult userId deviceId userStore =
     (let keys = jget deviceResult ''keys''; signKey = jget keys (''ed25519:'' @ deviceId) in
      if \<not> truthy keys \<or> \<not> truthy signKey then userStore
      else if \<not> verifySignature c deviceResult userId deviceId signKey then userStore
      else case (case dget userStore deviceId of
                   Some d \<Rightarrow> if getFingerprint d \<noteq> signKey then None else Some d
                 | None \<Rightarrow> Some (new_device deviceId)) of
             None \<Rightarrow> userStore
           | Some d \<Rightarrow>
               dset deviceId
                 (d\<lparr>dv_keys := keys, dv_algorithms := js_or (jget deviceResult ''algorithms'') (JArr []),
                    dv_unsigned := js_or (jget deviceResult ''unsigned'') empty_obj,
                    dv_signatures := js_or (jget deviceResult ''signatures'') empty_obj\<rparr>) userStore)"

text \<open>The loop over the devices of a response; reading a property of \<open>null\<close> throws.\<close>

fun store_each :: "'s signer \<Rightarrow> string \<Rightarrow> (string \<times> json) list \<Rightarrow> (string, device_info) dict \<Rightarrow> (string, device_info) dict option" where
  "store_each c userId [] userStore = Some userStore"
| "store_each c userId ((deviceId, deviceResult) # rest) userStore =
     (if js_nullish deviceResult then None
      else if jget deviceResult ''user_id'' \<noteq> JStr userId then store_each c userId rest userStore
      else if jget deviceResult ''device_id'' \<noteq> JStr deviceId then store_each c userId rest userStore
      else store_each c userId rest (storeDeviceKeys c deviceResult userId deviceId userStore))"

definition updateStoredDeviceKeysForUser ::
  "'s dl_env \<Rightarrow> string \<Rightarrow> (string, device_info) dict \<Rightarrow> json \<Rightarrow> (string, device_info) dict option" where
  "updateStoredDeviceKeysForUser env userId userStore userResult =
     store_each (ev_signer env) userId (entries userResult)
       (filter (\<lambda>(d, _). own userResult d \<or> (userId = ev_userId env \<and> d = ev_deviceId env)) userStore)"

section \<open>Queries\<close>

fun chunks_of :: "nat \<Rightarrow> 'a list \<Rightarrow> 'a list list" where
  "chunks_of n [] = []"
| "chunks_of n (x # xs) = (if n = 0 then [x # xs] else take n (x # xs) # chunks_of n (drop (n - 1) xs))"

definition doQueuedQueries :: "'s dl_env \<Rightarrow> device_list \<Rightarrow> device_list" where
  "doQueuedQueries env s =
     (case us_deferred s of
        None \<Rightarrow> s
      | Some d \<Rightarrow>
          s\<lparr>us_queued := [], us_deferred := None, us_downloadInProgress := True, dl_query := Some (Waiting d (us_queued s)),
            dl_sent := dl_sent s @ [(chunks_of (ev_chunkSize env) (us_queued s), us_syncToken s)]\<rparr>)"

text \<open>The deferred of the users' query, and the state.\<close>

definition updateDevicesForUsers :: "'s dl_env \<Rightarrow> string list \<Rightarrow> string option \<Rightarrow> device_list \<Rightarrow> nat \<times> device_list" where
  "updateDevicesForUsers env users syncToken s =
     (let s1 = s\<lparr>us_queued := fold (\<lambda>u q. if u \<in> set q then q else q @ [u]) users (us_queued s)\<rparr>;
          s2 = (if us_deferred s1 = None then s1\<lparr>us_deferred := Some (dl_next s1), dl_next := dl_next s1 + 1\<rparr> else s1);
          s3 = s2\<lparr>us_syncToken := syncToken\<rparr>
      in (the (us_deferred s3), if us_downloadInProgress s3 then s3 else doQueuedQueries env s3))"

definition doKeyDownload :: "'s dl_env \<Rightarrow> string list \<Rightarrow> device_list \<Rightarrow> nat option \<times> device_list" where
  "doKeyDownload env users s =
     (if users = [] then (None, s)
      else
        let (d, s1) = updateDevicesForUsers env users (dl_syncToken s) s;
            prom = dl_next s1
        in (Some prom,
            s1\<lparr>dl_next := prom + 1, dl_handlers := dl_handlers s1 @ [(d, prom, users)],
               dl_inProgress := fold (\<lambda>u. dset u prom) users (dl_inProgress s1),
               dl_status := fold (\<lambda>u st. if dget st u = Some PendingDownload then dset u DownloadInProgress st else st) users (dl_status s1)\<rparr>))"

definition refreshOutdatedDeviceLists :: "'s dl_env \<Rightarrow> int \<Rightarrow> device_list \<Rightarrow> device_list" where
  "refreshOutdatedDeviceLists env now s =
     (let s1 = saveIfDirty now 500 s
      in snd (doKeyDownload env (map fst (filter (\<lambda>(u, t). t = PendingDownload) (dl_status s1))) s1))"

text \<open>The promises that \<open>downloadKeys\<close> awaits.\<close>

definition downloadKeys :: "'s dl_env \<Rightarrow> string list \<Rightarrow> bool \<Rightarrow> device_list \<Rightarrow> nat list \<times> device_list" where
  "downloadKeys env userIds forceDownload s =
     (let busy = concat (map (\<lambda>u. case dget (dl_inProgress s) u of Some p \<Rightarrow> [p] | None \<Rightarrow> []) userIds);
          users = filter (\<lambda>u. dget (dl_inProgress s) u = None \<and> (forceDownload \<or> status_of s u \<noteq> UpToDate)) userIds;
          (p, s1) = doKeyDownload env users s
      in (busy @ (case p of Some q \<Rightarrow> [q] | None \<Rightarrow> []), s1))"

definition finish_user :: "nat \<Rightarrow> bool \<Rightarrow> string \<Rightarrow> device_list \<Rightarrow> device_list" where
  "finish_user prom success u s =
     (let s1 = s\<lparr>dl_dirty := True\<rparr> in
      if dget (dl_inProgress s1) u \<noteq> Some prom then s1
      else
        let s2 = s1\<lparr>dl_inProgress := ddel u (dl_inProgress s1)\<rparr> in
        if status_of s2 u = DownloadInProgress
        then s2\<lparr>dl_status := dset u (if success then UpToDate else PendingDownload) (dl_status s2)\<rparr> else s2)"

definition finished_download :: "int \<Rightarrow> nat \<Rightarrow> string list \<Rightarrow> bool \<Rightarrow> device_list \<Rightarrow> device_list" where
  "finished_download now prom users success s =
     (let s1 = s\<lparr>dl_emitted := dl_emitted s @ [WillUpdateDevices users (\<not> dl_hasFetched s)]\<rparr>;
          s2 = saveIfDirty now 500 (fold (finish_user prom success) users s1)
      in s2\<lparr>dl_emitted := dl_emitted s2 @ [DevicesUpdated users (\<not> dl_hasFetched s2)], dl_hasFetched := True\<rparr>)"

definition settle_deferred :: "nat \<Rightarrow> bool \<Rightarrow> device_list \<Rightarrow> device_list" where
  "settle_deferred d success s =
     s\<lparr>dl_tasks := dl_tasks s @ map (\<lambda>(_, p, users). Finished p users success) (filter (\<lambda>h. fst h = d) (dl_handlers s)),
       dl_handlers := filter (\<lambda>h. fst h \<noteq> d) (dl_handlers s)\<rparr>"

definition query_failed :: "nat \<Rightarrow> device_list \<Rightarrow> device_list" where
  "query_failed d s = settle_deferred d False (s\<lparr>us_downloadInProgress := False, dl_query := None\<rparr>)"

definition query_completed :: "'s dl_env \<Rightarrow> nat \<Rightarrow> device_list \<Rightarrow> device_list" where
  "query_completed env d s =
     (let s1 = settle_deferred d True (s\<lparr>us_downloadInProgress := False, dl_query := None\<rparr>)
      in if us_deferred s1 \<noteq> None then doQueuedQueries env s1 else s1)"

definition continue_query :: "'s dl_env \<Rightarrow> nat \<Rightarrow> string list \<Rightarrow> key_answers \<Rightarrow> device_list \<Rightarrow> device_list" where
  "continue_query env d users answers s =
     (if users = [] then query_completed env d s else s\<lparr>dl_query := Some (Processing d users answers)\<rparr>)"

definition merged_part :: "string \<Rightarrow> json list \<Rightarrow> json" where
  "merged_part part responses = JObj (js_extend (Some [] # map (\<lambda>res. Some (entries (js_or (jget res part) empty_obj))) responses))"

definition merged_answers :: "json list \<Rightarrow> key_answers" where
  "merged_answers responses =
     \<lparr>ka_devices = merged_part ''device_keys'' responses, ka_master = merged_part ''master_keys'' responses,
      ka_self_signing = merged_part ''self_signing_keys'' responses, ka_user_signing = merged_part ''user_signing_keys'' responses\<rparr>"

text \<open>The server answers the query (\<open>None\<close>: it fails).\<close>

definition query_answered :: "'s dl_env \<Rightarrow> json list option \<Rightarrow> device_list \<Rightarrow> device_list" where
  "query_answered env answer s =
     (case dl_query s of
        Some (Waiting d users) \<Rightarrow>
          (case answer of
             None \<Rightarrow> query_failed d s
           | Some responses \<Rightarrow> continue_query env d users (merged_answers responses) s)
      | _ \<Rightarrow> s)"

text \<open>\<open>processQueryResponseForUser\<close> up to its await: the devices to store, or \<open>None\<close> where it throws.\<close>

definition devices_to_store :: "'s dl_env \<Rightarrow> string \<Rightarrow> json \<Rightarrow> device_list \<Rightarrow> (string, idevice) dict option" where
  "devices_to_store env userId dkResponse s =
     (let userStore = (case dget (dl_devices s) userId of Some devs \<Rightarrow> map (\<lambda>(d, dev). (d, device_fromStorage dev d)) devs | None \<Rightarrow> [])
      in map_option (map (\<lambda>(d, dev). (d, device_toStorage dev)))
           (updateStoredDeviceKeysForUser env userId userStore (js_or dkResponse empty_obj)))"

definition process_user :: "'s dl_env \<Rightarrow> device_list \<Rightarrow> device_list" where
  "process_user env s =
     (case dl_query s of
        Some (Processing d (u # users) answers) \<Rightarrow>
          s\<lparr>dl_query := Some (Storing d users answers u (devices_to_store env u (jget (ka_devices answers) u) s))\<rparr>
      | _ \<Rightarrow> s)"

definition answered_cross_signing :: "key_answers \<Rightarrow> string \<Rightarrow> json" where
  "answered_cross_signing answers u =
     JObj [(''master'', jget (ka_master answers) u), (''self_signing'', jget (ka_self_signing answers) u),
           (''user_signing'', jget (ka_user_signing answers) u)]"

definition store_cross_signing :: "'s dl_env \<Rightarrow> string \<Rightarrow> json \<Rightarrow> device_list \<Rightarrow> device_list" where
  "store_cross_signing env u response s =
     (if truthy (jget response ''master'') \<or> truthy (jget response ''self_signing'') \<or> truthy (jget response ''user_signing'')
      then (case setKeys (ev_signer env) response
                   (case getStoredCrossSigningForUser u s of Some x \<Rightarrow> x | None \<Rightarrow> new_xs_info u) of
              (Inl _, _) \<Rightarrow> s
            | (Inr _, x) \<Rightarrow> s\<lparr>dl_crossSigning := dset u (xs_toStorage x) (dl_crossSigning s),
                              dl_emitted := dl_emitted s @ [UserCrossSigningUpdated u]\<rparr>)
      else s)"

definition store_user :: "'s dl_env \<Rightarrow> device_list \<Rightarrow> device_list" where
  "store_user env s =
     (case dl_query s of
        Some (Storing d users answers u storage) \<Rightarrow>
          continue_query env d users answers
            (case storage of
               None \<Rightarrow> s
             | Some devs \<Rightarrow> store_cross_signing env u (answered_cross_signing answers u) (setRawStoredDevicesForUser u devs s))
      | _ \<Rightarrow> s)"

fun run_dl :: "int \<Rightarrow> bool \<Rightarrow> dl_task \<Rightarrow> device_list \<Rightarrow> device_list" where
  "run_dl now success (Finished p users ok) s = finished_download now p users ok s"
| "run_dl now success (Write sn p) s = write_done success sn p s"

section \<open>Steps\<close>

text \<open>
  What is known of a user's keys since the last change that was announced: nothing was asked (\<open>Stale\<close>), a query for them is under way
  (\<open>Asked\<close>), or its answer has been processed (\<open>Answered\<close>). The relation carries this beside the state, and whether a query has failed.
\<close>

datatype freshness = Stale | Asked | Answered

definition sent_now :: "device_list \<Rightarrow> device_list \<Rightarrow> string set" where
  "sent_now s s' = set (concat (concat (map fst (drop (length (dl_sent s)) (dl_sent s')))))"

definition asked :: "device_list \<Rightarrow> device_list \<Rightarrow> (string \<Rightarrow> freshness) \<Rightarrow> string \<Rightarrow> freshness" where
  "asked s s' g = (\<lambda>u. if g u = Stale \<and> u \<in> sent_now s s' then Asked else g u)"

definition processed :: "device_list \<Rightarrow> (string \<Rightarrow> freshness) \<Rightarrow> string \<Rightarrow> freshness" where
  "processed s g =
     (case dl_query s of
        Some (Storing _ _ _ u _) \<Rightarrow> g(u := if g u = Asked then Answered else g u)
      | _ \<Rightarrow> g)"

definition fails :: "json list option \<Rightarrow> device_list \<Rightarrow> bool" where
  "fails answer s \<longleftrightarrow> answer = None \<and> (\<exists>d us. dl_query s = Some (Waiting d us))"

definition unasked :: "(string \<Rightarrow> freshness) \<Rightarrow> string \<Rightarrow> freshness" where
  "unasked g = (\<lambda>u. if g u = Asked then Stale else g u)"

inductive dl_reach :: "'s dl_env \<Rightarrow> device_list \<Rightarrow> (string \<Rightarrow> freshness) \<Rightarrow> bool \<Rightarrow> bool" for env where
  dl_loaded: "dl_reach env (dl_load stored) (\<lambda>_. Answered) False"
| dl_start: "dl_reach env s g f \<Longrightarrow>
    dl_reach env (startTrackingDeviceList u s) (if status_of s u = NotTracked then g(u := Stale) else g) f"
| dl_stops: "dl_reach env s g f \<Longrightarrow> dl_reach env (stopTrackingDeviceList u s) g f"
| dl_stop_all: "dl_reach env s g f \<Longrightarrow> dl_reach env (stopTrackingAllDeviceLists s) g f"
| dl_invalidate: "dl_reach env s g f \<Longrightarrow> dl_reach env (invalidateUserDeviceList u s) (g(u := Stale)) f"
| dl_refresh: "dl_reach env s g f \<Longrightarrow>
    dl_reach env (refreshOutdatedDeviceLists env now s) (asked s (refreshOutdatedDeviceLists env now s) g) f"
| dl_download: "dl_reach env s g f \<Longrightarrow>
    dl_reach env (snd (downloadKeys env users force s)) (asked s (snd (downloadKeys env users force s)) g) f"
| dl_answered: "dl_reach env s g f \<Longrightarrow>
    dl_reach env (query_answered env answer s)
      (asked s (query_answered env answer s) (if fails answer s then unasked g else g)) (f \<or> fails answer s)"
| dl_process: "dl_reach env s g f \<Longrightarrow> dl_reach env (process_user env s) g f"
| dl_store_user: "dl_reach env s g f \<Longrightarrow> dl_reach env (store_user env s) (asked s (store_user env s) (processed s g)) f"
| dl_task: "dl_reach env s g f \<Longrightarrow> n < length (dl_tasks s) \<Longrightarrow>
    dl_reach env (run_dl now ok (dl_tasks s ! n) (s\<lparr>dl_tasks := take n (dl_tasks s) @ drop (Suc n) (dl_tasks s)\<rparr>)) g f"
| dl_save: "dl_reach env s g f \<Longrightarrow> dl_reach env (saveIfDirty now delay s) g f"
| dl_timer: "dl_reach env s g f \<Longrightarrow> dl_reach env (save_timer_fires s) g f"
| dl_stopped: "dl_reach env s g f \<Longrightarrow> dl_reach env (dl_stop s) g f"
| dl_token: "dl_reach env s g f \<Longrightarrow> dl_reach env (setSyncToken t s) g f"
| dl_devices_stored: "dl_reach env s g f \<Longrightarrow> dl_reach env (storeDevicesForUser u devs s) g f"
| dl_keys_stored: "dl_reach env s g f \<Longrightarrow> dl_reach env (storeCrossSigningForUser u x s) g f"

section \<open>The invariant of the downloads\<close>

definition cur :: "device_list \<Rightarrow> nat option" where
  "cur s = (case dl_query s of None \<Rightarrow> None | Some (Waiting d _) \<Rightarrow> Some d | Some (Processing d _ _) \<Rightarrow> Some d | Some (Storing d _ _ _ _) \<Rightarrow> Some d)"

definition remaining :: "device_list \<Rightarrow> string set" where
  "remaining s =
     (case dl_query s of
        None \<Rightarrow> {} | Some (Waiting _ us) \<Rightarrow> set us | Some (Processing _ us _) \<Rightarrow> set us | Some (Storing _ us _ u _) \<Rightarrow> insert u (set us))"

text \<open>A promise will settle: its handler waits for the query under way or for the next one, or it runs next.\<close>

definition located :: "device_list \<Rightarrow> nat \<Rightarrow> string \<Rightarrow> bool" where
  "located s p u \<longleftrightarrow>
     (\<exists>d us. (d, p, us) \<in> set (dl_handlers s) \<and> u \<in> set us \<and> (cur s = Some d \<or> us_deferred s = Some d)) \<or>
     (\<exists>us ok. Finished p us ok \<in> set (dl_tasks s) \<and> u \<in> set us)"

definition awaits :: "device_list \<Rightarrow> string \<Rightarrow> nat \<Rightarrow> bool" where
  "awaits s u p \<longleftrightarrow> dget (dl_inProgress s) u = Some p \<and> status_of s u = DownloadInProgress"

definition dl_ok :: "device_list \<Rightarrow> (string \<Rightarrow> freshness) \<Rightarrow> bool" where
  "dl_ok s g \<longleftrightarrow>
     (us_downloadInProgress s \<longleftrightarrow> cur s \<noteq> None) \<and>
     (\<forall>u. g u = Asked \<longrightarrow> u \<in> remaining s) \<and>
     (\<forall>u. status_of s u = UpToDate \<longrightarrow> g u = Answered) \<and>
     (\<forall>u p. dget (dl_inProgress s) u = Some p \<longrightarrow> located s p u) \<and>
     (\<forall>u. status_of s u = DownloadInProgress \<longrightarrow> dget (dl_inProgress s) u \<noteq> None) \<and>
     (\<forall>d p us u. (d, p, us) \<in> set (dl_handlers s) \<longrightarrow> cur s = Some d \<longrightarrow> u \<in> set us \<longrightarrow> awaits s u p \<longrightarrow> g u \<noteq> Stale) \<and>
     (\<forall>d p us. (d, p, us) \<in> set (dl_handlers s) \<longrightarrow> us_deferred s = Some d \<longrightarrow> set us \<subseteq> set (us_queued s)) \<and>
     (\<forall>p us u. Finished p us True \<in> set (dl_tasks s) \<longrightarrow> u \<in> set us \<longrightarrow> awaits s u p \<longrightarrow> g u = Answered) \<and>
     (\<forall>d p us. (d, p, us) \<in> set (dl_handlers s) \<longrightarrow> d < dl_next s \<and> p < dl_next s) \<and>
     (\<forall>p us ok. Finished p us ok \<in> set (dl_tasks s) \<longrightarrow> p < dl_next s) \<and>
     (\<forall>d. cur s = Some d \<longrightarrow> d < dl_next s \<and> us_deferred s \<noteq> Some d) \<and>
     (\<forall>d. us_deferred s = Some d \<longrightarrow> d < dl_next s) \<and>
     (us_deferred s = None \<longrightarrow> us_queued s = [])"

lemma dl_okD:
  assumes "dl_ok s g"
  shows "us_downloadInProgress s \<longleftrightarrow> cur s \<noteq> None" "g u = Asked \<Longrightarrow> u \<in> remaining s" "status_of s u = UpToDate \<Longrightarrow> g u = Answered"
    "dget (dl_inProgress s) u = Some p \<Longrightarrow> located s p u" "status_of s u = DownloadInProgress \<Longrightarrow> dget (dl_inProgress s) u \<noteq> None"
    "(d, p, us) \<in> set (dl_handlers s) \<Longrightarrow> cur s = Some d \<Longrightarrow> u \<in> set us \<Longrightarrow> awaits s u p \<Longrightarrow> g u \<noteq> Stale"
    "(d, p, us) \<in> set (dl_handlers s) \<Longrightarrow> us_deferred s = Some d \<Longrightarrow> u \<in> set us \<Longrightarrow> u \<in> set (us_queued s)"
    "Finished p us True \<in> set (dl_tasks s) \<Longrightarrow> u \<in> set us \<Longrightarrow> awaits s u p \<Longrightarrow> g u = Answered"
    "(d, p, us) \<in> set (dl_handlers s) \<Longrightarrow> d < dl_next s" "(d, p, us) \<in> set (dl_handlers s) \<Longrightarrow> p < dl_next s"
    "Finished p us ok \<in> set (dl_tasks s) \<Longrightarrow> p < dl_next s" "cur s = Some d \<Longrightarrow> d < dl_next s" "cur s = Some d \<Longrightarrow> us_deferred s \<noteq> Some d"
    "us_deferred s = Some d \<Longrightarrow> d < dl_next s" "us_deferred s = None \<Longrightarrow> us_queued s = []"
proof -
  from assms show "us_downloadInProgress s \<longleftrightarrow> cur s \<noteq> None" unfolding dl_ok_def by (elim conjE)
qed (use assms [unfolded dl_ok_def] in \<open>(elim conjE, meson subsetD)+\<close>)

lemma dl_okI:
  assumes "us_downloadInProgress s \<longleftrightarrow> cur s \<noteq> None" "\<And>u. g u = Asked \<Longrightarrow> u \<in> remaining s"
    "\<And>u. status_of s u = UpToDate \<Longrightarrow> g u = Answered" "\<And>u p. dget (dl_inProgress s) u = Some p \<Longrightarrow> located s p u"
    "\<And>u. status_of s u = DownloadInProgress \<Longrightarrow> dget (dl_inProgress s) u \<noteq> None"
    "\<And>d p us u. (d, p, us) \<in> set (dl_handlers s) \<Longrightarrow> cur s = Some d \<Longrightarrow> u \<in> set us \<Longrightarrow> awaits s u p \<Longrightarrow> g u \<noteq> Stale"
    "\<And>d p us u. (d, p, us) \<in> set (dl_handlers s) \<Longrightarrow> us_deferred s = Some d \<Longrightarrow> u \<in> set us \<Longrightarrow> u \<in> set (us_queued s)"
    "\<And>p us u. Finished p us True \<in> set (dl_tasks s) \<Longrightarrow> u \<in> set us \<Longrightarrow> awaits s u p \<Longrightarrow> g u = Answered"
    "\<And>d p us. (d, p, us) \<in> set (dl_handlers s) \<Longrightarrow> d < dl_next s" "\<And>d p us. (d, p, us) \<in> set (dl_handlers s) \<Longrightarrow> p < dl_next s"
    "\<And>p us ok. Finished p us ok \<in> set (dl_tasks s) \<Longrightarrow> p < dl_next s" "\<And>d. cur s = Some d \<Longrightarrow> d < dl_next s"
    "\<And>d. cur s = Some d \<Longrightarrow> us_deferred s \<noteq> Some d" "\<And>d. us_deferred s = Some d \<Longrightarrow> d < dl_next s"
    "us_deferred s = None \<Longrightarrow> us_queued s = []"
  shows "dl_ok s g"
  unfolding dl_ok_def subset_iff by (intro conjI allI impI) (use assms in \<open>meson\<close>)+

text \<open>Steps that leave the downloads alone; a user may lose its status and its freshness together.\<close>

lemma dl_ok_mono:
  assumes ok: "dl_ok s g"
    and same: "cur s' = cur s" "us_downloadInProgress s' = us_downloadInProgress s" "us_queued s' = us_queued s"
      "us_deferred s' = us_deferred s" "dl_handlers s' = dl_handlers s" "dl_inProgress s' = dl_inProgress s" "dl_next s \<le> dl_next s'"
    and tasks: "\<And>p us b. Finished p us b \<in> set (dl_tasks s') \<longleftrightarrow> Finished p us b \<in> set (dl_tasks s)"
    and g: "\<And>u. g' u = Asked \<Longrightarrow> u \<in> remaining s'"
    and st: "\<And>u. status_of s' u = UpToDate \<Longrightarrow> g' u = Answered"
      "\<And>u. status_of s' u = DownloadInProgress \<Longrightarrow> status_of s u = DownloadInProgress \<and> (g u = Answered \<longrightarrow> g' u = Answered) \<and>
        (g u \<noteq> Stale \<longrightarrow> g' u \<noteq> Stale)"
  shows "dl_ok s' g'"
proof -
  have aw: "awaits s u p \<and> (g u = Answered \<longrightarrow> g' u = Answered) \<and> (g u \<noteq> Stale \<longrightarrow> g' u \<noteq> Stale)" if "awaits s' u p" for u p
    using that st(2) same(6) by (auto simp: awaits_def)
  have loc: "located s' p u = located s p u" for p u by (simp add: located_def same tasks)
  have lt: "p < dl_next s'" if "p < dl_next s" for p using that same(7) by simp
  show ?thesis
    unfolding dl_ok_def same(1-6) loc tasks
    using ok g st aw lt unfolding dl_ok_def by (intro conjI) (blast | meson)+
qed

lemma set_chunks: "\<Union> (set ` set (chunks_of n xs)) = set xs"
proof (induction n xs rule: chunks_of.induct)
  case (2 n x xs)
  show ?case
  proof (cases "n = 0")
    case False
    have "set (take (n - 1) xs) \<union> set (drop (n - 1) xs) = set xs" by (metis append_take_drop_id set_append)
    moreover have "take n (x # xs) = x # take (n - 1) xs" using False by (cases n) simp_all
    ultimately show ?thesis using 2 False by auto
  qed simp
qed simp

lemma status_update:
  "dl_status s' = dset u t (dl_status s) \<Longrightarrow> status_of s' v = (if v = u then t else status_of s v)"
  by (simp add: status_of_def dict_simps)

lemma fold_in_progress: "dget (fold (\<lambda>u. dset u p) us d) v = (if v \<in> set us then Some p else dget d v)"
  by (induction us arbitrary: d) (auto simp: dict_simps)

lemma fold_downloading:
  "dget (fold (\<lambda>u st. if dget st u = Some PendingDownload then dset u DownloadInProgress st else st) us d) v =
    (if v \<in> set us \<and> dget d v = Some PendingDownload then Some DownloadInProgress else dget d v)"
  by (induction us arbitrary: d) (auto simp: dict_simps)

lemma fold_queue: "set (fold (\<lambda>u q. if u \<in> set q then q else q @ [u]) us qs) = set us \<union> set qs"
  by (induction us arbitrary: qs) auto

text \<open>The next query starts.\<close>

lemma dl_ok_start:
  assumes ok: "dl_ok s g" and d: "us_deferred s = Some d" and idle: "\<not> us_downloadInProgress s"
  shows "dl_ok (doQueuedQueries env s) (asked s (doQueuedQueries env s) g)"
proof -
  let ?s = "doQueuedQueries env s" and ?g = "asked s (doQueuedQueries env s) g"
  have none: "cur s = None" using ok idle by (simp add: dl_ok_def)
  then have "dl_query s = None" by (simp add: cur_def split: option.splits query.splits)
  then have rem: "remaining s = {}" by (simp add: remaining_def)
  have na: "g u \<noteq> Asked" for u using ok rem by (auto simp: dl_ok_def)
  have sent: "sent_now s ?s = set (us_queued s)" by (simp add: sent_now_def doQueuedQueries_def d set_chunks)
  have g: "?g u = (if g u = Stale \<and> u \<in> set (us_queued s) then Asked else g u)" for u by (simp add: asked_def sent)
  have f: "cur ?s = Some d" "us_deferred ?s = None" "us_queued ?s = []" "us_downloadInProgress ?s" "remaining ?s = set (us_queued s)"
    "dl_handlers ?s = dl_handlers s" "dl_inProgress ?s = dl_inProgress s" "dl_tasks ?s = dl_tasks s" "dl_next ?s = dl_next s"
    "status_of ?s = status_of s"
    by (simp_all add: doQueuedQueries_def d cur_def remaining_def status_of_def fun_eq_iff)
  have aw: "awaits ?s = awaits s" by (simp add: awaits_def f fun_eq_iff)
  have loc: "located s p u \<Longrightarrow> located ?s p u" for p u using none d by (auto simp: located_def f)
  have fresh: "?g u \<noteq> Stale" if "(d, p, us) \<in> set (dl_handlers s)" "u \<in> set us" for p us u
  proof -
    have "set us \<subseteq> set (us_queued s)" using ok that(1) d unfolding dl_ok_def by blast
    then show ?thesis using that(2) by (auto simp: g)
  qed
  note D = dl_okD [OF ok]
  show ?thesis
  proof (rule dl_okI, unfold f aw)
    show "?g u = Answered" if "status_of s u = UpToDate" for u using D(3) [OF that] by (simp add: g)
    show "?g u = Answered" if "Finished p us True \<in> set (dl_tasks s)" "u \<in> set us" "awaits s u p" for p us u
      using D(8) [OF that] by (simp add: g)
    show "u \<in> set (us_queued s)" if "?g u = Asked" for u using that na by (simp add: g split: if_splits)
    show "?g u \<noteq> Stale" if "(e, p, us) \<in> set (dl_handlers s)" "Some d = Some e" "u \<in> set us" "awaits s u p" for e p us u
      using fresh that by simp
    show "located ?s p u" if "dget (dl_inProgress s) u = Some p" for u p using loc D(4) that by simp
    show "e < dl_next s" if "Some d = Some e" for e using D(14) [OF d] that by simp
  qed (use D(5,9,10,11) in \<open>auto simp: f\<close>)
qed

text \<open>The users of a download are queued, and asked for at once when no query is under way.\<close>

lemma dl_ok_update:
  assumes ok: "dl_ok s g" and r: "updateDevicesForUsers env users tok s = (d, s')"
  shows "dl_ok s' (asked s s' g) \<and> d < dl_next s' \<and>
    (cur s' = Some d \<and> (\<forall>u\<in>set users. asked s s' g u \<noteq> Stale) \<or> us_deferred s' = Some d \<and> set users \<subseteq> set (us_queued s')) \<and>
    dl_status s' = dl_status s \<and> dl_inProgress s' = dl_inProgress s"
proof -
  let ?q = "fold (\<lambda>u q. if u \<in> set q then q else q @ [u]) users (us_queued s)"
  define s1 where "s1 = (if us_deferred s = None then s\<lparr>us_queued := ?q, us_deferred := Some (dl_next s), dl_next := dl_next s + 1,
      us_syncToken := tok\<rparr> else s\<lparr>us_queued := ?q, us_syncToken := tok\<rparr>)"
  have r1: "(d, s') = (the (us_deferred s1), if us_downloadInProgress s1 then s1 else doQueuedQueries env s1)"
    using r by (auto simp: updateDevicesForUsers_def s1_def Let_def split: if_splits)
  have d: "us_deferred s1 = Some d" "us_downloadInProgress s1 = us_downloadInProgress s"
    and q: "set (us_queued s1) = set users \<union> set (us_queued s)"
    using r1 by (auto simp: s1_def fold_queue)
  have f: "cur s1 = cur s" "remaining s1 = remaining s" "status_of s1 = status_of s" "dl_handlers s1 = dl_handlers s"
    "dl_inProgress s1 = dl_inProgress s" "dl_tasks s1 = dl_tasks s" "awaits s1 = awaits s" "dl_next s \<le> dl_next s1" "dl_sent s1 = dl_sent s"
    "dl_status s1 = dl_status s"
    by (simp_all add: s1_def cur_def remaining_def status_of_def awaits_def fun_eq_iff)
  have dd: "us_deferred s \<noteq> None \<longrightarrow> us_deferred s = Some d" "us_deferred s = None \<longrightarrow> d = dl_next s"
    using d(1) by (auto simp: s1_def)
  have dn: "d < dl_next s1"
  proof (cases "us_deferred s")
    case None
    then show ?thesis using dd(2) by (simp add: s1_def)
  next
    case (Some e)
    then have "d < dl_next s" using ok dd(1) unfolding dl_ok_def by auto
    then show ?thesis using f(8) by simp
  qed
  have de: "us_deferred s = Some e \<Longrightarrow> Some d = Some e" for e using dd(1) by simp
  have loc: "located s p u \<Longrightarrow> located s1 p u" for p u using de unfolding located_def f d(1) by blast
  note D = dl_okD [OF ok]
  have ok1: "dl_ok s1 g"
  proof (rule dl_okI, unfold f(1-7) d)
    show "u \<in> set (us_queued s1)" if "(a, p, us) \<in> set (dl_handlers s)" "Some d = Some a" "u \<in> set us" for a p us u
    proof (cases "us_deferred s")
      case None
      then show ?thesis using D(9) [OF that(1)] dd(2) that(2) by simp
    next
      case (Some e)
      then show ?thesis using D(7) [of a p us u] that dd(1) q by simp
    qed
    show "Some d \<noteq> Some a" if "cur s = Some a" for a using D(12,13) [OF that] dd by (cases "us_deferred s") auto
    show "located s1 p u" if "dget (dl_inProgress s) u = Some p" for u p using loc D(4) that by simp
    show "a < dl_next s1" if "(a, p, us) \<in> set (dl_handlers s)" for a p us using D(9) [OF that] f(8) by simp
    show "p < dl_next s1" if "(a, p, us) \<in> set (dl_handlers s)" for a p us using D(10) [OF that] f(8) by simp
    show "p < dl_next s1" if "Finished p us b \<in> set (dl_tasks s)" for p us b using D(11) [OF that] f(8) by simp
    show "a < dl_next s1" if "cur s = Some a" for a using D(12) [OF that] f(8) by simp
    show "a < dl_next s1" if "Some d = Some a" for a using dn that by simp
  qed (use D(1-3,5,6,8) in \<open>auto\<close>)
  show ?thesis
  proof (cases "us_downloadInProgress s")
    case True
    then have s': "s' = s1" using r1 d(2) by simp
    have "asked s s1 g = g" by (simp add: asked_def sent_now_def f(9))
    then show ?thesis unfolding s' using ok1 f(10,5) dn d(1) q by simp
  next
    case False
    then have s': "s' = doQueuedQueries env s1" using r1 d(2) by simp
    have a: "asked s s' g = asked s1 s' g" by (simp add: asked_def sent_now_def f(9))
    have start: "dl_ok s' (asked s1 s' g)" unfolding s' by (rule dl_ok_start [OF ok1 d(1)]) (use False d(2) in simp)
    have "sent_now s1 s' = set (us_queued s1)" by (simp add: s' sent_now_def doQueuedQueries_def d(1) set_chunks)
    then have "\<forall>u\<in>set users. asked s1 s' g u \<noteq> Stale" using q by (auto simp: asked_def)
    moreover have "cur s' = Some d" "dl_next s' = dl_next s1" "dl_status s' = dl_status s" "dl_inProgress s' = dl_inProgress s"
      by (simp_all add: s' doQueuedQueries_def d(1) cur_def f(10,5))
    ultimately show ?thesis unfolding a using start dn by simp
  qed
qed

text \<open>A download registers its promise.\<close>

lemma dl_ok_register:
  assumes ok: "dl_ok s g" and d: "d < dl_next s"
    and at: "cur s = Some d \<and> (\<forall>u\<in>set users. g u \<noteq> Stale) \<or> us_deferred s = Some d \<and> set users \<subseteq> set (us_queued s)"
  shows "dl_ok (s\<lparr>dl_next := dl_next s + 1, dl_handlers := dl_handlers s @ [(d, dl_next s, users)],
      dl_inProgress := fold (\<lambda>u. dset u (dl_next s)) users (dl_inProgress s),
      dl_status := fold (\<lambda>u st. if dget st u = Some PendingDownload then dset u DownloadInProgress st else st) users (dl_status s)\<rparr>) g"
    (is "dl_ok ?s g")
proof -
  define r where "r = ?s"
  have st: "status_of r v = (if v \<in> set users \<and> status_of s v = PendingDownload then DownloadInProgress else status_of s v)" for v
    by (auto simp: r_def status_of_def fold_downloading split: option.splits)
  have ip: "dget (dl_inProgress r) v = (if v \<in> set users then Some (dl_next s) else dget (dl_inProgress s) v)" for v
    by (simp add: r_def fold_in_progress)
  have old: "awaits s v p" if "awaits r v p" "p < dl_next s" for v p
    using that by (auto simp: awaits_def st ip split: if_splits)
  have f: "cur r = cur s" "remaining r = remaining s" "us_deferred r = us_deferred s" "us_queued r = us_queued s"
    "us_downloadInProgress r = us_downloadInProgress s" "dl_tasks r = dl_tasks s" "dl_next r = Suc (dl_next s)"
    "set (dl_handlers r) = insert (d, dl_next s, users) (set (dl_handlers s))"
    by (simp_all add: r_def cur_def remaining_def)
  have loc: "located s p v \<Longrightarrow> located r p v" for p v by (auto simp: located_def f)
  have new: "located r (dl_next s) v" if "v \<in> set users" for v using at that by (auto simp: located_def f)
  have cd: "us_deferred s \<noteq> Some d" if "cur s = Some d" using ok that by (simp add: dl_ok_def)
  note D = dl_okD [OF ok]
  have "dl_ok r g"
  proof (rule dl_okI, unfold f(1-7))
    show "located r p u" if "dget (dl_inProgress r) u = Some p" for u p
      using that loc D(4) new unfolding ip by (cases "u \<in> set users") auto
    show "dget (dl_inProgress r) u \<noteq> None" if "status_of r u = DownloadInProgress" for u
      using that D(5) unfolding ip st by (cases "u \<in> set users") auto
    show "g u \<noteq> Stale" if "(e, p, us) \<in> set (dl_handlers r)" "cur s = Some e" "u \<in> set us" "awaits r u p" for e p us u
    proof (cases "(e, p, us) \<in> set (dl_handlers s)")
      case True
      then show ?thesis using D(6) [OF True that(2,3)] old [OF that(4) D(10) [OF True]] by simp
    next
      case False
      then show ?thesis using that at cd unfolding f(8) by auto
    qed
    show "u \<in> set (us_queued s)" if "(e, p, us) \<in> set (dl_handlers r)" "us_deferred s = Some e" "u \<in> set us" for e p us u
    proof (cases "(e, p, us) \<in> set (dl_handlers s)")
      case True
      then show ?thesis using D(7) [OF True that(2,3)] by simp
    next
      case False
      then show ?thesis using that at cd unfolding f(8) by auto
    qed
    show "g u = Answered" if "Finished p us True \<in> set (dl_tasks s)" "u \<in> set us" "awaits r u p" for p us u
      using D(8) [OF that(1,2)] old [OF that(3) D(11) [OF that(1)]] by simp
    show "g u = Answered" if "status_of r u = UpToDate" for u using that D(3) unfolding st by (auto split: if_splits)
    show "e < Suc (dl_next s)" if "(e, p, us) \<in> set (dl_handlers r)" for e p us using that d D(9) unfolding f(8) by fastforce
    show "p < Suc (dl_next s)" if "(e, p, us) \<in> set (dl_handlers r)" for e p us using that D(10) unfolding f(8) by fastforce
    show "p < Suc (dl_next s)" if "Finished p us b \<in> set (dl_tasks s)" for p us b using D(11) [OF that] by simp
    show "e < Suc (dl_next s)" if "cur s = Some e" for e using D(12) [OF that] by simp
    show "e < Suc (dl_next s)" if "us_deferred s = Some e" for e using D(14) [OF that] by simp
  qed (use D(1,2,13,15) in auto)
  then show ?thesis by (simp only: r_def)
qed

lemma dl_ok_download:
  assumes ok: "dl_ok s g"
  shows "dl_ok (snd (doKeyDownload env users s)) (asked s (snd (doKeyDownload env users s)) g)"
proof (cases "users = []")
  case True
  then show ?thesis using ok by (simp add: doKeyDownload_def asked_def sent_now_def)
next
  case False
  obtain d s1 where r: "updateDevicesForUsers env users (dl_syncToken s) s = (d, s1)" by fastforce
  from dl_ok_update [OF ok r] have u: "dl_ok s1 (asked s s1 g)" "d < dl_next s1"
    "cur s1 = Some d \<and> (\<forall>u\<in>set users. asked s s1 g u \<noteq> Stale) \<or> us_deferred s1 = Some d \<and> set users \<subseteq> set (us_queued s1)" by simp_all
  have "asked s (snd (doKeyDownload env users s)) g = asked s s1 g"
    using False by (simp add: doKeyDownload_def r Let_def asked_def sent_now_def)
  then show ?thesis using dl_ok_register [OF u] False by (simp add: doKeyDownload_def r Let_def)
qed

text \<open>A query is over: the handlers of its deferred become tasks.\<close>

lemma dl_ok_settle:
  assumes ok: "dl_ok s g" and c: "cur s = Some d" and idle: "success \<Longrightarrow> \<forall>u. g u \<noteq> Asked"
  shows "dl_ok (settle_deferred d success (s\<lparr>us_downloadInProgress := False, dl_query := None\<rparr>)) (unasked g)"
proof -
  define r where "r = settle_deferred d success (s\<lparr>us_downloadInProgress := False, dl_query := None\<rparr>)"
  note D = dl_okD [OF ok]
  have f: "cur r = None" "remaining r = {}" "us_downloadInProgress r = False" "us_queued r = us_queued s" "us_deferred r = us_deferred s"
    "dl_inProgress r = dl_inProgress s" "dl_next r = dl_next s" "status_of r = status_of s" "awaits r = awaits s"
    by (simp_all add: r_def settle_deferred_def cur_def remaining_def status_of_def awaits_def fun_eq_iff)
  have h: "(e, p, us) \<in> set (dl_handlers r) \<longleftrightarrow> (e, p, us) \<in> set (dl_handlers s) \<and> e \<noteq> d" for e p us
    by (simp add: r_def settle_deferred_def)
  have t: "Finished p us b \<in> set (dl_tasks r) \<longleftrightarrow> Finished p us b \<in> set (dl_tasks s) \<or> (b = success \<and> (d, p, us) \<in> set (dl_handlers s))" for p us b
    by (force simp: r_def settle_deferred_def)
  have nd: "us_deferred s \<noteq> Some d" by (rule D(13) [OF c])
  have loc: "located r p u" if "located s p u" for p u
  proof -
    from that consider us where "(d, p, us) \<in> set (dl_handlers s)" "u \<in> set us"
      | e us where "(e, p, us) \<in> set (dl_handlers s)" "u \<in> set us" "us_deferred s = Some e"
      | us b where "Finished p us b \<in> set (dl_tasks s)" "u \<in> set us"
      unfolding located_def c by blast
    then show ?thesis
      by cases (use nd in \<open>(auto simp: located_def h t f)[3]\<close>)
  qed
  have "dl_ok r (unasked g)"
  proof (rule dl_okI, unfold f)
    show "unasked g u = Answered" if "status_of s u = UpToDate" for u using D(3) [OF that] by (simp add: unasked_def)
    show "located r p u" if "dget (dl_inProgress s) u = Some p" for u p using loc D(4) that by simp
    show "unasked g u = Answered" if "Finished p us True \<in> set (dl_tasks r)" "u \<in> set us" "awaits s u p" for p us u
    proof (cases "Finished p us True \<in> set (dl_tasks s)")
      case True
      then show ?thesis using D(8) [OF True that(2,3)] by (simp add: unasked_def)
    next
      case False
      then have "success" "(d, p, us) \<in> set (dl_handlers s)" using that(1) t by auto
      then have "g u \<noteq> Stale" "g u \<noteq> Asked" using D(6) [OF _ c that(2,3)] idle by auto
      then show ?thesis by (cases "g u") (simp_all add: unasked_def)
    qed
    show "u \<in> set (us_queued s)" if "(e, p, us) \<in> set (dl_handlers r)" "us_deferred s = Some e" "u \<in> set us" for e p us u
      using that D(7) h by blast
    show "e < dl_next s" if "(e, p, us) \<in> set (dl_handlers r)" for e p us using that D(9) h by blast
    show "p < dl_next s" if "(e, p, us) \<in> set (dl_handlers r)" for e p us using that D(10) h by blast
    show "p < dl_next s" if "Finished p us b \<in> set (dl_tasks r)" for p us b using that D(10,11) t by blast
  qed (use D(5,14,15) in \<open>auto simp: unasked_def split: if_splits\<close>)
  then show ?thesis by (simp only: r_def)
qed

lemma asked_trans: "dl_sent s1 = dl_sent s \<Longrightarrow> asked s s' g = asked s1 s' g"
  by (simp add: asked_def sent_now_def)

lemma unasked_id: "\<forall>u. g u \<noteq> Asked \<Longrightarrow> unasked g = g"
  by (simp add: unasked_def fun_eq_iff)

lemma dl_ok_completed:
  assumes ok: "dl_ok s g" and c: "cur s = Some d" and idle: "\<forall>u. g u \<noteq> Asked"
  shows "dl_ok (query_completed env d s) (asked s (query_completed env d s) g)"
proof -
  define s1 where "s1 = settle_deferred d True (s\<lparr>us_downloadInProgress := False, dl_query := None\<rparr>)"
  have ok1: "dl_ok s1 g" using dl_ok_settle [OF ok c, of True] idle by (simp add: s1_def unasked_id)
  have s1: "dl_sent s1 = dl_sent s" "us_downloadInProgress s1 = False" by (simp_all add: s1_def settle_deferred_def)
  have r: "query_completed env d s = (if us_deferred s1 \<noteq> None then doQueuedQueries env s1 else s1)"
    by (simp add: query_completed_def s1_def Let_def)
  show ?thesis
  proof (cases "us_deferred s1")
    case None
    then have "query_completed env d s = s1" by (simp add: r)
    moreover have "asked s s1 g = g" by (simp add: asked_def sent_now_def s1)
    ultimately show ?thesis using ok1 by simp
  next
    case (Some e)
    then have "query_completed env d s = doQueuedQueries env s1" by (simp add: r)
    moreover have "dl_ok (doQueuedQueries env s1) (asked s1 (doQueuedQueries env s1) g)"
      by (rule dl_ok_start [OF ok1 Some]) (simp add: s1)
    ultimately show ?thesis using asked_trans [OF s1(1)] by simp
  qed
qed

lemma dl_ok_continue:
  assumes ok: "dl_ok s g" and c: "cur s = Some d" and rem: "\<And>u. g u = Asked \<Longrightarrow> u \<in> set users"
  shows "dl_ok (continue_query env d users answers s) (asked s (continue_query env d users answers s) g)"
proof (cases "users = []")
  case True
  then show ?thesis using dl_ok_completed [OF ok c, of env] rem by (auto simp: continue_query_def)
next
  case False
  let ?r = "s\<lparr>dl_query := Some (Processing d users answers)\<rparr>"
  have "asked s ?r g = g" by (simp add: asked_def sent_now_def)
  moreover have "dl_ok ?r g"
    by (rule dl_ok_mono [OF ok])
      (use c rem dl_okD(3) [OF ok] in \<open>auto simp: cur_def remaining_def status_of_def\<close>)
  ultimately show ?thesis using False by (simp add: continue_query_def)
qed

lemma finish_user_effect:
  "dget (dl_inProgress (finish_user p ok u s)) v = (if v = u \<and> dget (dl_inProgress s) v = Some p then None else dget (dl_inProgress s) v)"
  "status_of (finish_user p ok u s) v = (if v = u \<and> awaits s v p then if ok then UpToDate else PendingDownload else status_of s v)"
proof -
  have d: "status_of (s\<lparr>dl_dirty := True\<rparr>) = status_of s"
    "status_of (s\<lparr>dl_dirty := True, dl_inProgress := i\<rparr>) = status_of s"
    "status_of (s\<lparr>dl_dirty := True, dl_inProgress := i, dl_status := dset u t (dl_status s)\<rparr>) w = (if w = u then t else status_of s w)" for i t w
    by (simp_all add: status_of_def fun_eq_iff dict_simps)
  show "dget (dl_inProgress (finish_user p ok u s)) v =
      (if v = u \<and> dget (dl_inProgress s) v = Some p then None else dget (dl_inProgress s) v)"
    by (auto simp: finish_user_def Let_def dget_ddel)
  show "status_of (finish_user p ok u s) v = (if v = u \<and> awaits s v p then if ok then UpToDate else PendingDownload else status_of s v)"
    by (auto simp: finish_user_def Let_def d awaits_def)
qed

lemma fold_finish:
  "dget (dl_inProgress (fold (finish_user p ok) us s)) v =
     (if v \<in> set us \<and> dget (dl_inProgress s) v = Some p then None else dget (dl_inProgress s) v) \<and>
   status_of (fold (finish_user p ok) us s) v =
     (if v \<in> set us \<and> awaits s v p then if ok then UpToDate else PendingDownload else status_of s v)"
proof (induction us arbitrary: s)
  case (Cons u us)
  let ?s = "finish_user p ok u s"
  have aw: "awaits ?s v p = (v \<noteq> u \<and> awaits s v p)"
    unfolding awaits_def finish_user_effect by auto
  note e = finish_user_effect [of p ok u s v]
  show ?case using Cons.IH [of ?s, unfolded e aw] by (cases "v = u") (auto simp: awaits_def)
qed simp

lemma finish_kept:
  "cur (fold (finish_user p ok) us s) = cur s" "remaining (fold (finish_user p ok) us s) = remaining s"
  "us_downloadInProgress (fold (finish_user p ok) us s) = us_downloadInProgress s" "us_queued (fold (finish_user p ok) us s) = us_queued s"
  "us_deferred (fold (finish_user p ok) us s) = us_deferred s" "dl_handlers (fold (finish_user p ok) us s) = dl_handlers s"
  "dl_tasks (fold (finish_user p ok) us s) = dl_tasks s" "dl_next (fold (finish_user p ok) us s) = dl_next s"
proof -
  have "cur (finish_user p ok u s) = cur s \<and> remaining (finish_user p ok u s) = remaining s \<and>
      us_downloadInProgress (finish_user p ok u s) = us_downloadInProgress s \<and> us_queued (finish_user p ok u s) = us_queued s \<and>
      us_deferred (finish_user p ok u s) = us_deferred s \<and> dl_handlers (finish_user p ok u s) = dl_handlers s \<and>
      dl_tasks (finish_user p ok u s) = dl_tasks s \<and> dl_next (finish_user p ok u s) = dl_next s" for u s
    by (simp add: finish_user_def Let_def cur_def remaining_def)
  then show "cur (fold (finish_user p ok) us s) = cur s" "remaining (fold (finish_user p ok) us s) = remaining s"
    "us_downloadInProgress (fold (finish_user p ok) us s) = us_downloadInProgress s" "us_queued (fold (finish_user p ok) us s) = us_queued s"
    "us_deferred (fold (finish_user p ok) us s) = us_deferred s" "dl_handlers (fold (finish_user p ok) us s) = dl_handlers s"
    "dl_tasks (fold (finish_user p ok) us s) = dl_tasks s" "dl_next (fold (finish_user p ok) us s) = dl_next s"
    by (induction us arbitrary: s) simp_all
qed

lemma dl_ok_finish:
  assumes ok: "dl_ok s g" and tasks: "set (dl_tasks s) = insert (Finished p us b) (set rest)"
  shows "dl_ok (fold (finish_user p b) us (s\<lparr>dl_tasks := rest\<rparr>)) g"
proof -
  define r where "r = fold (finish_user p b) us (s\<lparr>dl_tasks := rest\<rparr>)"
  note D = dl_okD [OF ok]
  have aw0: "awaits (s\<lparr>dl_tasks := rest\<rparr>) = awaits s" "status_of (s\<lparr>dl_tasks := rest\<rparr>) = status_of s"
    by (simp_all add: awaits_def status_of_def fun_eq_iff)
  have f: "cur r = cur s" "remaining r = remaining s" "us_downloadInProgress r = us_downloadInProgress s" "us_queued r = us_queued s"
    "us_deferred r = us_deferred s" "dl_handlers r = dl_handlers s" "dl_tasks r = rest" "dl_next r = dl_next s"
    unfolding r_def finish_kept by (simp_all add: cur_def remaining_def)
  have ip: "dget (dl_inProgress r) v = (if v \<in> set us \<and> dget (dl_inProgress s) v = Some p then None else dget (dl_inProgress s) v)" for v
    by (simp add: r_def fold_finish)
  have st: "status_of r v = (if v \<in> set us \<and> awaits s v p then if b then UpToDate else PendingDownload else status_of s v)" for v
    by (simp add: r_def fold_finish aw0)
  have aw: "awaits s v q" if "awaits r v q" for v q
    using that by (auto simp: awaits_def ip st split: if_splits)
  have tk: "Finished q vs c \<in> set rest \<Longrightarrow> Finished q vs c \<in> set (dl_tasks s)" for q vs c using tasks by auto
  have "dl_ok r g"
  proof (rule dl_okI, unfold f)
    show "g u = Answered" if "status_of r u = UpToDate" for u
    proof (cases "u \<in> set us \<and> awaits s u p \<and> b")
      case True
      then have "Finished p us True \<in> set (dl_tasks s)" using tasks by auto
      then show ?thesis using D(8) True by blast
    next
      case False
      then show ?thesis using that D(3) by (auto simp: st split: if_splits)
    qed
    show "located r q u" if "dget (dl_inProgress r) u = Some q" for u q
    proof -
      have q: "dget (dl_inProgress s) u = Some q" "\<not> (u \<in> set us \<and> q = p)" using that by (auto simp: ip split: if_splits)
      have "located s q u" by (rule D(4) [OF q(1)])
      then consider d vs where "(d, q, vs) \<in> set (dl_handlers s)" "u \<in> set vs" "cur s = Some d \<or> us_deferred s = Some d"
        | vs c where "Finished q vs c \<in> set (dl_tasks s)" "u \<in> set vs"
        unfolding located_def by blast
      then show ?thesis
      proof cases
        case (2 vs c)
        then have "Finished q vs c \<in> set rest" using q(2) tasks by auto
        then show ?thesis using 2(2) unfolding located_def f by blast
      qed (unfold located_def f, blast)
    qed
    show "dget (dl_inProgress r) u \<noteq> None" if "status_of r u = DownloadInProgress" for u
    proof -
      have "status_of s u = DownloadInProgress" "\<not> (u \<in> set us \<and> awaits s u p)" using that by (auto simp: st split: if_splits)
      then show ?thesis using D(5) [of u] by (auto simp: ip awaits_def)
    qed
    show "g u \<noteq> Stale" if "(d, q, vs) \<in> set (dl_handlers s)" "cur s = Some d" "u \<in> set vs" "awaits r u q" for d q vs u
      using D(6) that aw by blast
    show "g u = Answered" if "Finished q vs True \<in> set rest" "u \<in> set vs" "awaits r u q" for q vs u
      using D(8) that tk aw by blast
    show "q < dl_next s" if "Finished q vs c \<in> set rest" for q vs c using D(11) tk [OF that] by blast
  qed (use D(1,2,7,9,10,12-15) in blast)+
  then show ?thesis by (simp only: r_def)
qed

section \<open>All steps keep the invariant\<close>

lemma dl_ok_same:
  assumes ok: "dl_ok s g"
    and same: "dl_query s' = dl_query s" "us_downloadInProgress s' = us_downloadInProgress s" "us_queued s' = us_queued s"
      "us_deferred s' = us_deferred s" "dl_handlers s' = dl_handlers s" "dl_inProgress s' = dl_inProgress s" "dl_next s \<le> dl_next s'"
      "dl_status s' = dl_status s"
    and tasks: "\<And>p us b. Finished p us b \<in> set (dl_tasks s') \<longleftrightarrow> Finished p us b \<in> set (dl_tasks s)"
  shows "dl_ok s' g"
  by (rule dl_ok_mono [OF ok])
    (use same tasks dl_okD(2,3) [OF ok] in \<open>simp_all add: cur_def remaining_def status_of_def\<close>)

lemma save_fields [simp]:
  "dl_query (saveIfDirty now delay s) = dl_query s" "us_downloadInProgress (saveIfDirty now delay s) = us_downloadInProgress s"
  "us_queued (saveIfDirty now delay s) = us_queued s" "us_deferred (saveIfDirty now delay s) = us_deferred s"
  "dl_handlers (saveIfDirty now delay s) = dl_handlers s" "dl_inProgress (saveIfDirty now delay s) = dl_inProgress s"
  "dl_status (saveIfDirty now delay s) = dl_status s" "dl_tasks (saveIfDirty now delay s) = dl_tasks s"
  "dl_sent (saveIfDirty now delay s) = dl_sent s" "dl_next s \<le> dl_next (saveIfDirty now delay s)"
  by (simp_all add: saveIfDirty_def Let_def split: option.split)

lemma dl_ok_save: "dl_ok s g \<Longrightarrow> dl_ok (saveIfDirty now delay s) g"
  by (rule dl_ok_same) simp_all

lemma dl_ok_task:
  assumes ok: "dl_ok s g" and n: "n < length (dl_tasks s)"
  shows "dl_ok (run_dl now succ (dl_tasks s ! n) (s\<lparr>dl_tasks := take n (dl_tasks s) @ drop (Suc n) (dl_tasks s)\<rparr>)) g"
proof -
  let ?rest = "take n (dl_tasks s) @ drop (Suc n) (dl_tasks s)"
  from arg_cong [OF id_take_nth_drop [OF n], of set] have t: "set (dl_tasks s) = insert (dl_tasks s ! n) (set ?rest)" by simp
  show ?thesis
  proof (cases "dl_tasks s ! n")
    case (Write sn p)
    then have e: "Finished q us b \<in> set ?rest \<longleftrightarrow> Finished q us b \<in> set (dl_tasks s)" for q us b using t by simp
    have w: "dl_tasks (write_done succ sn p (s\<lparr>dl_tasks := ?rest\<rparr>)) = ?rest" by (simp add: write_done_def)
    show ?thesis unfolding Write run_dl.simps
    proof (rule dl_ok_same [OF ok])
      show "Finished q us b \<in> set (dl_tasks (write_done succ sn p (s\<lparr>dl_tasks := ?rest\<rparr>))) \<longleftrightarrow> Finished q us b \<in> set (dl_tasks s)"
        for q us b unfolding w by (rule e)
    qed (simp_all add: write_done_def)
  next
    case (Finished p us b)
    let ?e = "[WillUpdateDevices us (\<not> dl_hasFetched s)]"
    let ?s = "s\<lparr>dl_emitted := dl_emitted s @ ?e\<rparr>"
    have "dl_ok ?s g" by (rule dl_ok_same [OF ok]) simp_all
    from dl_ok_finish [OF this, of p us b ?rest] have "dl_ok (fold (finish_user p b) us (?s\<lparr>dl_tasks := ?rest\<rparr>)) g"
      using t Finished by simp
    moreover have "?s\<lparr>dl_tasks := ?rest\<rparr> = s\<lparr>dl_tasks := ?rest, dl_emitted := dl_emitted s @ ?e\<rparr>" by simp
    ultimately have "dl_ok (saveIfDirty now 500 (fold (finish_user p b) us (s\<lparr>dl_tasks := ?rest, dl_emitted := dl_emitted s @ ?e\<rparr>))) g"
      using dl_ok_save by metis
    then show ?thesis
      unfolding Finished run_dl.simps finished_download_def Let_def by (rule dl_ok_same) simp_all
  qed
qed

lemma status_change:
  assumes "dl_ok s g" "s' = s\<lparr>dl_status := st, dl_dirty := True\<rparr>"
    and "\<And>v. status_of s' v = UpToDate \<Longrightarrow> status_of s v = UpToDate \<and> g' v = g v"
    and "\<And>v. status_of s' v = DownloadInProgress \<Longrightarrow> status_of s v = DownloadInProgress \<and> g' v = g v"
    and "\<And>v. g' v = Asked \<Longrightarrow> g v = Asked"
  shows "dl_ok s' g'"
proof (rule dl_ok_mono [OF assms(1)])
  show "v \<in> remaining s'" if "g' v = Asked" for v
    using dl_okD(2) [OF assms(1)] assms(5) [OF that] by (simp add: assms(2) remaining_def)
  show "g' v = Answered" if "status_of s' v = UpToDate" for v using assms(3) [OF that] dl_okD(3) [OF assms(1)] by simp
  show "status_of s v = DownloadInProgress \<and> (g v = Answered \<longrightarrow> g' v = Answered) \<and> (g v \<noteq> Stale \<longrightarrow> g' v \<noteq> Stale)"
    if "status_of s' v = DownloadInProgress" for v using assms(4) [OF that] by simp
qed (simp_all add: assms(2) cur_def)

lemma status_updated:
  "status_of (s\<lparr>dl_status := dset u t (dl_status s), dl_dirty := True\<rparr>) v = (if v = u then t else status_of s v)"
  by (rule status_update) simp

lemma dl_ok_answered:
  assumes ok: "dl_ok s g"
  shows "dl_ok (query_answered env answer s) (asked s (query_answered env answer s) (if fails answer s then unasked g else g))"
proof (cases "\<exists>d us. dl_query s = Some (Waiting d us)")
  case False
  then have "query_answered env answer s = s" "\<not> fails answer s"
    by (auto simp: query_answered_def fails_def split: option.split query.split)
  then show ?thesis using ok by (simp add: asked_def sent_now_def)
next
  case True
  then obtain d us where q: "dl_query s = Some (Waiting d us)" by blast
  then have c: "cur s = Some d" and rem: "remaining s = set us" by (simp_all add: cur_def remaining_def)
  show ?thesis
  proof (cases answer)
    case None
    let ?r = "query_failed d s"
    have "dl_sent ?r = dl_sent s" by (simp add: query_failed_def settle_deferred_def)
    then have "asked s ?r h = h" for h by (simp add: asked_def sent_now_def)
    moreover have "dl_ok ?r (unasked g)" unfolding query_failed_def by (rule dl_ok_settle [OF ok c]) simp
    ultimately show ?thesis using None q by (simp add: query_answered_def fails_def)
  next
    case (Some responses)
    have "dl_ok (continue_query env d us (merged_answers responses) s) (asked s (continue_query env d us (merged_answers responses) s) g)"
      by (rule dl_ok_continue [OF ok c]) (use dl_okD(2) [OF ok] rem in auto)
    then show ?thesis using Some q by (simp add: query_answered_def fails_def)
  qed
qed

lemma dl_ok_store_user:
  assumes ok: "dl_ok s g"
  shows "dl_ok (store_user env s) (asked s (store_user env s) (processed s g))"
proof (cases "\<exists>d us a u st. dl_query s = Some (Storing d us a u st)")
  case False
  then have "store_user env s = s" "processed s g = g"
    by (auto simp: store_user_def processed_def split: option.split query.split)
  then show ?thesis using ok by (simp add: asked_def sent_now_def)
next
  case True
  then obtain d us a u st where q: "dl_query s = Some (Storing d us a u st)" by blast
  define s1 where "s1 = (case st of None \<Rightarrow> s
    | Some devs \<Rightarrow> store_cross_signing env u (answered_cross_signing a u) (setRawStoredDevicesForUser u devs s))"
  have f: "dl_query s1 = dl_query s" "us_downloadInProgress s1 = us_downloadInProgress s" "us_queued s1 = us_queued s"
      "us_deferred s1 = us_deferred s" "dl_handlers s1 = dl_handlers s" "dl_inProgress s1 = dl_inProgress s" "dl_next s1 = dl_next s"
      "dl_status s1 = dl_status s" "dl_tasks s1 = dl_tasks s" "dl_sent s1 = dl_sent s"
    by (simp_all add: s1_def store_cross_signing_def setRawStoredDevicesForUser_def Let_def split: option.split prod.split sum.split)
  have r: "store_user env s = continue_query env d us a s1" using q by (simp add: store_user_def s1_def)
  have p: "processed s g v = (if v = u \<and> g v = Asked then Answered else g v)" for v using q by (simp add: processed_def)
  have c: "cur s1 = Some d" "remaining s1 = insert u (set us)" using q f by (simp_all add: cur_def remaining_def)
  have ok1: "dl_ok s1 g" by (rule dl_ok_same [OF ok]) (simp_all add: f)
  have ok2: "dl_ok s1 (processed s g)"
    by (rule dl_ok_mono [OF ok1]) (use dl_okD(2,3) [OF ok1] p in \<open>auto split: if_splits\<close>)
  have "dl_ok (continue_query env d us a s1) (asked s1 (continue_query env d us a s1) (processed s g))"
    by (rule dl_ok_continue [OF ok2 c(1)]) (use dl_okD(2) [OF ok1] c(2) p in \<open>auto split: if_splits\<close>)
  then show ?thesis unfolding r using asked_trans [OF f(10)] by metis
qed

lemma dl_ok_process: "dl_ok s g \<Longrightarrow> dl_ok (process_user env s) g"
proof (cases "\<exists>d u us a. dl_query s = Some (Processing d (u # us) a)")
  case True
  assume ok: "dl_ok s g"
  from True obtain d u us a where "dl_query s = Some (Processing d (u # us) a)" by blast
  then show ?thesis
    by (intro dl_ok_mono [OF ok])
      (use dl_okD(2,3) [OF ok] in \<open>auto simp: process_user_def cur_def remaining_def status_of_def\<close>)
next
  case False
  assume "dl_ok s g"
  then show ?thesis using False by (auto simp: process_user_def split: option.split query.split list.split)
qed

lemma dl_reach_ok: "dl_reach env s g f \<Longrightarrow> dl_ok s g"
proof (induction rule: dl_reach.induct)
  case (dl_loaded stored)
  have "status_of (dl_load stored) u \<noteq> DownloadInProgress" for u
  proof -
    have "dget (loaded_status d) u \<noteq> Some DownloadInProgress" for d by (induction d) (auto simp: loaded_status_def split: if_splits)
    then show ?thesis by (auto simp: status_of_def dl_load_def Let_def split: option.split)
  qed
  moreover have "cur (dl_load stored) = None" "dl_inProgress (dl_load stored) = []" "dl_handlers (dl_load stored) = []"
    "dl_tasks (dl_load stored) = []" "us_deferred (dl_load stored) = None" "us_queued (dl_load stored) = []"
    "\<not> us_downloadInProgress (dl_load stored)"
    by (simp_all add: dl_load_def Let_def cur_def)
  ultimately show ?case by (intro dl_okI) simp_all
next
  case (dl_start s g f u)
  show ?case
  proof (cases "status_of s u = NotTracked")
    case True
    then show ?thesis
      by (intro status_change [OF dl_start.IH, where st = "dset u PendingDownload (dl_status s)"])
        (auto simp: status_updated startTrackingDeviceList_def split: if_splits)
  next
    case False
    then show ?thesis using dl_start.IH by (simp add: startTrackingDeviceList_def)
  qed
next
  case (dl_stops s g f u)
  show ?case
  proof (cases "status_of s u = NotTracked")
    case True
    then show ?thesis using dl_stops.IH by (simp add: stopTrackingDeviceList_def)
  next
    case False
    then show ?thesis
      by (intro status_change [OF dl_stops.IH, where st = "dset u NotTracked (dl_status s)"])
        (auto simp: status_updated stopTrackingDeviceList_def split: if_splits)
  qed
next
  case (dl_stop_all s g f)
  have n: "dget (map (\<lambda>(u, t). (u, NotTracked)) d) v \<in> {None, Some NotTracked}" for d :: "(string, tracking) dict" and v
    by (induction d) auto
  have "status_of (stopTrackingAllDeviceLists s) v = NotTracked" for v
    using n [of "dl_status s" v] by (auto simp: status_of_def stopTrackingAllDeviceLists_def)
  then show ?case
    by (intro status_change [OF dl_stop_all.IH, where st = "map (\<lambda>(u, t). (u, NotTracked)) (dl_status s)"])
      (auto simp: stopTrackingAllDeviceLists_def)
next
  case (dl_invalidate s g f u)
  show ?case
  proof (cases "status_of s u = NotTracked")
    case True
    then have e: "invalidateUserDeviceList u s = s" by (simp add: invalidateUserDeviceList_def)
    show ?thesis unfolding e
      by (rule dl_ok_mono [OF dl_invalidate.IH])
        (use True dl_okD(2,3) [OF dl_invalidate.IH] in \<open>auto split: if_splits\<close>)
  next
    case False
    then show ?thesis
      by (intro status_change [OF dl_invalidate.IH, where st = "dset u PendingDownload (dl_status s)"])
        (auto simp: status_updated invalidateUserDeviceList_def split: if_splits)
  qed
next
  case (dl_refresh s g f now)
  note ok = dl_ok_save [OF dl_refresh.IH, of now 500]
  have "asked s x g = asked (saveIfDirty now 500 s) x g" for x by (rule asked_trans) simp
  then show ?case using dl_ok_download [OF ok] by (simp add: refreshOutdatedDeviceLists_def Let_def)
next
  case (dl_download s g f users force)
  then show ?case using dl_ok_download [OF dl_download.IH] by (simp add: downloadKeys_def Let_def split_beta)
next
  case (dl_timer s g f)
  show ?case by (rule dl_ok_same [OF dl_timer.IH]) (simp_all add: save_timer_fires_def split: option.split)
next
  case (dl_stopped s g f)
  show ?case by (rule dl_ok_same [OF dl_stopped.IH]) (simp_all add: dl_stop_def)
next
  case (dl_token s g f t)
  show ?case by (rule dl_ok_same [OF dl_token.IH]) (simp_all add: setSyncToken_def)
next
  case (dl_devices_stored s g f u devs)
  show ?case
    by (rule dl_ok_same [OF dl_devices_stored.IH]) (simp_all add: storeDevicesForUser_def setRawStoredDevicesForUser_def Let_def)
next
  case (dl_keys_stored s g f u x)
  show ?case by (rule dl_ok_same [OF dl_keys_stored.IH]) (simp_all add: storeCrossSigningForUser_def)
qed (rule dl_ok_answered dl_ok_process dl_ok_store_user dl_ok_task dl_ok_save; assumption)+

text \<open>Unless a query has failed, users are queued only while a query is under way.\<close>

lemma queue_download:
  "(us_deferred s \<noteq> None \<longrightarrow> us_downloadInProgress s) \<Longrightarrow>
   us_deferred (snd (doKeyDownload env users s)) \<noteq> None \<longrightarrow> us_downloadInProgress (snd (doKeyDownload env users s))"
  by (auto simp: doKeyDownload_def updateDevicesForUsers_def doQueuedQueries_def Let_def split_beta split: option.splits)

lemma queue_continue:
  "(us_deferred s \<noteq> None \<longrightarrow> us_downloadInProgress s) \<Longrightarrow>
   us_deferred (continue_query env d users a s) \<noteq> None \<longrightarrow> us_downloadInProgress (continue_query env d users a s)"
  by (auto simp: continue_query_def query_completed_def settle_deferred_def doQueuedQueries_def Let_def split: option.splits)

lemma queue_task:
  "us_deferred (run_dl now ok t s) = us_deferred s \<and> us_downloadInProgress (run_dl now ok t s) = us_downloadInProgress s"
  by (cases t) (simp_all add: finished_download_def write_done_def Let_def finish_kept)

lemma stored_user_fields:
  "us_deferred (store_cross_signing env u r (setRawStoredDevicesForUser u devs s)) = us_deferred s"
  "us_downloadInProgress (store_cross_signing env u r (setRawStoredDevicesForUser u devs s)) = us_downloadInProgress s"
  by (simp_all add: store_cross_signing_def setRawStoredDevicesForUser_def Let_def split: option.split prod.split sum.split)

lemma dl_reach_queue: "dl_reach env s g f \<Longrightarrow> \<not> f \<Longrightarrow> us_deferred s \<noteq> None \<longrightarrow> us_downloadInProgress s"
proof (induction rule: dl_reach.induct)
  case (dl_refresh s g f now)
  show ?case unfolding refreshOutdatedDeviceLists_def Let_def by (rule queue_download) (use dl_refresh in simp)
next
  case (dl_download s g f users force)
  then show ?case using queue_download by (simp add: downloadKeys_def Let_def split_beta)
next
  case (dl_answered s g f answer)
  then have k: "us_deferred s \<noteq> None \<longrightarrow> us_downloadInProgress s" by simp
  have "query_answered env answer s = s \<or> (\<exists>d us rs. query_answered env answer s = continue_query env d us (merged_answers rs) s)"
    using dl_answered.prems by (auto simp: query_answered_def fails_def split: option.split query.split)
  then show ?case using k queue_continue [OF k] by metis
next
  case (dl_process s g f)
  then show ?case by (simp add: process_user_def split: option.split query.split list.split)
next
  case (dl_store_user s g f)
  then have k: "us_deferred s \<noteq> None \<longrightarrow> us_downloadInProgress s" by simp
  have "store_user env s = s \<or> (\<exists>d us a s1. store_user env s = continue_query env d us a s1 \<and>
      us_deferred s1 = us_deferred s \<and> us_downloadInProgress s1 = us_downloadInProgress s)"
  proof (cases "\<exists>d us a u st. dl_query s = Some (Storing d us a u st)")
    case True
    then obtain d us a u st where q: "dl_query s = Some (Storing d us a u st)" by blast
    let ?s1 = "case st of None \<Rightarrow> s
      | Some devs \<Rightarrow> store_cross_signing env u (answered_cross_signing a u) (setRawStoredDevicesForUser u devs s)"
    have "store_user env s = continue_query env d us a ?s1" using q by (simp add: store_user_def)
    moreover have "us_deferred ?s1 = us_deferred s \<and> us_downloadInProgress ?s1 = us_downloadInProgress s"
      by (simp add: stored_user_fields split: option.split)
    ultimately show ?thesis by blast
  qed (auto simp: store_user_def split: option.split query.split)
  then show ?case using k queue_continue by metis
next
  case (dl_task s g f n now ok)
  then show ?case by (simp add: queue_task)
qed (simp_all add: dl_load_def startTrackingDeviceList_def stopTrackingDeviceList_def stopTrackingAllDeviceLists_def
    invalidateUserDeviceList_def save_timer_fires_def dl_stop_def setSyncToken_def storeDevicesForUser_def
    setRawStoredDevicesForUser_def storeCrossSigningForUser_def Let_def split: option.split)

section \<open>What a response may change\<close>

text \<open>Every device of the store under construction is an old one with its identity, or a new one that has signed itself.\<close>

definition device_from :: "'s signer \<Rightarrow> string \<Rightarrow> (string, device_info) dict \<Rightarrow> (string \<times> json) set \<Rightarrow> string \<Rightarrow> device_info \<Rightarrow> bool" where
  "device_from c userId old res d dev \<longleftrightarrow>
     dv_deviceId dev = d \<and>
     (case dget old d of
        Some dev0 \<Rightarrow> getFingerprint dev = getFingerprint dev0 \<and> dv_verified dev = dv_verified dev0 \<and> dv_known dev = dv_known dev0
      | None \<Rightarrow> dv_verified dev = Unverified \<and> \<not> dv_known dev \<and>
          (\<exists>r. (d, r) \<in> res \<and> jget r ''user_id'' = JStr userId \<and> jget r ''device_id'' = JStr d \<and>
             truthy (getFingerprint dev) \<and> verifySignature c r userId d (getFingerprint dev)))"

lemma storeDeviceKeys_from:
  assumes "\<forall>d dev. dget store d = Some dev \<longrightarrow> device_from c userId old res d dev"
    and "\<forall>d. dget old d \<noteq> None \<longrightarrow> d \<notin> fst ` res \<or> dget store d \<noteq> None"
    and "(deviceId, r) \<in> res" "jget r ''user_id'' = JStr userId" "jget r ''device_id'' = JStr deviceId"
    and "dget (storeDeviceKeys c r userId deviceId store) d = Some dev"
  shows "device_from c userId old res d dev"
proof (cases "dget (storeDeviceKeys c r userId deviceId store) d = dget store d")
  case True
  then show ?thesis using assms(1,6) by simp
next
  case False
  let ?key = "jget (jget r ''keys'') (''ed25519:'' @ deviceId)"
  let ?upd = "\<lambda>x. x\<lparr>dv_keys := jget r ''keys'', dv_algorithms := js_or (jget r ''algorithms'') (JArr []),
      dv_unsigned := js_or (jget r ''unsigned'') empty_obj, dv_signatures := js_or (jget r ''signatures'') empty_obj\<rparr>"
  from False assms(6) have d: "d = deviceId" and k: "truthy ?key" "verifySignature c r userId deviceId ?key"
    and dev: "\<exists>x. dev = ?upd x \<and> (case dget store deviceId of Some y \<Rightarrow> x = y \<and> getFingerprint y = ?key | None \<Rightarrow> x = new_device deviceId)"
    by (auto simp: storeDeviceKeys_def Let_def dict_simps split: if_splits option.splits)
  then obtain x where x: "dev = ?upd x"
    "case dget store deviceId of Some y \<Rightarrow> x = y \<and> getFingerprint y = ?key | None \<Rightarrow> x = new_device deviceId" by blast
  show ?thesis
  proof (cases "dget store deviceId")
    case None
    then have "dget old deviceId = None" using assms(2,3) by force
    moreover have "dev = ?upd (new_device deviceId)" using x None by simp
    ultimately show ?thesis using d k assms(3-5)
      by (auto simp: device_from_def getFingerprint_def new_device_def)
  next
    case (Some y)
    then have y: "x = y" "getFingerprint y = ?key" "device_from c userId old res deviceId y" using x assms(1) by auto
    then have "getFingerprint dev = getFingerprint y" by (simp add: x(1) getFingerprint_def device_from_def)
    then show ?thesis using y d unfolding x(1) by (simp add: device_from_def split: option.splits)
  qed
qed

lemma storeDeviceKeys_keeps: "dget store d \<noteq> None \<Longrightarrow> dget (storeDeviceKeys c r userId e store) d \<noteq> None"
  by (auto simp: storeDeviceKeys_def Let_def dict_simps split: option.split)

lemma store_each_from:
  assumes "store_each c userId rs store = Some store'"
    and "\<forall>d dev. dget store d = Some dev \<longrightarrow> device_from c userId old res d dev"
    and "\<forall>d. dget old d \<noteq> None \<longrightarrow> d \<notin> fst ` res \<or> dget store d \<noteq> None" and "set rs \<subseteq> res"
    and "dget store' d = Some dev"
  shows "device_from c userId old res d dev"
  using assms
proof (induction rs arbitrary: store)
  case (Cons x rs)
  obtain e r where x: "x = (e, r)" by fastforce
  show ?case
  proof (cases "jget r ''user_id'' = JStr userId \<and> jget r ''device_id'' = JStr e")
    case False
    then show ?thesis using Cons by (auto simp: x split: if_splits)
  next
    case True
    have "(e, r) \<in> res" using Cons.prems(4) by (simp add: x)
    have "store_each c userId rs (storeDeviceKeys c r userId e store) = Some store'"
      using Cons.prems(1) True by (simp add: x split: if_splits)
    then show ?thesis
      by (rule Cons.IH)
        (use Cons.prems True storeDeviceKeys_from [OF Cons.prems(2,3) \<open>(e, r) \<in> res\<close>] storeDeviceKeys_keeps in \<open>blast | auto\<close>)+
  qed
qed simp

section \<open>The properties\<close>


text \<open>
  C22. A device list is up to date only if it is: in every reachable state, a user whose list is marked as up to date has had a query sent
  after the last announced change of their devices (or the start of tracking), and its answer has been processed, however invalidations,
  queued downloads, failures and completions interleave.
\<close>

theorem up_to_date_is_fresh:
  assumes "dl_reach env s g f" and "status_of s u = UpToDate"
  shows "g u = Answered"
  using dl_okD(3) [OF dl_reach_ok [OF assms(1)] assms(2)] .

text \<open>
  C23. Downloads come to rest: unless a query has failed, when no query is under way and no task is left, no user is waiting for a
  download and none is queued, so that everybody who is tracked is up to date or due for the next refresh.
\<close>

theorem downloads_come_to_rest:
  assumes "dl_reach env s g False" and "dl_query s = None" and "dl_tasks s = []"
  shows "us_queued s = [] \<and> dget (dl_inProgress s) u = None \<and> status_of s u \<noteq> DownloadInProgress"
proof -
  note D = dl_okD [OF dl_reach_ok [OF assms(1)]]
  have c: "cur s = None" using assms(2) by (simp add: cur_def)
  then have n: "us_deferred s = None" using D(1) dl_reach_queue [OF assms(1)] by auto
  have "dget (dl_inProgress s) u = None"
  proof (rule ccontr)
    assume "dget (dl_inProgress s) u \<noteq> None"
    then obtain p where "dget (dl_inProgress s) u = Some p" by auto
    from D(4) [OF this] show False using c n assms(3) by (simp add: located_def)
  qed
  then show ?thesis using D(5) [of u] D(15) [OF n] by auto
qed

section \<open>Concrete downloads\<close>

definition sample_env :: "string dl_env" where
  "sample_env = \<lparr>ev_signer = sample_signer, ev_userId = ''@a'', ev_deviceId = ''A'', ev_chunkSize = 250\<rparr>"

definition sample_refresh :: device_list where
  "sample_refresh = refreshOutdatedDeviceLists sample_env 0 (startTrackingDeviceList ''@b'' (dl_load None))"

definition sample_answered :: device_list where
  "sample_answered = store_user sample_env (process_user sample_env (query_answered sample_env (Some [empty_obj]) sample_refresh))"

text \<open>The first task is run.\<close>

definition run_first :: "int \<Rightarrow> device_list \<Rightarrow> device_list" where
  "run_first now s = run_dl now True (dl_tasks s ! 0) (s\<lparr>dl_tasks := take 0 (dl_tasks s) @ drop (Suc 0) (dl_tasks s)\<rparr>)"

lemma run_first_reach: "dl_reach env s g f \<Longrightarrow> dl_tasks s \<noteq> [] \<Longrightarrow> dl_reach env (run_first now s) g f"
  unfolding run_first_def by (rule dl_task) simp_all

lemma sample_refresh_reach: "\<exists>g. dl_reach sample_env sample_refresh g False"
  unfolding sample_refresh_def using dl_refresh [OF dl_start [OF dl_loaded]] by blast

lemma sample_answered_reach: "\<exists>g. dl_reach sample_env sample_answered g False"
proof -
  obtain g where g: "dl_reach sample_env sample_refresh g False" using sample_refresh_reach by blast
  have "\<not> fails (Some [empty_obj]) sample_refresh" by (simp add: fails_def)
  then show ?thesis unfolding sample_answered_def
    using dl_store_user [OF dl_process [OF dl_answered [OF g, of "Some [empty_obj]"]]] by auto
qed

theorem up_to_date_is_fresh_witness:
  "\<exists>g. dl_reach sample_env (run_first 0 sample_answered) g False \<and> g ''@b'' = Answered"
proof -
  have t: "dl_tasks sample_answered \<noteq> []" "status_of (run_first 0 sample_answered) ''@b'' = UpToDate" by code_simp+
  obtain g where "dl_reach sample_env sample_answered g False" using sample_answered_reach by blast
  from run_first_reach [OF this t(1)] show ?thesis using up_to_date_is_fresh [OF _ t(2)] by blast
qed

theorem downloads_come_to_rest_witness:
  "us_queued (run_first 0 sample_answered) = [] \<and> dget (dl_inProgress (run_first 0 sample_answered)) ''@b'' = None"
proof -
  have t: "dl_tasks sample_answered \<noteq> []" "dl_query (run_first 0 sample_answered) = None" "dl_tasks (run_first 0 sample_answered) = []"
    by code_simp+
  obtain g where "dl_reach sample_env sample_answered g False" using sample_answered_reach by blast
  from downloads_come_to_rest [OF run_first_reach [OF this t(1)] t(2,3)] show ?thesis by blast
qed

text \<open>The device of Bob, as the server has it.\<close>

definition sample_response :: json where
  "sample_response =
     JObj [(''D'', pkSign sample_signer
       (JObj [(''user_id'', JStr ''@b''), (''device_id'', JStr ''D''), (''keys'', JObj [(''ed25519:D'', JStr ''F'')])])
       (PkSigning ''F'') ''@b'' (JStr ''D''))]"


section \<open>Divergences\<close>

text \<open>
  A query that fails does not start the next one: the users that were queued meanwhile wait for a download that nobody starts (until some
  other download is requested), and \<open>downloadKeys\<close> for them awaits the promise that does not settle.
\<close>

definition sample_stuck :: device_list where
  "sample_stuck =
     run_first 0 (query_answered sample_env None
       (refreshOutdatedDeviceLists sample_env 0 (startTrackingDeviceList ''@c'' sample_refresh)))"

lemma failure_strands_queue:
  "dl_query sample_stuck = None \<and> dl_tasks sample_stuck = [] \<and> us_queued sample_stuck = [''@c''] \<and>
   status_of sample_stuck ''@c'' = DownloadInProgress \<and>
   downloadKeys sample_env [''@c''] True sample_stuck = ([the (dget (dl_inProgress sample_stuck) ''@c'')], sample_stuck)"
proof -
  have f: "dl_query sample_stuck = None" "dl_tasks sample_stuck = []" "us_queued sample_stuck = [''@c'']"
    "status_of sample_stuck ''@c'' = DownloadInProgress" "dget (dl_inProgress sample_stuck) ''@c'' \<noteq> None" by code_simp+
  then show ?thesis by (auto simp: downloadKeys_def doKeyDownload_def)
qed

text \<open>A change made while a save is being written is marked as saved when the write completes.\<close>

lemma change_during_write_not_saved:
  "let s = run_first 0 (invalidateUserDeviceList ''@c'' (save_timer_fires (saveIfDirty 0 0 (startTrackingDeviceList ''@b'' (dl_load
       (Some \<lparr>sn_devices = [], sn_crossSigning = [], sn_status = [(''@c'', UpToDate)], sn_syncToken = None\<rparr>))))))
   in \<not> dl_dirty s \<and> status_of s ''@c'' = PendingDownload \<and>
      map_option (\<lambda>sn. dget (sn_status sn) ''@c'') (dl_store s) = Some (Some UpToDate)"
  by code_simp

text \<open>A device that is verified while the response for its user is being processed is unverified again afterwards.\<close>

definition sample_idevice :: "device_verification \<Rightarrow> idevice" where
  "sample_idevice v =
     \<lparr>id_algorithms = JArr [], id_keys = JObj [(''ed25519:D'', JStr ''F'')], id_verified = v, id_known = False,
      id_unsigned = empty_obj, id_signatures = empty_obj\<rparr>"

lemma verification_lost:
  "let s = process_user sample_env (query_answered sample_env (Some [JObj [(''device_keys'', JObj [(''@b'', sample_response)])]])
             (storeDevicesForUser ''@b'' [(''D'', sample_idevice Unverified)] sample_refresh));
       s1 = store_user sample_env (storeDevicesForUser ''@b'' [(''D'', sample_idevice Verified)] s)
   in map_option isVerifiedDevice (getStoredDevice ''@b'' ''D'' s1) = Some False"
  by code_simp

end
