(* ===== verification/Spec2Isabelle.thy ===== *)
theory Spec2Isabelle
  imports Json StringBase Decryption FilterDef TimelineWindow Scheduler SyncAccumulator Receipts PendingEvents PushRules KeyRequests RoomInfo VerificationRequest Sas RealtimeCallbacks Relations DeviceList
begin

text \<open>
  A verification library of the TypeScript SDK for the SendingNetwork protocol (a fork of matrix-js-sdk). The paths below are
  relative to \<^verbatim>\<open>src/src/\<close> of the repository.

  \<^bold>\<open>The program.\<close> A client syncs with a server: \<^verbatim>\<open>sync-accumulator.ts\<close> folds the responses of the sync endpoint
  into one that could have been the first. Events (\<^verbatim>\<open>models/event.ts\<close>) of a room go into timelines
  (\<^verbatim>\<open>models/event-timeline.ts\<close>) which the sets (\<^verbatim>\<open>models/event-timeline-set.ts\<close>) link to chains and
  \<^verbatim>\<open>timeline-window.ts\<close> pages through; each timeline keeps the state of the room before and after it
  (\<^verbatim>\<open>models/room-state.ts\<close>, \<^verbatim>\<open>models/room-member.ts\<close>). The room (\<^verbatim>\<open>models/room.ts\<close>) holds the sets, the events
  that are being sent (local echoes), read receipts and what follows from the state, such as its name. Sending goes through the
  queues of \<^verbatim>\<open>scheduler.ts\<close>; incoming events are decrypted (\<^verbatim>\<open>models/event.ts\<close>), missing keys are asked for
  (\<^verbatim>\<open>crypto/OutgoingRoomKeyRequestManager.ts\<close>) and push rules (\<^verbatim>\<open>pushprocessor.ts\<close>) decide whether to notify. Users
  verify each other's keys (\<^verbatim>\<open>crypto/verification\<close>).

  \<^bold>\<open>The theories\<close>, in the order of their imports:
  \<^item> \<^verbatim>\<open>Prelude\<close>, \<^verbatim>\<open>Dict2\<close>: insertion-ordered dictionaries (the objects and \<open>Map\<close>s of the code), one and two
    levels deep, with the locale \<open>dictionary\<close> of their laws, interpreted on them.
  \<^item> \<^verbatim>\<open>Json\<close> (\<^verbatim>\<open>utils.ts\<close>): the values of the language, property access, truthiness; key checks, copy, comparison and
    extension of objects. \<^verbatim>\<open>StringBase\<close>: strings as numbers in a base, their successor and average.
  \<^item> \<^verbatim>\<open>Event\<close>: the record \<open>mx_event\<close> has the fields of the class, one definition per getter and mutator; redaction, echoes,
    replacement. \<^verbatim>\<open>Decryption\<close>: the loop of \<open>attemptDecryption\<close> as a machine with the crypto module as environment.
  \<^item> \<^verbatim>\<open>FilterDef\<close> (\<^verbatim>\<open>filter.ts\<close>, \<^verbatim>\<open>filter-component.ts\<close>): filters over their JSON definitions.
  \<^item> \<^verbatim>\<open>RoomMember\<close>, \<^verbatim>\<open>RoomState\<close>: members and the state of a room, with the caches (display names, joined count,
    sentinels, third party tokens), out-of-band members and permissions; every operation of the class.
  \<^item> \<^verbatim>\<open>Timeline\<close>, \<^verbatim>\<open>TimelineSet\<close>, \<^verbatim>\<open>TimelineWindow\<close>: timelines live in a store and refer to each other by
    number; the set keeps the store and the index from event ids; windows page over it.
  \<^item> \<^verbatim>\<open>Scheduler\<close>: the queues with their entries in a store; microtasks, calls under way and timers are a list of tasks.
  \<^item> \<^verbatim>\<open>SyncAccumulator\<close>: responses, the accumulated rooms, rendering them back.
  \<^item> \<^verbatim>\<open>Receipts\<close>, \<^verbatim>\<open>PendingEvents\<close>, \<^verbatim>\<open>RoomInfo\<close>: three parts of \<^verbatim>\<open>models/room.ts\<close>.
  \<^item> \<^verbatim>\<open>Globs\<close>, \<^verbatim>\<open>PushRules\<close>: globs compiled to regular expressions and their meaning; the matching of rules.
  \<^item> \<^verbatim>\<open>KeyRequests\<close>: the request manager over the memory store (\<^verbatim>\<open>crypto/store/memory-crypto-store.ts\<close>).
  \<^item> \<^verbatim>\<open>Channels\<close>, \<^verbatim>\<open>VerificationRequest\<close>, \<^verbatim>\<open>Sas\<close>: messages and channels of a verification; the state of a
    request, its verifier and its channel in one record; the exchange of short authentication strings.
  \<^item> \<^verbatim>\<open>RealtimeCallbacks\<close>: timers that survive a suspended system; callbacks are programs over the module itself.
  \<^item> \<^verbatim>\<open>Relations\<close> (\<^verbatim>\<open>models/relations.ts\<close>): reactions and edits of an event; the events are in a heap.
  \<^item> \<^verbatim>\<open>Signing\<close> (\<^verbatim>\<open>crypto/olmlib.ts\<close>, \<^verbatim>\<open>crypto/deviceinfo.ts\<close>), \<^verbatim>\<open>CrossSigning\<close>, \<^verbatim>\<open>DeviceList\<close>: signed
    objects and devices; the keys of a user and the trust they give; which device lists are tracked, downloaded and up to date.

  \<^bold>\<open>Conventions.\<close> A JavaScript value is a \<open>json\<close>; a value of another than the declared type reads as absent, an undefined id is
  \<open>None\<close>. Numbers are rationals (finite doubles), strings are lists of code units below 256. \<open>Date.now\<close>, random ids and the
  collator are arguments, as is the package \<open>unhomoglyph\<close>. What an emitter emits and what is sent or logged is appended to a list of
  the state. Objects that are shared and mutated are in a store (timelines, scheduler entries, key requests, pending events) or carry
  an identity (\<open>ev_ref\<close>); elsewhere events are values. A \<open>throw\<close> is an \<open>Inl\<close>, a \<open>None\<close> or a flag beside the state; an \<open>await\<close>
  ends a step and what follows it is a task that the environment runs in any order.

  \<^bold>\<open>What the lemmas show.\<close> Per component: well-formedness invariants over every reachable state (the event index, neighbour
  links, member levels, display names, receipts and their cache, pending events and what is persisted, key requests, the phase of a
  verification), the freshness of device lists, the chain of signatures behind a trusted device, the convergence of edits and
  annotations, timers that run once they are due; what operations compute on every branch, round trips (accumulated rooms, redactions, encryption, number strings),
  equivalence with reference definitions (rule matching without caches, globs with their meaning), refinement of a queue specification
  and progress of the scheduler, bounds, and termination of the loops. Lemmas of sections on divergences exhibit concrete inputs on which the code
  does not do what it means to.

  \<^bold>\<open>Bounds and fuel.\<close> Walks along timelines take fuel and answer that they diverge when it runs out; more than the number of timelines
  plus one is enough on a chain, and a circular chain is shown to diverge for every fuel. The scheduler empties its queues in \<open>15 n + 1\<close>
  turns for \<open>n\<close> events, the loop of key requests in \<open>4 n + 2\<close> turns.

  \<^bold>\<open>Not modelled.\<close> Properties inherited from \<open>Object.prototype\<close> (except where a finding needs them) and the order of integer-like keys;
  the freezing of events; logging. Network and browser interfaces (\<^verbatim>\<open>http-api.js\<close>, \<^verbatim>\<open>client.ts\<close>, \<^verbatim>\<open>webrtc\<close>,
  IndexedDB and local storage) and what only calls the olm library (\<^verbatim>\<open>crypto/OlmDevice.ts\<close>, \<^verbatim>\<open>crypto/algorithms\<close>) are
  environments here. The bundled \<^verbatim>\<open>examples/web\<close> is build output.
\<close>

end
